(* ===== verification/Digitiz_Prelude.thy ===== *)
theory Digitiz_Prelude
  imports Main "HOL-Library.Word"
begin

text \<open>
  Shared vocabulary of the development: the fixed-width integer types of the C++ sources as
  words, the integer helpers of the C++ standard library the sources use (\<open>std::clamp\<close>,
  truncating division, conversion to \<open>int32_t\<close>), bytes and characters, and the generic
  facts on lists and words that the component theories rely on.

  Conventions. \<open>std::uintN_t\<close> is \<open>N word\<close>. \<open>std::int32_t\<close> inside a message is the
  32-bit pattern, read through \<open>sint\<close>; local \<open>int\<close> arithmetic of the C++ code is
  mathematical \<open>int\<close> (signed overflow has no meaning in C++), with explicit range lemmas
  where the ranges matter. \<open>float\<close> on the wire is its 32-bit pattern, so that
  \<open>std::bit_cast\<close> is the identity. \<open>std::byte\<close> is a word of 8 bits and
  \<open>std::string\<close> is \<open>string\<close>, one \<open>char\<close> per byte.
\<close>

unbundle bit_operations_syntax

type_synonym u8 = "8 word"
type_synonym u16 = "16 word"
type_synonym u32 = "32 word"
type_synonym u64 = "64 word"
type_synonym i32 = "32 word"
type_synonym f32 = "32 word"
type_synonym bytes = "u8 list"

named_theorems io_intros "composition rules of the wire reader and writer judgements"

section \<open>Definitions\<close>

subsection \<open>Integer helpers of the C++ standard library\<close>

text \<open>\<open>std::clamp(v, lo, hi)\<close>, in the order the standard compares.\<close>

definition clamp :: "'a::linorder \<Rightarrow> 'a \<Rightarrow> 'a \<Rightarrow> 'a" where
  "clamp v lo hi = (if v < lo then lo else if hi < v then hi else v)"

text \<open>Integer division and remainder of C++ truncate towards zero.\<close>

definition cdiv :: "int \<Rightarrow> int \<Rightarrow> int" where
  "cdiv a b = sgn a * sgn b * (\<bar>a\<bar> div \<bar>b\<bar>)"

definition cmod :: "int \<Rightarrow> int \<Rightarrow> int" where
  "cmod a b = a - b * cdiv a b"

text \<open>\<open>static_cast<std::int32_t>\<close> of a wider integer: reduction modulo \<open>2 ^ 32\<close>.\<close>

definition to_i32 :: "int \<Rightarrow> int" where
  "to_i32 v = sint (word_of_int v :: i32)"

definition is_i32 :: "int \<Rightarrow> bool" where
  "is_i32 v \<longleftrightarrow> - (2 ^ 31) \<le> v \<and> v < 2 ^ 31"

subsection \<open>Bytes and characters\<close>

definition byte_of_char :: "char \<Rightarrow> u8" where
  "byte_of_char c = of_char c"

definition char_of_byte :: "u8 \<Rightarrow> char" where
  "char_of_byte b = char_of (unat b)"

abbreviation bytes_of_string :: "string \<Rightarrow> bytes" where
  "bytes_of_string s \<equiv> map byte_of_char s"

abbreviation string_of_bytes :: "bytes \<Rightarrow> string" where
  "string_of_bytes bs \<equiv> map char_of_byte bs"

section \<open>Lemmas\<close>

subsection \<open>Clamping and division\<close>

lemma clamp_le [simp]: "lo \<le> hi \<Longrightarrow> clamp v lo hi \<le> hi"
  by (auto simp: clamp_def)

lemma clamp_ge [simp]: "lo \<le> hi \<Longrightarrow> lo \<le> clamp v lo hi"
  by (auto simp: clamp_def)

lemma clamp_id [simp]: "lo \<le> v \<Longrightarrow> v \<le> hi \<Longrightarrow> clamp v lo hi = v"
  by (auto simp: clamp_def)

lemma clamp_max_min: "lo \<le> hi \<Longrightarrow> clamp v lo hi = max lo (min v hi)"
  by (auto simp: clamp_def max_def min_def)

lemma cdiv_nonneg [simp]: "0 \<le> a \<Longrightarrow> 0 \<le> b \<Longrightarrow> cdiv a b = a div b"
  by (auto simp: cdiv_def sgn_if)

lemma cmod_nonneg [simp]: "0 \<le> a \<Longrightarrow> 0 \<le> b \<Longrightarrow> cmod a b = a mod b"
  by (simp add: cmod_def minus_mult_div_eq_mod)

lemma div_times_le: "0 < t \<Longrightarrow> x div t * t \<le> x" for x t :: int
  by (simp flip: minus_mod_eq_div_mult)

lemma less_div_times: "0 < t \<Longrightarrow> x < (x div t + 1) * t" for x t :: int
  using pos_mod_bound [of t x] div_mult_mod_eq [of x t] unfolding distrib_right by linarith

lemma le_zdiv_iff: "0 < t \<Longrightarrow> c \<le> x div t \<longleftrightarrow> c * t \<le> x" for x t :: int
proof
  assume t: "0 < t"
  { assume "c \<le> x div t"
    then have "c * t \<le> x div t * t" using t by (intro mult_right_mono) auto
    then show "c * t \<le> x" using div_times_le [OF t, of x] by linarith }
  assume "c * t \<le> x"
  then have "c * t div t \<le> x div t" using t by (intro zdiv_mono1)
  then show "c \<le> x div t" using t by simp
qed

lemma zdiv_less_iff: "0 < t \<Longrightarrow> x div t < c \<longleftrightarrow> x < c * t" for x t :: int
  using le_zdiv_iff [of t c x] by (simp add: not_le [symmetric])

lemma zdiv_le_iff: "0 < t \<Longrightarrow> x div t \<le> c \<longleftrightarrow> x < (c + 1) * t" for x t :: int
  using zdiv_less_iff [of t x "c + 1"] by auto

lemma to_i32_id [simp]: "is_i32 v \<Longrightarrow> to_i32 v = v"
  by (simp add: to_i32_def is_i32_def sint_sbintrunc' signed_take_bit_int_eq_self)

lemma is_i32_to_i32 [simp]: "is_i32 (to_i32 v)"
  unfolding to_i32_def is_i32_def
  using sint_greater_eq [of "word_of_int v :: i32"] sint_less [of "word_of_int v :: i32"] by simp

lemma is_i32_sint [simp]: "is_i32 (sint (w :: i32))"
  using sint_greater_eq [of w] sint_less [of w] by (simp add: is_i32_def)

lemma to_i32_sint [simp]: "to_i32 (sint (w :: i32)) = sint w"
  by simp

lemma word_of_int_sint_i32 [simp]: "word_of_int (sint (w :: i32)) = w"
  by simp

subsection \<open>Bytes and characters\<close>

lemma char_of_byte_of_char [simp]: "char_of_byte (byte_of_char c) = c"
proof -
  have "unat (of_char c :: u8) = of_char c"
  proof -
    have "(of_char c :: u8) = word_of_nat (of_char c)"
      by (metis of_nat_of_char)
    moreover have "(of_char c :: nat) < 2 ^ 8"
      by (cases c) (simp add: of_char_def horner_sum_simps split: bool.split)
    ultimately show ?thesis by (simp add: unat_of_nat take_bit_nat_eq_self)
  qed
  then show ?thesis by (simp add: char_of_byte_def byte_of_char_def)
qed

lemma byte_of_char_of_byte [simp]: "byte_of_char (char_of_byte b) = b"
proof -
  have "(of_char (char_of (unat b)) :: u8) = word_of_nat (of_char (char_of (unat b)))"
    by (metis of_nat_of_char)
  also have "\<dots> = word_of_nat (unat b mod 256)" by simp
  also have "unat b mod 256 = unat b" using unsigned_less [of b, where 'a = nat] by simp
  finally show ?thesis by (simp add: byte_of_char_def char_of_byte_def)
qed

lemma string_bytes_roundtrip [simp]: "string_of_bytes (bytes_of_string s) = s"
  by (simp add: comp_def)

lemma bytes_string_roundtrip [simp]: "bytes_of_string (string_of_bytes bs) = bs"
  by (simp add: comp_def)

lemma byte_of_char_eq_iff [simp]: "byte_of_char c = byte_of_char d \<longleftrightarrow> c = d"
  by (metis char_of_byte_of_char)

subsection \<open>Lists\<close>

lemma drop_eq_ConsD: "drop n xs = y # ys \<Longrightarrow> n < length xs \<and> xs ! n = y \<and> drop (Suc n) xs = ys"
  by (metis Cons_nth_drop_Suc drop_all linorder_not_le list.distinct(1) list.inject)

lemma sum_list_ge_elem: "x \<in> set xs \<Longrightarrow> f x \<le> sum_list (map f xs)" for f :: "'a \<Rightarrow> nat"
  by (rule member_le_sum_list) auto

lemma takeWhile_replicate_append:
  "\<forall>x\<in>set xs. x \<noteq> a \<Longrightarrow> takeWhile (\<lambda>x. x \<noteq> a) (xs @ replicate n a) = xs"
  by (induction xs) (simp, cases n, simp_all)

end
