(* ===== verification/Wire.thy ===== *)
theory Wire
  imports Digitiz_Prelude "HOL-Library.State_Monad"
begin

text \<open>
  The wire primitives of \<open>common/include/digitiz/proto/wire.hpp\<close>: the message type numbers,
  the \<open>Writer\<close> that appends little-endian fields to a byte vector, the \<open>Reader\<close> that
  latches a failure flag, and the \<open>MessageBuilder\<close> that patches the payload length into an
  8-byte header. Both classes thread one object through many calls, so they are computations
  of the state monad: the writer over the byte vector, the reader over its three fields.

  Three judgements carry every codec proof of the development. \<open>writes m bs\<close> says that
  \<open>m\<close> appends exactly \<open>bs\<close>; \<open>reads m bs v\<close> says that \<open>m\<close> started in front of
  \<open>bs\<close> returns \<open>v\<close> and stops behind it; \<open>consumes m n\<close> says that \<open>m\<close> stays ok
  exactly when \<open>n\<close> bytes are left. Their composition rules are collected in
  \<open>io_intros\<close>.
\<close>

section \<open>Definitions\<close>

subsection \<open>Constants and message types\<close>

definition kMagic :: u16 where "kMagic = 0x4944"
definition kMagicByte0 :: u8 where "kMagicByte0 = 0x44"
definition kMagicByte1 :: u8 where "kMagicByte1 = 0x49"
definition kProtocolVersion :: u16 where "kProtocolVersion = 1"
definition kHeaderSize :: nat where "kHeaderSize = 8"
definition kMaxPayload :: u32 where "kMaxPayload = 4 * 1024 * 1024"

text \<open>
  An enumeration with a fixed underlying type can hold any value of that type, and the decoders
  cast without a check. The last constructor keeps a value that names no enumerator.
\<close>

datatype MsgType =
    Msg_Hello | Msg_HelloAck | Msg_Ping | Msg_Pong | Msg_Pointer | Msg_HostState
  | Msg_ViewportReq | Msg_FrameInfo | Msg_FrameData | Msg_ActiveWindow | Msg_Key
  | Msg_Wheel | Msg_Smoothing | Msg_Log | Msg_raw u8

fun msg_type_to_u8 :: "MsgType \<Rightarrow> u8" where
  "msg_type_to_u8 Msg_Hello = 0x01"
| "msg_type_to_u8 Msg_HelloAck = 0x02"
| "msg_type_to_u8 Msg_Ping = 0x03"
| "msg_type_to_u8 Msg_Pong = 0x04"
| "msg_type_to_u8 Msg_Pointer = 0x10"
| "msg_type_to_u8 Msg_HostState = 0x11"
| "msg_type_to_u8 Msg_ViewportReq = 0x20"
| "msg_type_to_u8 Msg_FrameInfo = 0x21"
| "msg_type_to_u8 Msg_FrameData = 0x22"
| "msg_type_to_u8 Msg_ActiveWindow = 0x23"
| "msg_type_to_u8 Msg_Key = 0x24"
| "msg_type_to_u8 Msg_Wheel = 0x25"
| "msg_type_to_u8 Msg_Smoothing = 0x26"
| "msg_type_to_u8 Msg_Log = 0x7F"
| "msg_type_to_u8 (Msg_raw v) = v"

definition msg_type_of_u8 :: "u8 \<Rightarrow> MsgType" where
  "msg_type_of_u8 v =
     (if v = 0x01 then Msg_Hello else if v = 0x02 then Msg_HelloAck
      else if v = 0x03 then Msg_Ping else if v = 0x04 then Msg_Pong
      else if v = 0x10 then Msg_Pointer else if v = 0x11 then Msg_HostState
      else if v = 0x20 then Msg_ViewportReq else if v = 0x21 then Msg_FrameInfo
      else if v = 0x22 then Msg_FrameData else if v = 0x23 then Msg_ActiveWindow
      else if v = 0x24 then Msg_Key else if v = 0x25 then Msg_Wheel
      else if v = 0x26 then Msg_Smoothing else if v = 0x7F then Msg_Log
      else Msg_raw v)"

subsection \<open>Writer\<close>

type_synonym writer = "(bytes, unit) state"

definition w_u8 :: "u8 \<Rightarrow> writer" where
  "w_u8 v = State (\<lambda>out. ((), out @ [v]))"

definition w_u16 :: "u16 \<Rightarrow> writer" where
  "w_u16 v = do { w_u8 (ucast v); w_u8 (ucast (drop_bit 8 v)) }"

definition w_u32 :: "u32 \<Rightarrow> writer" where
  "w_u32 v = do { w_u16 (ucast v); w_u16 (ucast (drop_bit 16 v)) }"

definition w_u64 :: "u64 \<Rightarrow> writer" where
  "w_u64 v = do { w_u32 (ucast v); w_u32 (ucast (drop_bit 32 v)) }"

definition w_i32 :: "i32 \<Rightarrow> writer" where
  "w_i32 v = w_u32 v"

definition w_f32 :: "f32 \<Rightarrow> writer" where
  "w_f32 v = w_u32 v"

definition w_boolean :: "bool \<Rightarrow> writer" where
  "w_boolean v = w_u8 (if v then 1 else 0)"

fun w_pad :: "nat \<Rightarrow> writer" where
  "w_pad 0 = State_Monad.return ()"
| "w_pad (Suc n) = do { w_u8 0; w_pad n }"

definition w_bytes :: "bytes \<Rightarrow> writer" where
  "w_bytes b = State (\<lambda>out. ((), out @ b))"

definition w_raw_str :: "string \<Rightarrow> writer" where
  "w_raw_str s = w_bytes (bytes_of_string s)"

definition w_fixed_str :: "string \<Rightarrow> nat \<Rightarrow> writer" where
  "w_fixed_str s n =
     (let n' = (if length s < n then length s else n) in
      do { w_raw_str (take n' s); w_pad (n - n') })"

subsection \<open>Reader\<close>

record reader =
  r_in :: bytes
  r_pos :: nat
  r_ok :: bool

definition reader_init :: "bytes \<Rightarrow> reader" where
  "reader_init bs = \<lparr>r_in = bs, r_pos = 0, r_ok = True\<rparr>"

definition r_need :: "nat \<Rightarrow> (reader, bool) state" where
  "r_need n = State (\<lambda>r.
     if \<not> r_ok r \<or> length (r_in r) - r_pos r < n then (False, r\<lparr>r_ok := False\<rparr>)
     else (True, r))"

definition r_u8 :: "(reader, u8) state" where
  "r_u8 = do { have \<leftarrow> r_need 1;
     if \<not> have then State_Monad.return 0
     else State (\<lambda>r. (r_in r ! r_pos r, r\<lparr>r_pos := r_pos r + 1\<rparr>)) }"

definition r_u16 :: "(reader, u16) state" where
  "r_u16 = do { lo \<leftarrow> r_u8; hi \<leftarrow> r_u8;
     State_Monad.return (ucast lo OR push_bit 8 (ucast hi)) }"

definition r_u32 :: "(reader, u32) state" where
  "r_u32 = do { lo \<leftarrow> r_u16; hi \<leftarrow> r_u16;
     State_Monad.return (ucast lo OR push_bit 16 (ucast hi)) }"

definition r_u64 :: "(reader, u64) state" where
  "r_u64 = do { lo \<leftarrow> r_u32; hi \<leftarrow> r_u32;
     State_Monad.return (ucast lo OR push_bit 32 (ucast hi)) }"

definition r_i32 :: "(reader, i32) state" where
  "r_i32 = r_u32"

definition r_f32 :: "(reader, f32) state" where
  "r_f32 = r_u32"

definition r_boolean :: "(reader, bool) state" where
  "r_boolean = do { v \<leftarrow> r_u8; State_Monad.return (v \<noteq> 0) }"

definition r_skip :: "nat \<Rightarrow> (reader, unit) state" where
  "r_skip n = do { have \<leftarrow> r_need n;
     if have then State (\<lambda>r. ((), r\<lparr>r_pos := r_pos r + n\<rparr>)) else State_Monad.return () }"

definition r_fixed_str :: "nat \<Rightarrow> (reader, string) state" where
  "r_fixed_str n = do { have \<leftarrow> r_need n;
     if \<not> have then State_Monad.return []
     else State (\<lambda>r. (string_of_bytes (takeWhile (\<lambda>b. b \<noteq> 0) (take n (drop (r_pos r) (r_in r)))),
                       r\<lparr>r_pos := r_pos r + n\<rparr>)) }"

definition r_remaining :: "reader \<Rightarrow> nat" where
  "r_remaining r = (if r_ok r then length (r_in r) - r_pos r else 0)"

definition r_rest_str :: "(reader, string) state" where
  "r_rest_str = do { r \<leftarrow> State_Monad.get; r_fixed_str (r_remaining r) }"

definition r_rest_bytes :: "(reader, bytes) state" where
  "r_rest_bytes = State (\<lambda>r. (drop (r_pos r) (r_in r), r\<lparr>r_pos := length (r_in r)\<rparr>))"

definition r_done :: "reader \<Rightarrow> bool" where
  "r_done r \<longleftrightarrow> r_ok r \<and> r_pos r = length (r_in r)"

text \<open>
  Every \<open>decode\<close> constructs a reader on the payload, reads the fields and returns
  \<open>done()\<close>; the callers use the fields only when it is true.
\<close>

definition run_reader :: "(reader, 'a) state \<Rightarrow> bytes \<Rightarrow> 'a option" where
  "run_reader m payload =
     (case run_state m (reader_init payload) of (v, r) \<Rightarrow> if r_done r then Some v else None)"

subsection \<open>MessageBuilder\<close>

definition builder_init :: "MsgType \<Rightarrow> u8 \<Rightarrow> writer" where
  "builder_init t flags =
     do { w_u16 kMagic; w_u8 (msg_type_to_u8 t); w_u8 flags; w_u32 0 }"

definition builder_take :: "bytes \<Rightarrow> bytes" where
  "builder_take buf =
     (let len = (of_nat (length buf - kHeaderSize) :: u32) in
      buf[4 := ucast len, 5 := ucast (drop_bit 8 len),
          6 := ucast (drop_bit 16 len), 7 := ucast (drop_bit 24 len)])"

definition build_message :: "MsgType \<Rightarrow> u8 \<Rightarrow> writer \<Rightarrow> bytes" where
  "build_message t flags body =
     builder_take (snd (run_state (do { builder_init t flags; body }) []))"

section \<open>Judgements on readers and writers\<close>

definition writes :: "writer \<Rightarrow> bytes \<Rightarrow> bool" where
  "writes m bs \<longleftrightarrow> (\<forall>out. run_state m out = ((), out @ bs))"

definition reader_at :: "reader \<Rightarrow> bytes \<Rightarrow> bool" where
  "reader_at r bs \<longleftrightarrow>
     r_ok r \<and> r_pos r \<le> length (r_in r) \<and> drop (r_pos r) (r_in r) = bs"

definition reads :: "(reader, 'a) state \<Rightarrow> bytes \<Rightarrow> 'a \<Rightarrow> bool" where
  "reads m bs v \<longleftrightarrow>
     (\<forall>r rest. reader_at r (bs @ rest) \<longrightarrow>
        (\<exists>r'. run_state m r = (v, r') \<and> reader_at r' rest))"

definition consumes :: "(reader, 'a) state \<Rightarrow> nat \<Rightarrow> bool" where
  "consumes m n \<longleftrightarrow>
     (\<forall>r. r_pos r \<le> length (r_in r) \<longrightarrow>
        (let r' = snd (run_state m r) in
           r_in r' = r_in r \<and> r_pos r' \<le> length (r_in r) \<and>
           (r_ok r' \<longleftrightarrow> r_ok r \<and> n \<le> length (r_in r) - r_pos r) \<and>
           (r_ok r' \<longrightarrow> r_pos r' = r_pos r + n)))"

definition le16 :: "u16 \<Rightarrow> bytes" where
  "le16 v = [ucast v, ucast (drop_bit 8 v)]"

definition le32 :: "u32 \<Rightarrow> bytes" where
  "le32 v = le16 (ucast v) @ le16 (ucast (drop_bit 16 v))"

definition le64 :: "u64 \<Rightarrow> bytes" where
  "le64 v = le32 (ucast v) @ le32 (ucast (drop_bit 32 v))"

definition fixed_field :: "string \<Rightarrow> nat \<Rightarrow> bytes" where
  "fixed_field s n = bytes_of_string (take n s) @ replicate (n - length s) 0"

definition header :: "MsgType \<Rightarrow> u8 \<Rightarrow> u32 \<Rightarrow> bytes" where
  "header t flags len = [kMagicByte0, kMagicByte1, msg_type_to_u8 t, flags] @ le32 len"

section \<open>Writer lemmas\<close>

lemma length_le16 [simp]: "length (le16 v) = 2"
  by (simp add: le16_def)

lemma length_le32 [simp]: "length (le32 v) = 4"
  by (simp add: le32_def)

lemma length_le64 [simp]: "length (le64 v) = 8"
  by (simp add: le64_def)

lemma length_fixed_field [simp]: "length (fixed_field s n) = n"
  by (simp add: fixed_field_def)

lemma length_header [simp]: "length (header t fl len) = kHeaderSize"
  by (simp add: header_def kHeaderSize_def)

lemma writes_bind [io_intros]:
  "writes m bs \<Longrightarrow> writes m' cs \<Longrightarrow> writes (State_Monad.bind m (\<lambda>_. m')) (bs @ cs)"
  by (simp add: writes_def)

lemma writes_return [io_intros]: "writes (State_Monad.return ()) []"
  by (simp add: writes_def)

lemma writes_u8 [io_intros]: "writes (w_u8 v) [v]"
  by (simp add: writes_def w_u8_def)

lemma writes_bytes [io_intros]: "writes (w_bytes b) b"
  by (simp add: writes_def w_bytes_def)

lemma writes_u16 [io_intros]: "writes (w_u16 v) (le16 v)"
  unfolding w_u16_def le16_def
  using writes_bind [OF writes_u8 writes_u8] by simp

lemma writes_u32 [io_intros]: "writes (w_u32 v) (le32 v)"
  unfolding w_u32_def le32_def by (intro io_intros)

lemma writes_u64 [io_intros]: "writes (w_u64 v) (le64 v)"
  unfolding w_u64_def le64_def by (intro io_intros)

lemma writes_i32 [io_intros]: "writes (w_i32 v) (le32 v)"
  unfolding w_i32_def by (intro io_intros)

lemma writes_f32 [io_intros]: "writes (w_f32 v) (le32 v)"
  unfolding w_f32_def by (intro io_intros)

lemma writes_boolean [io_intros]: "writes (w_boolean v) [if v then 1 else 0]"
  unfolding w_boolean_def by (intro io_intros)

lemma writes_pad [io_intros]: "writes (w_pad n) (replicate n 0)"
proof (induction n)
  case 0
  then show ?case by (simp add: writes_return)
next
  case (Suc n)
  from writes_bind [OF writes_u8 Suc] show ?case by simp
qed

lemma writes_raw_str [io_intros]: "writes (w_raw_str s) (bytes_of_string s)"
  unfolding w_raw_str_def by (intro io_intros)

lemma writes_fixed_str [io_intros]: "writes (w_fixed_str s n) (fixed_field s n)"
proof -
  define n' where "n' = (if length s < n then length s else n)"
  have "writes (w_fixed_str s n) (bytes_of_string (take n' s) @ replicate (n - n') 0)"
    unfolding w_fixed_str_def Let_def n'_def [symmetric] by (intro io_intros)
  moreover have "bytes_of_string (take n' s) @ replicate (n - n') 0 = fixed_field s n"
    by (auto simp: n'_def fixed_field_def)
  ultimately show ?thesis by simp
qed

section \<open>Message builder\<close>

lemma le16_kMagic: "le16 kMagic = [kMagicByte0, kMagicByte1]"
  by (simp add: le16_def kMagic_def kMagicByte0_def kMagicByte1_def)

lemma writes_builder_init [io_intros]: "writes (builder_init t fl) (header t fl 0)"
proof -
  have "writes (builder_init t fl) (le16 kMagic @ [msg_type_to_u8 t] @ [fl] @ le32 0)"
    unfolding builder_init_def by (intro io_intros)
  then show ?thesis by (simp add: header_def le16_kMagic)
qed

lemma le32_bytes:
  "le32 v = [ucast v, ucast (drop_bit 8 v), ucast (drop_bit 16 v), ucast (drop_bit 24 v)]"
  unfolding le32_def le16_def
  by (auto intro!: bit_word_eqI simp: bit_simps)

lemma builder_take_header:
  "builder_take (header t fl l @ bs) = header t fl (of_nat (length bs)) @ bs"
  by (simp add: builder_take_def header_def kHeaderSize_def le32_bytes Let_def eval_nat_numeral)

lemma build_message_eq:
  assumes "writes body bs"
  shows "build_message t fl body = header t fl (of_nat (length bs)) @ bs"
proof -
  have "writes (do { builder_init t fl; body }) (header t fl 0 @ bs)"
    using assms by (intro io_intros)
  then show ?thesis
    by (simp add: build_message_def writes_def builder_take_header)
qed

section \<open>Reader lemmas\<close>

subsection \<open>Little-endian recombination\<close>

lemma le16_recombine:
  "ucast (ucast v :: u8) OR push_bit 8 (ucast (ucast (drop_bit 8 v) :: u8)) = (v :: u16)"
  by (rule bit_word_eqI) (auto simp: bit_simps)

lemma le32_recombine:
  "ucast (ucast v :: u16) OR push_bit 16 (ucast (ucast (drop_bit 16 v) :: u16)) = (v :: u32)"
  by (rule bit_word_eqI) (auto simp: bit_simps)

lemma le64_recombine:
  "ucast (ucast v :: u32) OR push_bit 32 (ucast (ucast (drop_bit 32 v) :: u32)) = (v :: u64)"
  by (rule bit_word_eqI) (auto simp: bit_simps)

subsection \<open>What a reader returns in front of well-formed bytes\<close>

lemma readsI:
  assumes "\<And>r rest. reader_at r (bs @ rest) \<Longrightarrow> \<exists>r'. run_state m r = (v, r') \<and> reader_at r' rest"
  shows "reads m bs v"
  using assms by (simp add: reads_def)

lemma reads_bind [io_intros]:
  assumes "reads m bs v" and "reads (f v) cs w"
  shows "reads (State_Monad.bind m f) (bs @ cs) w"
proof (rule readsI)
  fix r rest
  assume "reader_at r ((bs @ cs) @ rest)"
  then have "reader_at r (bs @ (cs @ rest))" by simp
  with assms(1) obtain r1 where 1: "run_state m r = (v, r1)" and "reader_at r1 (cs @ rest)"
    unfolding reads_def by blast
  with assms(2) obtain r2 where "run_state (f v) r1 = (w, r2)" and "reader_at r2 rest"
    unfolding reads_def by blast
  with 1 show "\<exists>r'. run_state (State_Monad.bind m f) r = (w, r') \<and> reader_at r' rest" by simp
qed

lemma reads_return: "reads (State_Monad.return v) [] v"
  by (simp add: reads_def)

lemma reads_map:
  "reads m bs v \<Longrightarrow> reads (State_Monad.bind m (\<lambda>x. State_Monad.return (f x))) bs (f v)"
  using reads_bind [of m bs v "\<lambda>x. State_Monad.return (f x)" "[]" "f v"] reads_return [of "f v"] by simp

lemma reader_at_take:
  assumes "reader_at r (bs @ rest)"
  shows "length bs \<le> length (r_in r) - r_pos r" and "take (length bs) (drop (r_pos r) (r_in r)) = bs"
    and "reader_at (r\<lparr>r_pos := r_pos r + length bs\<rparr>) rest"
proof -
  have d: "drop (r_pos r) (r_in r) = bs @ rest" and ok: "r_ok r"
    using assms by (auto simp: reader_at_def)
  have l: "length (r_in r) - r_pos r = length bs + length rest"
    using arg_cong [OF d, of length] by simp
  then show "length bs \<le> length (r_in r) - r_pos r" by simp
  show "take (length bs) (drop (r_pos r) (r_in r)) = bs" by (simp add: d)
  have "drop (length bs + r_pos r) (r_in r) = rest"
    using d by (metis append_eq_conv_conj drop_drop)
  then show "reader_at (r\<lparr>r_pos := r_pos r + length bs\<rparr>) rest"
    using assms l by (auto simp: reader_at_def add.commute)
qed

lemma reads_u8 [io_intros]: "reads r_u8 [b] b"
proof (rule readsI)
  fix r rest
  assume at: "reader_at r ([b] @ rest)"
  then have "r_ok r" and "r_in r ! r_pos r = b"
    using drop_eq_ConsD by (fastforce simp: reader_at_def)+
  moreover have "\<not> length (r_in r) - r_pos r < 1" and "reader_at (r\<lparr>r_pos := r_pos r + 1\<rparr>) rest"
    using reader_at_take [OF at] by simp_all
  ultimately show "\<exists>r'. run_state r_u8 r = (b, r') \<and> reader_at r' rest"
    by (simp add: r_u8_def r_need_def)
qed

lemma reads_u16 [io_intros]: "reads r_u16 (le16 v) v"
proof -
  let ?lo = "ucast v :: u8" and ?hi = "ucast (drop_bit 8 v) :: u8"
  have "reads r_u16 ([?lo] @ [?hi]) (ucast ?lo OR push_bit 8 (ucast ?hi))"
    unfolding r_u16_def by (rule reads_bind [OF reads_u8 reads_map [OF reads_u8]])
  then show ?thesis by (simp add: le16_def le16_recombine)
qed

lemma reads_u32 [io_intros]: "reads r_u32 (le32 v) v"
proof -
  let ?lo = "ucast v :: u16" and ?hi = "ucast (drop_bit 16 v) :: u16"
  have "reads r_u32 (le16 ?lo @ le16 ?hi) (ucast ?lo OR push_bit 16 (ucast ?hi))"
    unfolding r_u32_def by (rule reads_bind [OF reads_u16 reads_map [OF reads_u16]])
  then show ?thesis by (simp add: le32_def le32_recombine)
qed

lemma reads_u64 [io_intros]: "reads r_u64 (le64 v) v"
proof -
  let ?lo = "ucast v :: u32" and ?hi = "ucast (drop_bit 32 v) :: u32"
  have "reads r_u64 (le32 ?lo @ le32 ?hi) (ucast ?lo OR push_bit 32 (ucast ?hi))"
    unfolding r_u64_def by (rule reads_bind [OF reads_u32 reads_map [OF reads_u32]])
  then show ?thesis by (simp add: le64_def le64_recombine)
qed

lemma reads_i32 [io_intros]: "reads r_i32 (le32 v) v"
  unfolding r_i32_def by (intro io_intros)

lemma reads_f32 [io_intros]: "reads r_f32 (le32 v) v"
  unfolding r_f32_def by (intro io_intros)

lemma reads_boolean [io_intros]: "reads r_boolean [if v then 1 else 0] v"
  using reads_map [OF reads_u8 [of 1], of "\<lambda>b. b \<noteq> 0"] reads_map [OF reads_u8 [of 0], of "\<lambda>b. b \<noteq> 0"]
  by (cases v) (simp_all add: r_boolean_def)

lemma reads_skip: "length bs = n \<Longrightarrow> reads (r_skip n) bs ()"
  using reader_at_take by (intro readsI) (fastforce simp: r_skip_def r_need_def reader_at_def)

lemma reads_skip_pad [io_intros]: "reads (r_skip n) (replicate n 0) ()"
  by (rule reads_skip) simp

text \<open>
  A fixed-width string field keeps the first \<open>n\<close> characters up to the first NUL: that is
  what a round trip can promise.
\<close>

definition c_str :: "string \<Rightarrow> string" where
  "c_str s = takeWhile (\<lambda>c. c \<noteq> CHR 0x00) s"

lemma byte_of_char_0 [simp]: "byte_of_char c = 0 \<longleftrightarrow> c = CHR 0x00"
proof -
  have "byte_of_char (CHR 0x00) = 0" by (simp add: byte_of_char_def)
  then show ?thesis by (metis byte_of_char_eq_iff)
qed

lemma takeWhile_bytes:
  "string_of_bytes (takeWhile (\<lambda>b. b \<noteq> 0) (bytes_of_string s @ replicate k 0)) = c_str s"
proof (induction s)
  case Nil
  show ?case by (cases k) (simp_all add: c_str_def)
next
  case (Cons c s)
  then show ?case by (auto simp: c_str_def)
qed

lemma reads_fixed_bytes:
  assumes "length bs = n"
  shows "reads (r_fixed_str n) bs (string_of_bytes (takeWhile (\<lambda>b. b \<noteq> 0) bs))"
proof (rule readsI)
  fix r rest
  assume at: "reader_at r (bs @ rest)"
  then have "r_ok r" by (simp add: reader_at_def)
  with reader_at_take [OF at] assms
  show "\<exists>r'. run_state (r_fixed_str n) r = (string_of_bytes (takeWhile (\<lambda>b. b \<noteq> 0) bs), r') \<and>
        reader_at r' rest"
    by (simp add: r_fixed_str_def r_need_def)
qed

lemma reads_fixed_str [io_intros]: "reads (r_fixed_str n) (fixed_field s n) (c_str (take n s))"
  using reads_fixed_bytes [of "fixed_field s n" n]
  by (simp add: fixed_field_def takeWhile_bytes del: map_append)

lemma c_str_id: "CHR 0x00 \<notin> set s \<Longrightarrow> c_str s = s"
  by (auto simp: c_str_def takeWhile_eq_all_conv)

subsection \<open>Readers that take everything left\<close>

definition reads_all :: "(reader, 'a) state \<Rightarrow> bytes \<Rightarrow> 'a \<Rightarrow> bool" where
  "reads_all m bs v \<longleftrightarrow>
     (\<forall>r. reader_at r bs \<longrightarrow> (\<exists>r'. run_state m r = (v, r') \<and> r_done r'))"

lemma reads_imp_reads_all: "reads m bs v \<Longrightarrow> reads_all m bs v"
  unfolding reads_def reads_all_def r_done_def reader_at_def
  by (metis (no_types, lifting) append_Nil2 drop_eq_Nil2 le_antisym)

lemma reads_all_bind:
  assumes "reads m bs v" and "reads_all (f v) cs w"
  shows "reads_all (State_Monad.bind m f) (bs @ cs) w"
  unfolding reads_all_def
proof (intro allI impI)
  fix r
  assume "reader_at r (bs @ cs)"
  with assms(1) obtain r1 where 1: "run_state m r = (v, r1)" and "reader_at r1 cs"
    unfolding reads_def by blast
  with assms(2) obtain r2 where "run_state (f v) r1 = (w, r2)" and "r_done r2"
    unfolding reads_all_def by blast
  with 1 show "\<exists>r'. run_state (State_Monad.bind m f) r = (w, r') \<and> r_done r'" by simp
qed

lemma reads_all_map:
  assumes "reads_all m bs v"
  shows "reads_all (State_Monad.bind m (\<lambda>x. State_Monad.return (f x))) bs (f v)"
  unfolding reads_all_def
proof (intro allI impI)
  fix r
  assume "reader_at r bs"
  with assms obtain r1 where "run_state m r = (v, r1)" and "r_done r1"
    unfolding reads_all_def by blast
  then show "\<exists>r'. run_state (State_Monad.bind m (\<lambda>x. State_Monad.return (f x))) r = (f v, r') \<and> r_done r'"
    by simp
qed

lemma reads_all_rest_bytes: "reads_all r_rest_bytes bs bs"
  by (simp add: reads_all_def r_rest_bytes_def reader_at_def r_done_def)

lemma reads_all_rest_str: "reads_all r_rest_str (bytes_of_string s) (c_str s)"
  unfolding reads_all_def
proof (intro allI impI)
  fix r
  assume at: "reader_at r (bytes_of_string s)"
  then have "r_remaining r = length s"
    by (auto simp: reader_at_def r_remaining_def dest: arg_cong [where f = length])
  moreover have "reads_all (r_fixed_str (length s)) (bytes_of_string s) (c_str s)"
    using reads_imp_reads_all [OF reads_fixed_bytes [of "bytes_of_string s"]]
      takeWhile_bytes [of s 0] by simp
  ultimately show "\<exists>r'. run_state r_rest_str r = (c_str s, r') \<and> r_done r'"
    using at by (simp add: r_rest_str_def reads_all_def)
qed

lemma reader_at_init: "reader_at (reader_init bs) bs"
  by (simp add: reader_at_def reader_init_def)

lemma run_reader_reads_all: "reads_all m bs v \<Longrightarrow> run_reader m bs = Some v"
  using reader_at_init [of bs] by (fastforce simp: reads_all_def run_reader_def)

lemma run_reader_reads: "reads m bs v \<Longrightarrow> run_reader m bs = Some v"
  by (rule run_reader_reads_all [OF reads_imp_reads_all])

subsection \<open>How much a reader needs\<close>

lemma consumes_bind [io_intros]:
  assumes "consumes m a" and "\<And>v. consumes (f v) b"
  shows "consumes (State_Monad.bind m f) (a + b)"
  unfolding consumes_def
proof (intro allI impI)
  fix r :: reader
  assume le: "r_pos r \<le> length (r_in r)"
  obtain v r1 where 1: "run_state m r = (v, r1)" by fastforce
  obtain w r2 where 2: "run_state (f v) r1 = (w, r2)" by fastforce
  from assms(1) le 1 have r1: "r_in r1 = r_in r" "r_pos r1 \<le> length (r_in r)"
    "r_ok r1 \<longleftrightarrow> r_ok r \<and> a \<le> length (r_in r) - r_pos r" "r_ok r1 \<longrightarrow> r_pos r1 = r_pos r + a"
    by (auto simp: consumes_def Let_def dest!: spec [of _ r])
  from assms(2) [of v] r1 2 have r2: "r_in r2 = r_in r" "r_pos r2 \<le> length (r_in r)"
    "r_ok r2 \<longleftrightarrow> r_ok r1 \<and> b \<le> length (r_in r) - r_pos r1" "r_ok r2 \<longrightarrow> r_pos r2 = r_pos r1 + b"
    by (auto simp: consumes_def Let_def dest!: spec [of _ r1])
  show "let r' = snd (run_state (State_Monad.bind m f) r) in
          r_in r' = r_in r \<and> r_pos r' \<le> length (r_in r) \<and>
          (r_ok r' \<longleftrightarrow> r_ok r \<and> a + b \<le> length (r_in r) - r_pos r) \<and>
          (r_ok r' \<longrightarrow> r_pos r' = r_pos r + (a + b))"
    using 1 2 r1 r2 by (auto simp: Let_def)
qed

lemma consumes_return [io_intros]: "consumes (State_Monad.return v) 0"
  by (simp add: consumes_def)

lemma consumes_u8 [io_intros]: "consumes r_u8 1"
  by (auto simp: consumes_def r_u8_def r_need_def Let_def)

lemma consumes_u16 [io_intros]: "consumes r_u16 2"
proof -
  have "consumes r_u16 (1 + (1 + 0))" unfolding r_u16_def by (intro io_intros)
  then show ?thesis by (simp add: numeral_2_eq_2)
qed

lemma consumes_u32 [io_intros]: "consumes r_u32 4"
proof -
  have "consumes r_u32 (2 + (2 + 0))" unfolding r_u32_def by (intro io_intros)
  then show ?thesis by simp
qed

lemma consumes_u64 [io_intros]: "consumes r_u64 8"
proof -
  have "consumes r_u64 (4 + (4 + 0))" unfolding r_u64_def by (intro io_intros)
  then show ?thesis by simp
qed

lemma consumes_i32 [io_intros]: "consumes r_i32 4"
  unfolding r_i32_def by (intro io_intros)

lemma consumes_f32 [io_intros]: "consumes r_f32 4"
  unfolding r_f32_def by (intro io_intros)

lemma consumes_boolean [io_intros]: "consumes r_boolean 1"
  using consumes_bind [OF consumes_u8 consumes_return] by (simp add: r_boolean_def)

lemma consumes_skip [io_intros]: "consumes (r_skip n) n"
  by (auto simp: consumes_def r_skip_def r_need_def Let_def)

lemma consumes_fixed_str [io_intros]: "consumes (r_fixed_str n) n"
  by (auto simp: consumes_def r_fixed_str_def r_need_def Let_def)

lemma run_reader_consumes:
  assumes "consumes m n"
  shows "run_reader m bs \<noteq> None \<longleftrightarrow> length bs = n"
proof -
  obtain v r where run: "run_state m (reader_init bs) = (v, r)" by fastforce
  from assms have "r_in r = bs" "r_pos r \<le> length bs" "r_ok r \<longleftrightarrow> n \<le> length bs"
    "r_ok r \<longrightarrow> r_pos r = n"
    using run by (auto simp: consumes_def Let_def reader_init_def dest!: spec [of _ "reader_init bs"])
  then show ?thesis by (auto simp: run_reader_def run r_done_def)
qed

end
