(* ===== verification/Messages.thy ===== *)
theory Messages
  imports Wire
begin

text \<open>
  The twelve protocol messages of \<open>common/include/digitiz/proto/messages.hpp\<close> and their
  \<open>encode\<close> and \<open>decode\<close> functions of \<open>common/src/messages.cpp\<close>. Every structure is a
  record with the fields in source order, every \<open>encode\<close> a message built by the writer, every
  \<open>decode\<close> a reader whose result counts only when the payload was consumed exactly.

  The interface locale \<open>message_codec\<close> states what the rest of the program relies on: an
  encoded message is a header with the message's own type followed by a payload that decodes to
  the message. It is interpreted for all twelve messages at the end of the theory.
\<close>

section \<open>Definitions\<close>

subsection \<open>Enumerations carried as one byte\<close>

datatype HostOs = Os_Windows | Os_Linux | Os_MacOS | Os_raw u8

fun host_os_to_u8 :: "HostOs \<Rightarrow> u8" where
  "host_os_to_u8 Os_Windows = 0"
| "host_os_to_u8 Os_Linux = 1"
| "host_os_to_u8 Os_MacOS = 2"
| "host_os_to_u8 (Os_raw v) = v"

definition host_os_of_u8 :: "u8 \<Rightarrow> HostOs" where
  "host_os_of_u8 v =
     (if v = 0 then Os_Windows else if v = 1 then Os_Linux else if v = 2 then Os_MacOS else
      Os_raw v)"

datatype PointerAction = Action_Down | Action_Move | Action_Up | Action_Cancel | Action_Hover
  | Action_raw u8

fun pointer_action_to_u8 :: "PointerAction \<Rightarrow> u8" where
  "pointer_action_to_u8 Action_Down = 0"
| "pointer_action_to_u8 Action_Move = 1"
| "pointer_action_to_u8 Action_Up = 2"
| "pointer_action_to_u8 Action_Cancel = 3"
| "pointer_action_to_u8 Action_Hover = 4"
| "pointer_action_to_u8 (Action_raw v) = v"

definition pointer_action_of_u8 :: "u8 \<Rightarrow> PointerAction" where
  "pointer_action_of_u8 v =
     (if v = 0 then Action_Down else if v = 1 then Action_Move else if v = 2 then Action_Up
      else if v = 3 then Action_Cancel else if v = 4 then Action_Hover else Action_raw v)"

datatype MouseButton = Button_Left | Button_Right | Button_Middle | Button_raw u8

fun mouse_button_to_u8 :: "MouseButton \<Rightarrow> u8" where
  "mouse_button_to_u8 Button_Left = 0"
| "mouse_button_to_u8 Button_Right = 1"
| "mouse_button_to_u8 Button_Middle = 2"
| "mouse_button_to_u8 (Button_raw v) = v"

definition mouse_button_of_u8 :: "u8 \<Rightarrow> MouseButton" where
  "mouse_button_of_u8 v =
     (if v = 0 then Button_Left else if v = 1 then Button_Right else if v = 2 then
      Button_Middle else Button_raw v)"

datatype FrameFormat = Format_Off | Format_Etc2Rgb8 | Format_Astc4x4 | Format_H264 | Format_raw u8

fun frame_format_to_u8 :: "FrameFormat \<Rightarrow> u8" where
  "frame_format_to_u8 Format_Off = 0"
| "frame_format_to_u8 Format_Etc2Rgb8 = 1"
| "frame_format_to_u8 Format_Astc4x4 = 2"
| "frame_format_to_u8 Format_H264 = 3"
| "frame_format_to_u8 (Format_raw v) = v"

definition frame_format_of_u8 :: "u8 \<Rightarrow> FrameFormat" where
  "frame_format_of_u8 v =
     (if v = 0 then Format_Off else if v = 1 then Format_Etc2Rgb8 else if v = 2 then
      Format_Astc4x4 else if v = 3 then Format_H264 else Format_raw v)"

datatype KeyAction = Key_Press | Key_Down | Key_Up | KeyAction_raw u8

fun key_action_to_u8 :: "KeyAction \<Rightarrow> u8" where
  "key_action_to_u8 Key_Press = 0"
| "key_action_to_u8 Key_Down = 1"
| "key_action_to_u8 Key_Up = 2"
| "key_action_to_u8 (KeyAction_raw v) = v"

definition key_action_of_u8 :: "u8 \<Rightarrow> KeyAction" where
  "key_action_of_u8 v =
     (if v = 0 then Key_Press else if v = 1 then Key_Down else if v = 2 then Key_Up else
      KeyAction_raw v)"

datatype LogLevel =
    Level_Trace | Level_Debug | Level_Info | Level_Warn | Level_Error | Level_raw u8

fun log_level_to_u8 :: "LogLevel \<Rightarrow> u8" where
  "log_level_to_u8 Level_Trace = 0"
| "log_level_to_u8 Level_Debug = 1"
| "log_level_to_u8 Level_Info = 2"
| "log_level_to_u8 Level_Warn = 3"
| "log_level_to_u8 Level_Error = 4"
| "log_level_to_u8 (Level_raw v) = v"

definition log_level_of_u8 :: "u8 \<Rightarrow> LogLevel" where
  "log_level_of_u8 v =
     (if v = 0 then Level_Trace else if v = 1 then Level_Debug else if v = 2 then Level_Info
      else if v = 3 then Level_Warn else if v = 4 then Level_Error else Level_raw v)"

subsection \<open>Constants\<close>

definition kDeviceNameBytes :: nat where "kDeviceNameBytes = 64"
definition kProcessNameBytes :: nat where "kProcessNameBytes = 64"
definition kKeyNameBytes :: nat where "kKeyNameBytes = 16"

definition kPointerRelative :: u8 where "kPointerRelative = 1"
definition kPointerGestureStart :: u8 where "kPointerGestureStart = 2"
definition kPointerWindowRelative :: u8 where "kPointerWindowRelative = 4"
definition kViewportCursor :: u8 where "kViewportCursor = 1"
definition kModCtrl :: u8 where "kModCtrl = 1"
definition kModShift :: u8 where "kModShift = 2"
definition kModAlt :: u8 where "kModAlt = 4"
definition kModMeta :: u8 where "kModMeta = 8"
definition kFrameChunkBytes :: nat where "kFrameChunkBytes = 16 * 1024"

subsection \<open>Message structures\<close>

record Hello =
  h_proto_ver :: u16
  h_screen_w :: i32
  h_screen_h :: i32
  h_density :: f32
  h_device :: string

record Monitor =
  mon_x :: i32
  mon_y :: i32
  mon_w :: i32
  mon_h :: i32
  mon_dpi :: u32
  mon_primary :: bool

record HelloAck =
  ha_proto_ver :: u16
  ha_host_os :: HostOs
  ha_vx :: i32
  ha_vy :: i32
  ha_vw :: i32
  ha_vh :: i32
  ha_monitors :: "Monitor list"

record Ping =
  ping_t_send_us :: u64

record Pong =
  pong_t_send_us :: u64
  pong_t_reply_us :: u64

record Pointer =
  p_t_us :: u64
  p_x :: i32
  p_y :: i32
  p_action :: PointerAction
  p_button :: MouseButton
  p_pointer_id :: u8
  p_flags :: u8
  p_pressure :: f32

record HostState =
  hs_enabled :: bool
  hs_injecting :: bool

record ViewportReq =
  vr_x :: i32
  vr_y :: i32
  vr_w :: i32
  vr_h :: i32
  vr_out_w :: u16
  vr_out_h :: u16
  vr_fps :: u8
  vr_format :: FrameFormat
  vr_tile :: u8
  vr_flags :: u8

record FrameInfo =
  fi_seq :: u32
  fi_x :: i32
  fi_y :: i32
  fi_w :: i32
  fi_h :: i32
  fi_out_w :: u16
  fi_out_h :: u16
  fi_format :: FrameFormat
  fi_tile :: u8
  fi_raw_bytes :: u32
  fi_payload_bytes :: u32
  fi_tiles :: "u16 list"

record FrameData =
  fd_seq :: u32
  fd_offset :: u32
  fd_bytes :: bytes

record ActiveWindow =
  aw_pid :: u32
  aw_process :: string

record Key =
  k_modifiers :: u8
  k_action :: KeyAction
  k_key :: string

record LogMessage =
  lm_level :: LogLevel
  lm_text :: string

subsection \<open>Encoders and decoders\<close>

definition encode_Hello :: "Hello \<Rightarrow> bytes" where
  "encode_Hello m = build_message Msg_Hello 0 (do {
     w_u16 (h_proto_ver m);
     w_u16 0;
     w_i32 (h_screen_w m);
     w_i32 (h_screen_h m);
     w_f32 (h_density m);
     w_fixed_str (h_device m) kDeviceNameBytes })"

definition read_Hello :: "(reader, Hello) state" where
  "read_Hello = do {
     proto_ver \<leftarrow> r_u16;
     reserved \<leftarrow> r_u16;
     screen_w \<leftarrow> r_i32;
     screen_h \<leftarrow> r_i32;
     density \<leftarrow> r_f32;
     device \<leftarrow> r_fixed_str kDeviceNameBytes;
     State_Monad.return \<lparr>h_proto_ver = proto_ver, h_screen_w = screen_w, h_screen_h = screen_h, h_density = density, h_device = device\<rparr> }"

definition decode_Hello :: "bytes \<Rightarrow> Hello option" where
  "decode_Hello payload = run_reader read_Hello payload"

definition write_Monitor :: "Monitor \<Rightarrow> writer" where
  "write_Monitor mon = do {
     w_i32 (mon_x mon); w_i32 (mon_y mon); w_i32 (mon_w mon); w_i32 (mon_h mon);
     w_u32 (mon_dpi mon); w_boolean (mon_primary mon); w_pad 3 }"

fun write_all :: "('a \<Rightarrow> writer) \<Rightarrow> 'a list \<Rightarrow> writer" where
  "write_all f [] = State_Monad.return ()"
| "write_all f (x # xs) = do { f x; write_all f xs }"

definition encode_HelloAck :: "HelloAck \<Rightarrow> bytes" where
  "encode_HelloAck m = build_message Msg_HelloAck 0 (do {
     w_u16 (ha_proto_ver m);
     w_u8 (host_os_to_u8 (ha_host_os m));
     w_u8 (of_nat (length (ha_monitors m)));
     w_i32 (ha_vx m);
     w_i32 (ha_vy m);
     w_i32 (ha_vw m);
     w_i32 (ha_vh m);
     w_u32 0;
     write_all write_Monitor (ha_monitors m) })"

definition read_Monitor :: "(reader, Monitor) state" where
  "read_Monitor = do {
     x \<leftarrow> r_i32; y \<leftarrow> r_i32; w \<leftarrow> r_i32; h \<leftarrow> r_i32; dpi \<leftarrow> r_u32; primary \<leftarrow> r_boolean;
     skipped \<leftarrow> r_skip 3;
     State_Monad.return \<lparr>mon_x = x, mon_y = y, mon_w = w, mon_h = h, mon_dpi = dpi,
       mon_primary = primary\<rparr> }"

text \<open>The loop \<open>for (i = 0; i < count && r.ok(); ++i)\<close>.\<close>

fun read_monitors :: "nat \<Rightarrow> (reader, Monitor list) state" where
  "read_monitors 0 = State_Monad.return []"
| "read_monitors (Suc n) = do {
     r \<leftarrow> State_Monad.get;
     if r_ok r then do {
       mon \<leftarrow> read_Monitor; mons \<leftarrow> read_monitors n; State_Monad.return (mon # mons) }
     else State_Monad.return [] }"

definition read_HelloAck :: "(reader, HelloAck) state" where
  "read_HelloAck = do {
     proto_ver \<leftarrow> r_u16;
     host_os \<leftarrow> r_u8;
     count \<leftarrow> r_u8;
     vx \<leftarrow> r_i32;
     vy \<leftarrow> r_i32;
     vw \<leftarrow> r_i32;
     vh \<leftarrow> r_i32;
     reserved \<leftarrow> r_u32;
     mons \<leftarrow> read_monitors (unat count);
     State_Monad.return \<lparr>ha_proto_ver = proto_ver, ha_host_os = host_os_of_u8 host_os,
       ha_vx = vx, ha_vy = vy, ha_vw = vw, ha_vh = vh, ha_monitors = mons\<rparr> }"

definition decode_HelloAck :: "bytes \<Rightarrow> HelloAck option" where
  "decode_HelloAck payload = run_reader read_HelloAck payload"

definition encode_Ping :: "Ping \<Rightarrow> bytes" where
  "encode_Ping m = build_message Msg_Ping 0 (do {
     w_u64 (ping_t_send_us m) })"

definition read_Ping :: "(reader, Ping) state" where
  "read_Ping = do {
     t_send_us \<leftarrow> r_u64;
     State_Monad.return \<lparr>ping_t_send_us = t_send_us\<rparr> }"

definition decode_Ping :: "bytes \<Rightarrow> Ping option" where
  "decode_Ping payload = run_reader read_Ping payload"

definition encode_Pong :: "Pong \<Rightarrow> bytes" where
  "encode_Pong m = build_message Msg_Pong 0 (do {
     w_u64 (pong_t_send_us m);
     w_u64 (pong_t_reply_us m) })"

definition read_Pong :: "(reader, Pong) state" where
  "read_Pong = do {
     t_send_us \<leftarrow> r_u64;
     t_reply_us \<leftarrow> r_u64;
     State_Monad.return \<lparr>pong_t_send_us = t_send_us, pong_t_reply_us = t_reply_us\<rparr> }"

definition decode_Pong :: "bytes \<Rightarrow> Pong option" where
  "decode_Pong payload = run_reader read_Pong payload"

definition encode_Pointer :: "Pointer \<Rightarrow> bytes" where
  "encode_Pointer m = build_message Msg_Pointer 0 (do {
     w_u64 (p_t_us m);
     w_i32 (p_x m);
     w_i32 (p_y m);
     w_u8 (pointer_action_to_u8 (p_action m));
     w_u8 (mouse_button_to_u8 (p_button m));
     w_u8 (p_pointer_id m);
     w_u8 (p_flags m);
     w_f32 (p_pressure m) })"

definition read_Pointer :: "(reader, Pointer) state" where
  "read_Pointer = do {
     t_us \<leftarrow> r_u64;
     x \<leftarrow> r_i32;
     y \<leftarrow> r_i32;
     action \<leftarrow> r_u8;
     button \<leftarrow> r_u8;
     pointer_id \<leftarrow> r_u8;
     flags \<leftarrow> r_u8;
     pressure \<leftarrow> r_f32;
     State_Monad.return \<lparr>p_t_us = t_us, p_x = x, p_y = y, p_action = pointer_action_of_u8 action, p_button = mouse_button_of_u8 button, p_pointer_id = pointer_id, p_flags = flags, p_pressure = pressure\<rparr> }"

definition decode_Pointer :: "bytes \<Rightarrow> Pointer option" where
  "decode_Pointer payload = run_reader read_Pointer payload"

definition encode_HostState :: "HostState \<Rightarrow> bytes" where
  "encode_HostState m = build_message Msg_HostState 0 (do {
     w_boolean (hs_enabled m);
     w_boolean (hs_injecting m);
     w_pad 2 })"

definition read_HostState :: "(reader, HostState) state" where
  "read_HostState = do {
     enabled \<leftarrow> r_boolean;
     injecting \<leftarrow> r_boolean;
     skipped \<leftarrow> r_skip 2;
     State_Monad.return \<lparr>hs_enabled = enabled, hs_injecting = injecting\<rparr> }"

definition decode_HostState :: "bytes \<Rightarrow> HostState option" where
  "decode_HostState payload = run_reader read_HostState payload"

definition encode_ActiveWindow :: "ActiveWindow \<Rightarrow> bytes" where
  "encode_ActiveWindow m = build_message Msg_ActiveWindow 0 (do {
     w_u32 (aw_pid m);
     w_fixed_str (aw_process m) kProcessNameBytes })"

definition read_ActiveWindow :: "(reader, ActiveWindow) state" where
  "read_ActiveWindow = do {
     pid \<leftarrow> r_u32;
     process \<leftarrow> r_fixed_str kProcessNameBytes;
     State_Monad.return \<lparr>aw_pid = pid, aw_process = process\<rparr> }"

definition decode_ActiveWindow :: "bytes \<Rightarrow> ActiveWindow option" where
  "decode_ActiveWindow payload = run_reader read_ActiveWindow payload"

definition encode_ViewportReq :: "ViewportReq \<Rightarrow> bytes" where
  "encode_ViewportReq m = build_message Msg_ViewportReq 0 (do {
     w_i32 (vr_x m);
     w_i32 (vr_y m);
     w_i32 (vr_w m);
     w_i32 (vr_h m);
     w_u16 (vr_out_w m);
     w_u16 (vr_out_h m);
     w_u8 (vr_fps m);
     w_u8 (frame_format_to_u8 (vr_format m));
     w_u8 (vr_tile m);
     w_u8 (vr_flags m) })"

definition read_ViewportReq :: "(reader, ViewportReq) state" where
  "read_ViewportReq = do {
     x \<leftarrow> r_i32;
     y \<leftarrow> r_i32;
     w \<leftarrow> r_i32;
     h \<leftarrow> r_i32;
     out_w \<leftarrow> r_u16;
     out_h \<leftarrow> r_u16;
     fps \<leftarrow> r_u8;
     format \<leftarrow> r_u8;
     tile \<leftarrow> r_u8;
     flags \<leftarrow> r_u8;
     State_Monad.return \<lparr>vr_x = x, vr_y = y, vr_w = w, vr_h = h, vr_out_w = out_w, vr_out_h = out_h, vr_fps = fps, vr_format = frame_format_of_u8 format, vr_tile = tile, vr_flags = flags\<rparr> }"

definition decode_ViewportReq :: "bytes \<Rightarrow> ViewportReq option" where
  "decode_ViewportReq payload = run_reader read_ViewportReq payload"

definition encode_FrameInfo :: "FrameInfo \<Rightarrow> bytes" where
  "encode_FrameInfo m = build_message Msg_FrameInfo 0 (do {
     w_u32 (fi_seq m);
     w_i32 (fi_x m);
     w_i32 (fi_y m);
     w_i32 (fi_w m);
     w_i32 (fi_h m);
     w_u16 (fi_out_w m);
     w_u16 (fi_out_h m);
     w_u8 (frame_format_to_u8 (fi_format m));
     w_u8 (fi_tile m);
     w_pad 2;
     w_u32 (fi_raw_bytes m);
     w_u32 (fi_payload_bytes m);
     write_all w_u16 (fi_tiles m) })"

text \<open>The loop \<open>while (r.ok() && r.remaining() >= 2)\<close>.\<close>

function read_tiles :: "reader \<Rightarrow> u16 list \<times> reader" where
  "read_tiles r =
     (if r_ok r \<and> 2 \<le> r_remaining r
      then (let (v, r1) = run_state r_u16 r; (vs, r2) = read_tiles r1 in (v # vs, r2))
      else ([], r))"
  by pat_completeness auto
termination
proof (relation "measure r_remaining")
  fix r :: reader and p v r1
  assume r: "r_ok r \<and> 2 \<le> r_remaining r" and "p = run_state r_u16 r" and "(v, r1) = p"
  then have r1: "snd (run_state r_u16 r) = r1" by (metis snd_conv)
  from r have le: "r_pos r \<le> length (r_in r)" and two: "2 \<le> length (r_in r) - r_pos r"
    by (auto simp: r_remaining_def)
  with consumes_u16 r r1 have "r_in r1 = r_in r" and "r_pos r1 = r_pos r + 2"
    by (auto simp: consumes_def Let_def)
  with r two show "(r1, r) \<in> measure r_remaining"
    by (auto simp: r_remaining_def)
qed simp

declare read_tiles.simps [simp del]

definition read_FrameInfo :: "(reader, FrameInfo) state" where
  "read_FrameInfo = do {
     seq \<leftarrow> r_u32;
     x \<leftarrow> r_i32;
     y \<leftarrow> r_i32;
     w \<leftarrow> r_i32;
     h \<leftarrow> r_i32;
     out_w \<leftarrow> r_u16;
     out_h \<leftarrow> r_u16;
     format \<leftarrow> r_u8;
     tile \<leftarrow> r_u8;
     skipped \<leftarrow> r_skip 2;
     raw_bytes \<leftarrow> r_u32;
     payload_bytes \<leftarrow> r_u32;
     tiles \<leftarrow> State read_tiles;
     State_Monad.return \<lparr>fi_seq = seq, fi_x = x, fi_y = y, fi_w = w, fi_h = h,
       fi_out_w = out_w, fi_out_h = out_h, fi_format = frame_format_of_u8 format,
       fi_tile = tile, fi_raw_bytes = raw_bytes, fi_payload_bytes = payload_bytes,
       fi_tiles = tiles\<rparr> }"

definition decode_FrameInfo :: "bytes \<Rightarrow> FrameInfo option" where
  "decode_FrameInfo payload = run_reader read_FrameInfo payload"

definition encode_FrameData :: "FrameData \<Rightarrow> bytes" where
  "encode_FrameData m = build_message Msg_FrameData 0 (do {
     w_u32 (fd_seq m);
     w_u32 (fd_offset m);
     w_bytes (fd_bytes m) })"

definition read_FrameData :: "(reader, FrameData) state" where
  "read_FrameData = do {
     seq \<leftarrow> r_u32;
     offset \<leftarrow> r_u32;
     rest \<leftarrow> r_rest_bytes;
     State_Monad.return \<lparr>fd_seq = seq, fd_offset = offset, fd_bytes = rest\<rparr> }"

definition decode_FrameData :: "bytes \<Rightarrow> FrameData option" where
  "decode_FrameData payload = run_reader read_FrameData payload"

definition encode_Key :: "Key \<Rightarrow> bytes" where
  "encode_Key m = build_message Msg_Key 0 (do {
     w_u8 (k_modifiers m);
     w_u8 (key_action_to_u8 (k_action m));
     w_pad 2;
     w_fixed_str (k_key m) kKeyNameBytes })"

definition read_Key :: "(reader, Key) state" where
  "read_Key = do {
     modifiers \<leftarrow> r_u8;
     action \<leftarrow> r_u8;
     skipped \<leftarrow> r_skip 2;
     key \<leftarrow> r_fixed_str kKeyNameBytes;
     State_Monad.return \<lparr>k_modifiers = modifiers, k_action = key_action_of_u8 action, k_key = key\<rparr> }"

definition decode_Key :: "bytes \<Rightarrow> Key option" where
  "decode_Key payload = run_reader read_Key payload"

definition encode_LogMessage :: "LogMessage \<Rightarrow> bytes" where
  "encode_LogMessage m = build_message Msg_Log 0 (do {
     w_u8 (log_level_to_u8 (lm_level m));
     w_pad 3;
     w_raw_str (lm_text m) })"

definition read_LogMessage :: "(reader, LogMessage) state" where
  "read_LogMessage = do {
     level \<leftarrow> r_u8;
     skipped \<leftarrow> r_skip 3;
     text' \<leftarrow> r_rest_str;
     State_Monad.return \<lparr>lm_level = log_level_of_u8 level, lm_text = text'\<rparr> }"

definition decode_LogMessage :: "bytes \<Rightarrow> LogMessage option" where
  "decode_LogMessage payload = run_reader read_LogMessage payload"

section \<open>Wire layout and well-formed messages\<close>

text \<open>
  A string survives a fixed-width field when it fits and holds no NUL; an enumeration value
  survives when it is an enumerator (or a raw value that names none).
\<close>

definition wire_string :: "string \<Rightarrow> nat \<Rightarrow> bool" where
  "wire_string s n \<longleftrightarrow> length s \<le> n \<and> CHR 0x00 \<notin> set s"

definition enum_HostOs :: "HostOs \<Rightarrow> bool" where
  "enum_HostOs v \<longleftrightarrow> host_os_of_u8 (host_os_to_u8 v) = v"

definition enum_PointerAction :: "PointerAction \<Rightarrow> bool" where
  "enum_PointerAction v \<longleftrightarrow> pointer_action_of_u8 (pointer_action_to_u8 v) = v"

definition enum_MouseButton :: "MouseButton \<Rightarrow> bool" where
  "enum_MouseButton v \<longleftrightarrow> mouse_button_of_u8 (mouse_button_to_u8 v) = v"

definition enum_FrameFormat :: "FrameFormat \<Rightarrow> bool" where
  "enum_FrameFormat v \<longleftrightarrow> frame_format_of_u8 (frame_format_to_u8 v) = v"

definition enum_KeyAction :: "KeyAction \<Rightarrow> bool" where
  "enum_KeyAction v \<longleftrightarrow> key_action_of_u8 (key_action_to_u8 v) = v"

definition enum_LogLevel :: "LogLevel \<Rightarrow> bool" where
  "enum_LogLevel v \<longleftrightarrow> log_level_of_u8 (log_level_to_u8 v) = v"

definition payload_Hello :: "Hello \<Rightarrow> bytes" where
  "payload_Hello m =
     le16 (h_proto_ver m) @ le16 0 @ le32 (h_screen_w m) @ le32 (h_screen_h m) @ le32
     (h_density m) @ fixed_field (h_device m) kDeviceNameBytes"

definition wf_Hello :: "Hello \<Rightarrow> bool" where
  "wf_Hello m \<longleftrightarrow> wire_string (h_device m) kDeviceNameBytes"

definition payload_Ping :: "Ping \<Rightarrow> bytes" where
  "payload_Ping m =
     le64 (ping_t_send_us m)"

definition wf_Ping :: "Ping \<Rightarrow> bool" where
  "wf_Ping m \<longleftrightarrow> True"

definition payload_Pong :: "Pong \<Rightarrow> bytes" where
  "payload_Pong m =
     le64 (pong_t_send_us m) @ le64 (pong_t_reply_us m)"

definition wf_Pong :: "Pong \<Rightarrow> bool" where
  "wf_Pong m \<longleftrightarrow> True"

definition payload_Pointer :: "Pointer \<Rightarrow> bytes" where
  "payload_Pointer m =
     le64 (p_t_us m) @ le32 (p_x m) @ le32 (p_y m) @ [pointer_action_to_u8 (p_action m)] @
     [mouse_button_to_u8 (p_button m)] @ [p_pointer_id m] @ [p_flags m] @ le32 (p_pressure m)"

definition wf_Pointer :: "Pointer \<Rightarrow> bool" where
  "wf_Pointer m \<longleftrightarrow> enum_PointerAction (p_action m) \<and> enum_MouseButton (p_button m)"

definition payload_HostState :: "HostState \<Rightarrow> bytes" where
  "payload_HostState m =
     [if hs_enabled m then 1 else 0] @ [if hs_injecting m then 1 else 0] @ replicate 2 0"

definition wf_HostState :: "HostState \<Rightarrow> bool" where
  "wf_HostState m \<longleftrightarrow> True"

definition payload_ActiveWindow :: "ActiveWindow \<Rightarrow> bytes" where
  "payload_ActiveWindow m =
     le32 (aw_pid m) @ fixed_field (aw_process m) kProcessNameBytes"

definition wf_ActiveWindow :: "ActiveWindow \<Rightarrow> bool" where
  "wf_ActiveWindow m \<longleftrightarrow> wire_string (aw_process m) kProcessNameBytes"

definition payload_ViewportReq :: "ViewportReq \<Rightarrow> bytes" where
  "payload_ViewportReq m =
     le32 (vr_x m) @ le32 (vr_y m) @ le32 (vr_w m) @ le32 (vr_h m) @ le16 (vr_out_w m) @ le16
     (vr_out_h m) @ [vr_fps m] @ [frame_format_to_u8 (vr_format m)] @ [vr_tile m] @ [vr_flags
     m]"

definition wf_ViewportReq :: "ViewportReq \<Rightarrow> bool" where
  "wf_ViewportReq m \<longleftrightarrow> enum_FrameFormat (vr_format m)"

definition payload_Key :: "Key \<Rightarrow> bytes" where
  "payload_Key m =
     [k_modifiers m] @ [key_action_to_u8 (k_action m)] @ replicate 2 0 @ fixed_field (k_key
     m) kKeyNameBytes"

definition wf_Key :: "Key \<Rightarrow> bool" where
  "wf_Key m \<longleftrightarrow> enum_KeyAction (k_action m) \<and> wire_string (k_key m) kKeyNameBytes"

definition payload_Monitor :: "Monitor \<Rightarrow> bytes" where
  "payload_Monitor mon =
     le32 (mon_x mon) @ le32 (mon_y mon) @ le32 (mon_w mon) @ le32 (mon_h mon) @
     le32 (mon_dpi mon) @ [if mon_primary mon then 1 else 0] @ replicate 3 0"

definition payload_HelloAck :: "HelloAck \<Rightarrow> bytes" where
  "payload_HelloAck m =
     le16 (ha_proto_ver m) @ [host_os_to_u8 (ha_host_os m)] @ [of_nat (length (ha_monitors m))] @
     le32 (ha_vx m) @ le32 (ha_vy m) @ le32 (ha_vw m) @ le32 (ha_vh m) @ le32 0 @
     concat (map payload_Monitor (ha_monitors m))"

definition wf_HelloAck :: "HelloAck \<Rightarrow> bool" where
  "wf_HelloAck m \<longleftrightarrow> enum_HostOs (ha_host_os m) \<and> length (ha_monitors m) < 256"

definition payload_FrameInfo :: "FrameInfo \<Rightarrow> bytes" where
  "payload_FrameInfo m =
     le32 (fi_seq m) @ le32 (fi_x m) @ le32 (fi_y m) @ le32 (fi_w m) @ le32 (fi_h m) @
     le16 (fi_out_w m) @ le16 (fi_out_h m) @ [frame_format_to_u8 (fi_format m)] @ [fi_tile m] @
     replicate 2 0 @ le32 (fi_raw_bytes m) @ le32 (fi_payload_bytes m) @
     concat (map le16 (fi_tiles m))"

definition wf_FrameInfo :: "FrameInfo \<Rightarrow> bool" where
  "wf_FrameInfo m \<longleftrightarrow>
     enum_FrameFormat (fi_format m) \<and> 36 + 2 * length (fi_tiles m) \<le> unat kMaxPayload"

definition payload_FrameData :: "FrameData \<Rightarrow> bytes" where
  "payload_FrameData m = le32 (fd_seq m) @ le32 (fd_offset m) @ fd_bytes m"

definition wf_FrameData :: "FrameData \<Rightarrow> bool" where
  "wf_FrameData m \<longleftrightarrow> 8 + length (fd_bytes m) \<le> unat kMaxPayload"

definition payload_LogMessage :: "LogMessage \<Rightarrow> bytes" where
  "payload_LogMessage m =
     [log_level_to_u8 (lm_level m)] @ replicate 3 0 @ bytes_of_string (lm_text m)"

definition wf_LogMessage :: "LogMessage \<Rightarrow> bool" where
  "wf_LogMessage m \<longleftrightarrow>
     enum_LogLevel (lm_level m) \<and> CHR 0x00 \<notin> set (lm_text m) \<and>
     4 + length (lm_text m) \<le> unat kMaxPayload"

section \<open>Encoders write the layout\<close>

lemma unat_kMaxPayload [simp]: "unat kMaxPayload = 4194304"
  by (simp add: kMaxPayload_def)

lemma writes_all [io_intros]:
  assumes "\<And>x. writes (f x) (g x)"
  shows "writes (write_all f xs) (concat (map g xs))"
proof (induction xs)
  case Nil
  then show ?case by (simp add: writes_return)
next
  case (Cons x xs)
  from writes_bind [OF assms Cons] show ?case by simp
qed

lemma writes_Monitor [io_intros]: "writes (write_Monitor mon) (payload_Monitor mon)"
  unfolding write_Monitor_def payload_Monitor_def by (intro io_intros)

lemma encode_Hello_eq:
  "encode_Hello m = header Msg_Hello 0 (of_nat (length (payload_Hello m))) @ payload_Hello m"
  unfolding encode_Hello_def payload_Hello_def by (intro build_message_eq io_intros)

lemma encode_Ping_eq:
  "encode_Ping m = header Msg_Ping 0 (of_nat (length (payload_Ping m))) @ payload_Ping m"
  unfolding encode_Ping_def payload_Ping_def by (intro build_message_eq io_intros)

lemma encode_Pong_eq:
  "encode_Pong m = header Msg_Pong 0 (of_nat (length (payload_Pong m))) @ payload_Pong m"
  unfolding encode_Pong_def payload_Pong_def by (intro build_message_eq io_intros)

lemma encode_Pointer_eq:
  "encode_Pointer m = header Msg_Pointer 0 (of_nat (length (payload_Pointer m))) @ payload_Pointer m"
  unfolding encode_Pointer_def payload_Pointer_def by (intro build_message_eq io_intros)

lemma encode_HostState_eq:
  "encode_HostState m = header Msg_HostState 0 (of_nat (length (payload_HostState m))) @ payload_HostState m"
  unfolding encode_HostState_def payload_HostState_def by (intro build_message_eq io_intros)

lemma encode_ActiveWindow_eq:
  "encode_ActiveWindow m = header Msg_ActiveWindow 0 (of_nat (length (payload_ActiveWindow m))) @ payload_ActiveWindow m"
  unfolding encode_ActiveWindow_def payload_ActiveWindow_def by (intro build_message_eq io_intros)

lemma encode_ViewportReq_eq:
  "encode_ViewportReq m = header Msg_ViewportReq 0 (of_nat (length (payload_ViewportReq m))) @ payload_ViewportReq m"
  unfolding encode_ViewportReq_def payload_ViewportReq_def by (intro build_message_eq io_intros)

lemma encode_Key_eq:
  "encode_Key m = header Msg_Key 0 (of_nat (length (payload_Key m))) @ payload_Key m"
  unfolding encode_Key_def payload_Key_def by (intro build_message_eq io_intros)

lemma encode_HelloAck_eq:
  "encode_HelloAck m = header Msg_HelloAck 0 (of_nat (length (payload_HelloAck m))) @ payload_HelloAck m"
  unfolding encode_HelloAck_def payload_HelloAck_def by (intro build_message_eq io_intros)

lemma encode_FrameInfo_eq:
  "encode_FrameInfo m = header Msg_FrameInfo 0 (of_nat (length (payload_FrameInfo m))) @ payload_FrameInfo m"
  unfolding encode_FrameInfo_def payload_FrameInfo_def by (intro build_message_eq io_intros)

lemma encode_FrameData_eq:
  "encode_FrameData m = header Msg_FrameData 0 (of_nat (length (payload_FrameData m))) @ payload_FrameData m"
  unfolding encode_FrameData_def payload_FrameData_def by (intro build_message_eq io_intros)

lemma encode_LogMessage_eq:
  "encode_LogMessage m = header Msg_Log 0 (of_nat (length (payload_LogMessage m))) @ payload_LogMessage m"
  unfolding encode_LogMessage_def payload_LogMessage_def by (intro build_message_eq io_intros)

section \<open>Decoders read the layout\<close>

lemma reads_eqI: "reads m bs v \<Longrightarrow> v = w \<Longrightarrow> reads m bs w"
  by simp

lemma reads_all_eqI: "reads_all m bs v \<Longrightarrow> v = w \<Longrightarrow> reads_all m bs w"
  by simp

lemma wire_string_id: "wire_string s n \<Longrightarrow> c_str (take n s) = s"
  by (simp add: wire_string_def c_str_id)

lemmas enum_defs = enum_HostOs_def enum_PointerAction_def enum_MouseButton_def
  enum_FrameFormat_def enum_KeyAction_def enum_LogLevel_def

lemma reads_Hello: "wf_Hello m \<Longrightarrow> reads read_Hello (payload_Hello m) m"
  unfolding read_Hello_def payload_Hello_def
  by (rule reads_eqI, (rule io_intros reads_map)+) (simp add: wf_Hello_def enum_defs wire_string_id)

lemma reads_Ping: "wf_Ping m \<Longrightarrow> reads read_Ping (payload_Ping m) m"
  unfolding read_Ping_def payload_Ping_def
  by (rule reads_eqI, (rule io_intros reads_map)+) (simp add: wf_Ping_def enum_defs wire_string_id)

lemma reads_Pong: "wf_Pong m \<Longrightarrow> reads read_Pong (payload_Pong m) m"
  unfolding read_Pong_def payload_Pong_def
  by (rule reads_eqI, (rule io_intros reads_map)+) (simp add: wf_Pong_def enum_defs wire_string_id)

lemma reads_Pointer: "wf_Pointer m \<Longrightarrow> reads read_Pointer (payload_Pointer m) m"
  unfolding read_Pointer_def payload_Pointer_def
  by (rule reads_eqI, (rule io_intros reads_map)+) (simp add: wf_Pointer_def enum_defs wire_string_id)

lemma reads_HostState: "wf_HostState m \<Longrightarrow> reads read_HostState (payload_HostState m) m"
  unfolding read_HostState_def payload_HostState_def
  by (rule reads_eqI, (rule io_intros reads_map)+) (simp add: wf_HostState_def enum_defs wire_string_id)

lemma reads_ActiveWindow: "wf_ActiveWindow m \<Longrightarrow> reads read_ActiveWindow (payload_ActiveWindow m) m"
  unfolding read_ActiveWindow_def payload_ActiveWindow_def
  by (rule reads_eqI, (rule io_intros reads_map)+) (simp add: wf_ActiveWindow_def enum_defs wire_string_id)

lemma reads_ViewportReq: "wf_ViewportReq m \<Longrightarrow> reads read_ViewportReq (payload_ViewportReq m) m"
  unfolding read_ViewportReq_def payload_ViewportReq_def
  by (rule reads_eqI, (rule io_intros reads_map)+) (simp add: wf_ViewportReq_def enum_defs wire_string_id)

lemma reads_Key: "wf_Key m \<Longrightarrow> reads read_Key (payload_Key m) m"
  unfolding read_Key_def payload_Key_def
  by (rule reads_eqI, (rule io_intros reads_map)+) (simp add: wf_Key_def enum_defs wire_string_id)

lemma reads_Monitor [io_intros]: "reads read_Monitor (payload_Monitor mon) mon"
  unfolding read_Monitor_def payload_Monitor_def
  by (rule reads_eqI, (rule io_intros reads_map)+) simp

lemma reads_if_ok:
  assumes "reads m bs v"
  shows "reads (do { r \<leftarrow> State_Monad.get; if r_ok r then m else m' }) bs v"
  using assms by (auto simp: reads_def reader_at_def)

lemma reads_monitors:
  "reads (read_monitors (length ms)) (concat (map payload_Monitor ms)) ms"
proof (induction ms)
  case Nil
  then show ?case by (simp add: reads_return)
next
  case (Cons mon ms)
  have "reads (do { mon' \<leftarrow> read_Monitor; mons \<leftarrow> read_monitors (length ms);
      State_Monad.return (mon' # mons) }) (payload_Monitor mon @ concat (map payload_Monitor ms)) (mon # ms)"
    by (rule reads_bind [OF reads_Monitor reads_map [OF Cons]])
  then show ?case by (simp add: reads_if_ok)
qed

lemma reads_HelloAck:
  assumes "wf_HelloAck m"
  shows "reads read_HelloAck (payload_HelloAck m) m"
proof -
  have "unat (of_nat (length (ha_monitors m)) :: u8) = length (ha_monitors m)"
    using assms by (simp add: wf_HelloAck_def unat_of_nat)
  with reads_monitors [of "ha_monitors m"]
  have mons: "reads (read_monitors (unat (of_nat (length (ha_monitors m)) :: u8)))
      (concat (map payload_Monitor (ha_monitors m))) (ha_monitors m)"
    by simp
  show ?thesis
    unfolding read_HelloAck_def payload_HelloAck_def using assms
    by - (rule reads_eqI, (rule mons io_intros reads_map)+, simp add: wf_HelloAck_def enum_defs)
qed

lemma reads_all_tiles: "reads_all (State read_tiles) (concat (map le16 ts)) ts"
proof (induction ts)
  case Nil
  show ?case
    by (auto simp: reads_all_def read_tiles.simps [of r for r] reader_at_def r_remaining_def r_done_def)
next
  case (Cons t ts)
  show ?case
    unfolding reads_all_def
  proof (intro allI impI)
    fix r
    assume at: "reader_at r (concat (map le16 (t # ts)))"
    then have "r_ok r \<and> 2 \<le> r_remaining r"
      by (auto simp: reader_at_def r_remaining_def dest: arg_cong [where f = length])
    moreover obtain r1 where "run_state r_u16 r = (t, r1)" "reader_at r1 (concat (map le16 ts))"
      using at reads_u16 [of t] by (auto simp: reads_def)
    moreover obtain r2 where "read_tiles r1 = (ts, r2)" "r_done r2"
      using Cons calculation(3) by (auto simp: reads_all_def)
    ultimately show "\<exists>r'. run_state (State read_tiles) r = (t # ts, r') \<and> r_done r'"
      by (subst state.sel, subst read_tiles.simps) simp
  qed
qed

lemma reads_all_FrameInfo: "wf_FrameInfo m \<Longrightarrow> reads_all read_FrameInfo (payload_FrameInfo m) m"
  unfolding read_FrameInfo_def payload_FrameInfo_def
  by (rule reads_all_eqI, (rule io_intros reads_all_bind reads_all_map reads_all_tiles)+)
     (simp add: wf_FrameInfo_def enum_defs)

lemma reads_all_FrameData: "reads_all read_FrameData (payload_FrameData m) m"
  unfolding read_FrameData_def payload_FrameData_def
  by (rule reads_all_eqI, (rule io_intros reads_all_bind reads_all_map reads_all_rest_bytes)+) simp

lemma reads_all_LogMessage:
  "wf_LogMessage m \<Longrightarrow> reads_all read_LogMessage (payload_LogMessage m) m"
  unfolding read_LogMessage_def payload_LogMessage_def
  by (rule reads_all_eqI, (rule io_intros reads_all_bind reads_all_map reads_all_rest_str)+)
     (simp add: wf_LogMessage_def enum_defs c_str_id)

section \<open>Payload sizes\<close>

lemma length_payload_Hello [simp]: "length (payload_Hello m) = 80"
  by (simp add: payload_Hello_def kDeviceNameBytes_def)

lemma length_payload_Ping [simp]: "length (payload_Ping m) = 8"
  by (simp add: payload_Ping_def )

lemma length_payload_Pong [simp]: "length (payload_Pong m) = 16"
  by (simp add: payload_Pong_def )

lemma length_payload_Pointer [simp]: "length (payload_Pointer m) = 24"
  by (simp add: payload_Pointer_def )

lemma length_payload_HostState [simp]: "length (payload_HostState m) = 4"
  by (simp add: payload_HostState_def )

lemma length_payload_ActiveWindow [simp]: "length (payload_ActiveWindow m) = 68"
  by (simp add: payload_ActiveWindow_def kProcessNameBytes_def)

lemma length_payload_ViewportReq [simp]: "length (payload_ViewportReq m) = 24"
  by (simp add: payload_ViewportReq_def )

lemma length_payload_Key [simp]: "length (payload_Key m) = 20"
  by (simp add: payload_Key_def kKeyNameBytes_def)

lemma length_concat_const: "(\<And>x. length (f x) = k) \<Longrightarrow> length (concat (map f xs)) = k * length xs"
  by (induction xs) auto

lemma length_payload_HelloAck [simp]:
  "length (payload_HelloAck m) = 24 + 24 * length (ha_monitors m)"
  by (simp add: payload_HelloAck_def length_concat_const [of _ 24] payload_Monitor_def)

lemma length_payload_FrameInfo [simp]:
  "length (payload_FrameInfo m) = 36 + 2 * length (fi_tiles m)"
  by (simp add: payload_FrameInfo_def length_concat_const [of _ 2])

lemma length_payload_FrameData [simp]: "length (payload_FrameData m) = 8 + length (fd_bytes m)"
  by (simp add: payload_FrameData_def)

lemma length_payload_LogMessage [simp]: "length (payload_LogMessage m) = 4 + length (lm_text m)"
  by (simp add: payload_LogMessage_def)

text \<open>How much each fixed-size reader consumes.\<close>

lemma consumes_eqI: "consumes m n \<Longrightarrow> n = k \<Longrightarrow> consumes m k"
  by simp

lemma consumes_Hello: "consumes read_Hello 80"
  unfolding read_Hello_def by (rule consumes_eqI, (rule io_intros)+) (simp add: kDeviceNameBytes_def)

lemma consumes_Ping: "consumes read_Ping 8"
  unfolding read_Ping_def by (rule consumes_eqI, (rule io_intros)+) simp

lemma consumes_Pong: "consumes read_Pong 16"
  unfolding read_Pong_def by (rule consumes_eqI, (rule io_intros)+) simp

lemma consumes_Pointer: "consumes read_Pointer 24"
  unfolding read_Pointer_def by (rule consumes_eqI, (rule io_intros)+) simp

lemma consumes_HostState: "consumes read_HostState 4"
  unfolding read_HostState_def by (rule consumes_eqI, (rule io_intros)+) simp

lemma consumes_ActiveWindow: "consumes read_ActiveWindow 68"
  unfolding read_ActiveWindow_def by (rule consumes_eqI, (rule io_intros)+) (simp add: kProcessNameBytes_def)

lemma consumes_ViewportReq: "consumes read_ViewportReq 24"
  unfolding read_ViewportReq_def by (rule consumes_eqI, (rule io_intros)+) simp

lemma consumes_Key: "consumes read_Key 20"
  unfolding read_Key_def by (rule consumes_eqI, (rule io_intros)+) (simp add: kKeyNameBytes_def)

text \<open>The tile list of FRAME\_INFO takes pairs of bytes until fewer than two are left.\<close>

lemma read_tiles_rest:
  "r_ok r \<Longrightarrow> r_pos r \<le> length (r_in r) \<Longrightarrow> read_tiles r = (vs, r') \<Longrightarrow>
   r_in r' = r_in r \<and> r_ok r' \<and> r_pos r' \<le> length (r_in r) \<and>
   length (r_in r) - r_pos r' = (length (r_in r) - r_pos r) mod 2"
proof (induction r arbitrary: vs r' rule: read_tiles.induct)
  case (1 r)
  show ?case
  proof (cases "2 \<le> r_remaining r")
    case False
    with 1(2-4) show ?thesis by (auto simp: read_tiles.simps [of r] r_remaining_def)
  next
    case True
    obtain v r1 where u: "run_state r_u16 r = (v, r1)" by fastforce
    obtain vs' r2 where t: "read_tiles r1 = (vs', r2)" by fastforce
    from consumes_u16 u True 1(2,3) have r1: "r_in r1 = r_in r" "r_ok r1" "r_pos r1 = r_pos r + 2"
      "r_pos r1 \<le> length (r_in r1)"
      by (auto simp: consumes_def Let_def r_remaining_def dest!: spec [of _ r])
    have r': "r' = r2" using 1(2,4) True u t by (simp add: read_tiles.simps [of r])
    have "r_ok r \<and> 2 \<le> r_remaining r" using 1(2) True by simp
    from 1(1) [OF this refl u [symmetric] r1(2) r1(4) t]
    have ih: "r_in r2 = r_in r1 \<and> r_ok r2 \<and> r_pos r2 \<le> length (r_in r1) \<and>
      length (r_in r1) - r_pos r2 = (length (r_in r1) - r_pos r1) mod 2" .
    have "length (r_in r) - r_pos r = (length (r_in r) - r_pos r1) + 2"
      using True r1 1(2) by (simp add: r_remaining_def)
    then show ?thesis using ih r1 r' by simp
  qed
qed

text \<open>
  The three messages with a variable tail: \<open>accepts m n P\<close> says that \<open>m\<close> ends with the
  payload consumed exactly when at least \<open>n\<close> bytes were left and the tail satisfies
  \<open>P\<close>.
\<close>

definition accepts :: "(reader, 'a) state \<Rightarrow> nat \<Rightarrow> (nat \<Rightarrow> bool) \<Rightarrow> bool" where
  "accepts m n P \<longleftrightarrow>
     (\<forall>r. r_pos r \<le> length (r_in r) \<longrightarrow>
        (r_done (snd (run_state m r)) \<longleftrightarrow>
           r_ok r \<and> n \<le> length (r_in r) - r_pos r \<and> P (length (r_in r) - r_pos r - n)))"

lemma accepts_bind:
  assumes "consumes m a" and "\<And>v. accepts (f v) b P"
  shows "accepts (State_Monad.bind m f) (a + b) P"
  unfolding accepts_def
proof (intro allI impI)
  fix r :: reader
  assume le: "r_pos r \<le> length (r_in r)"
  obtain v r1 where 1: "run_state m r = (v, r1)" by fastforce
  from assms(1) le 1 have r1: "r_in r1 = r_in r" "r_pos r1 \<le> length (r_in r)"
    "r_ok r1 \<longleftrightarrow> r_ok r \<and> a \<le> length (r_in r) - r_pos r" "r_ok r1 \<longrightarrow> r_pos r1 = r_pos r + a"
    by (auto simp: consumes_def Let_def dest!: spec [of _ r])
  from assms(2) [of v] r1 have "r_done (snd (run_state (f v) r1)) \<longleftrightarrow>
      r_ok r1 \<and> b \<le> length (r_in r) - r_pos r1 \<and> P (length (r_in r) - r_pos r1 - b)"
    by (auto simp: accepts_def)
  then show "r_done (snd (run_state (State_Monad.bind m f) r)) \<longleftrightarrow>
      r_ok r \<and> a + b \<le> length (r_in r) - r_pos r \<and> P (length (r_in r) - r_pos r - (a + b))"
    using 1 r1 by (auto simp: add.assoc)
qed

lemma accepts_map:
  "accepts m n P \<Longrightarrow> accepts (State_Monad.bind m (\<lambda>x. State_Monad.return (f x))) n P"
proof -
  have "snd (run_state (State_Monad.bind m (\<lambda>x. State_Monad.return (f x))) r) = snd (run_state m r)" for r
    by (simp split: prod.splits)
  then show "accepts m n P \<Longrightarrow> ?thesis" by (simp add: accepts_def)
qed

lemma accepts_tiles: "accepts (State read_tiles) 0 even"
  unfolding accepts_def
proof (intro allI impI)
  fix r :: reader
  assume le: "r_pos r \<le> length (r_in r)"
  obtain vs r' where t: "read_tiles r = (vs, r')" by fastforce
  show "r_done (snd (run_state (State read_tiles) r)) \<longleftrightarrow>
      r_ok r \<and> 0 \<le> length (r_in r) - r_pos r \<and> even (length (r_in r) - r_pos r - 0)"
  proof (cases "r_ok r")
    case True
    from read_tiles_rest [OF True le t] t True show ?thesis
      by (auto simp: r_done_def even_iff_mod_2_eq_zero)
  next
    case False
    then show ?thesis by (simp add: read_tiles.simps [of r] r_done_def)
  qed
qed

lemma accepts_rest_bytes: "accepts r_rest_bytes 0 (\<lambda>_. True)"
  by (auto simp: accepts_def r_rest_bytes_def r_done_def)

lemma accepts_rest_str: "accepts r_rest_str 0 (\<lambda>_. True)"
  by (auto simp: accepts_def r_rest_str_def r_fixed_str_def r_need_def r_remaining_def r_done_def)

lemma accepts_eqI: "accepts m n P \<Longrightarrow> n = k \<Longrightarrow> accepts m k P"
  by simp

lemma run_reader_accepts:
  "accepts m n P \<Longrightarrow> run_reader m bs \<noteq> None \<longleftrightarrow> n \<le> length bs \<and> P (length bs - n)"
  by (auto simp: accepts_def run_reader_def reader_init_def split: prod.splits
      dest!: spec [of _ "reader_init bs"])

lemma accepts_FrameInfo: "accepts read_FrameInfo 36 even"
  unfolding read_FrameInfo_def
  by (rule accepts_eqI, (rule accepts_map accepts_tiles accepts_bind io_intros)+) simp

lemma accepts_FrameData: "accepts read_FrameData 8 (\<lambda>_. True)"
  unfolding read_FrameData_def
  by (rule accepts_eqI, (rule accepts_map accepts_rest_bytes accepts_bind io_intros)+) simp

lemma accepts_LogMessage: "accepts read_LogMessage 4 (\<lambda>_. True)"
  unfolding read_LogMessage_def
  by (rule accepts_eqI, (rule accepts_map accepts_rest_str accepts_bind io_intros)+) simp

section \<open>The codec interface\<close>

locale message_codec =
  fixes mtype :: MsgType
    and enc :: "'m \<Rightarrow> bytes"
    and dec :: "bytes \<Rightarrow> 'm option"
    and payload :: "'m \<Rightarrow> bytes"
    and wf :: "'m \<Rightarrow> bool"
  assumes enc_framed: "enc m = header mtype 0 (of_nat (length (payload m))) @ payload m"
    and payload_size: "wf m \<Longrightarrow> length (payload m) \<le> unat kMaxPayload"
    and dec_payload: "wf m \<Longrightarrow> dec (payload m) = Some m"
begin

lemma dec_enc: "wf m \<Longrightarrow> dec (drop kHeaderSize (enc m)) = Some m"
  by (simp add: enc_framed dec_payload)

lemma enc_inject: "wf m \<Longrightarrow> wf m' \<Longrightarrow> enc m = enc m' \<Longrightarrow> m = m'"
  using dec_enc by (metis option.inject)

lemma length_enc: "length (enc m) = kHeaderSize + length (payload m)"
  by (simp add: enc_framed)

end

interpretation Hello_codec: message_codec Msg_Hello encode_Hello decode_Hello payload_Hello wf_Hello
  by unfold_locales
    (simp_all add: encode_Hello_eq wf_Hello_def,
     simp add: decode_Hello_def wf_Hello_def run_reader_reads [OF reads_Hello])

interpretation HelloAck_codec: message_codec Msg_HelloAck encode_HelloAck decode_HelloAck payload_HelloAck wf_HelloAck
  by unfold_locales
    (simp_all add: encode_HelloAck_eq wf_HelloAck_def,
     simp add: decode_HelloAck_def wf_HelloAck_def run_reader_reads [OF reads_HelloAck])

interpretation Ping_codec: message_codec Msg_Ping encode_Ping decode_Ping payload_Ping wf_Ping
  by unfold_locales
    (simp_all add: encode_Ping_eq wf_Ping_def,
     simp add: decode_Ping_def wf_Ping_def run_reader_reads [OF reads_Ping])

interpretation Pong_codec: message_codec Msg_Pong encode_Pong decode_Pong payload_Pong wf_Pong
  by unfold_locales
    (simp_all add: encode_Pong_eq wf_Pong_def,
     simp add: decode_Pong_def wf_Pong_def run_reader_reads [OF reads_Pong])

interpretation Pointer_codec: message_codec Msg_Pointer encode_Pointer decode_Pointer payload_Pointer wf_Pointer
  by unfold_locales
    (simp_all add: encode_Pointer_eq wf_Pointer_def,
     simp add: decode_Pointer_def wf_Pointer_def run_reader_reads [OF reads_Pointer])

interpretation HostState_codec: message_codec Msg_HostState encode_HostState decode_HostState payload_HostState wf_HostState
  by unfold_locales
    (simp_all add: encode_HostState_eq wf_HostState_def,
     simp add: decode_HostState_def wf_HostState_def run_reader_reads [OF reads_HostState])

interpretation ActiveWindow_codec: message_codec Msg_ActiveWindow encode_ActiveWindow decode_ActiveWindow payload_ActiveWindow wf_ActiveWindow
  by unfold_locales
    (simp_all add: encode_ActiveWindow_eq wf_ActiveWindow_def,
     simp add: decode_ActiveWindow_def wf_ActiveWindow_def run_reader_reads [OF reads_ActiveWindow])

interpretation ViewportReq_codec: message_codec Msg_ViewportReq encode_ViewportReq decode_ViewportReq payload_ViewportReq wf_ViewportReq
  by unfold_locales
    (simp_all add: encode_ViewportReq_eq wf_ViewportReq_def,
     simp add: decode_ViewportReq_def wf_ViewportReq_def run_reader_reads [OF reads_ViewportReq])

interpretation FrameInfo_codec: message_codec Msg_FrameInfo encode_FrameInfo decode_FrameInfo payload_FrameInfo wf_FrameInfo
  by unfold_locales
    (simp_all add: encode_FrameInfo_eq wf_FrameInfo_def,
     simp add: decode_FrameInfo_def wf_FrameInfo_def run_reader_reads_all [OF reads_all_FrameInfo])

interpretation FrameData_codec: message_codec Msg_FrameData encode_FrameData decode_FrameData payload_FrameData wf_FrameData
  by unfold_locales
    (simp_all add: encode_FrameData_eq wf_FrameData_def,
     simp add: decode_FrameData_def wf_FrameData_def run_reader_reads_all [OF reads_all_FrameData])

interpretation Key_codec: message_codec Msg_Key encode_Key decode_Key payload_Key wf_Key
  by unfold_locales
    (simp_all add: encode_Key_eq wf_Key_def,
     simp add: decode_Key_def wf_Key_def run_reader_reads [OF reads_Key])

interpretation LogMessage_codec: message_codec Msg_Log encode_LogMessage decode_LogMessage payload_LogMessage wf_LogMessage
  by unfold_locales
    (simp_all add: encode_LogMessage_eq wf_LogMessage_def,
     simp add: decode_LogMessage_def wf_LogMessage_def run_reader_reads_all [OF reads_all_LogMessage])

section \<open>Example messages\<close>

definition ex_Hello :: Hello where
  "ex_Hello = \<lparr>h_proto_ver = 1, h_screen_w = 2340, h_screen_h = 1080, h_density = 0x40400000,
     h_device = ''Digitiz guest''\<rparr>"

definition ex_HelloAck :: HelloAck where
  "ex_HelloAck = \<lparr>ha_proto_ver = 1, ha_host_os = Os_Windows, ha_vx = - 1920, ha_vy = 0,
     ha_vw = 3840, ha_vh = 1080,
     ha_monitors = [\<lparr>mon_x = - 1920, mon_y = 0, mon_w = 1920, mon_h = 1080, mon_dpi = 96,
       mon_primary = True\<rparr>]\<rparr>"

definition ex_Ping :: Ping where "ex_Ping = \<lparr>ping_t_send_us = 123456789\<rparr>"

definition ex_Pong :: Pong where "ex_Pong = \<lparr>pong_t_send_us = 7, pong_t_reply_us = 9\<rparr>"

definition ex_Pointer :: Pointer where
  "ex_Pointer = \<lparr>p_t_us = 77, p_x = - 5, p_y = 300, p_action = Action_Down,
     p_button = Button_Left, p_pointer_id = 0, p_flags = 0, p_pressure = 0x3F800000\<rparr>"

definition ex_HostState :: HostState where
  "ex_HostState = \<lparr>hs_enabled = True, hs_injecting = False\<rparr>"

definition ex_ActiveWindow :: ActiveWindow where
  "ex_ActiveWindow = \<lparr>aw_pid = 4242, aw_process = ''krita.exe''\<rparr>"

definition ex_ViewportReq :: ViewportReq where
  "ex_ViewportReq = \<lparr>vr_x = 0, vr_y = 0, vr_w = 1920, vr_h = 1080, vr_out_w = 960,
     vr_out_h = 540, vr_fps = 30, vr_format = Format_Etc2Rgb8, vr_tile = 64, vr_flags = 0\<rparr>"

definition ex_FrameInfo :: FrameInfo where
  "ex_FrameInfo = \<lparr>fi_seq = 1, fi_x = 0, fi_y = 0, fi_w = 128, fi_h = 64, fi_out_w = 128,
     fi_out_h = 64, fi_format = Format_Etc2Rgb8, fi_tile = 64, fi_raw_bytes = 4096,
     fi_payload_bytes = 5, fi_tiles = [0, 1]\<rparr>"

definition ex_FrameData :: FrameData where
  "ex_FrameData = \<lparr>fd_seq = 1, fd_offset = 0, fd_bytes = [1, 2, 3, 4, 5]\<rparr>"

definition ex_Key :: Key where
  "ex_Key = \<lparr>k_modifiers = 3, k_action = Key_Press, k_key = ''s''\<rparr>"

definition ex_LogMessage :: LogMessage where
  "ex_LogMessage = \<lparr>lm_level = Level_Warn, lm_text = ''low battery''\<rparr>"

lemmas ex_defs = ex_Hello_def ex_HelloAck_def ex_Ping_def ex_Pong_def ex_Pointer_def
  ex_HostState_def ex_ActiveWindow_def ex_ViewportReq_def ex_FrameInfo_def ex_FrameData_def
  ex_Key_def ex_LogMessage_def

lemma wf_examples:
  "wf_Hello ex_Hello" "wf_HelloAck ex_HelloAck" "wf_Ping ex_Ping" "wf_Pong ex_Pong"
  "wf_Pointer ex_Pointer" "wf_HostState ex_HostState" "wf_ActiveWindow ex_ActiveWindow"
  "wf_ViewportReq ex_ViewportReq" "wf_FrameInfo ex_FrameInfo" "wf_FrameData ex_FrameData"
  "wf_Key ex_Key" "wf_LogMessage ex_LogMessage"
  by (simp_all add: ex_defs wf_Hello_def wf_HelloAck_def wf_Ping_def wf_Pong_def wf_Pointer_def
      wf_HostState_def wf_ActiveWindow_def wf_ViewportReq_def wf_FrameInfo_def wf_FrameData_def
      wf_Key_def wf_LogMessage_def wire_string_def enum_defs host_os_of_u8_def
      pointer_action_of_u8_def mouse_button_of_u8_def frame_format_of_u8_def key_action_of_u8_def
      log_level_of_u8_def kDeviceNameBytes_def kProcessNameBytes_def kKeyNameBytes_def)

section \<open>Properties\<close>

text \<open>
  C11: every message survives the wire. For each of the twelve message types, decoding the
  payload of the encoded message gives back exactly the message, for every message whose strings
  fit their fields without a NUL, whose enumeration values are canonical, whose monitor list is
  shorter than 256 and whose payload is within the protocol's limit.
\<close>

theorem messages_roundtrip:
  "(wf_Hello h \<longrightarrow> decode_Hello (drop kHeaderSize (encode_Hello h)) = Some h) \<and>
   (wf_HelloAck ha \<longrightarrow> decode_HelloAck (drop kHeaderSize (encode_HelloAck ha)) = Some ha) \<and>
   (wf_Ping pi \<longrightarrow> decode_Ping (drop kHeaderSize (encode_Ping pi)) = Some pi) \<and>
   (wf_Pong po \<longrightarrow> decode_Pong (drop kHeaderSize (encode_Pong po)) = Some po) \<and>
   (wf_Pointer p \<longrightarrow> decode_Pointer (drop kHeaderSize (encode_Pointer p)) = Some p) \<and>
   (wf_HostState hs \<longrightarrow> decode_HostState (drop kHeaderSize (encode_HostState hs)) = Some hs) \<and>
   (wf_ActiveWindow aw \<longrightarrow> decode_ActiveWindow (drop kHeaderSize (encode_ActiveWindow aw)) = Some aw) \<and>
   (wf_ViewportReq vr \<longrightarrow> decode_ViewportReq (drop kHeaderSize (encode_ViewportReq vr)) = Some vr) \<and>
   (wf_FrameInfo fi \<longrightarrow> decode_FrameInfo (drop kHeaderSize (encode_FrameInfo fi)) = Some fi) \<and>
   (wf_FrameData fd \<longrightarrow> decode_FrameData (drop kHeaderSize (encode_FrameData fd)) = Some fd) \<and>
   (wf_Key k \<longrightarrow> decode_Key (drop kHeaderSize (encode_Key k)) = Some k) \<and>
   (wf_LogMessage lm \<longrightarrow> decode_LogMessage (drop kHeaderSize (encode_LogMessage lm)) = Some lm)"
  by (intro conjI impI)
    (erule Hello_codec.dec_enc
      HelloAck_codec.dec_enc
      Ping_codec.dec_enc
      Pong_codec.dec_enc
      Pointer_codec.dec_enc
      HostState_codec.dec_enc
      ActiveWindow_codec.dec_enc
      ViewportReq_codec.dec_enc
      FrameInfo_codec.dec_enc
      FrameData_codec.dec_enc
      Key_codec.dec_enc
      LogMessage_codec.dec_enc)+

theorem messages_roundtrip_witness:
  "decode_Hello (drop kHeaderSize (encode_Hello ex_Hello)) = Some ex_Hello \<and>
   decode_HelloAck (drop kHeaderSize (encode_HelloAck ex_HelloAck)) = Some ex_HelloAck \<and>
   decode_Ping (drop kHeaderSize (encode_Ping ex_Ping)) = Some ex_Ping \<and>
   decode_Pong (drop kHeaderSize (encode_Pong ex_Pong)) = Some ex_Pong \<and>
   decode_Pointer (drop kHeaderSize (encode_Pointer ex_Pointer)) = Some ex_Pointer \<and>
   decode_HostState (drop kHeaderSize (encode_HostState ex_HostState)) = Some ex_HostState \<and>
   decode_ActiveWindow (drop kHeaderSize (encode_ActiveWindow ex_ActiveWindow)) = Some ex_ActiveWindow \<and>
   decode_ViewportReq (drop kHeaderSize (encode_ViewportReq ex_ViewportReq)) = Some ex_ViewportReq \<and>
   decode_FrameInfo (drop kHeaderSize (encode_FrameInfo ex_FrameInfo)) = Some ex_FrameInfo \<and>
   decode_FrameData (drop kHeaderSize (encode_FrameData ex_FrameData)) = Some ex_FrameData \<and>
   decode_Key (drop kHeaderSize (encode_Key ex_Key)) = Some ex_Key \<and>
   decode_LogMessage (drop kHeaderSize (encode_LogMessage ex_LogMessage)) = Some ex_LogMessage"
  using messages_roundtrip [of ex_Hello ex_HelloAck ex_Ping ex_Pong ex_Pointer ex_HostState ex_ActiveWindow ex_ViewportReq ex_FrameInfo ex_FrameData ex_Key ex_LogMessage]
  by (simp only: wf_examples simp_thms)

text \<open>
  C12: decoding accepts exactly the payloads of the documented size. A fixed-size message is
  accepted iff the payload has its size to the byte; FRAME\_INFO iff the 36 fixed bytes are
  followed by an even number of bytes; FRAME\_DATA and LOG iff their fixed part is there. A
  short, long or odd payload is refused, whatever its content.
\<close>

theorem decode_accepts_exact_sizes:
  "(decode_Hello bs \<noteq> None \<longleftrightarrow> length bs = 80) \<and>
   (decode_Ping bs \<noteq> None \<longleftrightarrow> length bs = 8) \<and>
   (decode_Pong bs \<noteq> None \<longleftrightarrow> length bs = 16) \<and>
   (decode_Pointer bs \<noteq> None \<longleftrightarrow> length bs = 24) \<and>
   (decode_HostState bs \<noteq> None \<longleftrightarrow> length bs = 4) \<and>
   (decode_ActiveWindow bs \<noteq> None \<longleftrightarrow> length bs = 68) \<and>
   (decode_ViewportReq bs \<noteq> None \<longleftrightarrow> length bs = 24) \<and>
   (decode_Key bs \<noteq> None \<longleftrightarrow> length bs = 20) \<and>
   (decode_FrameInfo bs \<noteq> None \<longleftrightarrow> 36 \<le> length bs \<and> even (length bs - 36)) \<and>
   (decode_FrameData bs \<noteq> None \<longleftrightarrow> 8 \<le> length bs) \<and>
   (decode_LogMessage bs \<noteq> None \<longleftrightarrow> 4 \<le> length bs)"
  unfolding decode_Hello_def decode_Ping_def decode_Pong_def decode_Pointer_def
    decode_HostState_def decode_ActiveWindow_def decode_ViewportReq_def decode_Key_def
    decode_FrameInfo_def decode_FrameData_def decode_LogMessage_def
    run_reader_consumes [OF consumes_Hello] run_reader_consumes [OF consumes_Ping]
    run_reader_consumes [OF consumes_Pong] run_reader_consumes [OF consumes_Pointer]
    run_reader_consumes [OF consumes_HostState] run_reader_consumes [OF consumes_ActiveWindow]
    run_reader_consumes [OF consumes_ViewportReq] run_reader_consumes [OF consumes_Key]
    run_reader_accepts [OF accepts_FrameInfo] run_reader_accepts [OF accepts_FrameData]
    run_reader_accepts [OF accepts_LogMessage]
  by simp

end
