(* ===== verification/Framer.thy ===== *)
theory Framer
  imports Messages
begin

text \<open>
  The message framer of \<open>common/include/digitiz/proto/framer.hpp\<close>: a byte buffer with a read
  cursor, \<open>push\<close> appending whatever the socket delivered, \<open>drain\<close> handing out every
  complete message and resynchronising on the magic bytes when it is not on a header.

  The abstract specification is \<open>parse\<close>, a function on the pending bytes alone. \<open>drain\<close>
  refines it, whatever the layout of the buffer and whenever the consumed prefix is compacted
  away. On top of it: the delivered messages do not depend on how the stream was cut into
  receives; well-formed messages come out unchanged, in order, with no byte discarded; and the
  framer recovers behind garbage.
\<close>

section \<open>Definitions\<close>

type_synonym frame = "MsgType \<times> u8 \<times> bytes"

record framer =
  f_buf :: bytes
  f_read :: nat
  f_resync_bytes :: u64

definition kCompactThreshold :: nat where "kCompactThreshold = 64 * 1024"

definition framer_init :: framer where
  "framer_init = \<lparr>f_buf = [], f_read = 0, f_resync_bytes = 0\<rparr>"

definition framer_push :: "bytes \<Rightarrow> framer \<Rightarrow> framer" where
  "framer_push data f = f\<lparr>f_buf := f_buf f @ data\<rparr>"

definition buffered :: "framer \<Rightarrow> nat" where
  "buffered f = length (f_buf f) - f_read f"

definition u32_at :: "framer \<Rightarrow> nat \<Rightarrow> u32" where
  "u32_at f i =
     ucast (f_buf f ! i) OR push_bit 8 (ucast (f_buf f ! (i + 1))) OR
     push_bit 16 (ucast (f_buf f ! (i + 2))) OR push_bit 24 (ucast (f_buf f ! (i + 3)))"

definition drop_byte :: "framer \<Rightarrow> framer" where
  "drop_byte f = f\<lparr>f_read := f_read f + 1, f_resync_bytes := f_resync_bytes f + 1\<rparr>"

definition framer_reset :: "framer \<Rightarrow> framer" where
  "framer_reset f = f\<lparr>f_buf := [], f_read := 0\<rparr>"

function seek_magic :: "framer \<Rightarrow> bool \<times> framer" where
  "seek_magic f =
     (if buffered f < 1 then (False, f)
      else if f_buf f ! f_read f \<noteq> kMagicByte0 then seek_magic (drop_byte f)
      else if buffered f < 2 then (False, f)
      else if f_buf f ! (f_read f + 1) \<noteq> kMagicByte1 then seek_magic (drop_byte f)
      else (True, f))"
  by pat_completeness auto
termination
  by (relation "measure buffered") (auto simp: buffered_def drop_byte_def)

declare seek_magic.simps [simp del]

lemma seek_magic_buffered: "buffered (snd (seek_magic f)) \<le> buffered f"
proof (induction f rule: seek_magic.induct)
  case (1 f)
  have le: "buffered (drop_byte f) \<le> buffered f" by (simp add: buffered_def drop_byte_def)
  show ?case
    by (subst seek_magic.simps) (auto intro: order.trans [OF "1.IH"(1) le] order.trans [OF "1.IH"(2) le])
qed

lemma seek_magic_found:
  "seek_magic f = (True, f') \<Longrightarrow> 2 \<le> buffered f'"
proof (induction f rule: seek_magic.induct)
  case (1 f)
  then show ?case
    by (subst (asm) seek_magic.simps) (auto split: if_splits)
qed

text \<open>The loop of \<open>drain\<close>; the messages are the calls of \<open>fn\<close>, in order.\<close>

function drain_loop :: "framer \<Rightarrow> frame list \<times> framer" where
  "drain_loop f =
     (let (found, g) = seek_magic f in
      if \<not> found then ([], g)
      else if buffered g < kHeaderSize then ([], g)
      else
        let t = f_buf g ! (f_read g + 2); flags = f_buf g ! (f_read g + 3);
            len = u32_at g (f_read g + 4) in
        if kMaxPayload < len then drain_loop (drop_byte g)
        else if buffered g < kHeaderSize + unat len then ([], g)
        else
          let payload = take (unat len) (drop (f_read g + kHeaderSize) (f_buf g));
              (ms, h) = drain_loop (g\<lparr>f_read := f_read g + kHeaderSize + unat len\<rparr>) in
          ((msg_type_of_u8 t, flags, payload) # ms, h))"
  by pat_completeness auto
termination
proof (relation "measure buffered", goal_cases)
  case 1
  then show ?case by simp
next
  case (2 f p found g)
  then have "buffered g \<le> buffered f" using seek_magic_buffered [of f] by (metis snd_conv)
  with 2 show ?case by (auto simp: buffered_def drop_byte_def kHeaderSize_def)
next
  case (3 f p found g)
  then have "buffered g \<le> buffered f" using seek_magic_buffered [of f] by (metis snd_conv)
  with 3 show ?case by (auto simp: buffered_def kHeaderSize_def)
qed

declare drain_loop.simps [simp del]

definition compact :: "framer \<Rightarrow> framer" where
  "compact f =
     (if f_read f = 0 then f
      else if f_read f = length (f_buf f) then f\<lparr>f_buf := [], f_read := 0\<rparr>
      else if kCompactThreshold \<le> f_read f then f\<lparr>f_buf := drop (f_read f) (f_buf f), f_read := 0\<rparr>
      else f)"

definition drain :: "framer \<Rightarrow> frame list \<times> framer" where
  "drain f = (let (ms, g) = drain_loop f in (ms, compact g))"

text \<open>
  The receive loop of both transports (\<open>AdbTransport::session_loop\<close>,
  \<open>TcpTransport::session_loop\<close>): push what one \<open>recv\<close> returned, drain, repeat.
\<close>

fun feed :: "bytes list \<Rightarrow> framer \<Rightarrow> frame list \<times> framer" where
  "feed [] f = ([], f)"
| "feed (c # cs) f =
     (let (ms, g) = drain (framer_push c f); (ms', h) = feed cs g in (ms @ ms', h))"

section \<open>Abstract specification: parsing the pending bytes\<close>

definition header_len :: "bytes \<Rightarrow> u32" where
  "header_len bs =
     ucast (bs ! 4) OR push_bit 8 (ucast (bs ! 5)) OR push_bit 16 (ucast (bs ! 6)) OR
     push_bit 24 (ucast (bs ! 7))"

definition on_magic :: "bytes \<Rightarrow> bool" where
  "on_magic bs \<longleftrightarrow> 2 \<le> length bs \<and> bs ! 0 = kMagicByte0 \<and> bs ! 1 = kMagicByte1"

text \<open>Bytes on which no decision can be taken yet.\<close>

definition undecided :: "bytes \<Rightarrow> bool" where
  "undecided bs \<longleftrightarrow>
     bs = [] \<or> bs = [kMagicByte0] \<or>
     on_magic bs \<and>
       (length bs < kHeaderSize \<or>
        header_len bs \<le> kMaxPayload \<and> length bs < kHeaderSize + unat (header_len bs))"

definition complete :: "bytes \<Rightarrow> bool" where
  "complete bs \<longleftrightarrow>
     on_magic bs \<and> kHeaderSize \<le> length bs \<and> header_len bs \<le> kMaxPayload \<and>
     kHeaderSize + unat (header_len bs) \<le> length bs"

definition first_frame :: "bytes \<Rightarrow> frame" where
  "first_frame bs =
     (msg_type_of_u8 (bs ! 2), bs ! 3, take (unat (header_len bs)) (drop kHeaderSize bs))"

function parse :: "bytes \<Rightarrow> frame list \<times> bytes \<times> nat" where
  "parse bs =
     (if undecided bs then ([], bs, 0)
      else if complete bs then
        (let (ms, rest, d) = parse (drop (kHeaderSize + unat (header_len bs)) bs) in
         (first_frame bs # ms, rest, d))
      else (let (ms, rest, d) = parse (tl bs) in (ms, rest, Suc d)))"
  by pat_completeness auto
termination
  by (relation "measure length")
     (auto simp: undecided_def complete_def kHeaderSize_def neq_Nil_conv)

declare parse.simps [simp del]

definition pending_bytes :: "framer \<Rightarrow> bytes" where
  "pending_bytes f = drop (f_read f) (f_buf f)"

definition framer_inv :: "framer \<Rightarrow> bool" where
  "framer_inv f \<longleftrightarrow> f_read f \<le> length (f_buf f)"

section \<open>Parsing and concatenation\<close>

lemma parse_undecided: "undecided bs \<Longrightarrow> parse bs = ([], bs, 0)"
  by (simp add: parse.simps [of bs])

lemma parse_complete:
  "complete bs \<Longrightarrow> parse bs =
     (let (ms, rest, d) = parse (drop (kHeaderSize + unat (header_len bs)) bs) in
      (first_frame bs # ms, rest, d))"
  by (subst parse.simps) (auto simp: complete_def undecided_def kHeaderSize_def)

lemma parse_skip:
  "\<not> undecided bs \<Longrightarrow> \<not> complete bs \<Longrightarrow>
   parse bs = (let (ms, rest, d) = parse (tl bs) in (ms, rest, Suc d))"
  by (subst parse.simps) simp

lemma parse_Nil [simp]: "parse [] = ([], [], 0)"
  by (rule parse_undecided) (simp add: undecided_def)

lemma header_len_append: "8 \<le> length xs \<Longrightarrow> header_len (xs @ ys) = header_len xs"
  by (simp add: header_len_def nth_append)

lemma on_magic_append: "2 \<le> length xs \<Longrightarrow> on_magic (xs @ ys) = on_magic xs"
  by (auto simp: on_magic_def nth_append)

lemma complete_append:
  assumes "complete xs"
  shows "complete (xs @ ys)" and "first_frame (xs @ ys) = first_frame xs"
    and "header_len (xs @ ys) = header_len xs"
proof -
  have l: "8 \<le> length xs" and "on_magic xs" using assms by (auto simp: complete_def kHeaderSize_def)
  then have h: "header_len (xs @ ys) = header_len xs" "on_magic (xs @ ys)"
    by (simp_all add: header_len_append on_magic_append)
  then show "complete (xs @ ys)" "header_len (xs @ ys) = header_len xs"
    using assms by (auto simp: complete_def)
  show "first_frame (xs @ ys) = first_frame xs"
    using assms l h by (simp add: first_frame_def nth_append complete_def kHeaderSize_def)
qed

lemma skip_append:
  assumes "\<not> undecided xs" and "\<not> complete xs"
  shows "\<not> undecided (xs @ ys)" and "\<not> complete (xs @ ys)"
proof -
  have ne: "xs \<noteq> []" "xs \<noteq> [kMagicByte0]" using assms(1) by (auto simp: undecided_def)
  show "\<not> undecided (xs @ ys)" and "\<not> complete (xs @ ys)"
  proof -
    consider (off) "\<not> on_magic xs" | (big) "on_magic xs" "8 \<le> length xs" "kMaxPayload < header_len xs"
      using assms by (fastforce simp: undecided_def complete_def kHeaderSize_def)
    then have "\<not> undecided (xs @ ys) \<and> \<not> complete (xs @ ys)"
    proof cases
      case off
      have "\<not> on_magic (xs @ ys)"
      proof (cases xs)
        case (Cons x xs')
        then show ?thesis using off ne by (cases xs') (auto simp: on_magic_def)
      qed (simp add: ne)
      moreover have "xs @ ys \<noteq> [] \<and> xs @ ys \<noteq> [kMagicByte0]" using ne by (cases xs) auto
      ultimately show ?thesis by (simp add: undecided_def complete_def)
    next
      case big
      then have "on_magic (xs @ ys)" "header_len (xs @ ys) = header_len xs"
        by (auto simp: header_len_append on_magic_append)
      moreover have "xs @ ys \<noteq> [kMagicByte0]" using big(2) by (auto dest: arg_cong [where f = length])
      ultimately show ?thesis using big
        by (auto simp: undecided_def complete_def kHeaderSize_def)
    qed
    then show "\<not> undecided (xs @ ys)" and "\<not> complete (xs @ ys)" by auto
  qed
qed

text \<open>Parsing is insensitive to where the stream is cut.\<close>

lemma parse_append:
  "parse xs = (ms, rest, d) \<Longrightarrow> parse (rest @ ys) = (ms', rest', d') \<Longrightarrow>
   parse (xs @ ys) = (ms @ ms', rest', d + d')"
proof (induction xs arbitrary: ms rest d rule: parse.induct)
  case (1 xs)
  show ?case
  proof (cases "undecided xs")
    case True
    then show ?thesis using "1.prems" by (simp add: parse_undecided)
  next
    case nu: False
    show ?thesis
    proof (cases "complete xs")
      case True
      let ?n = "kHeaderSize + unat (header_len xs)"
      obtain ms1 r1 d1 where p: "parse (drop ?n xs) = (ms1, r1, d1)" by (metis prod_cases3)
      with "1.prems"(1) True have eq: "ms = first_frame xs # ms1" "rest = r1" "d = d1"
        by (auto simp: parse_complete)
      have "parse (drop ?n xs @ ys) = (ms1 @ ms', rest', d1 + d')"
        using "1.IH"(1) [OF nu True p] "1.prems"(2) eq by simp
      moreover have "drop ?n (xs @ ys) = drop ?n xs @ ys"
        using True by (simp add: complete_def)
      ultimately show ?thesis
        using complete_append [OF True, of ys] eq by (simp add: parse_complete)
    next
      case False
      obtain ms1 r1 d1 where p: "parse (tl xs) = (ms1, r1, d1)" by (metis prod_cases3)
      with "1.prems"(1) nu False have eq: "ms = ms1" "rest = r1" "d = Suc d1"
        by (auto simp: parse_skip)
      have "parse (tl xs @ ys) = (ms1 @ ms', rest', d1 + d')"
        using "1.IH"(2) [OF nu False p] "1.prems"(2) eq by simp
      moreover have "tl (xs @ ys) = tl xs @ ys" using nu by (cases xs) (auto simp: undecided_def)
      ultimately show ?thesis
        using skip_append [OF nu False, of ys] eq by (simp add: parse_skip)
    qed
  qed
qed

lemma parse_rest_undecided: "parse xs = (ms, rest, d) \<Longrightarrow> undecided rest"
proof (induction xs arbitrary: ms rest d rule: parse.induct)
  case (1 xs)
  show ?case
  proof (cases "undecided xs")
    case True
    then show ?thesis using "1.prems" by (simp add: parse_undecided)
  next
    case nu: False
    show ?thesis
    proof (cases "complete xs")
      case True
      obtain ms1 r1 d1 where p: "parse (drop (kHeaderSize + unat (header_len xs)) xs) = (ms1, r1, d1)"
        by (metis prod_cases3)
      from "1.IH"(1) [OF nu True p] "1.prems" True p show ?thesis by (simp add: parse_complete)
    next
      case False
      obtain ms1 r1 d1 where p: "parse (tl xs) = (ms1, r1, d1)" by (metis prod_cases3)
      from "1.IH"(2) [OF nu False p] "1.prems" nu False p show ?thesis by (simp add: parse_skip)
    qed
  qed
qed

section \<open>The framer refines the parser\<close>

lemma length_pending [simp]: "length (pending_bytes f) = buffered f"
  by (simp add: pending_bytes_def buffered_def)

lemma nth_pending: "i < buffered f \<Longrightarrow> f_buf f ! (f_read f + i) = pending_bytes f ! i"
  by (simp add: pending_bytes_def buffered_def)

lemma pending_drop_byte: "pending_bytes (drop_byte f) = tl (pending_bytes f)"
  by (simp add: pending_bytes_def drop_byte_def drop_Suc tl_drop)

lemma framer_inv_drop_byte: "0 < buffered f \<Longrightarrow> framer_inv (drop_byte f)"
  by (auto simp: framer_inv_def drop_byte_def buffered_def)

lemma u32_at_pending: "8 \<le> buffered f \<Longrightarrow> u32_at f (f_read f + 4) = header_len (pending_bytes f)"
  using nth_pending [of 4 f] nth_pending [of 5 f] nth_pending [of 6 f] nth_pending [of 7 f]
  by (simp add: u32_at_def header_len_def add.commute [of "f_read f"] add.commute [of "4 + f_read f"])

lemma parse_skip_byte:
  assumes "0 < buffered f" and "\<not> on_magic (pending_bytes f)" and "pending_bytes f \<noteq> [kMagicByte0]"
  shows "parse (pending_bytes f) =
     (let (ms, rest, d) = parse (pending_bytes (drop_byte f)) in (ms, rest, Suc d))"
proof -
  have "pending_bytes f \<noteq> []" using assms(1) length_pending [of f] by force
  then have "\<not> undecided (pending_bytes f)" "\<not> complete (pending_bytes f)"
    using assms by (auto simp: undecided_def complete_def)
  then show ?thesis by (simp add: parse_skip pending_drop_byte)
qed

lemma seek_magic_parse:
  "framer_inv f \<Longrightarrow> seek_magic f = (b, g) \<Longrightarrow>
   framer_inv g \<and> f_buf g = f_buf f \<and>
   (\<exists>k. f_resync_bytes g = f_resync_bytes f + of_nat k \<and>
        parse (pending_bytes f) = (let (ms, rest, d) = parse (pending_bytes g) in (ms, rest, d + k))) \<and>
   (if b then on_magic (pending_bytes g) else undecided (pending_bytes g))"
proof (induction f arbitrary: b g rule: seek_magic.induct)
  case (1 f)
  have n0: "0 < buffered f \<Longrightarrow> f_buf f ! f_read f = pending_bytes f ! 0"
    using nth_pending [of 0 f] by simp
  have n1: "1 < buffered f \<Longrightarrow> f_buf f ! (f_read f + 1) = pending_bytes f ! 1"
    using nth_pending [of 1 f] by simp
  have stay: ?case if "g = f" "if b then on_magic (pending_bytes f) else undecided (pending_bytes f)"
    using that "1.prems" by (auto split: prod.splits)
  have skip: ?case
    if bf: "0 < buffered f" and nm: "\<not> on_magic (pending_bytes f)" "pending_bytes f \<noteq> [kMagicByte0]"
      and ih: "framer_inv g \<and> f_buf g = f_buf (drop_byte f) \<and>
        (\<exists>k. f_resync_bytes g = f_resync_bytes (drop_byte f) + of_nat k \<and>
          parse (pending_bytes (drop_byte f)) =
            (let (ms, rest, d) = parse (pending_bytes g) in (ms, rest, d + k))) \<and>
        (if b then on_magic (pending_bytes g) else undecided (pending_bytes g))"
  proof -
    from ih obtain k where "f_resync_bytes g = f_resync_bytes (drop_byte f) + of_nat k"
      and "parse (pending_bytes (drop_byte f)) =
        (let (ms, rest, d) = parse (pending_bytes g) in (ms, rest, d + k))" by blast
    then have "\<exists>k. f_resync_bytes g = f_resync_bytes f + of_nat k \<and>
        parse (pending_bytes f) = (let (ms, rest, d) = parse (pending_bytes g) in (ms, rest, d + k))"
      using parse_skip_byte [OF bf nm]
      by (intro exI [of _ "Suc k"]) (auto simp: drop_byte_def split: prod.splits)
    moreover have "f_buf g = f_buf f" using ih by (simp add: drop_byte_def)
    ultimately show ?thesis using ih by blast
  qed
  show ?case
  proof (cases "buffered f < 1")
    case True
    then have "pending_bytes f = []" by (simp flip: length_0_conv)
    then show ?thesis using True "1.prems" stay
      by (auto simp: seek_magic.simps [of f] undecided_def)
  next
    case ne: False
    show ?thesis
    proof (cases "f_buf f ! f_read f = kMagicByte0")
      case False
      then have "seek_magic (drop_byte f) = (b, g)" using ne "1.prems"(2) by (simp add: seek_magic.simps [of f])
      from "1.IH"(1) [OF ne False framer_inv_drop_byte this] ne show ?thesis
        using False n0 by (intro skip) (auto simp: on_magic_def)
    next
      case d: True
      show ?thesis
      proof (cases "buffered f < 2")
        case True
        then have "length (pending_bytes f) = Suc 0" using ne by simp
        then obtain x where "pending_bytes f = [x]" by (auto simp: length_Suc_conv simp del: length_pending)
        then have "pending_bytes f = [kMagicByte0]" using d n0 ne by simp
        then show ?thesis using True ne d "1.prems" stay
          by (auto simp: seek_magic.simps [of f] undecided_def)
      next
        case two: False
        show ?thesis
        proof (cases "f_buf f ! (f_read f + 1) = kMagicByte1")
          case False
          then have "seek_magic (drop_byte f) = (b, g)"
            using ne d two "1.prems"(2) by (simp add: seek_magic.simps [of f])
          moreover have "\<not> f_buf f ! f_read f \<noteq> kMagicByte0" using d by simp
          moreover have "pending_bytes f \<noteq> [kMagicByte0]"
          proof
            assume "pending_bytes f = [kMagicByte0]"
            then have "length (pending_bytes f) = 1" by simp
            with two show False by simp
          qed
          ultimately show ?thesis
            using "1.IH"(2) [OF ne _ two False framer_inv_drop_byte] ne n1 two False
            by (intro skip) (auto simp: on_magic_def)
        next
          case True
          then have "on_magic (pending_bytes f)" using d two n0 n1 by (auto simp: on_magic_def)
          then show ?thesis using True ne d two "1.prems" stay
            by (auto simp: seek_magic.simps [of f])
        qed
      qed
    qed
  qed
qed

lemma drain_loop_parse:
  "framer_inv f \<Longrightarrow> parse (pending_bytes f) = (ms, rest, d) \<Longrightarrow>
   \<exists>g. drain_loop f = (ms, g) \<and> framer_inv g \<and> f_buf g = f_buf f \<and> pending_bytes g = rest \<and>
       f_resync_bytes g = f_resync_bytes f + of_nat d"
proof (induction f arbitrary: ms rest d rule: drain_loop.induct)
  case (1 f)
  obtain b g where sm: "seek_magic f = (b, g)" by fastforce
  from seek_magic_parse [OF "1.prems"(1) sm] obtain k where
    g: "framer_inv g" "f_buf g = f_buf f" "f_resync_bytes g = f_resync_bytes f + of_nat k"
      "parse (pending_bytes f) = (let (ms, rest, d) = parse (pending_bytes g) in (ms, rest, d + k))"
      "if b then on_magic (pending_bytes g) else undecided (pending_bytes g)" by blast
  obtain ms1 r1 d1 where pg: "parse (pending_bytes g) = (ms1, r1, d1)" by (metis prod_cases3)
  with "1.prems"(2) g(4) have eq: "ms1 = ms" "r1 = rest" "d = d1 + k" by auto
  have wait: ?case if "undecided (pending_bytes g)" "drain_loop f = ([], g)"
    using that g pg eq by (simp add: parse_undecided)
  show ?case
  proof (cases b)
    case False
    then show ?thesis using g(5) sm wait by (simp add: drain_loop.simps [of f])
  next
    case True
    with g(5) have om: "on_magic (pending_bytes g)" by simp
    show ?thesis
    proof (cases "buffered g < kHeaderSize")
      case short: True
      then have "undecided (pending_bytes g)" using om by (simp add: undecided_def)
      then show ?thesis using True short sm wait by (simp add: drain_loop.simps [of f])
    next
      case hdr: False
      let ?len = "u32_at g (f_read g + 4)"
      have len: "?len = header_len (pending_bytes g)"
        using hdr by (simp add: u32_at_pending kHeaderSize_def)
      show ?thesis
      proof (cases "kMaxPayload < ?len")
        case big: True
        then have nu: "\<not> undecided (pending_bytes g)" and nc: "\<not> complete (pending_bytes g)"
          using om hdr len length_pending [of g]
          by (auto simp: undecided_def complete_def kHeaderSize_def on_magic_def simp del: length_pending)
        obtain d2 where ps: "parse (pending_bytes (drop_byte g)) = (ms, rest, d2)" "d1 = Suc d2"
          using parse_skip [OF nu nc] pg eq by (auto simp: pending_drop_byte split: prod.splits)
        have inv: "framer_inv (drop_byte g)"
          using hdr by (intro framer_inv_drop_byte) (simp add: kHeaderSize_def)
        have "\<exists>h. drain_loop (drop_byte g) = (ms, h) \<and> framer_inv h \<and> f_buf h = f_buf (drop_byte g) \<and>
            pending_bytes h = rest \<and> f_resync_bytes h = f_resync_bytes (drop_byte g) + of_nat d2"
          using "1.IH"(1) [OF sm [symmetric] refl _ hdr refl refl refl big inv ps(1)] True by simp
        then show ?thesis using True hdr big sm g eq ps(2)
          by (auto simp: drain_loop.simps [of f] drop_byte_def algebra_simps)
      next
        case fits: False
        show ?thesis
        proof (cases "buffered g < kHeaderSize + unat ?len")
          case partial: True
          then have "undecided (pending_bytes g)" using om fits len hdr by (auto simp: undecided_def)
          then show ?thesis using True hdr fits partial sm wait
            by (simp add: drain_loop.simps [of f])
        next
          case full: False
          let ?g = "g\<lparr>f_read := f_read g + kHeaderSize + unat ?len\<rparr>"
          have c: "complete (pending_bytes g)"
            using om fits full len hdr by (auto simp: complete_def)
          have pend: "pending_bytes ?g = drop (kHeaderSize + unat (header_len (pending_bytes g))) (pending_bytes g)"
            using len by (simp add: pending_bytes_def ac_simps)
          obtain ms2 where ps: "parse (pending_bytes ?g) = (ms2, rest, d1)"
              "ms = first_frame (pending_bytes g) # ms2"
            using parse_complete [OF c] pg eq pend by (auto split: prod.splits)
          have inv: "framer_inv ?g" using full g(1) by (auto simp: framer_inv_def buffered_def)
          have "\<exists>h. drain_loop ?g = (ms2, h) \<and> framer_inv h \<and> f_buf h = f_buf ?g \<and>
              pending_bytes h = rest \<and> f_resync_bytes h = f_resync_bytes ?g + of_nat d1"
            using "1.IH"(2) [OF sm [symmetric] refl _ hdr refl refl refl fits full refl inv ps(1)] True by simp
          moreover have "(msg_type_of_u8 (f_buf g ! (f_read g + 2)), f_buf g ! (f_read g + 3),
              take (unat ?len) (drop (f_read g + kHeaderSize) (f_buf g))) = first_frame (pending_bytes g)"
            using hdr len nth_pending [of 2 g] nth_pending [of 3 g]
            by (simp add: first_frame_def kHeaderSize_def pending_bytes_def add.commute)
          ultimately show ?thesis using True hdr fits full sm g eq ps(2)
            by (auto simp: drain_loop.simps [of f] algebra_simps)
        qed
      qed
    qed
  qed
qed

lemma compact_pending [simp]: "framer_inv f \<Longrightarrow> pending_bytes (compact f) = pending_bytes f"
  by (simp add: compact_def pending_bytes_def)

lemma compact_inv: "framer_inv f \<Longrightarrow> framer_inv (compact f)"
  by (simp add: compact_def framer_inv_def)

lemma compact_resync [simp]: "f_resync_bytes (compact f) = f_resync_bytes f"
  by (simp add: compact_def)

lemma compact_read: "f_read (compact f) < kCompactThreshold"
  by (simp add: compact_def kCompactThreshold_def)

lemma drain_parse:
  assumes "framer_inv f" and "parse (pending_bytes f) = (ms, rest, d)"
  shows "\<exists>g. drain f = (ms, g) \<and> framer_inv g \<and> pending_bytes g = rest \<and>
      f_resync_bytes g = f_resync_bytes f + of_nat d \<and> f_read g < kCompactThreshold"
proof -
  from drain_loop_parse [OF assms] obtain g where g: "drain_loop f = (ms, g)" "framer_inv g"
      "pending_bytes g = rest" "f_resync_bytes g = f_resync_bytes f + of_nat d" by blast
  then show ?thesis
    by (intro exI [of _ "compact g"]) (simp add: drain_def compact_inv compact_read)
qed

lemma push_pending [simp]: "framer_inv f \<Longrightarrow> pending_bytes (framer_push c f) = pending_bytes f @ c"
  by (simp add: pending_bytes_def framer_push_def framer_inv_def)

lemma push_inv: "framer_inv f \<Longrightarrow> framer_inv (framer_push c f)"
  by (simp add: framer_push_def framer_inv_def)

lemma push_resync [simp]: "f_resync_bytes (framer_push c f) = f_resync_bytes f"
  by (simp add: framer_push_def)

lemma init_framer [simp]:
  "framer_inv framer_init" "pending_bytes framer_init = []" "f_resync_bytes framer_init = 0"
  by (simp_all add: framer_init_def framer_inv_def pending_bytes_def)

text \<open>Between two receives the pending bytes are always undecided.\<close>

definition framer_idle :: "framer \<Rightarrow> bool" where
  "framer_idle f \<longleftrightarrow>
     framer_inv f \<and> undecided (pending_bytes f) \<and> f_read f < kCompactThreshold"

lemma framer_idle_init: "framer_idle framer_init"
  by (simp add: framer_idle_def undecided_def) (simp add: framer_init_def kCompactThreshold_def)

lemma undecided_size: "undecided bs \<Longrightarrow> length bs < kHeaderSize + unat kMaxPayload"
  by (auto simp: undecided_def word_le_nat_alt kHeaderSize_def)

lemma framer_idle_size:
  "framer_idle f \<Longrightarrow> length (f_buf f) < kCompactThreshold + kHeaderSize + unat kMaxPayload"
  using undecided_size [of "pending_bytes f"]
  by (auto simp: framer_idle_def framer_inv_def buffered_def)

lemma feed_parse:
  assumes "framer_idle f" and "parse (pending_bytes f @ concat cs) = (ms, rest, d)"
  shows "\<exists>g. feed cs f = (ms, g) \<and> framer_idle g \<and> pending_bytes g = rest \<and>
      f_resync_bytes g = f_resync_bytes f + of_nat d"
  using assms
proof (induction cs arbitrary: f ms rest d)
  case Nil
  then show ?case by (simp add: framer_idle_def parse_undecided)
next
  case (Cons c cs)
  then have inv: "framer_inv f" by (simp add: framer_idle_def)
  obtain m1 r1 d1 where p1: "parse (pending_bytes f @ c) = (m1, r1, d1)" by (metis prod_cases3)
  from drain_parse [of "framer_push c f"] p1 inv obtain g where g: "drain (framer_push c f) = (m1, g)"
      "framer_inv g" "pending_bytes g = r1" "f_resync_bytes g = f_resync_bytes f + of_nat d1"
      "f_read g < kCompactThreshold"
    by (auto simp: push_inv)
  have idle: "framer_idle g" using g parse_rest_undecided [OF p1] by (simp add: framer_idle_def)
  obtain m2 r2 d2 where p2: "parse (r1 @ concat cs) = (m2, r2, d2)" by (metis prod_cases3)
  from Cons.IH [OF idle, of m2 r2 d2] g p2 obtain h where h: "feed cs g = (m2, h)" "framer_idle h"
      "pending_bytes h = r2" "f_resync_bytes h = f_resync_bytes g + of_nat d2" by auto
  from parse_append [OF p1 p2] Cons.prems(2) have "ms = m1 @ m2" "rest = r2" "d = d1 + d2" by auto
  then show ?case using g h by (simp add: add.assoc)
qed

section \<open>Frames built by the message builder\<close>

definition framed :: "MsgType \<Rightarrow> u8 \<Rightarrow> bytes \<Rightarrow> bytes" where
  "framed t fl p = header t fl (of_nat (length p)) @ p"

lemma le32_bytes_recombine:
  "ucast (ucast v :: u8) OR push_bit 8 (ucast (ucast (drop_bit 8 v) :: u8)) OR
   push_bit 16 (ucast (ucast (drop_bit 16 v) :: u8)) OR
   push_bit 24 (ucast (ucast (drop_bit 24 v) :: u8)) = (v :: u32)"
proof (rule bit_word_eqI, goal_cases)
  case (1 n)
  then show ?case by (cases "24 \<le> n"; cases "16 \<le> n") (auto simp: bit_simps)
qed

lemma header_len_header: "header_len (header t fl len @ p) = len"
  using le32_bytes_recombine [of len]
  by (simp add: header_len_def header_def le32_bytes)

lemma unat_length_payload:
  "length p \<le> unat kMaxPayload \<Longrightarrow> unat (of_nat (length p) :: u32) = length p"
  by (simp add: kMaxPayload_def unat_of_nat)

lemma complete_framed:
  assumes "length p \<le> unat kMaxPayload"
  shows "complete (framed t fl p @ bs)"
    and "first_frame (framed t fl p @ bs) = (msg_type_of_u8 (msg_type_to_u8 t), fl, p)"
    and "drop (kHeaderSize + unat (header_len (framed t fl p @ bs))) (framed t fl p @ bs) = bs"
proof -
  have h: "header_len (framed t fl p @ bs) = of_nat (length p)"
    by (simp add: framed_def header_len_header)
  have le: "(of_nat (length p) :: u32) \<le> kMaxPayload"
    using assms by (simp add: word_le_nat_alt unat_length_payload)
  show "complete (framed t fl p @ bs)"
    using h le assms
    by (simp add: complete_def on_magic_def unat_length_payload) (simp add: framed_def header_def kHeaderSize_def)
  show "first_frame (framed t fl p @ bs) = (msg_type_of_u8 (msg_type_to_u8 t), fl, p)"
    using assms by (simp add: first_frame_def h unat_length_payload)
      (simp add: framed_def header_def kHeaderSize_def le32_bytes)
  show "drop (kHeaderSize + unat (header_len (framed t fl p @ bs))) (framed t fl p @ bs) = bs"
    using assms by (simp add: h unat_length_payload) (simp add: framed_def)
qed

lemma parse_framed:
  "length p \<le> unat kMaxPayload \<Longrightarrow> parse (framed t fl p @ bs) =
     (let (ms, rest, d) = parse bs in ((msg_type_of_u8 (msg_type_to_u8 t), fl, p) # ms, rest, d))"
  unfolding parse_complete [OF complete_framed(1)] complete_framed(2,3) by (rule refl)

lemma parse_garbage:
  "kMagicByte0 \<notin> set g \<Longrightarrow> parse (g @ bs) = (let (ms, rest, d) = parse bs in (ms, rest, length g + d))"
proof (induction g)
  case (Cons b g)
  then have "\<not> undecided (b # g @ bs)" "\<not> complete (b # g @ bs)"
    by (auto simp: undecided_def complete_def on_magic_def)
  then show ?case using Cons by (auto simp: parse_skip split: prod.splits)
qed (simp split: prod.splits)

section \<open>Messages on the stream\<close>

text \<open>
  All message types together: what one side hands to \<open>transport.send(encode(m))\<close> and what
  the other side gets from the decoder its dispatch selects by the type byte.
\<close>

datatype message =
    M_Hello Hello | M_HelloAck HelloAck | M_Ping Ping | M_Pong Pong | M_Pointer Pointer
  | M_HostState HostState | M_ActiveWindow ActiveWindow | M_ViewportReq ViewportReq
  | M_FrameInfo FrameInfo | M_FrameData FrameData | M_Key Key | M_Log LogMessage

fun encode_message :: "message \<Rightarrow> bytes" where
  "encode_message (M_Hello m) = encode_Hello m"
| "encode_message (M_HelloAck m) = encode_HelloAck m"
| "encode_message (M_Ping m) = encode_Ping m"
| "encode_message (M_Pong m) = encode_Pong m"
| "encode_message (M_Pointer m) = encode_Pointer m"
| "encode_message (M_HostState m) = encode_HostState m"
| "encode_message (M_ActiveWindow m) = encode_ActiveWindow m"
| "encode_message (M_ViewportReq m) = encode_ViewportReq m"
| "encode_message (M_FrameInfo m) = encode_FrameInfo m"
| "encode_message (M_FrameData m) = encode_FrameData m"
| "encode_message (M_Key m) = encode_Key m"
| "encode_message (M_Log m) = encode_LogMessage m"

fun wf_message :: "message \<Rightarrow> bool" where
  "wf_message (M_Hello m) = wf_Hello m"
| "wf_message (M_HelloAck m) = wf_HelloAck m"
| "wf_message (M_Ping m) = wf_Ping m"
| "wf_message (M_Pong m) = wf_Pong m"
| "wf_message (M_Pointer m) = wf_Pointer m"
| "wf_message (M_HostState m) = wf_HostState m"
| "wf_message (M_ActiveWindow m) = wf_ActiveWindow m"
| "wf_message (M_ViewportReq m) = wf_ViewportReq m"
| "wf_message (M_FrameInfo m) = wf_FrameInfo m"
| "wf_message (M_FrameData m) = wf_FrameData m"
| "wf_message (M_Key m) = wf_Key m"
| "wf_message (M_Log m) = wf_LogMessage m"

fun decode_frame :: "frame \<Rightarrow> message option" where
  "decode_frame (t, flags, p) =
     (case t of
        Msg_Hello \<Rightarrow> map_option M_Hello (decode_Hello p)
      | Msg_HelloAck \<Rightarrow> map_option M_HelloAck (decode_HelloAck p)
      | Msg_Ping \<Rightarrow> map_option M_Ping (decode_Ping p)
      | Msg_Pong \<Rightarrow> map_option M_Pong (decode_Pong p)
      | Msg_Pointer \<Rightarrow> map_option M_Pointer (decode_Pointer p)
      | Msg_HostState \<Rightarrow> map_option M_HostState (decode_HostState p)
      | Msg_ActiveWindow \<Rightarrow> map_option M_ActiveWindow (decode_ActiveWindow p)
      | Msg_ViewportReq \<Rightarrow> map_option M_ViewportReq (decode_ViewportReq p)
      | Msg_FrameInfo \<Rightarrow> map_option M_FrameInfo (decode_FrameInfo p)
      | Msg_FrameData \<Rightarrow> map_option M_FrameData (decode_FrameData p)
      | Msg_Key \<Rightarrow> map_option M_Key (decode_Key p)
      | Msg_Log \<Rightarrow> map_option M_Log (decode_LogMessage p)
      | _ \<Rightarrow> None)"

context message_codec
begin

lemma parse_enc:
  "wf m \<Longrightarrow> parse (enc m @ bs) =
     (let (ms, rest, d) = parse bs in ((msg_type_of_u8 (msg_type_to_u8 mtype), 0, payload m) # ms, rest, d))"
  using parse_framed [OF payload_size, of m mtype 0 bs] by (simp add: framed_def enc_framed)

end

lemma parse_encode_message:
  "wf_message m \<Longrightarrow>
   \<exists>f. decode_frame f = Some m \<and>
       (\<forall>bs. parse (encode_message m @ bs) = (let (ms, rest, d) = parse bs in (f # ms, rest, d)))"
  by (cases m)
    (auto simp: Hello_codec.parse_enc Hello_codec.dec_payload
       HelloAck_codec.parse_enc HelloAck_codec.dec_payload
       Ping_codec.parse_enc Ping_codec.dec_payload
       Pong_codec.parse_enc Pong_codec.dec_payload
       Pointer_codec.parse_enc Pointer_codec.dec_payload
       HostState_codec.parse_enc HostState_codec.dec_payload
       ActiveWindow_codec.parse_enc ActiveWindow_codec.dec_payload
       ViewportReq_codec.parse_enc ViewportReq_codec.dec_payload
       FrameInfo_codec.parse_enc FrameInfo_codec.dec_payload
       FrameData_codec.parse_enc FrameData_codec.dec_payload
       Key_codec.parse_enc Key_codec.dec_payload
       LogMessage_codec.parse_enc LogMessage_codec.dec_payload
       msg_type_of_u8_def intro!: exI)

lemma parse_stream:
  "\<forall>m \<in> set ms. wf_message m \<Longrightarrow>
   \<exists>fs. map decode_frame fs = map Some ms \<and> parse (concat (map encode_message ms)) = (fs, [], 0)"
proof (induction ms)
  case (Cons m ms)
  then obtain fs where "map decode_frame fs = map Some ms"
      "parse (concat (map encode_message ms)) = (fs, [], 0)" by auto
  moreover obtain f where "decode_frame f = Some m"
      "\<And>bs. parse (encode_message m @ bs) = (let (ms, rest, d) = parse bs in (f # ms, rest, d))"
    using parse_encode_message [of m] Cons.prems by auto
  ultimately show ?case by (intro exI [of _ "f # fs"]) simp
qed simp

section \<open>Properties\<close>

text \<open>
  C10: the receive path refines the parser. Whatever pieces the socket delivers, draining the
  framer after each of them hands out the messages of the parse of the whole byte stream, keeps
  the bytes the parse leaves over, and counts in \<open>resync_bytes\<close> the bytes it discards.
\<close>

theorem feed_refines_parse:
  "(let (ms, rest, d) = parse (concat cs); (out, g) = feed cs framer_init in
    out = ms \<and> pending_bytes g = rest \<and> f_resync_bytes g = of_nat d)"
proof -
  obtain ms rest d where p: "parse (concat cs) = (ms, rest, d)" by (metis prod_cases3)
  with feed_parse [OF framer_idle_init, of cs ms rest d] show ?thesis by auto
qed

text \<open>
  the delivered messages do not depend on how the stream was cut into receives: feeding the
  pieces one by one delivers what feeding them as one block delivers, with the same pending
  bytes and the same count of discarded bytes.
\<close>

theorem feed_chunking_independent:
  "(let (out, g) = feed cs framer_init; (out', g') = feed [concat cs] framer_init in
    out = out' \<and> pending_bytes g = pending_bytes g' \<and> f_resync_bytes g = f_resync_bytes g')"
proof -
  obtain ms rest d where p: "parse (concat cs) = (ms, rest, d)" by (metis prod_cases3)
  with feed_parse [OF framer_idle_init, of cs ms rest d]
    feed_parse [OF framer_idle_init, of "[concat cs]" ms rest d] show ?thesis by auto
qed

text \<open>
  C1: a stream of encoded well-formed messages, cut into receives in any way, comes out of the
  framer as exactly those messages, in order; no byte is discarded and none is left pending.
\<close>

theorem stream_roundtrip:
  assumes "\<forall>m \<in> set ms. wf_message m" and "concat cs = concat (map encode_message ms)"
  shows "(let (out, g) = feed cs framer_init in
    map decode_frame out = map Some ms \<and> f_resync_bytes g = 0 \<and> buffered g = 0)"
proof -
  obtain fs where fs: "map decode_frame fs = map Some ms" "parse (concat cs) = (fs, [], 0)"
    using parse_stream [OF assms(1)] assms(2) by auto
  with feed_parse [OF framer_idle_init, of cs fs "[]" 0] obtain g where
    "feed cs framer_init = (fs, g)" "pending_bytes g = []" "f_resync_bytes g = 0" by auto
  moreover from this have "buffered g = 0" by (simp flip: length_pending)
  ultimately show ?thesis using fs by simp
qed

theorem stream_roundtrip_witness:
  "(let ms = [M_Ping ex_Ping, M_Pointer ex_Pointer, M_Key ex_Key];
        (out, g) = feed (map (\<lambda>b. [b]) (concat (map encode_message ms))) framer_init in
    map decode_frame out = map Some ms \<and> f_resync_bytes g = 0 \<and> buffered g = 0)"
  using stream_roundtrip [of "[M_Ping ex_Ping, M_Pointer ex_Pointer, M_Key ex_Key]"
      "map (\<lambda>b. [b]) (concat (map encode_message [M_Ping ex_Ping, M_Pointer ex_Pointer, M_Key ex_Key]))"]
  by (simp add: wf_examples comp_def del: map_append)

text \<open>
  C13: the framer resynchronises. Garbage that does not contain the first magic byte is discarded
  to the byte, counted, and the messages behind it are all delivered.
\<close>

theorem resync_after_garbage:
  assumes "kMagicByte0 \<notin> set g" and "\<forall>m \<in> set ms. wf_message m"
    and "concat cs = g @ concat (map encode_message ms)"
  shows "(let (out, f) = feed cs framer_init in
    map decode_frame out = map Some ms \<and> f_resync_bytes f = of_nat (length g))"
proof -
  obtain fs where fs: "map decode_frame fs = map Some ms" "parse (concat cs) = (fs, [], length g)"
    using parse_stream [OF assms(2)] assms(3) parse_garbage [OF assms(1)] by auto
  with feed_parse [OF framer_idle_init, of cs fs "[]" "length g"] show ?thesis by auto
qed

theorem resync_after_garbage_witness:
  "(let (out, f) = feed [[1, 2], [3] @ encode_Ping ex_Ping] framer_init in
    map decode_frame out = [Some (M_Ping ex_Ping)] \<and> f_resync_bytes f = 3)"
  using resync_after_garbage [of "[1, 2, 3]" "[M_Ping ex_Ping]" "[[1, 2], [3] @ encode_Ping ex_Ping]"]
  by (simp add: wf_examples kMagicByte0_def)

text \<open>
  the receive buffer is bounded. However much was received and whatever its content, what the
  framer keeps between two receives stays below the compaction threshold plus one maximal
  message.
\<close>

theorem framer_memory_bound:
  "length (f_buf (snd (feed cs framer_init))) < kCompactThreshold + kHeaderSize + unat kMaxPayload"
proof -
  obtain ms rest d where p: "parse (concat cs) = (ms, rest, d)" by (metis prod_cases3)
  with feed_parse [OF framer_idle_init, of cs ms rest d] obtain g where
    "feed cs framer_init = (ms, g)" "framer_idle g" by auto
  then show ?thesis using framer_idle_size [of g] by simp
qed

end
