(* ===== verification/Geometry.thy ===== *)
theory Geometry
  imports Complex_Main Digitiz_Prelude
begin

text \<open>
  The geometry of \<open>common/include/digitiz/core/geometry.hpp\<close>: integer rectangles of the virtual
  desktop, and \<open>ViewTransform\<close>, the guest's map between desktop and device surface. The
  coordinates of \<open>Vec2\<close> are C++ \<open>double\<close>s; they are modelled by real numbers, so the theorems
  here are about the formulas and not about rounding.
\<close>

section \<open>Definitions\<close>

text \<open>\<open>std::lround\<close>: to the nearest integer, halves away from zero.\<close>

definition lround :: "real \<Rightarrow> int" where
  "lround x = (if 0 \<le> x then \<lfloor>x + 1 / 2\<rfloor> else - \<lfloor>1 / 2 - x\<rfloor>)"

record Vec2 =
  v_x :: real
  v_y :: real

definition vec2 :: "real \<Rightarrow> real \<Rightarrow> Vec2" where
  "vec2 x y = \<lparr>v_x = x, v_y = y\<rparr>"

definition v_add :: "Vec2 \<Rightarrow> Vec2 \<Rightarrow> Vec2" where
  "v_add a b = vec2 (v_x a + v_x b) (v_y a + v_y b)"

definition v_sub :: "Vec2 \<Rightarrow> Vec2 \<Rightarrow> Vec2" where
  "v_sub a b = vec2 (v_x a - v_x b) (v_y a - v_y b)"

definition v_scale :: "Vec2 \<Rightarrow> real \<Rightarrow> Vec2" where
  "v_scale a s = vec2 (v_x a * s) (v_y a * s)"

definition v_divide :: "Vec2 \<Rightarrow> real \<Rightarrow> Vec2" where
  "v_divide a s = vec2 (v_x a / s) (v_y a / s)"

record Recti =
  rect_x :: int
  rect_y :: int
  rect_w :: int
  rect_h :: int

definition recti :: "int \<Rightarrow> int \<Rightarrow> int \<Rightarrow> int \<Rightarrow> Recti" where
  "recti x y w h = \<lparr>rect_x = x, rect_y = y, rect_w = w, rect_h = h\<rparr>"

definition rect_center :: "Recti \<Rightarrow> Vec2" where
  "rect_center r = vec2 (of_int (rect_x r) + of_int (rect_w r) / 2) (of_int (rect_y r) + of_int (rect_h r) / 2)"

definition contains :: "Recti \<Rightarrow> int \<Rightarrow> int \<Rightarrow> bool" where
  "contains r px py \<longleftrightarrow>
     rect_x r \<le> px \<and> rect_y r \<le> py \<and> px < rect_x r + rect_w r \<and> py < rect_y r + rect_h r"

record ViewTransform =
  vt_scale :: real
  vt_pan :: Vec2

definition kMinScale :: real where "kMinScale = 0.02"
definition kMaxScale :: real where "kMaxScale = 20"

definition view_init :: ViewTransform where
  "view_init = \<lparr>vt_scale = 1, vt_pan = vec2 0 0\<rparr>"

definition to_surface :: "ViewTransform \<Rightarrow> Vec2 \<Rightarrow> Vec2" where
  "to_surface t pc = v_scale (v_sub pc (vt_pan t)) (vt_scale t)"

definition to_pc :: "ViewTransform \<Rightarrow> Vec2 \<Rightarrow> Vec2" where
  "to_pc t s = v_add (v_divide s (vt_scale t)) (vt_pan t)"

definition zoom_about :: "Vec2 \<Rightarrow> real \<Rightarrow> ViewTransform \<Rightarrow> ViewTransform" where
  "zoom_about anchor factor t =
     (let pc_anchor = to_pc t anchor; s = clamp (vt_scale t * factor) kMinScale kMaxScale in
      \<lparr>vt_scale = s, vt_pan = v_sub pc_anchor (v_divide anchor s)\<rparr>)"

definition pan_by :: "Vec2 \<Rightarrow> ViewTransform \<Rightarrow> ViewTransform" where
  "pan_by delta t = t\<lparr>vt_pan := v_sub (vt_pan t) (v_divide delta (vt_scale t))\<rparr>"

definition fit :: "Recti \<Rightarrow> real \<Rightarrow> real \<Rightarrow> real \<Rightarrow> ViewTransform \<Rightarrow> ViewTransform" where
  "fit r sw sh margin t =
     (if rect_w r \<le> 0 \<or> rect_h r \<le> 0 \<or> sw \<le> 0 \<or> sh \<le> 0 then t
      else
        let usable = clamp (1 - margin) 0.05 1;
            s = min (sw * usable / of_int (rect_w r)) (sh * usable / of_int (rect_h r));
            scale = clamp s kMinScale kMaxScale in
        \<lparr>vt_scale = scale, vt_pan = v_sub (rect_center r) (v_divide (vec2 (sw / 2) (sh / 2)) scale)\<rparr>)"

definition view_set :: "real \<Rightarrow> Vec2 \<Rightarrow> ViewTransform \<Rightarrow> ViewTransform" where
  "view_set scale pan t = \<lparr>vt_scale = clamp scale kMinScale kMaxScale, vt_pan = pan\<rparr>"

section \<open>Lemmas\<close>

lemmas vec2_defs = vec2_def v_add_def v_sub_def v_scale_def v_divide_def

lemma vec2_sel [simp]: "v_x (vec2 a b) = a" "v_y (vec2 a b) = b"
  by (simp_all add: vec2_def)

lemma recti_sel [simp]:
  "rect_x (recti x y w h) = x" "rect_y (recti x y w h) = y"
  "rect_w (recti x y w h) = w" "rect_h (recti x y w h) = h"
  by (simp_all add: recti_def)

lemma kScale_order [simp]: "kMinScale \<le> kMaxScale" "0 < kMinScale"
  by (simp_all add: kMinScale_def kMaxScale_def)

text \<open>The invariant of the view: its scale stays inside the limits.\<close>

definition view_ok :: "ViewTransform \<Rightarrow> bool" where
  "view_ok t \<longleftrightarrow> kMinScale \<le> vt_scale t \<and> vt_scale t \<le> kMaxScale"

lemma view_ok_init [simp]: "view_ok view_init"
  by (simp add: view_ok_def view_init_def kMinScale_def kMaxScale_def)

lemma view_ok_zoom [simp]: "view_ok (zoom_about a f t)"
  by (simp add: view_ok_def zoom_about_def Let_def)

lemma view_ok_pan [simp]: "view_ok t \<Longrightarrow> view_ok (pan_by d t)"
  by (simp add: view_ok_def pan_by_def)

lemma view_ok_fit [simp]: "view_ok t \<Longrightarrow> view_ok (fit r w h m t)"
  by (simp add: view_ok_def fit_def Let_def)

lemma view_ok_set [simp]: "view_ok (view_set s p t)"
  by (simp add: view_ok_def view_set_def)

lemma view_ok_pos: "view_ok t \<Longrightarrow> 0 < vt_scale t"
  using less_le_trans [OF kScale_order(2), of "vt_scale t"] by (simp add: view_ok_def)

lemma to_pc_to_surface: "view_ok t \<Longrightarrow> to_pc t (to_surface t p) = p"
  using view_ok_pos [of t] by (simp add: to_pc_def to_surface_def vec2_defs)

lemma to_surface_to_pc: "view_ok t \<Longrightarrow> to_surface t (to_pc t s) = s"
  using view_ok_pos [of t] by (simp add: to_pc_def to_surface_def vec2_defs)

lemma zoom_keeps_anchor: "to_pc (zoom_about a f t) a = to_pc t a"
  by (simp add: zoom_about_def to_pc_def vec2_defs Let_def)

lemma pan_moves_content: "view_ok t \<Longrightarrow> to_surface (pan_by d t) p = v_add (to_surface t p) d"
  using view_ok_pos [of t] by (simp add: pan_by_def to_surface_def vec2_defs field_simps)

lemma fit_center:
  assumes "0 < rect_w r" "0 < rect_h r" "0 < sw" "0 < sh"
  shows "to_surface (fit r sw sh m t) (rect_center r) = vec2 (sw / 2) (sh / 2)"
proof -
  have "view_ok (fit r sw sh m t)" using assms by (simp add: fit_def view_ok_def Let_def)
  then have "0 < vt_scale (fit r sw sh m t)" by (rule view_ok_pos)
  then show ?thesis using assms
    by (simp add: fit_def to_surface_def vec2_defs Let_def)
qed

lemma usable_bounds: "0 < clamp (1 - m) 0.05 (1::real)" "clamp (1 - m) 0.05 (1::real) \<le> 1"
  by (auto simp: clamp_def)

lemma centered_inside:
  fixes x w c s scale :: real
  assumes "0 < w" "0 < scale" "scale \<le> s / w" "x \<le> c" "c \<le> x + w"
  shows "0 \<le> (c - (x + w / 2 - s / 2 / scale)) * scale"
    and "(c - (x + w / 2 - s / 2 / scale)) * scale \<le> s"
proof -
  have "(c - (x + w / 2 - s / 2 / scale)) * scale = (c - (x + w / 2)) * scale + s / 2"
    using assms(2) by (simp add: field_simps)
  moreover have "\<bar>(c - (x + w / 2)) * scale\<bar> \<le> (w / 2) * (s / w)"
    unfolding abs_mult
  proof (rule mult_mono)
    show "\<bar>c - (x + w / 2)\<bar> \<le> w / 2" using assms(4,5) by (simp add: abs_le_iff field_simps)
  qed (use assms in auto)
  moreover have "(w / 2) * (s / w) = s / 2" using assms(1) by simp
  ultimately show "0 \<le> (c - (x + w / 2 - s / 2 / scale)) * scale"
    "(c - (x + w / 2 - s / 2 / scale)) * scale \<le> s" by linarith+
qed

lemma fit_scale_le:
  assumes "0 < rect_w r" "0 < rect_h r" "0 < sw" "0 < sh"
    and "kMinScale \<le> min (sw * clamp (1 - m) 0.05 1 / of_int (rect_w r)) (sh * clamp (1 - m) 0.05 1 / of_int (rect_h r))"
  shows "vt_scale (fit r sw sh m t) \<le> sw / of_int (rect_w r)"
    and "vt_scale (fit r sw sh m t) \<le> sh / of_int (rect_h r)"
proof -
  let ?u = "clamp (1 - m) 0.05 (1::real)"
  have "vt_scale (fit r sw sh m t) \<le> min (sw * ?u / of_int (rect_w r)) (sh * ?u / of_int (rect_h r))"
    using assms by (simp add: fit_def Let_def clamp_def [of "min _ _"])
  moreover have "sw * ?u / of_int (rect_w r) \<le> sw / of_int (rect_w r)"
    "sh * ?u / of_int (rect_h r) \<le> sh / of_int (rect_h r)"
    using assms usable_bounds [of m] by (auto intro!: divide_right_mono mult_left_le)
  ultimately show "vt_scale (fit r sw sh m t) \<le> sw / of_int (rect_w r)"
    "vt_scale (fit r sw sh m t) \<le> sh / of_int (rect_h r)" by linarith+
qed

section \<open>Properties\<close>

text \<open>
  the view transform is invertible and moves the way the gestures mean it to. From any state
  whose scale is inside the limits, surface and desktop coordinates convert back and forth; a
  zoom keeps the desktop point under its anchor; a pan shifts every point by exactly the drag;
  and the scale stays inside the limits.
\<close>

theorem view_transform_correct:
  assumes "view_ok t"
  shows "to_pc t (to_surface t p) = p \<and> to_surface t (to_pc t s) = s \<and>
    to_pc (zoom_about a f t) a = to_pc t a \<and>
    to_surface (pan_by d t) p = v_add (to_surface t p) d \<and>
    view_ok (zoom_about a f t) \<and> view_ok (pan_by d t) \<and> view_ok (fit r w h m t) \<and> view_ok (view_set sc p t)"
  using assms
  by (simp add: to_pc_to_surface to_surface_to_pc zoom_keeps_anchor pan_moves_content)

theorem view_transform_correct_witness:
  "to_pc view_init (to_surface view_init (vec2 3 4)) = vec2 3 4 \<and>
   to_pc (zoom_about (vec2 10 10) 2 view_init) (vec2 10 10) = to_pc view_init (vec2 10 10)"
  using view_transform_correct [of view_init "vec2 3 4" "vec2 0 0" "vec2 10 10" 2 "vec2 1 1"
      "recti 0 0 1 1" 1 1 0 1] by simp

text \<open>
  \<open>fit\<close> shows the whole rectangle, centred: its centre goes to the centre of the
  surface and every point of it lands on the surface, unless the rectangle is so large that
  the minimum scale cuts in.
\<close>

theorem fit_shows_rect:
  assumes "0 < rect_w r" "0 < rect_h r" "0 < sw" "0 < sh"
    and "kMinScale \<le> min (sw * clamp (1 - m) 0.05 1 / of_int (rect_w r)) (sh * clamp (1 - m) 0.05 1 / of_int (rect_h r))"
    and "of_int (rect_x r) \<le> v_x p" "v_x p \<le> of_int (rect_x r) + of_int (rect_w r)"
    and "of_int (rect_y r) \<le> v_y p" "v_y p \<le> of_int (rect_y r) + of_int (rect_h r)"
  shows "to_surface (fit r sw sh m t) (rect_center r) = vec2 (sw / 2) (sh / 2) \<and>
    (let q = to_surface (fit r sw sh m t) p in 0 \<le> v_x q \<and> v_x q \<le> sw \<and> 0 \<le> v_y q \<and> v_y q \<le> sh)"
proof -
  let ?t = "fit r sw sh m t"
  have "view_ok ?t" using assms by (simp add: fit_def view_ok_def Let_def)
  then have pos: "0 < vt_scale ?t" by (rule view_ok_pos)
  have pan: "vt_pan ?t = v_sub (rect_center r) (v_divide (vec2 (sw / 2) (sh / 2)) (vt_scale ?t))"
    using assms by (simp add: fit_def Let_def)
  have sc: "vt_scale ?t \<le> sw / of_int (rect_w r)" "vt_scale ?t \<le> sh / of_int (rect_h r)"
    using fit_scale_le [of r sw sh m t] assms by auto
  show ?thesis
    using fit_center [of r sw sh m t] assms
      centered_inside [OF _ pos sc(1), of "of_int (rect_x r)" "v_x p"]
      centered_inside [OF _ pos sc(2), of "of_int (rect_y r)" "v_y p"]
    by (simp add: to_surface_def pan vec2_defs rect_center_def)
qed

theorem fit_shows_rect_witness:
  "to_surface (fit (recti 0 0 1920 1080) 1920 1080 0 view_init) (rect_center (recti 0 0 1920 1080)) = vec2 960 540"
  using fit_shows_rect [of "recti 0 0 1920 1080" 1920 1080 0 "vec2 0 0" view_init]
  by (simp add: kMinScale_def)

end
