(* ===== verification/Tiling.thy ===== *)
theory Tiling
  imports Geometry
begin

text \<open>
  The tiling arithmetic of \<open>common/include/digitiz/proto/tiling.hpp\<close> and
  \<open>common/src/tiling.cpp\<close>, which host and guest run on the same numbers: the grid of a
  viewport, the rectangle of a tile on the encoded surface, the desktop pixels it is sampled
  from, the tiles a dirty rectangle touches, and the construction of a geometry from a request.
\<close>

section \<open>Definitions\<close>

definition kEtc2BlockSize :: int where "kEtc2BlockSize = 4"
definition kEtc2BlockBytes :: nat where "kEtc2BlockBytes = 8"

definition etc2_size :: "int \<Rightarrow> int \<Rightarrow> nat" where
  "etc2_size w h =
     (if w \<le> 0 \<or> h \<le> 0 then 0
      else nat (cdiv w kEtc2BlockSize) * nat (cdiv h kEtc2BlockSize) * kEtc2BlockBytes)"

record ViewportGeometry =
  vg_region :: Recti
  vg_out_w :: int
  vg_out_h :: int
  vg_tile :: int

definition empty_geometry :: ViewportGeometry where
  "empty_geometry = \<lparr>vg_region = recti 0 0 0 0, vg_out_w = 0, vg_out_h = 0, vg_tile = 0\<rparr>"

definition vg_cols :: "ViewportGeometry \<Rightarrow> int" where
  "vg_cols g = (if 0 < vg_tile g then cdiv (vg_out_w g + vg_tile g - 1) (vg_tile g) else 0)"

definition vg_rows :: "ViewportGeometry \<Rightarrow> int" where
  "vg_rows g = (if 0 < vg_tile g then cdiv (vg_out_h g + vg_tile g - 1) (vg_tile g) else 0)"

definition tile_count :: "ViewportGeometry \<Rightarrow> int" where
  "tile_count g = vg_cols g * vg_rows g"

definition vg_valid :: "ViewportGeometry \<Rightarrow> bool" where
  "vg_valid g \<longleftrightarrow>
     0 < rect_w (vg_region g) \<and> 0 < rect_h (vg_region g) \<and> 0 < vg_out_w g \<and> 0 < vg_out_h g \<and>
     0 < vg_tile g \<and> cmod (vg_out_w g) 4 = 0 \<and> cmod (vg_out_h g) 4 = 0 \<and> cmod (vg_tile g) 4 = 0"

definition tile_output_rect :: "ViewportGeometry \<Rightarrow> int \<Rightarrow> Recti" where
  "tile_output_rect g index =
     (if vg_tile g \<le> 0 \<or> index < 0 \<or> tile_count g \<le> index then recti 0 0 0 0
      else
        let col = cmod index (vg_cols g); row = cdiv index (vg_cols g);
            x = col * vg_tile g; y = row * vg_tile g in
        recti x y (min (vg_tile g) (vg_out_w g - x)) (min (vg_tile g) (vg_out_h g - y)))"

definition source_edge :: "int \<Rightarrow> int \<Rightarrow> int \<Rightarrow> int" where
  "source_edge v from to = to_i32 (cdiv (v * to) (max from 1))"

definition tile_source_rect :: "ViewportGeometry \<Rightarrow> int \<Rightarrow> Recti" where
  "tile_source_rect g index =
     (let out = tile_output_rect g index; region = vg_region g in
      if rect_w out \<le> 0 \<or> rect_h out \<le> 0 then recti 0 0 0 0
      else
        let x0 = source_edge (rect_x out) (vg_out_w g) (rect_w region);
            x1 = source_edge (rect_x out + rect_w out) (vg_out_w g) (rect_w region);
            y0 = source_edge (rect_y out) (vg_out_h g) (rect_h region);
            y1 = source_edge (rect_y out + rect_h out) (vg_out_h g) (rect_h region) in
        recti (rect_x region + x0) (rect_y region + y0) (max (x1 - x0) 1) (max (y1 - y0) 1))"

definition to_out :: "int \<Rightarrow> int \<Rightarrow> int \<Rightarrow> bool \<Rightarrow> int" where
  "to_out v from to up =
     (let scaled = v * to; d = max from 1 in
      to_i32 (if up then cdiv (scaled + d - 1) d else cdiv scaled d))"

definition tiles_touching :: "ViewportGeometry \<Rightarrow> Recti \<Rightarrow> Recti" where
  "tiles_touching g desktop =
     (if \<not> vg_valid g then recti 0 0 0 0
      else
        let region = vg_region g; tile = vg_tile g;
            rx0 = max (rect_x desktop - rect_x region) 0;
            ry0 = max (rect_y desktop - rect_y region) 0;
            rx1 = min (rect_x desktop + rect_w desktop - rect_x region) (rect_w region);
            ry1 = min (rect_y desktop + rect_h desktop - rect_y region) (rect_h region) in
        if rx1 \<le> rx0 \<or> ry1 \<le> ry0 then recti 0 0 0 0
        else
          let ox0 = to_out rx0 (rect_w region) (vg_out_w g) False;
              oy0 = to_out ry0 (rect_h region) (vg_out_h g) False;
              ox1 = to_out rx1 (rect_w region) (vg_out_w g) True;
              oy1 = to_out ry1 (rect_h region) (vg_out_h g) True;
              tx0 = clamp (cdiv ox0 tile) 0 (vg_cols g - 1);
              ty0 = clamp (cdiv oy0 tile) 0 (vg_rows g - 1);
              tx1 = clamp (cdiv (ox1 + tile - 1) tile) 1 (vg_cols g);
              ty1 = clamp (cdiv (oy1 + tile - 1) tile) 1 (vg_rows g) in
          recti tx0 ty0 (max (tx1 - tx0) 1) (max (ty1 - ty0) 1))"

definition round_up_to :: "int \<Rightarrow> int \<Rightarrow> int" where
  "round_up_to v multiple = (if multiple \<le> 0 then v else cdiv (v + multiple - 1) multiple * multiple)"

definition make_geometry :: "Recti \<Rightarrow> int \<Rightarrow> int \<Rightarrow> int \<Rightarrow> ViewportGeometry" where
  "make_geometry region out_w out_h tile =
     (if rect_w region \<le> 0 \<or> rect_h region \<le> 0 then empty_geometry
      else
        let ow = if out_w \<le> 0 then rect_w region else out_w;
            oh = if out_h \<le> 0 then rect_h region else out_h;
            t = if tile \<le> 0 then 64 else tile in
        \<lparr>vg_region = region,
         vg_out_w = round_up_to (clamp ow 4 8192) 4,
         vg_out_h = round_up_to (clamp oh 4 8192) 4,
         vg_tile = round_up_to (clamp t 8 256) 4\<rparr>)"

section \<open>One axis at a time\<close>

lemma round_up_to_spec:
  assumes "0 < m" "0 \<le> v"
  shows "v \<le> round_up_to v m" and "round_up_to v m < v + m" and "round_up_to v m mod m = 0"
proof -
  have "round_up_to v m = v + m - 1 - (v + m - 1) mod m"
    using assms by (simp add: round_up_to_def minus_mod_eq_div_mult)
  moreover have "0 \<le> (v + m - 1) mod m" "(v + m - 1) mod m < m" using assms by simp_all
  ultimately show "v \<le> round_up_to v m" "round_up_to v m < v + m" by linarith+
  show "round_up_to v m mod m = 0" using assms by (simp add: round_up_to_def)
qed

lemma round_up_clamp:
  assumes "0 < m" "lo \<le> hi" "0 \<le> lo" "lo mod m = 0" "hi mod m = 0"
  shows "lo \<le> round_up_to (clamp v lo hi) m" and "round_up_to (clamp v lo hi) m \<le> hi"
    and "round_up_to (clamp v lo hi) m mod m = 0"
proof -
  let ?c = "clamp v lo hi" let ?r = "round_up_to ?c m"
  have c: "lo \<le> ?c" "?c \<le> hi" using assms(2) by simp_all
  then have c0: "0 \<le> ?c" using assms(3) by linarith
  note spec = round_up_to_spec [OF assms(1) c0]
  show "lo \<le> ?r" using spec(1) c(1) by linarith
  show "?r mod m = 0" by (fact spec(3))
  then obtain k where k: "?r = m * k" by (auto elim: dvdE)
  obtain l where l: "hi = m * l" using assms(5) by (auto elim: dvdE)
  have "m * k < m * (l + 1)" using spec(2) c(2) k l by (simp add: distrib_left)
  then have "k < l + 1" using assms(1) by (metis mult_less_cancel_left_pos)
  then show "?r \<le> hi" using k l assms(1) by simp
qed

lemma ceil_div_iff: "0 < t \<Longrightarrow> c < (n + t - 1) div t \<longleftrightarrow> c * t < n" for c :: int
  using le_zdiv_iff [of t "c + 1" "n + t - 1"] by (auto simp: distrib_right)

lemmas ceil_div_gt = ceil_div_iff [THEN iffD2]
lemmas ceil_div_less = ceil_div_iff [THEN iffD1]

lemma axis_cell:
  assumes "0 < (t::int)" "0 \<le> p" "p < n"
  shows "p div t * t \<le> p" and "p < p div t * t + min t (n - p div t * t)"
    and "0 \<le> p div t" and "p div t < (n + t - 1) div t"
proof -
  have e: "p div t * t + p mod t = p" by simp
  have m: "0 \<le> p mod t" "p mod t < t" using assms(1) by simp_all
  show "p div t * t \<le> p" "p < p div t * t + min t (n - p div t * t)" using e m assms(3) by linarith+
  show "0 \<le> p div t" using assms by (simp add: pos_imp_zdiv_nonneg_iff)
  show "p div t < (n + t - 1) div t"
    by (rule ceil_div_gt [OF assms(1)]) (use e m assms(3) in linarith)
qed

lemma axis_cell_unique:
  assumes "0 < (t::int)" "c * t \<le> p" "p < c * t + t"
  shows "c = p div t"
proof -
  have "c \<le> p div t" using assms by (simp add: le_zdiv_iff)
  moreover have "p div t \<le> c" using assms by (simp add: zdiv_le_iff distrib_right)
  ultimately show ?thesis by simp
qed

lemma axis_touch:
  fixes c t ow rw p a b :: int
  assumes pos: "0 < ow" "0 < rw" "0 < t" and c: "0 \<le> c" "c * t < ow"
    and w: "w = min t (ow - c * t)"
    and x0: "x0 = c * t * rw div ow" and x1: "x1 = (c * t + w) * rw div ow"
    and p: "x0 \<le> p" "p < x0 + max (x1 - x0) 1" and ab: "0 \<le> a" "a \<le> p" "p < b"
  shows "a * ow div rw div t \<le> c" and "c < ((b * ow + rw - 1) div rw + t - 1) div t"
    and "p < rw"
proof -
  have wpos: "0 < w" using w pos c by simp
  have le: "x0 * ow \<le> c * t * rw" using x0 div_times_le [OF pos(1)] by simp
  have lt: "c * t * rw < (x0 + 1) * ow" using x0 less_div_times [OF pos(1)] by simp
  have le1: "x1 * ow \<le> (c * t + w) * rw" using x1 div_times_le [OF pos(1)] by simp
  have step: "c * t * rw < (c * t + w) * rw" using wpos pos by simp
  have pw: "p * ow < (c * t + w) * rw"
  proof (cases "x0 < x1")
    case True
    then have "(p + 1) * ow \<le> x1 * ow" using p pos by (intro mult_right_mono) auto
    with le1 pos show ?thesis by (simp add: algebra_simps)
  next
    case False
    then have "p = x0" using p by simp
    then show ?thesis using le step by simp
  qed
  have "a * ow \<le> p * ow" using ab pos by (intro mult_right_mono) auto
  also note pw
  also have "(c * t + w) * rw \<le> ((c + 1) * t) * rw"
    using w pos by (intro mult_right_mono) (auto simp: algebra_simps)
  finally have "a * ow div rw < (c + 1) * t" using pos by (simp add: zdiv_less_iff)
  then show "a * ow div rw div t \<le> c" using pos by (simp add: zdiv_le_iff zdiv_less_iff)
  have "(x0 + 1) * ow \<le> b * ow" using p ab pos by (intro mult_right_mono) auto
  with lt have "c * t * rw < b * ow" by linarith
  then have "c * t < (b * ow + rw - 1) div rw" using ceil_div_gt [OF pos(2)] by simp
  then show "c < ((b * ow + rw - 1) div rw + t - 1) div t" by (rule ceil_div_gt [OF pos(3)])
  have "(c * t + w) * rw \<le> ow * rw" using w pos by (intro mult_right_mono) auto
  with pw have "p * ow < rw * ow" by (simp add: mult.commute)
  then show "p < rw" using pos by (metis mult_less_cancel_right_pos)
qed

lemma axis_source_cover:
  fixes t ow rw p :: int
  assumes pos: "0 < ow" "0 < rw" "0 < t" and p: "0 \<le> p" "p < rw"
  obtains c where "0 \<le> c" "c * t < ow" "c * t * rw div ow \<le> p"
    "p < (c * t + min t (ow - c * t)) * rw div ow"
proof -
  text \<open>The output pixel whose right edge is the first one beyond \<open>p\<close>.\<close>
  define q where "q = ((p + 1) * ow + rw - 1) div rw - 1"
  have q1: "(p + 1) * ow \<le> (q + 1) * rw"
    using ceil_div_iff [OF pos(2), of "q + 1" "(p + 1) * ow"] by (simp add: q_def not_less [symmetric])
  have q2: "q * rw < (p + 1) * ow" by (rule ceil_div_less [OF pos(2)]) (simp add: q_def)
  have "0 < (p + 1) * ow" using p pos by simp
  with q1 have "0 < (q + 1) * rw" by linarith
  then have q0: "0 \<le> q" using pos by (simp add: zero_less_mult_iff)
  have "(p + 1) * ow \<le> rw * ow" using p pos by (intro mult_right_mono) auto
  with q2 have "q * rw < ow * rw" by (simp add: mult.commute)
  then have qow: "q < ow" using pos by (metis mult_less_cancel_right_pos)
  note cell = axis_cell [OF pos(3) q0 qow]
  show thesis
  proof
    show "0 \<le> q div t" "q div t * t < ow" using cell qow by linarith+
    have "q div t * t * rw \<le> q * rw" using cell(1) pos by (intro mult_right_mono) auto
    with q2 have "q div t * t * rw < (p + 1) * ow" by linarith
    then show "q div t * t * rw div ow \<le> p" using pos by (simp add: zdiv_le_iff)
    have "(q + 1) * rw \<le> (q div t * t + min t (ow - q div t * t)) * rw"
      using cell(2) pos by (intro mult_right_mono) auto
    with q1 have "(p + 1) * ow \<le> (q div t * t + min t (ow - q div t * t)) * rw" by linarith
    then have "(p + 1) * ow div ow \<le> (q div t * t + min t (ow - q div t * t)) * rw div ow"
      using pos by (intro zdiv_mono1) auto
    then show "p < (q div t * t + min t (ow - q div t * t)) * rw div ow" using pos by simp
  qed
qed

section \<open>Lemmas on geometries\<close>

text \<open>The fields of the C++ struct are 32-bit integers.\<close>

definition vg_i32 :: "ViewportGeometry \<Rightarrow> bool" where
  "vg_i32 g \<longleftrightarrow> is_i32 (rect_w (vg_region g)) \<and> is_i32 (rect_h (vg_region g)) \<and>
     is_i32 (vg_out_w g) \<and> is_i32 (vg_out_h g)"

lemma vg_validD:
  assumes "vg_valid g"
  shows "0 < rect_w (vg_region g)" "0 < rect_h (vg_region g)" "0 < vg_out_w g" "0 < vg_out_h g"
    "0 < vg_tile g" "vg_out_w g mod 4 = 0" "vg_out_h g mod 4 = 0" "vg_tile g mod 4 = 0"
  using assms by (auto simp: vg_valid_def)

lemma vg_cols_eq: "vg_valid g \<Longrightarrow> vg_cols g = (vg_out_w g + vg_tile g - 1) div vg_tile g"
  by (simp add: vg_cols_def vg_valid_def)

lemma vg_rows_eq: "vg_valid g \<Longrightarrow> vg_rows g = (vg_out_h g + vg_tile g - 1) div vg_tile g"
  by (simp add: vg_rows_def vg_valid_def)

lemma vg_cols_iff: "vg_valid g \<Longrightarrow> c < vg_cols g \<longleftrightarrow> c * vg_tile g < vg_out_w g"
  by (simp add: vg_cols_eq ceil_div_iff vg_validD)

lemma vg_rows_iff: "vg_valid g \<Longrightarrow> c < vg_rows g \<longleftrightarrow> c * vg_tile g < vg_out_h g"
  by (simp add: vg_rows_eq ceil_div_iff vg_validD)

lemma vg_cols_pos: "vg_valid g \<Longrightarrow> 0 < vg_cols g"
  by (simp add: vg_cols_iff vg_validD)

lemma vg_rows_pos: "vg_valid g \<Longrightarrow> 0 < vg_rows g"
  by (simp add: vg_rows_iff vg_validD)

lemma tile_index:
  fixes c :: int
  assumes "0 \<le> c" "c < cols" "0 \<le> r" "r < rows"
  shows "(r * cols + c) mod cols = c" "(r * cols + c) div cols = r" "0 \<le> r * cols + c"
    "r * cols + c < cols * rows"
proof -
  show "(r * cols + c) mod cols = c" "(r * cols + c) div cols = r" "0 \<le> r * cols + c"
    using assms by (simp_all add: div_pos_pos_trivial mod_pos_pos_trivial)
  have "(r + 1) * cols \<le> rows * cols" using assms by (intro mult_right_mono) auto
  then show "r * cols + c < cols * rows" using assms by (simp add: algebra_simps)
qed

lemma tile_index_split:
  fixes i :: int
  assumes "0 < cols" "0 \<le> i" "i < cols * rows"
  shows "0 \<le> i mod cols" "i mod cols < cols" "0 \<le> i div cols" "i div cols < rows"
  using assms by (simp_all add: pos_imp_zdiv_nonneg_iff zdiv_less_iff mult.commute)

lemma tile_output_rect_eq:
  assumes "vg_valid g" "0 \<le> i" "i < tile_count g"
  shows "tile_output_rect g i =
    recti (i mod vg_cols g * vg_tile g) (i div vg_cols g * vg_tile g)
      (min (vg_tile g) (vg_out_w g - i mod vg_cols g * vg_tile g))
      (min (vg_tile g) (vg_out_h g - i div vg_cols g * vg_tile g))"
  using assms vg_cols_pos [of g] vg_validD(5) [of g] by (simp add: tile_output_rect_def Let_def)

lemma tile_split:
  assumes "vg_valid g" "0 \<le> i" "i < tile_count g"
  shows "0 \<le> i mod vg_cols g" "0 \<le> i div vg_cols g" "i mod vg_cols g < vg_cols g"
    "i div vg_cols g < vg_rows g"
    "i mod vg_cols g * vg_tile g < vg_out_w g" "i div vg_cols g * vg_tile g < vg_out_h g"
  using tile_index_split [of "vg_cols g" i "vg_rows g"] assms vg_cols_pos [of g]
  by (auto simp: tile_count_def vg_cols_iff vg_rows_iff)

lemma edge_bounds:
  fixes v frm to :: int
  assumes "0 < frm" "0 \<le> v" "v \<le> frm" "0 \<le> to" "is_i32 to"
  shows "0 \<le> v * to div frm" "v * to div frm \<le> to" "0 \<le> (v * to + frm - 1) div frm"
    "(v * to + frm - 1) div frm \<le> to"
    "is_i32 (v * to div frm)" "is_i32 ((v * to + frm - 1) div frm)"
proof -
  have "v * to \<le> frm * to" using assms by (intro mult_right_mono)
  then show a: "v * to div frm \<le> to" "(v * to + frm - 1) div frm \<le> to"
    using assms by (simp_all add: zdiv_le_iff algebra_simps)
  show b: "0 \<le> v * to div frm" "0 \<le> (v * to + frm - 1) div frm"
    using assms by (simp_all add: pos_imp_zdiv_nonneg_iff add_nonneg_pos)
  show "is_i32 (v * to div frm)" "is_i32 ((v * to + frm - 1) div frm)"
    using a b assms(5) by (auto simp: is_i32_def)
qed

lemma source_edge_eq:
  "0 < from \<Longrightarrow> 0 \<le> v \<Longrightarrow> v \<le> from \<Longrightarrow> 0 \<le> to \<Longrightarrow> is_i32 to \<Longrightarrow> source_edge v from to = v * to div from"
  by (simp add: source_edge_def max_absorb1 edge_bounds)

lemma to_out_eq:
  assumes "0 < from" "0 \<le> v" "v \<le> from" "0 \<le> to" "is_i32 to"
  shows "to_out v from to False = v * to div from" "to_out v from to True = (v * to + from - 1) div from"
  using assms edge_bounds [OF assms] add_nonneg_nonneg [of "v * to" "from - 1"]
  by (simp_all add: to_out_def max_absorb1 Let_def algebra_simps)

lemma tile_source_rect_eq:
  assumes g: "vg_valid g" "vg_i32 g" and i: "0 \<le> i" "i < tile_count g"
    and c: "c = i mod vg_cols g * vg_tile g" and r: "r = i div vg_cols g * vg_tile g"
    and w: "w = min (vg_tile g) (vg_out_w g - c)" and h: "h = min (vg_tile g) (vg_out_h g - r)"
  shows "tile_source_rect g i =
    (let rw = rect_w (vg_region g); rh = rect_h (vg_region g);
         x0 = c * rw div vg_out_w g; x1 = (c + w) * rw div vg_out_w g;
         y0 = r * rh div vg_out_h g; y1 = (r + h) * rh div vg_out_h g in
     recti (rect_x (vg_region g) + x0) (rect_y (vg_region g) + y0) (max (x1 - x0) 1) (max (y1 - y0) 1))"
proof -
  note t = tile_split [OF g(1) i] and v = vg_validD [OF g(1)]
  have "0 \<le> c" "0 \<le> r" "c < vg_out_w g" "r < vg_out_h g" using t v c r by auto
  moreover from this have "0 < w" "0 < h" "c + w \<le> vg_out_w g" "r + h \<le> vg_out_h g" using v w h by auto
  ultimately have b: "0 \<le> c" "c \<le> vg_out_w g" "0 \<le> c + w" "c + w \<le> vg_out_w g"
    "0 \<le> r" "r \<le> vg_out_h g" "0 \<le> r + h" "r + h \<le> vg_out_h g" "\<not> (w \<le> 0 \<or> h \<le> 0)" by linarith+
  have out: "tile_output_rect g i = recti c r w h"
    unfolding tile_output_rect_eq [OF g(1) i] c r w h by (rule refl)
  have rw: "0 \<le> rect_w (vg_region g)" "is_i32 (rect_w (vg_region g))"
    "0 \<le> rect_h (vg_region g)" "is_i32 (rect_h (vg_region g))"
    using v(1,2) g(2) by (simp_all add: vg_i32_def)
  show ?thesis
    unfolding tile_source_rect_def out Let_def recti_sel if_not_P [OF b(9)]
      source_edge_eq [OF v(3) b(1,2) rw(1,2)] source_edge_eq [OF v(3) b(3,4) rw(1,2)]
      source_edge_eq [OF v(4) b(5,6) rw(3,4)] source_edge_eq [OF v(4) b(7,8) rw(3,4)]
    by (rule refl)
qed

lemma clamp_covers:
  fixes c0 c c1 n :: int
  assumes "c0 \<le> c" "c < c1" "0 \<le> c" "c < n"
  shows "clamp c0 0 (n - 1) \<le> c"
    and "c < clamp c0 0 (n - 1) + max (clamp c1 1 n - clamp c0 0 (n - 1)) 1"
  using assms by (auto simp: clamp_def)

lemma tiles_touching_covers:
  assumes g: "vg_valid g" "vg_i32 g" and i: "0 \<le> i" "i < tile_count g"
    and s: "contains (tile_source_rect g i) px py" and d: "contains dirty px py"
  shows "contains (tiles_touching g dirty) (i mod vg_cols g) (i div vg_cols g)"
proof -
  note v = vg_validD [OF g(1)] and t = tile_split [OF g(1) i]
  let ?R = "vg_region g"
  define a b a' b' where ab: "a = max (rect_x dirty - rect_x ?R) 0"
    "b = min (rect_x dirty + rect_w dirty - rect_x ?R) (rect_w ?R)"
    "a' = max (rect_y dirty - rect_y ?R) 0"
    "b' = min (rect_y dirty + rect_h dirty - rect_y ?R) (rect_h ?R)"
  let ?x = "px - rect_x ?R" and ?y = "py - rect_y ?R"
  define c r where cr: "c = i mod vg_cols g" "r = i div vg_cols g"
  note t = t [folded cr]
  define w h where wh: "w = min (vg_tile g) (vg_out_w g - c * vg_tile g)"
    "h = min (vg_tile g) (vg_out_h g - r * vg_tile g)"
  define x0 x1 y0 y1 where xs: "x0 = c * vg_tile g * rect_w ?R div vg_out_w g"
    "x1 = (c * vg_tile g + w) * rect_w ?R div vg_out_w g"
    "y0 = r * vg_tile g * rect_h ?R div vg_out_h g"
    "y1 = (r * vg_tile g + h) * rect_h ?R div vg_out_h g"
  have "contains (recti (rect_x ?R + x0) (rect_y ?R + y0) (max (x1 - x0) 1) (max (y1 - y0) 1)) px py"
    using s tile_source_rect_eq [OF g i refl refl refl refl, folded cr, folded wh] by (simp add: xs Let_def)
  then have src: "x0 \<le> ?x" "?x < x0 + max (x1 - x0) 1" "y0 \<le> ?y" "?y < y0 + max (y1 - y0) 1"
    by (auto simp: contains_def)
  have nn: "0 \<le> x0" "0 \<le> y0" using xs t v by (simp_all add: pos_imp_zdiv_nonneg_iff)
  have dd: "rect_x dirty \<le> px" "px < rect_x dirty + rect_w dirty" "rect_y dirty \<le> py"
    "py < rect_y dirty + rect_h dirty" using d by (auto simp: contains_def)
  have lo: "0 \<le> a" "a \<le> ?x" "0 \<le> a'" "a' \<le> ?y" using ab dd src nn by auto
  have "?x < rect_w ?R" "?y < rect_h ?R"
    using axis_touch(3) [OF v(3,1,5) t(1) t(5) wh(1) xs(1,2) src(1,2) lo(1,2), of "?x + 1"]
      axis_touch(3) [OF v(4,2,5) t(2) t(6) wh(2) xs(3,4) src(3,4) lo(3,4), of "?y + 1"] by auto
  then have hi: "?x < b" "?y < b'" using ab dd by auto
  note tx = axis_touch(1,2) [OF v(3,1,5) t(1) t(5) wh(1) xs(1,2) src(1,2) lo(1,2) hi(1)]
  note ty = axis_touch(1,2) [OF v(4,2,5) t(2) t(6) wh(2) xs(3,4) src(3,4) lo(3,4) hi(2)]
  have rng: "a \<le> rect_w ?R" "b \<le> rect_w ?R" "a' \<le> rect_h ?R" "b' \<le> rect_h ?R" "0 \<le> b" "0 \<le> b'"
    using ab lo hi by linarith+
  have i32: "is_i32 (vg_out_w g)" "is_i32 (vg_out_h g)" using g(2) by (auto simp: vg_i32_def)
  have outs: "to_out a (rect_w ?R) (vg_out_w g) False = a * vg_out_w g div rect_w ?R"
    "to_out b (rect_w ?R) (vg_out_w g) True = (b * vg_out_w g + rect_w ?R - 1) div rect_w ?R"
    "to_out a' (rect_h ?R) (vg_out_h g) False = a' * vg_out_h g div rect_h ?R"
    "to_out b' (rect_h ?R) (vg_out_h g) True = (b' * vg_out_h g + rect_h ?R - 1) div rect_h ?R"
    using rng lo v i32 by (simp_all add: to_out_eq)
  have nz: "0 \<le> a * vg_out_w g div rect_w ?R" "0 \<le> (b * vg_out_w g + rect_w ?R - 1) div rect_w ?R"
    "0 \<le> a' * vg_out_h g div rect_h ?R" "0 \<le> (b' * vg_out_h g + rect_h ?R - 1) div rect_h ?R"
    using rng lo v by (simp_all add: pos_imp_zdiv_nonneg_iff add_nonneg_pos)
  have nb: "\<not> (b \<le> a \<or> b' \<le> a')" using lo hi by linarith
  define X0 X1 Y0 Y1 where XY: "X0 = a * vg_out_w g div rect_w ?R" "X1 = (b * vg_out_w g + rect_w ?R - 1) div rect_w ?R"
    "Y0 = a' * vg_out_h g div rect_h ?R" "Y1 = (b' * vg_out_h g + rect_h ?R - 1) div rect_h ?R"
  have eq: "tiles_touching g dirty =
      (let tx0 = clamp (X0 div vg_tile g) 0 (vg_cols g - 1); ty0 = clamp (Y0 div vg_tile g) 0 (vg_rows g - 1);
           tx1 = clamp ((X1 + vg_tile g - 1) div vg_tile g) 1 (vg_cols g);
           ty1 = clamp ((Y1 + vg_tile g - 1) div vg_tile g) 1 (vg_rows g) in
       recti tx0 ty0 (max (tx1 - tx0) 1) (max (ty1 - ty0) 1))"
    using nz v(5) nb unfolding tiles_touching_def Let_def ab [symmetric] outs XY [symmetric]
    by (simp add: g)
  show ?thesis
    unfolding eq Let_def contains_def recti_sel cr [symmetric]
    using clamp_covers [OF tx(1) tx(2) t(1) t(3)] clamp_covers [OF ty(1) ty(2) t(2) t(4)] XY by simp
qed

section \<open>Properties\<close>

text \<open>
  C26: the tiles partition the encoded surface: every output pixel lies in the rectangle of
  exactly one tile of a valid geometry.
\<close>

theorem tiles_partition_output:
  assumes g: "vg_valid g" and p: "0 \<le> px" "px < vg_out_w g" "0 \<le> py" "py < vg_out_h g"
  shows "\<exists>!i. 0 \<le> i \<and> i < tile_count g \<and> contains (tile_output_rect g i) px py"
proof -
  note v = vg_validD [OF g]
  note cx = axis_cell [OF v(5) p(1,2)] and cy = axis_cell [OF v(5) p(3,4)]
  let ?i = "py div vg_tile g * vg_cols g + px div vg_tile g"
  have ix: "?i mod vg_cols g = px div vg_tile g" "?i div vg_cols g = py div vg_tile g" "0 \<le> ?i"
    "?i < tile_count g"
    using tile_index [OF cx(3) _ cy(3)] cx(4) cy(4) by (simp_all add: tile_count_def vg_cols_eq vg_rows_eq g)
  show ?thesis
  proof (rule ex1I [of _ ?i])
    show "0 \<le> ?i \<and> ?i < tile_count g \<and> contains (tile_output_rect g ?i) px py"
      using ix cx cy by (simp add: tile_output_rect_eq [OF g] contains_def)
  next
    fix i assume i: "0 \<le> i \<and> i < tile_count g \<and> contains (tile_output_rect g i) px py"
    then have "i mod vg_cols g = px div vg_tile g" "i div vg_cols g = py div vg_tile g"
      using v(5) by (auto simp: tile_output_rect_eq [OF g] contains_def intro!: axis_cell_unique)
    then show "i = ?i" using div_mult_mod_eq [of i "vg_cols g"] by simp
  qed
qed

definition ex_geometry :: ViewportGeometry where
  "ex_geometry = \<lparr>vg_region = recti 100 50 1000 700, vg_out_w = 640, vg_out_h = 448, vg_tile = 64\<rparr>"

lemma ex_geometry_ok:
  "vg_valid ex_geometry" "vg_i32 ex_geometry" "vg_out_w ex_geometry = 640" "vg_out_h ex_geometry = 448"
  "vg_region ex_geometry = recti 100 50 1000 700" "tile_count ex_geometry = 70"
  by (simp_all add: ex_geometry_def vg_valid_def vg_i32_def is_i32_def tile_count_def vg_cols_def vg_rows_def)

theorem tiles_partition_output_witness:
  "\<exists>!i. 0 \<le> i \<and> i < tile_count ex_geometry \<and> contains (tile_output_rect ex_geometry i) 639 447"
  using tiles_partition_output [of ex_geometry 639 447] by (simp add: ex_geometry_ok)

text \<open>
  no desktop pixel is lost between tiles: every pixel of the region served lies in the source
  rectangle of some tile, whatever the scale between region and encoded surface.
\<close>

theorem tile_sources_cover_region:
  assumes g: "vg_valid g" "vg_i32 g" and p: "contains (vg_region g) px py"
  shows "\<exists>i. 0 \<le> i \<and> i < tile_count g \<and> contains (tile_source_rect g i) px py"
proof -
  note v = vg_validD [OF g(1)]
  let ?x = "px - rect_x (vg_region g)" and ?y = "py - rect_y (vg_region g)"
  have xy: "0 \<le> ?x" "?x < rect_w (vg_region g)" "0 \<le> ?y" "?y < rect_h (vg_region g)"
    using p by (auto simp: contains_def)
  obtain c where c: "0 \<le> c" "c * vg_tile g < vg_out_w g"
      "c * vg_tile g * rect_w (vg_region g) div vg_out_w g \<le> ?x"
      "?x < (c * vg_tile g + min (vg_tile g) (vg_out_w g - c * vg_tile g)) * rect_w (vg_region g) div vg_out_w g"
    by (rule axis_source_cover [OF v(3,1,5) xy(1,2)])
  obtain r where r: "0 \<le> r" "r * vg_tile g < vg_out_h g"
      "r * vg_tile g * rect_h (vg_region g) div vg_out_h g \<le> ?y"
      "?y < (r * vg_tile g + min (vg_tile g) (vg_out_h g - r * vg_tile g)) * rect_h (vg_region g) div vg_out_h g"
    by (rule axis_source_cover [OF v(4,2,5) xy(3,4)])
  have b: "c < vg_cols g" "r < vg_rows g" using c(2) r(2) by (simp_all add: vg_cols_iff vg_rows_iff g)
  note ix = tile_index [OF c(1) b(1) r(1) b(2)]
  let ?i = "r * vg_cols g + c"
  have i: "0 \<le> ?i" "?i < tile_count g" using ix by (simp_all add: tile_count_def)
  have "contains (tile_source_rect g ?i) px py"
    using c(3,4) r(3,4)
    unfolding tile_source_rect_eq [OF g i refl refl refl refl] ix Let_def contains_def recti_sel
    by linarith
  with i show ?thesis by blast
qed

theorem tile_sources_cover_region_witness:
  "\<exists>i. 0 \<le> i \<and> i < tile_count ex_geometry \<and> contains (tile_source_rect ex_geometry i) 1099 749"
  using tile_sources_cover_region [of ex_geometry 1099 749] by (simp add: ex_geometry_ok contains_def)

text \<open>
  the dirty-tile computation misses nothing: if a tile is sampled from a desktop pixel that
  lies in a dirty rectangle, that tile is inside the rectangle of tiles \<open>tiles_touching\<close> returns.
\<close>

theorem tiles_touching_complete:
  assumes "vg_valid g" "vg_i32 g" and "0 \<le> i" "i < tile_count g"
    and "contains (tile_source_rect g i) px py" and "contains dirty px py"
  shows "contains (tiles_touching g dirty) (i mod vg_cols g) (i div vg_cols g)"
  by (rule tiles_touching_covers [OF assms])

theorem tiles_touching_complete_witness:
  "contains (tiles_touching ex_geometry (recti 300 200 1 1))
     (12 mod vg_cols ex_geometry) (12 div vg_cols ex_geometry)"
proof (rule tiles_touching_complete [of ex_geometry 12 300 200 "recti 300 200 1 1"])
  show "contains (tile_source_rect ex_geometry 12) 300 200" by code_simp
qed (simp_all add: ex_geometry_ok contains_def)

text \<open>
  a request becomes a geometry that is valid exactly when its region is not empty, with the
  encoded size between 4 and 8192, the tile edge between 8 and 256, all of them whole blocks, the
  encoded size never below what was asked for inside those limits, and at most \<open>2 ^ 20\<close> tiles.
\<close>

theorem make_geometry_correct:
  "(let g = make_geometry region ow oh tile in
    (vg_valid g \<longleftrightarrow> 0 < rect_w region \<and> 0 < rect_h region) \<and>
    vg_out_w g \<le> 8192 \<and> vg_out_h g \<le> 8192 \<and> vg_tile g \<le> 256 \<and> tile_count g \<le> 2 ^ 20 \<and>
    (vg_valid g \<longrightarrow> vg_region g = region \<and> 4 \<le> vg_out_w g \<and> 4 \<le> vg_out_h g \<and> 8 \<le> vg_tile g \<and>
       min ow 8192 \<le> vg_out_w g \<and> min oh 8192 \<le> vg_out_h g))"
proof (cases "0 < rect_w region \<and> 0 < rect_h region")
  case True
  define g where "g = make_geometry region ow oh tile"
  let ?ow = "if ow \<le> 0 then rect_w region else ow" and ?oh = "if oh \<le> 0 then rect_h region else oh"
  let ?t = "if tile \<le> 0 then 64 else tile"
  have g: "vg_region g = region" "vg_out_w g = round_up_to (clamp ?ow 4 8192) 4"
    "vg_out_h g = round_up_to (clamp ?oh 4 8192) 4" "vg_tile g = round_up_to (clamp ?t 8 256) 4"
    using True by (simp_all add: g_def make_geometry_def Let_def)
  have w: "4 \<le> vg_out_w g" "vg_out_w g \<le> 8192" "vg_out_w g mod 4 = 0"
    unfolding g by (rule round_up_clamp; simp)+
  have h: "4 \<le> vg_out_h g" "vg_out_h g \<le> 8192" "vg_out_h g mod 4 = 0"
    unfolding g by (rule round_up_clamp; simp)+
  have t: "8 \<le> vg_tile g" "vg_tile g \<le> 256" "vg_tile g mod 4 = 0"
    unfolding g by (rule round_up_clamp; simp)+
  have v: "vg_valid g" using w h t True g(1) by (simp add: vg_valid_def)
  have asked: "min ow 8192 \<le> vg_out_w g" "min oh 8192 \<le> vg_out_h g"
    using round_up_to_spec(1) [of 4 "clamp ?ow 4 8192"] round_up_to_spec(1) [of 4 "clamp ?oh 4 8192"]
    unfolding g by (auto simp: clamp_def split: if_splits)
  have "1024 * 8 \<le> 1024 * vg_tile g" using t by simp
  then have "vg_cols g \<le> 1024" "vg_rows g \<le> 1024"
    using w h t by (simp_all add: vg_cols_eq vg_rows_eq v zdiv_le_iff distrib_right)
  then have "vg_cols g * vg_rows g \<le> 1024 * 1024"
    using vg_cols_pos [OF v] vg_rows_pos [OF v] by (intro mult_mono) auto
  then show ?thesis using w h t v True g(1) asked by (simp add: tile_count_def flip: g_def)
qed (auto simp: make_geometry_def empty_geometry_def vg_valid_def tile_count_def vg_cols_def vg_rows_def)

theorem make_geometry_correct_witness:
  "vg_valid (make_geometry (recti 0 0 1921 1080) 0 0 0) \<and>
   4 \<le> vg_out_w (make_geometry (recti 0 0 1921 1080) 0 0 0)"
  using make_geometry_correct [of "recti 0 0 1921 1080" 0 0 0] by (simp add: Let_def)

end
