(* ===== verification/TileScheduler.thy ===== *)
theory TileScheduler
  imports Tiling
begin

text \<open>
  The tile scheduler of \<open>host/src/screen/TileScheduler.hpp\<close> and \<open>TileScheduler.cpp\<close>: dirty flags
  of a grid, a cursor that sweeps it, and the tile under the pen, which goes with every batch.
  Tile numbers leave the scheduler as 16-bit words, as in the source.

  Shown here: the bookkeeping invariant; a batch is a duplicate-free list of at most budget + 1
  tiles of the grid; no dirty tile starves, however the rest of the grid is dirtied again and
  wherever the pen is, it goes out within one lap of the sweep; and what happens to tile numbers
  that do not fit into 16 bits.
\<close>

section \<open>Definitions\<close>

record tile_scheduler =
  ts_cols :: int
  ts_rows :: int
  ts_dirty :: "bool list"
  ts_dirty_count :: int
  ts_cursor :: int
  ts_focus :: int

definition ts_init :: tile_scheduler where
  "ts_init = \<lparr>ts_cols = 0, ts_rows = 0, ts_dirty = [], ts_dirty_count = 0, ts_cursor = 0, ts_focus = -1\<rparr>"

definition ts_size :: "tile_scheduler \<Rightarrow> int" where
  "ts_size s = ts_cols s * ts_rows s"

definition ts_valid :: "tile_scheduler \<Rightarrow> int \<Rightarrow> bool" where
  "ts_valid s index \<longleftrightarrow> 0 \<le> index \<and> index < ts_size s"

definition ts_is_dirty :: "tile_scheduler \<Rightarrow> int \<Rightarrow> bool" where
  "ts_is_dirty s index \<longleftrightarrow> ts_valid s index \<and> ts_dirty s ! nat index"

definition anything_dirty :: "tile_scheduler \<Rightarrow> bool" where
  "anything_dirty s \<longleftrightarrow> 0 < ts_dirty_count s"

definition mark_all_dirty :: "tile_scheduler \<Rightarrow> tile_scheduler" where
  "mark_all_dirty s =
     (if ts_dirty s = [] then s
      else s\<lparr>ts_dirty := replicate (length (ts_dirty s)) True, ts_dirty_count := ts_size s\<rparr>)"

definition ts_configure :: "int \<Rightarrow> int \<Rightarrow> tile_scheduler \<Rightarrow> tile_scheduler" where
  "ts_configure cols rows s =
     (let c = max cols 0; r = max rows 0 in
      mark_all_dirty
        \<lparr>ts_cols = c, ts_rows = r, ts_dirty = replicate (nat (c * r)) False, ts_dirty_count = 0,
         ts_cursor = 0, ts_focus = -1\<rparr>)"

definition mark_dirty :: "int \<Rightarrow> tile_scheduler \<Rightarrow> tile_scheduler" where
  "mark_dirty index s =
     (if \<not> ts_valid s index \<or> ts_dirty s ! nat index then s
      else s\<lparr>ts_dirty := (ts_dirty s)[nat index := True], ts_dirty_count := ts_dirty_count s + 1\<rparr>)"

definition mark_dirty_rect :: "Recti \<Rightarrow> tile_scheduler \<Rightarrow> tile_scheduler" where
  "mark_dirty_rect rect s =
     (let x0 = max (rect_x rect) 0; y0 = max (rect_y rect) 0;
          x1 = min (rect_x rect + rect_w rect) (ts_cols s);
          y1 = min (rect_y rect + rect_h rect) (ts_rows s) in
      fold (\<lambda>y. fold (\<lambda>x. mark_dirty (y * ts_cols s + x)) [x0..x1 - 1]) [y0..y1 - 1] s)"

definition set_focus :: "int \<Rightarrow> tile_scheduler \<Rightarrow> tile_scheduler" where
  "set_focus index s = s\<lparr>ts_focus := if ts_valid s index then index else -1\<rparr>"

fun sweep :: "tile_scheduler \<Rightarrow> int \<Rightarrow> int \<Rightarrow> int list \<Rightarrow> u16 list" where
  "sweep s budget taken [] = []"
| "sweep s budget taken (step # steps) =
     (if \<not> taken < budget then []
      else
        let i = cmod (ts_cursor s + step) (ts_size s) in
        if \<not> ts_dirty s ! nat i \<or> i = ts_focus s then sweep s budget taken steps
        else word_of_int i # sweep s budget (taken + 1) steps)"

definition select :: "int \<Rightarrow> tile_scheduler \<Rightarrow> u16 list" where
  "select budget s =
     (if ts_size s = 0 then []
      else
        let out = if ts_valid s (ts_focus s) then [word_of_int (ts_focus s)] else [] in
        if budget \<le> 0 \<or> ts_dirty_count s = 0 then out
        else out @ sweep s budget 0 [0..ts_size s - 1])"

definition sent_step :: "tile_scheduler \<Rightarrow> u16 \<Rightarrow> bool list \<times> int \<times> int \<Rightarrow> bool list \<times> int \<times> int" where
  "sent_step s tile st =
     (let (dirty, count, furthest) = st; index = uint tile; n = ts_size s in
      if \<not> ts_valid s index then st
      else
        let (dirty', count') =
              if dirty ! nat index then (dirty[nat index := False], count - 1) else (dirty, count) in
        if index = ts_focus s then (dirty', count', furthest)
        else (dirty', count', max furthest (cmod (index - ts_cursor s + n) n)))"

definition mark_sent :: "u16 list \<Rightarrow> tile_scheduler \<Rightarrow> tile_scheduler" where
  "mark_sent tiles s =
     (if tiles = [] \<or> ts_dirty s = [] then s
      else
        let (dirty, count, furthest) = fold (sent_step s) tiles (ts_dirty s, ts_dirty_count s, -1) in
        s\<lparr>ts_dirty := dirty, ts_dirty_count := count,
          ts_cursor := (if 0 \<le> furthest then cmod (ts_cursor s + furthest + 1) (ts_size s)
                        else ts_cursor s)\<rparr>)"

text \<open>
  One frame of the sender: whatever is marked dirty and wherever the pen went since the last
  frame, then a batch is selected, sent, and marked as sent.
\<close>

datatype sched_event = Ev_dirty int | Ev_dirty_rect Recti | Ev_all_dirty | Ev_focus int

fun sched_apply :: "sched_event \<Rightarrow> tile_scheduler \<Rightarrow> tile_scheduler" where
  "sched_apply (Ev_dirty i) s = mark_dirty i s"
| "sched_apply (Ev_dirty_rect r) s = mark_dirty_rect r s"
| "sched_apply Ev_all_dirty s = mark_all_dirty s"
| "sched_apply (Ev_focus i) s = set_focus i s"

fun sched_frames :: "int \<Rightarrow> sched_event list list \<Rightarrow> tile_scheduler \<Rightarrow> u16 list list \<times> tile_scheduler" where
  "sched_frames budget [] s = ([], s)"
| "sched_frames budget (evs # frames) s =
     (let s1 = fold sched_apply evs s; batch = select budget s1;
          (batches, s2) = sched_frames budget frames (mark_sent batch s1) in
      (batch # batches, s2))"

section \<open>Invariant\<close>

definition dirty_set :: "bool list \<Rightarrow> nat set" where
  "dirty_set d = {i. i < length d \<and> d ! i}"

definition ts_inv :: "tile_scheduler \<Rightarrow> bool" where
  "ts_inv s \<longleftrightarrow>
     0 \<le> ts_cols s \<and> 0 \<le> ts_rows s \<and> int (length (ts_dirty s)) = ts_size s \<and>
     ts_dirty_count s = int (card (dirty_set (ts_dirty s))) \<and>
     0 \<le> ts_cursor s \<and> (0 < ts_size s \<longrightarrow> ts_cursor s < ts_size s) \<and>
     (ts_focus s = -1 \<or> ts_valid s (ts_focus s))"

lemma finite_dirty_set [simp]: "finite (dirty_set d)"
  by (simp add: dirty_set_def)

lemma dirty_set_replicate: "dirty_set (replicate n True) = {..<n}" "dirty_set (replicate n False) = {}"
  by (auto simp: dirty_set_def)

lemma dirty_set_upd:
  assumes "i < length d"
  shows "dirty_set (d[i := True]) = insert i (dirty_set d)" "dirty_set (d[i := False]) = dirty_set d - {i}"
  using assms by (auto simp: dirty_set_def nth_list_update split: if_splits)

lemma card_dirty_clear:
  "i < length d \<Longrightarrow> d ! i \<Longrightarrow> int (card (dirty_set (d[i := False]))) = int (card (dirty_set d)) - 1"
  using card_Suc_Diff1 [of "dirty_set d" i] by (simp add: dirty_set_upd) (simp add: dirty_set_def)

lemma ts_valid_length: "ts_inv s \<Longrightarrow> ts_valid s i \<longleftrightarrow> 0 \<le> i \<and> nat i < length (ts_dirty s)"
  by (auto simp: ts_inv_def ts_valid_def)

lemma ts_size_pos: "ts_inv s \<Longrightarrow> ts_dirty s \<noteq> [] \<Longrightarrow> 0 < ts_size s"
  by (metis ts_inv_def length_greater_0_conv of_nat_0_less_iff)

lemma ts_inv_init: "ts_inv ts_init"
  by (simp add: ts_inv_def ts_init_def ts_size_def dirty_set_def)

lemma ts_inv_mark_all: "ts_inv s \<Longrightarrow> ts_inv (mark_all_dirty s)"
  by (auto simp: ts_inv_def mark_all_dirty_def ts_size_def ts_valid_def dirty_set_replicate)

lemma ts_inv_configure: "ts_inv (ts_configure c r s)"
  unfolding ts_configure_def Let_def
  by (rule ts_inv_mark_all) (auto simp: ts_inv_def ts_size_def dirty_set_replicate)

lemma ts_inv_mark_dirty: "ts_inv s \<Longrightarrow> ts_inv (mark_dirty i s)"
proof (cases "\<not> ts_valid s i \<or> ts_dirty s ! nat i")
  case False
  assume inv: "ts_inv s"
  then have "nat i < length (ts_dirty s)" using False by (simp add: ts_valid_length)
  moreover have "nat i \<notin> dirty_set (ts_dirty s)" using False by (simp add: dirty_set_def)
  ultimately show ?thesis
    using inv False by (simp add: mark_dirty_def ts_inv_def dirty_set_upd ts_size_def ts_valid_def)
qed (simp add: mark_dirty_def)

lemma ts_inv_fold: "(\<And>x s. ts_inv s \<Longrightarrow> ts_inv (f x s)) \<Longrightarrow> ts_inv s \<Longrightarrow> ts_inv (fold f xs s)"
  by (induction xs arbitrary: s) auto

lemma ts_inv_mark_dirty_rect: "ts_inv s \<Longrightarrow> ts_inv (mark_dirty_rect r s)"
  unfolding mark_dirty_rect_def Let_def by (intro ts_inv_fold ts_inv_mark_dirty)

lemma ts_inv_set_focus: "ts_inv s \<Longrightarrow> ts_inv (set_focus i s)"
  by (auto simp: ts_inv_def set_focus_def ts_size_def ts_valid_def)

definition sent_inv :: "tile_scheduler \<Rightarrow> u16 set \<Rightarrow> bool list \<times> int \<times> int \<Rightarrow> bool" where
  "sent_inv s T st \<longleftrightarrow>
     (case st of (d, c, f) \<Rightarrow>
        length d = length (ts_dirty s) \<and> c = int (card (dirty_set d)) \<and>
        (\<forall>i < length d. d ! i \<longleftrightarrow> ts_dirty s ! i \<and> int i \<notin> uint ` T) \<and>
        (f = -1 \<or> (\<exists>t \<in> T. ts_valid s (uint t) \<and> uint t \<noteq> ts_focus s \<and>
            f = (uint t - ts_cursor s) mod ts_size s)) \<and>
        (\<forall>t \<in> T. ts_valid s (uint t) \<longrightarrow> uint t \<noteq> ts_focus s \<longrightarrow>
            (uint t - ts_cursor s) mod ts_size s \<le> f))"

lemma cmod_distance:
  assumes "ts_inv s" "ts_valid s i"
  shows "cmod (i - ts_cursor s + ts_size s) (ts_size s) = (i - ts_cursor s) mod ts_size s"
  using assms by (auto simp: ts_inv_def ts_valid_def)

lemma sent_inv_step:
  assumes inv: "ts_inv s" and st: "sent_inv s T st"
  shows "sent_inv s (insert t T) (sent_step s t st)"
proof -
  obtain d c f where st_eq: "st = (d, c, f)" by (metis prod_cases3)
  show ?thesis
  proof (cases "ts_valid s (uint t)")
    case False
    then have "int i \<noteq> uint t" if "i < length (ts_dirty s)" for i
      using inv that by (auto simp: ts_valid_length dest!: arg_cong [where f = nat])
    then show ?thesis using False st by (auto simp: sent_step_def sent_inv_def st_eq)
  next
    case True
    let ?i = "nat (uint t)"
    have i: "?i < length (ts_dirty s)" "int j = uint t \<longleftrightarrow> j = ?i" for j
      using True inv by (auto simp: ts_valid_length dest!: arg_cong [where f = nat])
    obtain d' c' where dc: "(if d ! ?i then (d[?i := False], c - 1) else (d, c)) = (d', c')"
      by fastforce
    have "length d = length (ts_dirty s)" "c = int (card (dirty_set d))"
      and dd: "\<And>i. i < length d \<Longrightarrow> d ! i \<longleftrightarrow> ts_dirty s ! i \<and> int i \<notin> uint ` T"
      using st by (auto simp: sent_inv_def st_eq)
    then have d': "length d' = length (ts_dirty s)" "c' = int (card (dirty_set d'))"
      using dc i(1) card_dirty_clear [of ?i d] by (auto split: if_splits)
    have fl: "\<forall>j < length d'. d' ! j \<longleftrightarrow> ts_dirty s ! j \<and> int j \<notin> uint ` insert t T"
      using dd dc d'(1) i by (auto simp: nth_list_update split: if_splits)
    have step: "sent_step s t st = (d', c', if uint t = ts_focus s then f
        else max f ((uint t - ts_cursor s) mod ts_size s))"
      using True dc by (auto simp: sent_step_def st_eq Let_def cmod_distance [OF inv] split: if_splits prod.splits)
    have fs: "f = -1 \<or> (\<exists>t \<in> T. ts_valid s (uint t) \<and> uint t \<noteq> ts_focus s \<and>
            f = (uint t - ts_cursor s) mod ts_size s)"
      "\<forall>t \<in> T. ts_valid s (uint t) \<longrightarrow> uint t \<noteq> ts_focus s \<longrightarrow>
            (uint t - ts_cursor s) mod ts_size s \<le> f"
      using st by (auto simp: sent_inv_def st_eq)
    show ?thesis
      unfolding step sent_inv_def prod.case
      using d' fl fs True by (auto simp: max_def)
  qed
qed

lemma sent_inv_fold:
  "ts_inv s \<Longrightarrow> sent_inv s T st \<Longrightarrow> sent_inv s (set ts \<union> T) (fold (sent_step s) ts st)"
proof (induction ts arbitrary: T st)
  case (Cons t ts)
  from Cons.IH [OF Cons.prems(1) sent_inv_step [OF Cons.prems, of t]] show ?case by simp
qed simp

lemma mark_sent_spec:
  assumes inv: "ts_inv s" and ne: "tiles \<noteq> []" "ts_dirty s \<noteq> []"
  obtains d c f where "sent_inv s (set tiles) (d, c, f)"
    "mark_sent tiles s = s\<lparr>ts_dirty := d, ts_dirty_count := c,
       ts_cursor := (if 0 \<le> f then (ts_cursor s + f + 1) mod ts_size s else ts_cursor s)\<rparr>"
proof -
  obtain d c f where fd: "fold (sent_step s) tiles (ts_dirty s, ts_dirty_count s, -1) = (d, c, f)"
    by (metis prod_cases3)
  have "sent_inv s {} (ts_dirty s, ts_dirty_count s, -1)" using inv by (simp add: sent_inv_def ts_inv_def)
  from sent_inv_fold [OF inv this, of tiles] fd have "sent_inv s (set tiles) (d, c, f)" by simp
  moreover have "0 \<le> ts_cursor s" "0 \<le> ts_size s" using inv by (auto simp: ts_inv_def ts_size_def)
  ultimately show thesis using that ne fd by (auto simp: mark_sent_def)
qed

lemma ts_inv_mark_sent:
  assumes inv: "ts_inv s" shows "ts_inv (mark_sent tiles s)"
proof (cases "tiles = [] \<or> ts_dirty s = []")
  case False
  then obtain d c f where "sent_inv s (set tiles) (d, c, f)"
    "mark_sent tiles s = s\<lparr>ts_dirty := d, ts_dirty_count := c,
       ts_cursor := (if 0 \<le> f then (ts_cursor s + f + 1) mod ts_size s else ts_cursor s)\<rparr>"
    using mark_sent_spec [OF inv, of tiles] by blast
  moreover have "0 < ts_size s" by (rule ts_size_pos) (use inv False in auto)
  ultimately show ?thesis using inv by (auto simp: ts_inv_def sent_inv_def ts_size_def ts_valid_def)
qed (use inv in \<open>auto simp: mark_sent_def\<close>)

section \<open>Selection\<close>

text \<open>The tiles of one lap that may be taken, as steps from the cursor.\<close>

definition takeable :: "tile_scheduler \<Rightarrow> int \<Rightarrow> bool" where
  "takeable s step \<longleftrightarrow>
     (let i = (ts_cursor s + step) mod ts_size s in ts_dirty s ! nat i \<and> i \<noteq> ts_focus s)"

definition lap_tile :: "tile_scheduler \<Rightarrow> int \<Rightarrow> int" where
  "lap_tile s step = (ts_cursor s + step) mod ts_size s"

definition taken_steps :: "int \<Rightarrow> tile_scheduler \<Rightarrow> int list" where
  "taken_steps budget s = take (nat budget) (filter (takeable s) [0..ts_size s - 1])"

lemma sweep_eq:
  "0 \<le> ts_cursor s \<Longrightarrow> 0 \<le> ts_size s \<Longrightarrow> \<forall>x \<in> set steps. 0 \<le> x \<Longrightarrow>
   sweep s budget taken steps =
     map (\<lambda>k. word_of_int (lap_tile s k)) (take (nat (budget - taken)) (filter (takeable s) steps))"
proof (induction steps arbitrary: taken)
  case (Cons k ks)
  then have m: "cmod (ts_cursor s + k) (ts_size s) = lap_tile s k" by (simp add: lap_tile_def)
  show ?case
  proof (cases "taken < budget")
    case True
    then have "nat (budget - taken) = Suc (nat (budget - (taken + 1)))" by simp
    then show ?thesis using True Cons m
      by (simp add: takeable_def Let_def flip: lap_tile_def)
  qed simp
qed simp

lemma sweep_taken:
  "ts_inv s \<Longrightarrow> sweep s budget 0 [0..ts_size s - 1] =
     map (\<lambda>k. word_of_int (lap_tile s k)) (taken_steps budget s)"
  by (subst sweep_eq) (auto simp: taken_steps_def ts_inv_def ts_size_def)

lemma taken_steps_props:
  assumes "0 \<le> budget"
  shows "distinct (taken_steps budget s)" "int (length (taken_steps budget s)) \<le> budget"
    "k \<in> set (taken_steps budget s) \<Longrightarrow> 0 \<le> k \<and> k < ts_size s \<and> takeable s k"
  using assms by (auto simp: taken_steps_def dest!: in_set_takeD)

lemma lap_tile_valid: "0 < ts_size s \<Longrightarrow> ts_valid s (lap_tile s k)"
  by (simp add: lap_tile_def ts_valid_def)

lemma lap_tile_distance:
  assumes "0 < ts_size s" "0 \<le> k" "k < ts_size s"
  shows "(lap_tile s k - ts_cursor s) mod ts_size s = k"
  using assms by (simp add: lap_tile_def mod_diff_left_eq)

lemma lap_tile_of_distance:
  "ts_valid s t \<Longrightarrow> lap_tile s ((t - ts_cursor s) mod ts_size s) = t"
  by (simp add: lap_tile_def ts_valid_def mod_add_right_eq)

lemma uint_u16: "0 \<le> i \<Longrightarrow> i < 65536 \<Longrightarrow> uint (word_of_int i :: u16) = i"
  by (simp add: uint_word_of_int)

lemma select_eq:
  assumes "ts_inv s"
  shows "select budget s =
    (if ts_valid s (ts_focus s) then [word_of_int (ts_focus s)] else []) @
    (if 0 < ts_size s \<and> 0 < budget \<and> ts_dirty_count s \<noteq> 0
     then map (\<lambda>k. word_of_int (lap_tile s k)) (taken_steps budget s) else [])"
proof -
  have "0 \<le> ts_size s" using assms by (simp add: ts_inv_def ts_size_def)
  then show ?thesis
    by (cases "ts_size s = 0") (auto simp: select_def sweep_taken [OF assms] ts_valid_def)
qed

lemma select_uints:
  assumes inv: "ts_inv s" and sz: "ts_size s \<le> 65536"
  shows "map uint (select budget s) =
    (if ts_valid s (ts_focus s) then [ts_focus s] else []) @
    (if 0 < ts_size s \<and> 0 < budget \<and> ts_dirty_count s \<noteq> 0
     then map (lap_tile s) (taken_steps budget s) else [])"
proof -
  have "uint (word_of_int (lap_tile s k) :: u16) = lap_tile s k" if "0 < ts_size s" for k
    using lap_tile_valid [OF that, of k] sz by (intro uint_u16) (auto simp: ts_valid_def)
  moreover have "ts_valid s (ts_focus s) \<Longrightarrow> uint (word_of_int (ts_focus s) :: u16) = ts_focus s"
    using sz by (intro uint_u16) (auto simp: ts_valid_def)
  ultimately show ?thesis by (simp add: select_eq [OF inv] comp_def)
qed

lemma sorted_take_before:
  assumes "sorted_wrt (<) xs" "x \<in> set xs" "x \<notin> set (take b xs)"
  shows "length (take b xs) = b" "\<forall>y \<in> set (take b xs). y < (x :: int)"
proof -
  have x: "x \<in> set (drop b xs)" using assms(2,3) by (metis Un_iff append_take_drop_id set_append)
  then show "length (take b xs) = b" by (cases "length xs \<le> b") auto
  have "sorted_wrt (<) (take b xs @ drop b xs)" using assms(1) by simp
  then show "\<forall>y \<in> set (take b xs). y < x" using x by (simp only: sorted_wrt_append) blast
qed

lemma sorted_wrt_upto: "sorted_wrt (<) [i..j]"
  by (induction i j rule: upto.induct) (subst upto.simps, auto)

section \<open>No starvation\<close>

lemma dist_bound: "0 < ts_size s \<Longrightarrow> 0 \<le> (t - ts_cursor s) mod ts_size s \<and> (t - ts_cursor s) mod ts_size s < ts_size s"
  by simp

text \<open>
  A dirty tile that is not in the batch sits behind everything the batch took, so the cursor
  moves towards it by at least the budget.
\<close>

lemma select_progress:
  assumes inv: "ts_inv s" and sz: "ts_size s \<le> 65536" and b: "0 < budget"
    and t: "ts_is_dirty s t" and n: "t \<notin> set (map uint (select budget s))"
  shows "ts_inv (mark_sent (select budget s) s)" "ts_is_dirty (mark_sent (select budget s) s) t"
    and "(t - ts_cursor (mark_sent (select budget s) s)) mod ts_size s \<le> (t - ts_cursor s) mod ts_size s - budget"
proof -
  let ?n = "ts_size s" let ?d = "(t - ts_cursor s) mod ?n" let ?B = "select budget s"
  have v: "ts_valid s t" "ts_dirty s ! nat t" using t by (auto simp: ts_is_dirty_def)
  then have n0: "0 < ?n" by (auto simp: ts_valid_def)
  have "nat t \<in> dirty_set (ts_dirty s)" using v inv by (simp add: dirty_set_def ts_valid_length)
  then have dc: "ts_dirty_count s \<noteq> 0" using inv by (auto simp: ts_inv_def card_eq_0_iff)
  have uints: "map uint ?B = (if ts_valid s (ts_focus s) then [ts_focus s] else []) @
      map (lap_tile s) (taken_steps budget s)"
    using select_uints [OF inv sz, of budget] n0 b dc by simp
  have nf: "t \<noteq> ts_focus s" using n v(1) uints by auto
  have tk: "takeable s ?d"
    using v nf lap_tile_of_distance [OF v(1)] by (simp add: takeable_def Let_def lap_tile_def)
  have nd: "?d \<notin> set (taken_steps budget s)"
    using n uints lap_tile_of_distance [OF v(1)] by (auto simp: image_iff)
  have before: "length (taken_steps budget s) = nat budget" "\<forall>k \<in> set (taken_steps budget s). k < ?d"
    using sorted_take_before [of "filter (takeable s) [0..?n - 1]" ?d "nat budget"]
      sorted_wrt_filter [OF sorted_wrt_upto] tk nd n0
    by (auto simp: taken_steps_def)
  have Bne: "?B \<noteq> []" using before(1) b uints by (cases "?B") auto
  have dne: "ts_dirty s \<noteq> []" using v inv by (auto simp: ts_valid_length)
  obtain d c f where si: "sent_inv s (set ?B) (d, c, f)"
    and ms: "mark_sent ?B s = s\<lparr>ts_dirty := d, ts_dirty_count := c,
       ts_cursor := (if 0 \<le> f then (ts_cursor s + f + 1) mod ?n else ts_cursor s)\<rparr>"
    by (rule mark_sent_spec [OF inv Bne dne])
  have in_lap: "k \<le> f" if k: "k \<in> set (taken_steps budget s)" for k
  proof -
    have kk: "0 \<le> k" "k < ?n" "takeable s k" using taken_steps_props(3) [of budget k s] k b by auto
    have "lap_tile s k \<in> set (map uint ?B)" using k uints by simp
    then obtain w where w: "w \<in> set ?B" "uint w = lap_tile s k" by auto
    moreover have "lap_tile s k \<noteq> ts_focus s" using kk(3) by (simp add: takeable_def lap_tile_def Let_def)
    ultimately have "(lap_tile s k - ts_cursor s) mod ?n \<le> f"
      using si lap_tile_valid [OF n0, of k] by (auto simp: sent_inv_def)
    then show ?thesis using lap_tile_distance [OF n0 kk(1,2)] by simp
  qed
  have fb: "budget \<le> f + 1"
  proof -
    have "set (taken_steps budget s) \<subseteq> {0..f}" using in_lap taken_steps_props(3) [of budget _ s] b by force
    then have "card (set (taken_steps budget s)) \<le> card {0..f}" by (intro card_mono) auto
    moreover have "card (set (taken_steps budget s)) = nat budget"
      using before(1) taken_steps_props(1) b by (simp add: distinct_card)
    ultimately show ?thesis using b by simp
  qed
  have fd: "f < ?d"
  proof -
    from si fb b obtain w where w: "w \<in> set ?B" "ts_valid s (uint w)" "uint w \<noteq> ts_focus s"
      "f = (uint w - ts_cursor s) mod ?n" by (auto simp: sent_inv_def)
    then have "uint w \<in> set (map uint ?B)" by simp
    then obtain k where k: "k \<in> set (taken_steps budget s)" "uint w = lap_tile s k"
      using uints w(3) by (auto split: if_splits)
    then have "f = k" using lap_tile_distance [OF n0, of k] taken_steps_props(3) [of budget k s] w(4) b by auto
    then show ?thesis using before(2) k by simp
  qed
  have cur: "ts_cursor (mark_sent ?B s) = (ts_cursor s + f + 1) mod ?n" using ms fb b by simp
  have "(t - ts_cursor (mark_sent ?B s)) mod ?n = (t - ts_cursor s - (f + 1)) mod ?n"
    unfolding cur by (simp add: mod_diff_right_eq algebra_simps)
  also have "\<dots> = (?d - (f + 1)) mod ?n" by (simp add: mod_diff_left_eq)
  also have "\<dots> = ?d - (f + 1)" using fd fb b dist_bound [OF n0, of t] by (intro mod_pos_pos_trivial) linarith+
  finally show "(t - ts_cursor (mark_sent ?B s)) mod ?n \<le> ?d - budget" using fb by simp
  show "ts_inv (mark_sent ?B s)" by (rule ts_inv_mark_sent [OF inv])
  have "nat t < length (ts_dirty s)" "int (nat t) = t" using v inv by (auto simp: ts_valid_length)
  then have "d ! nat t" using si v(2) n by (auto simp: sent_inv_def)
  then show "ts_is_dirty (mark_sent ?B s) t" using v(1) ms by (simp add: ts_is_dirty_def ts_valid_def ts_size_def)
qed

section \<open>Marking\<close>

text \<open>Marking changes nothing but dirty flags, and never clears one.\<close>

definition grows :: "tile_scheduler \<Rightarrow> tile_scheduler \<Rightarrow> bool" where
  "grows s s' \<longleftrightarrow>
     ts_cols s' = ts_cols s \<and> ts_rows s' = ts_rows s \<and> ts_cursor s' = ts_cursor s \<and>
     (\<forall>t. ts_is_dirty s t \<longrightarrow> ts_is_dirty s' t)"

lemma grows_refl [simp]: "grows s s"
  by (simp add: grows_def)

lemma grows_trans: "grows s s' \<Longrightarrow> grows s' s'' \<Longrightarrow> grows s s''"
  by (simp add: grows_def)

lemma grows_size: "grows s s' \<Longrightarrow> ts_size s' = ts_size s"
  by (simp add: grows_def ts_size_def)

lemma mark_dirty_iff:
  "ts_inv s \<Longrightarrow> ts_is_dirty (mark_dirty i s) t \<longleftrightarrow> ts_is_dirty s t \<or> (ts_valid s i \<and> t = i)"
proof (cases "\<not> ts_valid s i \<or> ts_dirty s ! nat i")
  case False
  assume inv: "ts_inv s"
  then have "nat i < length (ts_dirty s)" using False by (simp add: ts_valid_length)
  moreover have "ts_valid (mark_dirty i s) t \<longleftrightarrow> ts_valid s t" by (simp add: mark_dirty_def ts_valid_def ts_size_def)
  ultimately show ?thesis
    using False by (auto simp: ts_is_dirty_def mark_dirty_def nth_list_update ts_valid_def)
qed (auto simp: mark_dirty_def ts_is_dirty_def)

lemma grows_mark_dirty: "ts_inv s \<Longrightarrow> grows s (mark_dirty i s)"
  using mark_dirty_iff [of s i] by (simp add: grows_def mark_dirty_def)

lemma fold_mark:
  assumes "\<And>x s. ts_inv s \<Longrightarrow> ts_inv (f x s) \<and> grows s (f x s) \<and>
    (\<forall>t. ts_is_dirty (f x s) t \<longleftrightarrow> ts_is_dirty s t \<or> (ts_valid s t \<and> t \<in> T x))"
  shows "ts_inv s \<Longrightarrow> ts_inv (fold f xs s) \<and> grows s (fold f xs s) \<and>
    (\<forall>t. ts_is_dirty (fold f xs s) t \<longleftrightarrow> ts_is_dirty s t \<or> (ts_valid s t \<and> t \<in> (\<Union>x \<in> set xs. T x)))"
proof (induction xs arbitrary: s)
  case (Cons x xs)
  note one = assms [OF Cons.prems, of x]
  then have "ts_valid (f x s) t \<longleftrightarrow> ts_valid s t" for t using grows_size [of s "f x s"] by (simp add: ts_valid_def)
  with one Cons.IH [of "f x s"] show ?case by (auto intro: grows_trans)
qed simp

lemma mark_dirty_rect_spec:
  assumes inv: "ts_inv s"
  shows "ts_inv (mark_dirty_rect r s) \<and> grows s (mark_dirty_rect r s) \<and>
    (\<forall>t. ts_is_dirty (mark_dirty_rect r s) t \<longleftrightarrow>
       ts_is_dirty s t \<or> (ts_valid s t \<and> contains r (t mod ts_cols s) (t div ts_cols s)))"
proof -
  define x0 x1 y0 y1 where b: "x0 = max (rect_x r) 0" "x1 = min (rect_x r + rect_w r) (ts_cols s)"
    "y0 = max (rect_y r) 0" "y1 = min (rect_y r + rect_h r) (ts_rows s)"
  let ?c = "ts_cols s"
  let ?row = "\<lambda>y. fold (\<lambda>x. mark_dirty (y * ?c + x)) [x0..x1 - 1]"
  have one: "ts_inv s \<Longrightarrow> ts_inv (mark_dirty i s) \<and> grows s (mark_dirty i s) \<and>
      (\<forall>t. ts_is_dirty (mark_dirty i s) t \<longleftrightarrow> ts_is_dirty s t \<or> (ts_valid s t \<and> t \<in> {i}))" for i s
    using mark_dirty_iff [of s i] by (auto simp: ts_inv_mark_dirty grows_mark_dirty)
  have row: "ts_inv s \<Longrightarrow> ts_inv (?row y s) \<and> grows s (?row y s) \<and>
      (\<forall>t. ts_is_dirty (?row y s) t \<longleftrightarrow> ts_is_dirty s t \<or>
         (ts_valid s t \<and> t \<in> (\<Union>x \<in> set [x0..x1 - 1]. {y * ?c + x})))" for y s
    by (rule fold_mark [OF one])
  have iff: "t \<in> (\<Union>y \<in> set [y0..y1 - 1]. \<Union>x \<in> set [x0..x1 - 1]. {y * ?c + x}) \<longleftrightarrow>
      contains r (t mod ?c) (t div ?c)" if t: "ts_valid s t" for t
  proof -
    have "0 < ts_size s" "0 \<le> ?c" using t inv by (auto simp: ts_valid_def ts_inv_def)
    then have c0: "0 < ?c" by (auto simp: ts_size_def zero_less_mult_iff)
    have tt: "0 \<le> t mod ?c" "t mod ?c < ?c" "0 \<le> t div ?c" "t div ?c < ts_rows s"
      using tile_index_split [OF c0, of t "ts_rows s"] t by (auto simp: ts_valid_def ts_size_def)
    show ?thesis
    proof
      assume "t \<in> (\<Union>y \<in> set [y0..y1 - 1]. \<Union>x \<in> set [x0..x1 - 1]. {y * ?c + x})"
      then obtain x y where xy: "x0 \<le> x" "x < x1" "y0 \<le> y" "y < y1" "t = y * ?c + x" by auto
      then have "t mod ?c = x" "t div ?c = y"
        using tile_index [of x ?c y "ts_rows s"] b by auto
      then show "contains r (t mod ?c) (t div ?c)" using xy b by (simp add: contains_def)
    next
      assume "contains r (t mod ?c) (t div ?c)"
      then have "t mod ?c \<in> set [x0..x1 - 1]" "t div ?c \<in> set [y0..y1 - 1]"
        using tt b by (auto simp: contains_def)
      then show "t \<in> (\<Union>y \<in> set [y0..y1 - 1]. \<Union>x \<in> set [x0..x1 - 1]. {y * ?c + x})"
        using div_mult_mod_eq [of t ?c, symmetric] by blast
    qed
  qed
  have eq: "mark_dirty_rect r s = fold ?row [y0..y1 - 1] s"
    by (simp add: mark_dirty_rect_def Let_def flip: b)
  have "ts_inv (fold ?row [y0..y1 - 1] s) \<and> grows s (fold ?row [y0..y1 - 1] s) \<and>
      (\<forall>t. ts_is_dirty (fold ?row [y0..y1 - 1] s) t \<longleftrightarrow> ts_is_dirty s t \<or>
         (ts_valid s t \<and> t \<in> (\<Union>y \<in> set [y0..y1 - 1]. \<Union>x \<in> set [x0..x1 - 1]. {y * ?c + x})))"
    by (rule fold_mark [OF row inv])
  then show ?thesis unfolding eq by (simp only: iff simp_thms cong: conj_cong)
qed

lemma mark_all_dirty_iff: "ts_inv s \<Longrightarrow> ts_is_dirty (mark_all_dirty s) t \<longleftrightarrow> ts_valid s t"
proof -
  assume inv: "ts_inv s"
  have "ts_valid (mark_all_dirty s) t \<longleftrightarrow> ts_valid s t" by (simp add: mark_all_dirty_def ts_valid_def ts_size_def)
  then show ?thesis using inv
    by (cases "ts_dirty s = []") (auto simp: ts_is_dirty_def mark_all_dirty_def ts_valid_length)
qed

lemma sched_apply_spec: "ts_inv s \<Longrightarrow> ts_inv (sched_apply e s) \<and> grows s (sched_apply e s)"
proof (cases e)
  case (Ev_dirty i)
  then show "ts_inv s \<Longrightarrow> ?thesis" by (simp add: ts_inv_mark_dirty grows_mark_dirty)
next
  case (Ev_dirty_rect r)
  then show "ts_inv s \<Longrightarrow> ?thesis" using mark_dirty_rect_spec by simp
next
  case Ev_all_dirty
  then show "ts_inv s \<Longrightarrow> ?thesis"
    using mark_all_dirty_iff [of s] ts_inv_mark_all [of s]
    by (auto simp: grows_def ts_is_dirty_def) (simp_all add: mark_all_dirty_def)
next
  case (Ev_focus i)
  then show "ts_inv s \<Longrightarrow> ?thesis"
    using ts_inv_set_focus [of s i]
    by (simp add: grows_def) (simp add: set_focus_def ts_is_dirty_def ts_valid_def ts_size_def)
qed

lemma fold_sched_apply: "ts_inv s \<Longrightarrow> ts_inv (fold sched_apply evs s) \<and> grows s (fold sched_apply evs s)"
proof (induction evs arbitrary: s)
  case (Cons e evs)
  from sched_apply_spec [OF Cons.prems, of e] Cons.IH [of "sched_apply e s"] show ?case
    by (auto intro: grows_trans)
qed simp

lemma mark_sent_size: "ts_size (mark_sent ts s) = ts_size s"
  by (simp add: mark_sent_def ts_size_def split: prod.split)

lemma frames_reach:
  "ts_inv s \<Longrightarrow> ts_size s \<le> 65536 \<Longrightarrow> 0 < budget \<Longrightarrow> ts_is_dirty s t \<Longrightarrow>
   (t - ts_cursor s) mod ts_size s < budget * int (length frames) \<Longrightarrow>
   \<exists>batch \<in> set (fst (sched_frames budget frames s)). t \<in> uint ` set batch"
proof (induction frames arbitrary: s)
  case Nil
  then have "0 < ts_size s" by (auto simp: ts_is_dirty_def ts_valid_def)
  then have "0 \<le> (t - ts_cursor s) mod ts_size s" by simp
  with Nil.prems(5) show ?case by simp
next
  case (Cons evs frames)
  define s1 where "s1 = fold sched_apply evs s"
  have s1: "ts_inv s1" "grows s s1" using fold_sched_apply [OF Cons.prems(1)] by (auto simp: s1_def)
  then have sz: "ts_size s1 = ts_size s" "ts_cursor s1 = ts_cursor s" "ts_is_dirty s1 t"
    using Cons.prems(4) by (auto simp: grows_size) (simp_all add: grows_def)
  let ?s2 = "mark_sent (select budget s1) s1"
  show ?case
  proof (cases "t \<in> set (map uint (select budget s1))")
    case True
    then show ?thesis by (auto simp: Let_def split: prod.split simp flip: s1_def)
  next
    case False
    note p = select_progress [OF s1(1) _ Cons.prems(3) sz(3) False]
    have "(t - ts_cursor ?s2) mod ts_size ?s2 < budget * int (length frames)"
      using p(3) Cons.prems(2,5) sz by (simp add: mark_sent_size distrib_left)
    with Cons.IH [of ?s2] p(1,2) Cons.prems(2,3) sz
    have "\<exists>batch \<in> set (fst (sched_frames budget frames ?s2)). t \<in> uint ` set batch"
      by (simp add: mark_sent_size)
    then show ?thesis by (auto simp: Let_def split: prod.split simp flip: s1_def)
  qed
qed

section \<open>Properties\<close>

text \<open>
  the bookkeeping is consistent after every operation: the flags cover the grid, the dirty
  count is the number of dirty flags, cursor and focus stay inside the grid. \<open>configure\<close>
  establishes this from any state, the other operations keep it.
\<close>

theorem scheduler_invariant:
  "ts_inv ts_init \<and> ts_inv (ts_configure c r s) \<and>
   (ts_inv s \<longrightarrow> ts_inv (mark_all_dirty s) \<and> ts_inv (mark_dirty i s) \<and> ts_inv (mark_dirty_rect rect s) \<and>
      ts_inv (set_focus i s) \<and> ts_inv (mark_sent tiles s))"
  using mark_dirty_rect_spec [of s rect]
  by (simp add: ts_inv_init ts_inv_configure ts_inv_mark_all ts_inv_mark_dirty ts_inv_set_focus ts_inv_mark_sent)

theorem scheduler_invariant_witness:
  "ts_inv (mark_sent [0, 3] (mark_dirty_rect (recti 0 0 2 2) (ts_configure 4 3 ts_init)))"
  using scheduler_invariant [of 4 3 ts_init 0 "recti 0 0 2 2" "[]"]
    scheduler_invariant [of 0 0 "mark_dirty_rect (recti 0 0 2 2) (ts_configure 4 3 ts_init)" 0 "recti 0 0 0 0" "[0, 3]"]
    scheduler_invariant [of 0 0 "ts_configure 4 3 ts_init" 0 "recti 0 0 2 2" "[]"] by simp

text \<open>
  a batch is well formed on every grid whose tile numbers fit into 16 bits: no tile twice, at
  most the budget besides the pen's tile, every tile of the grid, every tile but the pen's dirty,
  and the pen's tile first whenever there is one.
\<close>

theorem select_batch:
  assumes "ts_inv s" and "ts_size s \<le> 65536"
  shows "distinct (select budget s) \<and>
    int (length (select budget s)) \<le> max budget 0 + (if ts_valid s (ts_focus s) then 1 else 0) \<and>
    (\<forall>t \<in> set (select budget s). ts_valid s (uint t) \<and> (uint t = ts_focus s \<or> ts_is_dirty s (uint t))) \<and>
    (ts_valid s (ts_focus s) \<longrightarrow> uint (hd (select budget s)) = ts_focus s)"
proof -
  let ?L = "map (lap_tile s) (taken_steps budget s)"
  let ?on = "0 < ts_size s \<and> 0 < budget \<and> ts_dirty_count s \<noteq> 0"
  have u: "map uint (select budget s) = (if ts_valid s (ts_focus s) then [ts_focus s] else []) @ (if ?on then ?L else [])"
    by (rule select_uints [OF assms])
  have L: "distinct ?L" "int (length ?L) \<le> budget" "\<forall>i \<in> set ?L. ts_is_dirty s i \<and> i \<noteq> ts_focus s" if ?on
  proof -
    have n0: "0 < ts_size s" and b: "0 \<le> budget" using that by auto
    note tp = taken_steps_props [OF b, where s = s]
    have "inj_on (lap_tile s) (set (taken_steps budget s))"
      by (rule inj_on_inverseI [where g = "\<lambda>i. (i - ts_cursor s) mod ts_size s"])
        (use tp(3) lap_tile_distance [OF n0] in auto)
    then show "distinct ?L" "int (length ?L) \<le> budget" using tp(1,2) by (simp_all add: distinct_map)
    show "\<forall>i \<in> set ?L. ts_is_dirty s i \<and> i \<noteq> ts_focus s"
      using tp(3) lap_tile_valid [OF n0] by (auto simp: ts_is_dirty_def takeable_def lap_tile_def Let_def)
  qed
  have "distinct (map uint (select budget s))" unfolding u using L by auto
  then have "distinct (select budget s)" by (simp add: distinct_map)
  moreover have "int (length (map uint (select budget s))) \<le> max budget 0 + (if ts_valid s (ts_focus s) then 1 else 0)"
    unfolding u using L(2) by (auto simp: max_def)
  moreover have "ts_valid s (uint t) \<and> (uint t = ts_focus s \<or> ts_is_dirty s (uint t))"
    if "t \<in> set (select budget s)" for t
  proof -
    have "uint t \<in> set (map uint (select budget s))" using that by simp
    then have "uint t = ts_focus s \<and> ts_valid s (ts_focus s) \<or> ?on \<and> uint t \<in> set ?L"
      unfolding u by (auto split: if_splits)
    then show ?thesis using L(3) by (metis ts_is_dirty_def)
  qed
  moreover have "uint (hd (select budget s)) = ts_focus s" if "ts_valid s (ts_focus s)"
    using u that by (cases "select budget s") auto
  ultimately show ?thesis by simp
qed

theorem select_batch_witness:
  "(let s = set_focus 5 (ts_configure 4 3 ts_init) in
    distinct (select 3 s) \<and> uint (hd (select 3 s)) = 5 \<and> int (length (select 3 s)) \<le> 4)"
  using select_batch [of "set_focus 5 (ts_configure 4 3 ts_init)" 3]
    ts_inv_set_focus [OF ts_inv_configure, of 5 4 3 ts_init]
  by (simp add: ts_configure_def mark_all_dirty_def set_focus_def ts_valid_def ts_size_def)

text \<open>
  C24: no tile starves. On a grid whose tile numbers fit into 16 bits, a dirty tile goes out
  within one lap, that is within \<open>n / budget\<close> frames rounded up, whatever else is marked dirty
  between the frames and wherever the pen is.
\<close>

theorem no_starvation:
  assumes "ts_inv s" and "ts_size s \<le> 65536" and "0 < budget" and "ts_is_dirty s t"
    and "ts_size s \<le> budget * int (length frames)"
  shows "\<exists>batch \<in> set (fst (sched_frames budget frames s)). t \<in> uint ` set batch"
proof -
  have "0 < ts_size s" using assms(4) by (auto simp: ts_is_dirty_def ts_valid_def)
  from dist_bound [OF this, of t] assms(5)
  have "(t - ts_cursor s) mod ts_size s < budget * int (length frames)" by linarith
  from frames_reach [OF assms(1-4) this] show ?thesis .
qed

theorem no_starvation_witness:
  "\<exists>batch \<in> set (fst (sched_frames 4 [[Ev_all_dirty], [Ev_focus 2], [Ev_all_dirty]] (ts_configure 4 3 ts_init))).
     11 \<in> uint ` set batch"
  using no_starvation [of "ts_configure 4 3 ts_init" 4 11 "[[Ev_all_dirty], [Ev_focus 2], [Ev_all_dirty]]"]
    ts_inv_configure [of 4 3 ts_init]
  by (simp add: ts_configure_def mark_all_dirty_def ts_is_dirty_def ts_valid_def ts_size_def del: sched_frames.simps)

text \<open>
  damage reaches the scheduler. When a desktop rectangle is dirty and the scheduler has the grid
  of the viewport, marking the tiles it touches makes every tile dirty that is sampled from one of
  its pixels.
\<close>

theorem damage_marks_tiles:
  assumes "ts_inv s" and "ts_cols s = vg_cols g" and "ts_rows s = vg_rows g"
    and "vg_valid g" and "vg_i32 g"
    and "0 \<le> i" and "i < tile_count g"
    and "contains (tile_source_rect g i) px py" and "contains dirty px py"
  shows "ts_is_dirty (mark_dirty_rect (tiles_touching g dirty) s) i"
proof -
  have "contains (tiles_touching g dirty) (i mod ts_cols s) (i div ts_cols s)"
    using tiles_touching_covers [OF assms(4-9)] assms(2) by simp
  moreover have "ts_valid s i" using assms by (simp add: ts_valid_def ts_size_def tile_count_def)
  ultimately show ?thesis using mark_dirty_rect_spec [OF assms(1)] by blast
qed

theorem damage_marks_tiles_witness:
  "ts_is_dirty (mark_dirty_rect (tiles_touching ex_geometry (recti 300 200 1 1)) (ts_configure 10 7 ts_init)) 12"
proof (rule damage_marks_tiles)
  show "contains (tile_source_rect ex_geometry 12) 300 200" by code_simp
qed (simp_all add: ts_inv_configure ex_geometry_ok contains_def,
     simp_all add: ex_geometry_def vg_cols_def vg_rows_def ts_configure_def mark_all_dirty_def)

text \<open>
  tile numbers beyond 16 bits are lost. The sender's tile list is a list of 16-bit words, so a
  dirty tile with a number of 65536 or more never becomes clean by sending, although a viewport
  request can ask for such a grid.
\<close>

theorem wide_tiles_stay_dirty:
  "(65536 \<le> i \<and> ts_inv s \<longrightarrow> (ts_is_dirty (mark_sent tiles s) i \<longleftrightarrow> ts_is_dirty s i)) \<and>
   65536 < tile_count (make_geometry (recti 0 0 8192 8192) 0 0 8)"
proof (intro conjI impI)
  assume a: "65536 \<le> i \<and> ts_inv s"
  have ni: "int (nat i) \<notin> range (uint :: u16 \<Rightarrow> int)"
  proof
    assume "int (nat i) \<in> range (uint :: u16 \<Rightarrow> int)"
    then obtain w :: u16 where "uint w = i" using a by force
    then show False using a uint_lt2p [of w] by simp
  qed
  have v: "ts_valid (mark_sent tiles s) i \<longleftrightarrow> ts_valid s i" by (simp add: ts_valid_def mark_sent_size)
  show "ts_is_dirty (mark_sent tiles s) i \<longleftrightarrow> ts_is_dirty s i"
  proof (cases "tiles = [] \<or> ts_dirty s = []")
    case False
    then have ne: "tiles \<noteq> []" "ts_dirty s \<noteq> []" by auto
    obtain d c f where "sent_inv s (set tiles) (d, c, f)"
      and "mark_sent tiles s = s\<lparr>ts_dirty := d, ts_dirty_count := c,
       ts_cursor := (if 0 \<le> f then (ts_cursor s + f + 1) mod ts_size s else ts_cursor s)\<rparr>"
      by (rule mark_sent_spec [OF conjunct2 [OF a] ne])
    then have si: "sent_inv s (set tiles) (d, c, f)" "ts_dirty (mark_sent tiles s) = d" by simp_all
    have "ts_valid s i \<Longrightarrow> d ! nat i \<longleftrightarrow> ts_dirty s ! nat i"
      using si(1) a ni by (auto simp: sent_inv_def ts_valid_length)
    then show ?thesis using v si(2) by (auto simp: ts_is_dirty_def)
  qed (auto simp: mark_sent_def)
next
  show "65536 < tile_count (make_geometry (recti 0 0 8192 8192) 0 0 8)" by code_simp
qed

theorem wide_tiles_stay_dirty_witness:
  "ts_is_dirty (mark_sent [0] (ts_configure 65537 1 ts_init)) 65536 \<longleftrightarrow>
   ts_is_dirty (ts_configure 65537 1 ts_init) 65536"
  using wide_tiles_stay_dirty [of 65536 "ts_configure 65537 1 ts_init" "[0]"] ts_inv_configure by blast

end
