(* ===== verification/SendQueue.thy ===== *)
theory SendQueue
  imports Wire "HOL-Library.Sublist"
begin

text \<open>
  The host's outgoing queue, \<open>host/src/transport/SendQueue.hpp\<close> and \<open>SendQueue.cpp\<close>: two
  queues of encoded messages, interactive and bulk, and the message in flight with the offset
  already written. \<open>sq_op\<close> is the sequence of calls the transport makes under its lock; a write
  asks for the pending bytes and consumes what the socket took.

  Shown here: the byte stream is always a sequence of whole messages, interactive ones in order,
  bulk ones in order; an interactive message waits for the rest of the message in flight, for
  the interactive messages before it, and for nothing else.
\<close>

section \<open>Definitions\<close>

record send_queue =
  q_interactive :: "bytes list"
  q_bulk :: "bytes list"
  q_bulk_bytes :: nat
  q_current :: bytes
  q_offset :: nat
  q_current_is_bulk :: bool
  q_bulk_limit :: nat
  q_oversize_bulk :: u64

definition sq_init :: send_queue where
  "sq_init = \<lparr>q_interactive = [], q_bulk = [], q_bulk_bytes = 0, q_current = [], q_offset = 0,
     q_current_is_bulk = False, q_bulk_limit = 64 * 1024, q_oversize_bulk = 0\<rparr>"

definition push_interactive :: "bytes \<Rightarrow> send_queue \<Rightarrow> send_queue" where
  "push_interactive message q =
     (if message = [] then q else q\<lparr>q_interactive := q_interactive q @ [message]\<rparr>)"

definition push_bulk :: "bytes \<Rightarrow> send_queue \<Rightarrow> send_queue" where
  "push_bulk message q =
     (if message = [] then q
      else
        q\<lparr>q_oversize_bulk :=
            (if q_bulk_limit q < length message then q_oversize_bulk q + 1 else q_oversize_bulk q),
          q_bulk_bytes := q_bulk_bytes q + length message,
          q_bulk := q_bulk q @ [message]\<rparr>)"

definition in_flight :: "send_queue \<Rightarrow> bool" where
  "in_flight q \<longleftrightarrow> q_offset q < length (q_current q)"

definition take_next :: "send_queue \<Rightarrow> send_queue" where
  "take_next q =
     (case q_interactive q of
        m # ms \<Rightarrow> q\<lparr>q_current := m, q_interactive := ms, q_current_is_bulk := False, q_offset := 0\<rparr>
      | [] \<Rightarrow>
          (case q_bulk q of
             m # ms \<Rightarrow>
               q\<lparr>q_current := m, q_bulk := ms, q_bulk_bytes := q_bulk_bytes q - length m,
                 q_current_is_bulk := True, q_offset := 0\<rparr>
           | [] \<Rightarrow> q\<lparr>q_current := [], q_current_is_bulk := False, q_offset := 0\<rparr>))"

definition pending :: "nat \<Rightarrow> send_queue \<Rightarrow> bytes \<times> send_queue" where
  "pending max_bytes q =
     (let q' = if in_flight q then q else take_next q in
      if \<not> in_flight q' \<or> max_bytes = 0 then ([], q')
      else
        let remaining = length (q_current q') - q_offset q' in
        (take (min max_bytes remaining) (drop (q_offset q') (q_current q')), q'))"

definition consume :: "nat \<Rightarrow> send_queue \<Rightarrow> send_queue" where
  "consume n q =
     (if \<not> in_flight q then q
      else
        let off = min (q_offset q + n) (length (q_current q)) in
        if length (q_current q) \<le> off
        then q\<lparr>q_current := [], q_offset := 0, q_current_is_bulk := False\<rparr>
        else q\<lparr>q_offset := off\<rparr>)"

definition sq_empty :: "send_queue \<Rightarrow> bool" where
  "sq_empty q \<longleftrightarrow> q_interactive q = [] \<and> q_bulk q = [] \<and> \<not> in_flight q"

definition bulk_idle :: "send_queue \<Rightarrow> bool" where
  "bulk_idle q \<longleftrightarrow> q_bulk q = [] \<and> \<not> (q_current_is_bulk q \<and> in_flight q)"

definition inversion_bytes :: "send_queue \<Rightarrow> nat" where
  "inversion_bytes q = (if in_flight q then length (q_current q) - q_offset q else 0)"

definition set_bulk_chunk_limit :: "nat \<Rightarrow> send_queue \<Rightarrow> send_queue" where
  "set_bulk_chunk_limit n q = q\<lparr>q_bulk_limit := n\<rparr>"

definition drop_queued_bulk :: "send_queue \<Rightarrow> nat \<times> send_queue" where
  "drop_queued_bulk q = (length (q_bulk q), q\<lparr>q_bulk := [], q_bulk_bytes := 0\<rparr>)"

definition sq_clear :: "send_queue \<Rightarrow> send_queue" where
  "sq_clear q =
     q\<lparr>q_interactive := [], q_bulk := [], q_bulk_bytes := 0, q_current := [], q_offset := 0,
       q_current_is_bulk := False\<rparr>"

text \<open>
  One turn of the writer: ask for at most \<open>k\<close> bytes, hand them to the socket, which takes up
  to \<open>n\<close> of them, and consume what it took.
\<close>

definition sq_write :: "nat \<Rightarrow> nat \<Rightarrow> send_queue \<Rightarrow> bytes \<times> send_queue" where
  "sq_write k n q =
     (let (bs, q') = pending k q; took = min n (length bs) in (take took bs, consume took q'))"

datatype sq_op = Op_interactive bytes | Op_bulk bytes | Op_write nat nat | Op_drop_bulk

fun sq_step :: "sq_op \<Rightarrow> send_queue \<Rightarrow> bytes \<times> send_queue" where
  "sq_step (Op_interactive m) q = ([], push_interactive m q)"
| "sq_step (Op_bulk m) q = ([], push_bulk m q)"
| "sq_step (Op_write k n) q = sq_write k n q"
| "sq_step Op_drop_bulk q = ([], snd (drop_queued_bulk q))"

fun sq_run :: "sq_op list \<Rightarrow> send_queue \<Rightarrow> bytes \<times> send_queue" where
  "sq_run [] q = ([], q)"
| "sq_run (op # ops) q = (let (bs, q1) = sq_step op q; (cs, q2) = sq_run ops q1 in (bs @ cs, q2))"

section \<open>Interface: a queue in front of a byte stream\<close>

text \<open>
  What the writer thread relies on. \<open>rest\<close> is the byte sequence that would go out if nothing
  else were pushed; a write moves a non-empty prefix of it to the socket, whenever there is one.
\<close>

fun write_all_turns :: "(nat \<Rightarrow> nat \<Rightarrow> 'q \<Rightarrow> bytes \<times> 'q) \<Rightarrow> (nat \<times> nat) list \<Rightarrow> 'q \<Rightarrow> bytes \<times> 'q" where
  "write_all_turns wr [] q = ([], q)"
| "write_all_turns wr ((k, n) # ws) q =
     (let (bs, q1) = wr k n q; (cs, q2) = write_all_turns wr ws q1 in (bs @ cs, q2))"

locale outbound_queue =
  fixes wr :: "nat \<Rightarrow> nat \<Rightarrow> 'q \<Rightarrow> bytes \<times> 'q"
    and rest :: "'q \<Rightarrow> bytes"
    and inv :: "'q \<Rightarrow> bool"
  assumes write_inv: "inv q \<Longrightarrow> inv (snd (wr k n q))"
    and write_conserves: "inv q \<Longrightarrow> fst (wr k n q) @ rest (snd (wr k n q)) = rest q"
    and write_progress: "inv q \<Longrightarrow> rest q \<noteq> [] \<Longrightarrow> 0 < k \<Longrightarrow> 0 < n \<Longrightarrow> fst (wr k n q) \<noteq> []"
begin

lemma turns_conserve:
  "inv q \<Longrightarrow> inv (snd (write_all_turns wr ws q)) \<and>
     fst (write_all_turns wr ws q) @ rest (snd (write_all_turns wr ws q)) = rest q"
proof (induction ws arbitrary: q)
  case (Cons w ws)
  obtain k n where w: "w = (k, n)" by fastforce
  obtain bs q1 where s: "wr k n q = (bs, q1)" by fastforce
  with write_inv [OF Cons.prems, of k n] write_conserves [OF Cons.prems, of k n]
  have "inv q1" "bs @ rest q1 = rest q" by simp_all
  with Cons.IH [of q1] w s show ?case by (auto split: prod.splits)
qed simp

lemma turns_drain:
  "inv q \<Longrightarrow> \<forall>(k, n) \<in> set ws. 0 < k \<and> 0 < n \<Longrightarrow> length (rest q) \<le> length ws \<Longrightarrow>
   rest (snd (write_all_turns wr ws q)) = []"
proof (induction ws arbitrary: q)
  case (Cons w ws)
  obtain k n where w: "w = (k, n)" by fastforce
  obtain bs q1 where s: "wr k n q = (bs, q1)" by fastforce
  have q1: "inv q1" "bs @ rest q1 = rest q"
    using write_inv [OF Cons.prems(1), of k n] write_conserves [OF Cons.prems(1), of k n] s by simp_all
  have "rest q \<noteq> [] \<longrightarrow> bs \<noteq> []"
    using write_progress [OF Cons.prems(1), of k n] Cons.prems(2) w s by auto
  then have "length (rest q1) \<le> length ws"
    using arg_cong [OF q1(2), of length] Cons.prems(3) by (cases bs) auto
  then show ?case using Cons.IH [OF q1(1)] Cons.prems(2) w s by (auto split: prod.splits)
qed simp

end

section \<open>Invariant and remaining bytes\<close>

definition sq_inv :: "send_queue \<Rightarrow> bool" where
  "sq_inv q \<longleftrightarrow>
     [] \<notin> set (q_interactive q) \<and> [] \<notin> set (q_bulk q) \<and>
     q_bulk_bytes q = sum_list (map length (q_bulk q)) \<and>
     (if q_current q = [] then q_offset q = 0 \<and> \<not> q_current_is_bulk q
      else q_offset q < length (q_current q))"

definition sq_rest :: "send_queue \<Rightarrow> bytes" where
  "sq_rest q = drop (q_offset q) (q_current q) @ concat (q_interactive q) @ concat (q_bulk q)"

lemmas sq_defs = in_flight_def sq_inv_def sq_rest_def

lemma sq_inv_init [simp]: "sq_inv sq_init"
  by (simp add: sq_inv_def sq_init_def)

lemma sq_rest_init [simp]: "sq_rest sq_init = []"
  by (simp add: sq_rest_def sq_init_def)

lemma push_interactive_inv: "sq_inv q \<Longrightarrow> sq_inv (push_interactive m q)"
  by (auto simp: push_interactive_def sq_inv_def)

lemma push_bulk_inv: "sq_inv q \<Longrightarrow> sq_inv (push_bulk m q)"
  by (auto simp: push_bulk_def sq_inv_def)

lemma drop_queued_bulk_inv: "sq_inv q \<Longrightarrow> sq_inv (snd (drop_queued_bulk q))"
  by (auto simp: drop_queued_bulk_def sq_inv_def)

lemma take_next_inv: "sq_inv q \<Longrightarrow> sq_inv (take_next q)"
  by (auto simp: take_next_def sq_inv_def split: list.splits)

lemma take_next_rest: "sq_inv q \<Longrightarrow> \<not> in_flight q \<Longrightarrow> sq_rest (take_next q) = sq_rest q"
  by (auto simp: take_next_def sq_defs split: list.splits if_splits)

lemma take_next_idle: "sq_inv q \<Longrightarrow> \<not> in_flight (take_next q) \<Longrightarrow> q_interactive q = [] \<and> q_bulk q = []"
  by (auto simp: take_next_def sq_defs split: list.splits)

definition advance :: "send_queue \<Rightarrow> send_queue" where
  "advance q = (if in_flight q then q else take_next q)"

lemma advance_inv: "sq_inv q \<Longrightarrow> sq_inv (advance q)"
  by (simp add: advance_def take_next_inv)

lemma advance_rest: "sq_inv q \<Longrightarrow> sq_rest (advance q) = sq_rest q"
  by (simp add: advance_def take_next_rest)

lemma advance_idle: "sq_inv q \<Longrightarrow> \<not> in_flight (advance q) \<longleftrightarrow> sq_rest q = []"
proof
  assume q: "sq_inv q"
  { assume "\<not> in_flight (advance q)"
    then have "\<not> in_flight q" "\<not> in_flight (take_next q)" by (auto simp: advance_def split: if_splits)
    with take_next_idle [OF q] q show "sq_rest q = []" by (auto simp: sq_defs split: if_splits) }
  assume "sq_rest q = []"
  then have "sq_rest (advance q) = []" using advance_rest [OF q] by simp
  then show "\<not> in_flight (advance q)" by (auto simp: sq_defs)
qed

lemma pending_eq:
  "pending k q =
     (take k (drop (q_offset (advance q)) (q_current (advance q))), advance q)"
  by (auto simp: pending_def advance_def in_flight_def Let_def min_def)

lemma consume_inv: "sq_inv q \<Longrightarrow> sq_inv (consume n q)"
  by (auto simp: consume_def sq_defs Let_def split: if_splits)

lemma consume_rest:
  "sq_inv q \<Longrightarrow> n \<le> length (q_current q) - q_offset q \<Longrightarrow> sq_rest (consume n q) = drop n (sq_rest q)"
  by (cases "q_current q = []") (auto simp: consume_def sq_defs Let_def min_def add.commute)

lemma sq_write_eq:
  assumes "sq_inv q"
  shows "\<exists>j \<le> length (q_current (advance q)) - q_offset (advance q).
    sq_write k n q = (take j (sq_rest q), consume j (advance q)) \<and>
    (0 < k \<longrightarrow> 0 < n \<longrightarrow> sq_rest q \<noteq> [] \<longrightarrow> 0 < j)"
proof -
  let ?a = "advance q" let ?l = "length (q_current ?a) - q_offset ?a"
  have "sq_write k n q = (take (min n (min k ?l)) (sq_rest ?a), consume (min n (min k ?l)) ?a)"
    by (simp add: sq_write_def pending_eq sq_rest_def min.commute min.left_commute Let_def)
  moreover have "sq_rest q \<noteq> [] \<Longrightarrow> 0 < ?l"
    using advance_idle [OF assms] by (simp add: in_flight_def)
  ultimately show ?thesis
    using advance_rest [OF assms] by (intro exI [of _ "min n (min k ?l)"]) auto
qed

interpretation sq: outbound_queue sq_write sq_rest sq_inv
proof unfold_locales
  fix q k n assume q: "sq_inv q"
  from sq_write_eq [OF q, of k n] obtain j where j: "j \<le> length (q_current (advance q)) - q_offset (advance q)"
    "sq_write k n q = (take j (sq_rest q), consume j (advance q))"
    "0 < k \<longrightarrow> 0 < n \<longrightarrow> sq_rest q \<noteq> [] \<longrightarrow> 0 < j" by blast
  show "sq_inv (snd (sq_write k n q))" using j q by (simp add: consume_inv advance_inv)
  show "fst (sq_write k n q) @ sq_rest (snd (sq_write k n q)) = sq_rest q"
    using j q by (simp add: consume_rest advance_inv advance_rest)
  assume "sq_rest q \<noteq> []" "0 < k" "0 < n"
  then show "fst (sq_write k n q) \<noteq> []" using j by simp
qed

section \<open>The stream as a sequence of messages\<close>

lemma shuffles_snoc_left: "ms \<in> shuffles si sb \<Longrightarrow> ms @ [m] \<in> shuffles (si @ [m]) sb"
proof (induction ms arbitrary: si sb)
  case (Cons x ms)
  then show ?case by (auto simp: Cons_in_shuffles_iff)
qed simp

lemma shuffles_snoc_right: "ms \<in> shuffles si sb \<Longrightarrow> ms @ [m] \<in> shuffles si (sb @ [m])"
  using shuffles_snoc_left [of ms sb si m] by (simp add: shuffles_commutes)

fun interactive_pushes :: "sq_op list \<Rightarrow> bytes list" where
  "interactive_pushes [] = []"
| "interactive_pushes (Op_interactive m # ops) = (if m = [] then [] else [m]) @ interactive_pushes ops"
| "interactive_pushes (_ # ops) = interactive_pushes ops"

fun bulk_pushes :: "sq_op list \<Rightarrow> bytes list" where
  "bulk_pushes [] = []"
| "bulk_pushes (Op_bulk m # ops) = (if m = [] then [] else [m]) @ bulk_pushes ops"
| "bulk_pushes (_ # ops) = bulk_pushes ops"

text \<open>
  \<open>out\<close> has been written so far: completed by the rest of the message in flight it is a
  sequence of whole messages, a shuffle of the interactive and of the bulk messages taken.
\<close>

definition stream_of :: "bytes \<Rightarrow> send_queue \<Rightarrow> bytes list \<Rightarrow> bytes list \<Rightarrow> bool" where
  "stream_of out q si sb \<longleftrightarrow>
     sq_inv q \<and> (\<exists>ms \<in> shuffles si sb. out @ drop (q_offset q) (q_current q) = concat ms)"

lemma stream_of_advance:
  assumes "stream_of out q si sb"
  shows "\<exists>si' sb'. stream_of out (advance q) si' sb' \<and>
    si' @ q_interactive (advance q) = si @ q_interactive q \<and> sb' @ q_bulk (advance q) = sb @ q_bulk q"
proof (cases "in_flight q")
  case True
  then show ?thesis using assms by (auto simp: advance_def)
next
  case False
  from assms obtain ms where q: "sq_inv q" and ms: "ms \<in> shuffles si sb"
    "out @ drop (q_offset q) (q_current q) = concat ms" by (auto simp: stream_of_def)
  have "q_current q = []" using False q by (auto simp: sq_defs split: if_splits)
  then have out: "out = concat ms" using ms by simp
  have inv: "sq_inv (take_next q)" by (rule take_next_inv [OF q])
  consider (i) m ml where "q_interactive q = m # ml"
    | (b) m ml where "q_interactive q = []" "q_bulk q = m # ml"
    | (n) "q_interactive q = []" "q_bulk q = []" by (metis list.exhaust)
  then show ?thesis
  proof cases
    case i
    then have "stream_of out (take_next q) (si @ [m]) sb"
      using shuffles_snoc_left [OF ms(1), of m] inv
      by (auto simp: stream_of_def take_next_def out intro!: bexI [of _ "ms @ [m]"])
    then show ?thesis using i False by (intro exI) (auto simp: advance_def take_next_def)
  next
    case b
    then have "stream_of out (take_next q) si (sb @ [m])"
      using shuffles_snoc_right [OF ms(1), of m] inv
      by (auto simp: stream_of_def take_next_def out intro!: bexI [of _ "ms @ [m]"])
    then show ?thesis using b False by (intro exI) (auto simp: advance_def take_next_def)
  next
    case n
    then have "stream_of out (take_next q) si sb"
      using ms(1) inv by (auto simp: stream_of_def take_next_def out)
    then show ?thesis using n False by (intro exI) (auto simp: advance_def take_next_def)
  qed
qed

lemma consume_current:
  "sq_inv q \<Longrightarrow> j \<le> length (q_current q) - q_offset q \<Longrightarrow>
   take j (drop (q_offset q) (q_current q)) @ drop (q_offset (consume j q)) (q_current (consume j q)) =
     drop (q_offset q) (q_current q)"
  by (cases "q_current q = []")
    (auto simp: consume_def in_flight_def sq_inv_def Let_def min_def add.commute simp flip: drop_drop)

lemma consume_queues [simp]:
  "q_interactive (consume j q) = q_interactive q" "q_bulk (consume j q) = q_bulk q"
  by (simp_all add: consume_def Let_def)

lemma stream_of_write:
  assumes "stream_of out q si sb" and "sq_write k n q = (bs, q')"
  shows "\<exists>si' sb'. stream_of (out @ bs) q' si' sb' \<and>
    si' @ q_interactive q' = si @ q_interactive q \<and> sb' @ q_bulk q' = sb @ q_bulk q"
proof -
  have q: "sq_inv q" using assms(1) by (simp add: stream_of_def)
  from sq_write_eq [OF q, of k n] assms(2) obtain j where
    j: "j \<le> length (q_current (advance q)) - q_offset (advance q)"
      "bs = take j (sq_rest q)" "q' = consume j (advance q)" by auto
  have inv: "sq_inv (advance q)" by (rule advance_inv [OF q])
  have bs: "bs = take j (drop (q_offset (advance q)) (q_current (advance q)))"
    using j(1) unfolding j(2) advance_rest [OF q, symmetric] by (simp add: sq_rest_def)
  from stream_of_advance [OF assms(1)] obtain si' sb' where a: "stream_of out (advance q) si' sb'"
    "si' @ q_interactive (advance q) = si @ q_interactive q" "sb' @ q_bulk (advance q) = sb @ q_bulk q"
    by blast
  have "stream_of (out @ bs) q' si' sb'"
    using a(1) consume_current [OF inv j(1)] consume_inv [OF inv]
    by (auto simp: stream_of_def j(3) bs)
  then show ?thesis using a j(3) by auto
qed

lemma stream_of_run:
  "stream_of out q si sb \<Longrightarrow> sq_run ops q = (bs, q') \<Longrightarrow>
   \<exists>si' sb'. stream_of (out @ bs) q' si' sb' \<and>
     si' @ q_interactive q' = si @ q_interactive q @ interactive_pushes ops \<and>
     subseq (sb' @ q_bulk q') (sb @ q_bulk q @ bulk_pushes ops) \<and>
     (Op_drop_bulk \<notin> set ops \<longrightarrow> sb' @ q_bulk q' = sb @ q_bulk q @ bulk_pushes ops)"
proof (induction ops arbitrary: out q si sb bs)
  case Nil
  then show ?case by auto
next
  case (Cons op ops)
  obtain b1 q1 where s: "sq_step op q = (b1, q1)" by fastforce
  obtain b2 where r: "sq_run ops q1 = (b2, q')" "bs = b1 @ b2"
    using Cons.prems(2) s by (auto split: prod.splits)
  have q: "sq_inv q" using Cons.prems(1) by (simp add: stream_of_def)
  have push: "stream_of (out @ []) q1 si sb"
    if "b1 = []" "sq_inv q1" "q_current q1 = q_current q" "q_offset q1 = q_offset q"
    using Cons.prems(1) that by (simp add: stream_of_def)
  have "\<exists>si1 sb1. stream_of (out @ b1) q1 si1 sb1 \<and>
     si1 @ q_interactive q1 = si @ q_interactive q @ interactive_pushes [op] \<and>
     subseq (sb1 @ q_bulk q1) (sb @ q_bulk q @ bulk_pushes [op]) \<and>
     (op \<noteq> Op_drop_bulk \<longrightarrow> sb1 @ q_bulk q1 = sb @ q_bulk q @ bulk_pushes [op])"
  proof (cases op)
    case (Op_interactive m)
    then have "b1 = []" "q1 = push_interactive m q" using s by auto
    then show ?thesis using push push_interactive_inv [OF q, of m] Op_interactive
      by (intro exI [of _ si] exI [of _ sb]) (simp add: push_interactive_def)
  next
    case (Op_bulk m)
    then have "b1 = []" "q1 = push_bulk m q" using s by auto
    then show ?thesis using push push_bulk_inv [OF q, of m] Op_bulk
      by (intro exI [of _ si] exI [of _ sb]) (simp add: push_bulk_def)
  next
    case (Op_write k n)
    then have "sq_write k n q = (b1, q1)" using s by simp
    from stream_of_write [OF Cons.prems(1) this] obtain si1 sb1 where
      "stream_of (out @ b1) q1 si1 sb1" "si1 @ q_interactive q1 = si @ q_interactive q"
      "sb1 @ q_bulk q1 = sb @ q_bulk q" by blast
    then show ?thesis using Op_write by (intro exI [of _ si1] exI [of _ sb1]) simp
  next
    case Op_drop_bulk
    then have "b1 = []" "q1 = snd (drop_queued_bulk q)" using s by auto
    then show ?thesis using push drop_queued_bulk_inv [OF q] Op_drop_bulk
      by (intro exI [of _ si] exI [of _ sb]) (simp add: drop_queued_bulk_def subseq_rev_drop_many)
  qed
  then obtain si1 sb1 where one: "stream_of (out @ b1) q1 si1 sb1"
     "si1 @ q_interactive q1 = si @ q_interactive q @ interactive_pushes [op]"
     "subseq (sb1 @ q_bulk q1) (sb @ q_bulk q @ bulk_pushes [op])"
     "op \<noteq> Op_drop_bulk \<Longrightarrow> sb1 @ q_bulk q1 = sb @ q_bulk q @ bulk_pushes [op]" by blast
  from Cons.IH [OF one(1) r(1)] obtain si' sb' where two: "stream_of ((out @ b1) @ b2) q' si' sb'"
     "si' @ q_interactive q' = si1 @ q_interactive q1 @ interactive_pushes ops"
     "subseq (sb' @ q_bulk q') (sb1 @ q_bulk q1 @ bulk_pushes ops)"
     "Op_drop_bulk \<notin> set ops \<Longrightarrow> sb' @ q_bulk q' = sb1 @ q_bulk q1 @ bulk_pushes ops" by blast
  have ip: "interactive_pushes (op # ops) = interactive_pushes [op] @ interactive_pushes ops"
    and bp: "bulk_pushes (op # ops) = bulk_pushes [op] @ bulk_pushes ops" by (cases op; simp)+
  have "subseq (sb' @ q_bulk q') ((sb @ q_bulk q @ bulk_pushes [op]) @ bulk_pushes ops)"
    by (rule subseq_order.trans [OF two(3) [folded append_assoc]
          list_emb_append_mono [OF one(3) subseq_order.order_refl [of "bulk_pushes ops"]]])
  moreover have "sb' @ q_bulk q' = sb @ q_bulk q @ bulk_pushes (op # ops)"
    if "Op_drop_bulk \<notin> set (op # ops)"
    using that two(4) one(4) bp by (simp add: eq_commute [of Op_drop_bulk op])
  ultimately show ?case
    using two(1,2) one(2) r(2) unfolding ip bp by (intro exI [of _ si'] exI [of _ sb']) simp
qed

section \<open>Message sizes\<close>

definition sq_sizes :: "nat \<Rightarrow> send_queue \<Rightarrow> bool" where
  "sq_sizes L q \<longleftrightarrow>
     length (q_current q) \<le> L \<and> (\<forall>m \<in> set (q_interactive q) \<union> set (q_bulk q). length m \<le> L)"

lemma sq_sizes_advance: "sq_sizes L q \<Longrightarrow> sq_sizes L (advance q)"
  by (auto simp: sq_sizes_def advance_def take_next_def split: list.splits)

lemma sq_sizes_step:
  assumes "sq_sizes L q" and "\<forall>m \<in> set (interactive_pushes [op]) \<union> set (bulk_pushes [op]). length m \<le> L"
  shows "sq_sizes L (snd (sq_step op q))"
proof (cases op)
  case (Op_write k n)
  have "sq_sizes L (consume j (advance q))" for j
    using sq_sizes_advance [OF assms(1)] by (auto simp: sq_sizes_def consume_def Let_def)
  then show ?thesis by (simp add: Op_write sq_write_def pending_eq Let_def)
qed (use assms in \<open>auto simp: sq_sizes_def push_interactive_def push_bulk_def drop_queued_bulk_def
      split: if_splits\<close>)

lemma sq_sizes_run:
  "sq_sizes L q \<Longrightarrow> \<forall>m \<in> set (interactive_pushes ops) \<union> set (bulk_pushes ops). length m \<le> L \<Longrightarrow>
   sq_sizes L (snd (sq_run ops q))"
proof (induction ops arbitrary: q)
  case (Cons op ops)
  obtain b1 q1 where s: "sq_step op q = (b1, q1)" by fastforce
  have "interactive_pushes (op # ops) = interactive_pushes [op] @ interactive_pushes ops"
    "bulk_pushes (op # ops) = bulk_pushes [op] @ bulk_pushes ops" by (cases op; simp)+
  then have "sq_sizes L q1" "\<forall>m \<in> set (interactive_pushes ops) \<union> set (bulk_pushes ops). length m \<le> L"
    using sq_sizes_step [OF Cons.prems(1), of op] Cons.prems(2) s by auto
  from Cons.IH [OF this] s show ?case by (auto split: prod.splits)
qed simp

section \<open>Properties\<close>

text \<open>
  C15: the byte stream always parses. After any sequence of pushes, partial writes and drops of
  queued frame data, what has been written, completed by the rest of the message in flight, is a
  concatenation of whole messages; the interactive ones are exactly the first interactive
  messages pushed, in order, and the bulk ones are bulk messages in the order pushed, none
  missing unless queued frame data was dropped.
\<close>

theorem send_queue_stream:
  "(let (out, q) = sq_run ops sq_init in
    \<exists>si sb. (\<exists>ms \<in> shuffles si sb. out @ drop (q_offset q) (q_current q) = concat ms) \<and>
      si @ q_interactive q = interactive_pushes ops \<and>
      subseq (sb @ q_bulk q) (bulk_pushes ops) \<and>
      (Op_drop_bulk \<in> set ops \<or> sb @ q_bulk q = bulk_pushes ops))"
proof -
  obtain out q where r: "sq_run ops sq_init = (out, q)" by fastforce
  have "stream_of [] sq_init [] []" by (simp add: stream_of_def) (simp add: sq_init_def)
  from stream_of_run [OF this r] obtain si sb where "stream_of out q si sb"
      "si @ q_interactive q = interactive_pushes ops" "subseq (sb @ q_bulk q) (bulk_pushes ops)"
      "Op_drop_bulk \<notin> set ops \<Longrightarrow> sb @ q_bulk q = bulk_pushes ops"
    by (auto simp: sq_init_def)
  then show ?thesis unfolding r stream_of_def by auto
qed

text \<open>
  everything queued goes out, in the order of priority: as many turns of the writer as there
  are bytes, each asking for and getting at least one byte, put out the rest of the message in
  flight, then the interactive messages, then the bulk messages.
\<close>

theorem send_queue_drains:
  assumes "sq_inv q" and "\<forall>(k, n) \<in> set ws. 0 < k \<and> 0 < n" and "length (sq_rest q) \<le> length ws"
  shows "fst (write_all_turns sq_write ws q) =
    drop (q_offset q) (q_current q) @ concat (q_interactive q) @ concat (q_bulk q)"
  using sq.turns_conserve [OF assms(1), of ws] sq.turns_drain [OF assms]
  by (simp add: sq_rest_def [of q])

theorem send_queue_drains_witness:
  "fst (write_all_turns sq_write [(2, 9), (1, 1), (9, 9)]
     (push_interactive [7] (push_bulk [1, 2] sq_init))) = [7, 1, 2]"
  using send_queue_drains [of "push_interactive [7] (push_bulk [1, 2] sq_init)" "[(2, 9), (1, 1), (9, 9)]"]
  by (simp add: push_interactive_inv push_bulk_inv)
     (simp add: push_interactive_def push_bulk_def sq_init_def sq_rest_def)

text \<open>
  C16: an interactive message waits only for the rest of the message in flight and for the
  interactive messages already queued, never for queued frame data: once that many bytes and its
  own have been written, however the writer's turns were cut, it has gone out.
\<close>

theorem interactive_latency:
  assumes "sq_inv q" and "m \<noteq> []"
    and "inversion_bytes q + length (concat (q_interactive q)) + length m
      \<le> length (fst (write_all_turns sq_write ws (push_interactive m q)))"
  shows "prefix (drop (q_offset q) (q_current q) @ concat (q_interactive q) @ m)
    (fst (write_all_turns sq_write ws (push_interactive m q)))"
proof -
  let ?out = "fst (write_all_turns sq_write ws (push_interactive m q))"
  let ?p = "drop (q_offset q) (q_current q) @ concat (q_interactive q) @ m"
  have "sq_rest (push_interactive m q) = ?p @ concat (q_bulk q)"
    using assms(2) by (simp add: sq_rest_def push_interactive_def)
  with sq.turns_conserve [OF push_interactive_inv [OF assms(1)], of ws m]
  obtain tl where "?out @ tl = ?p @ concat (q_bulk q)" by metis
  moreover have "length ?p \<le> length ?out"
    using assms(1,3) by (auto simp: inversion_bytes_def in_flight_def sq_inv_def split: if_splits)
  ultimately show ?thesis by (metis prefixI prefix_length_prefix)
qed

theorem interactive_latency_witness:
  "(let q = push_bulk [1, 2] sq_init in
    prefix (drop (q_offset q) (q_current q) @ concat (q_interactive q) @ [7])
      (fst (write_all_turns sq_write [(4, 4)] (push_interactive [7] q))))"
  unfolding Let_def
proof (rule interactive_latency)
  have "fst (write_all_turns sq_write [(4, 4)] (push_interactive [7] (push_bulk [1, 2] sq_init))) = [7]"
    by (simp add: sq_write_def pending_def push_interactive_def push_bulk_def sq_init_def in_flight_def
        take_next_def Let_def)
  then show "inversion_bytes (push_bulk [1, 2] sq_init) +
      length (concat (q_interactive (push_bulk [1, 2] sq_init))) + length [7 :: u8]
      \<le> length (fst (write_all_turns sq_write [(4, 4)] (push_interactive [7] (push_bulk [1, 2] sq_init))))"
    by (simp add: push_bulk_def sq_init_def inversion_bytes_def in_flight_def)
qed (simp_all add: push_bulk_inv)

text \<open>
  the wait behind the message in flight is bounded by the chunk size. If no message pushed is
  longer than \<open>L\<close> bytes, then at every moment \<open>inversion_bytes\<close> is at most \<open>L\<close>.
\<close>

theorem inversion_bounded:
  assumes "\<forall>m \<in> set (interactive_pushes ops) \<union> set (bulk_pushes ops). length m \<le> L"
  shows "inversion_bytes (snd (sq_run ops sq_init)) \<le> L"
proof -
  have "sq_sizes L sq_init" by (simp add: sq_sizes_def sq_init_def)
  from sq_sizes_run [OF this assms] show ?thesis by (auto simp: sq_sizes_def inversion_bytes_def)
qed

theorem inversion_bounded_witness:
  "inversion_bytes (snd (sq_run [Op_bulk [1, 2, 3], Op_write 1 1] sq_init)) \<le> 3"
  using inversion_bounded [of "[Op_bulk [1, 2, 3], Op_write 1 1]" 3] by simp

end
