(* ===== verification/InputInjector.thy ===== *)
theory InputInjector
  imports Geometry Messages
begin

text \<open>
  Mouse and keyboard injection on the host: the coordinate arithmetic of
  \<open>host/src/input/AbsoluteCoord.hpp\<close>, the key names of \<open>Win32KeyNames.cpp\<close>, the interface
  \<open>IInputInjector\<close> of \<open>InputInjector.hpp\<close> and its implementation \<open>Win32InputInjector.cpp\<close>.

  The Windows API is not part of the sources. Its virtual-key codes, \<open>SendInput\<close> and
  \<open>GetCursorPos\<close> are the fields of the parameter \<open>win32\<close>; the flags of an input event are
  symbolic. \<open>SendInput\<close> maps the events and the state of the desktop to the number of events
  inserted and the new state.
\<close>

section \<open>Definitions\<close>

subsection \<open>Absolute coordinates\<close>

definition kNormalizedSpan :: int where "kNormalizedSpan = 65536"
definition kNormalizedMax :: int where "kNormalizedMax = 65535"

definition pixel_to_normalized :: "int \<Rightarrow> int \<Rightarrow> int" where
  "pixel_to_normalized offset extent =
     (if extent \<le> 0 then 0
      else
        let clamped = clamp offset 0 (extent - 1);
            n = cdiv (clamped * kNormalizedSpan + extent - 1) extent in
        to_i32 (clamp n 0 kNormalizedMax))"

definition normalized_to_pixel :: "int \<Rightarrow> int \<Rightarrow> int" where
  "normalized_to_pixel normalized extent =
     (if extent \<le> 0 then 0 else to_i32 (cdiv (normalized * extent) kNormalizedSpan))"

subsection \<open>Key names\<close>

datatype vk =
    VK_ESCAPE | VK_TAB | VK_RETURN | VK_SPACE | VK_BACK | VK_DELETE | VK_INSERT | VK_HOME | VK_END
  | VK_PRIOR | VK_NEXT | VK_UP | VK_DOWN | VK_LEFT | VK_RIGHT | VK_SNAPSHOT | VK_PAUSE | VK_CAPITAL
  | VK_NUMLOCK | VK_SCROLL | VK_APPS | VK_OEM_MINUS | VK_OEM_PLUS | VK_OEM_COMMA | VK_OEM_PERIOD
  | VK_OEM_1 | VK_OEM_2 | VK_OEM_3 | VK_OEM_4 | VK_OEM_5 | VK_OEM_6 | VK_OEM_7 | VK_ADD | VK_SUBTRACT
  | VK_MULTIPLY | VK_DIVIDE | VK_DECIMAL | VK_F1 | VK_NUMPAD0 | VK_CONTROL | VK_SHIFT | VK_MENU
  | VK_LWIN | VK_RCONTROL | VK_RMENU

definition kNamedKeys :: "(string \<times> vk) list" where
  "kNamedKeys =
     [(''escape'', VK_ESCAPE), (''esc'', VK_ESCAPE), (''tab'', VK_TAB), (''enter'', VK_RETURN),
      (''return'', VK_RETURN), (''space'', VK_SPACE), (''backspace'', VK_BACK), (''delete'', VK_DELETE),
      (''del'', VK_DELETE), (''insert'', VK_INSERT), (''home'', VK_HOME), (''end'', VK_END),
      (''pageup'', VK_PRIOR), (''pagedown'', VK_NEXT), (''up'', VK_UP), (''down'', VK_DOWN),
      (''left'', VK_LEFT), (''right'', VK_RIGHT), (''printscreen'', VK_SNAPSHOT), (''pause'', VK_PAUSE),
      (''capslock'', VK_CAPITAL), (''numlock'', VK_NUMLOCK), (''scrolllock'', VK_SCROLL),
      (''menu'', VK_APPS), (''minus'', VK_OEM_MINUS), (''equal'', VK_OEM_PLUS), (''comma'', VK_OEM_COMMA),
      (''period'', VK_OEM_PERIOD), (''slash'', VK_OEM_2), (''backslash'', VK_OEM_5),
      (''semicolon'', VK_OEM_1), (''quote'', VK_OEM_7), (''leftbracket'', VK_OEM_4),
      (''rightbracket'', VK_OEM_6), (''backquote'', VK_OEM_3), (''numpadplus'', VK_ADD),
      (''numpadminus'', VK_SUBTRACT), (''numpadmultiply'', VK_MULTIPLY), (''numpaddivide'', VK_DIVIDE),
      (''numpaddecimal'', VK_DECIMAL)]"

abbreviation digit_value :: "char \<Rightarrow> int" where
  "digit_value c \<equiv> of_char c - 48"

definition is_digit :: "char \<Rightarrow> bool" where
  "is_digit c \<longleftrightarrow> (48 :: nat) \<le> of_char c \<and> of_char c \<le> (57 :: nat)"

fun parse_digits :: "int \<Rightarrow> int \<Rightarrow> string \<Rightarrow> int option" where
  "parse_digits mx value [] = Some value"
| "parse_digits mx value (c # cs) =
     (if \<not> is_digit c then None
      else
        let value' = value * 10 + digit_value c in
        if mx < value' then None else parse_digits mx value' cs)"

definition parse_indexed :: "string \<Rightarrow> string \<Rightarrow> int \<Rightarrow> int \<Rightarrow> u16 \<Rightarrow> u16 option" where
  "parse_indexed name prefix first mx base =
     (if take (length prefix) name \<noteq> prefix \<or> length name \<le> length prefix then None
      else
        case parse_digits mx 0 (drop (length prefix) name) of
          None \<Rightarrow> None
        | Some value \<Rightarrow>
            if value < first then None else Some (base + word_of_int (value - first)))"

definition key_name_to_code :: "(vk \<Rightarrow> u16) \<Rightarrow> string \<Rightarrow> u16 option" where
  "key_name_to_code code name =
     (case name of
        [] \<Rightarrow> None
      | [c] \<Rightarrow>
          let n = of_char c :: nat in
          if 97 \<le> n \<and> n \<le> 122 then Some (of_nat (65 + (n - 97)))
          else if 65 \<le> n \<and> n \<le> 90 then Some (of_nat n)
          else if 48 \<le> n \<and> n \<le> 57 then Some (of_nat n)
          else None
      | _ \<Rightarrow>
          case parse_indexed name ''f'' 1 24 (code VK_F1) of
            Some c \<Rightarrow> Some c
          | None \<Rightarrow>
              case parse_indexed name ''numpad'' 0 9 (code VK_NUMPAD0) of
                Some c \<Rightarrow> Some c
              | None \<Rightarrow> map_option code (map_of kNamedKeys name))"

subsection \<open>Input events and the Windows API\<close>

datatype mouse_flag =
    MOUSEEVENTF_MOVE | MOUSEEVENTF_ABSOLUTE | MOUSEEVENTF_VIRTUALDESK
  | MOUSEEVENTF_LEFTDOWN | MOUSEEVENTF_LEFTUP | MOUSEEVENTF_RIGHTDOWN | MOUSEEVENTF_RIGHTUP
  | MOUSEEVENTF_MIDDLEDOWN | MOUSEEVENTF_MIDDLEUP

datatype key_flag = KEYEVENTF_KEYUP | KEYEVENTF_EXTENDEDKEY

datatype INPUT =
    INPUT_MOUSE int int "mouse_flag list"
  | INPUT_KEYBOARD u16 "key_flag list"

record 'w win32 =
  w_code :: "vk \<Rightarrow> u16"
  w_SendInput :: "INPUT list \<Rightarrow> 'w \<Rightarrow> nat \<times> 'w"
  w_GetCursorPos :: "'w \<Rightarrow> (int \<times> int) option"

definition button_index :: "MouseButton \<Rightarrow> nat" where
  "button_index b =
     (case b of Button_Left \<Rightarrow> 0 | Button_Right \<Rightarrow> 1 | Button_Middle \<Rightarrow> 2 | Button_raw _ \<Rightarrow> 0)"

definition button_flag :: "MouseButton \<Rightarrow> bool \<Rightarrow> mouse_flag list" where
  "button_flag b down =
     (case b of
        Button_Left \<Rightarrow> [if down then MOUSEEVENTF_LEFTDOWN else MOUSEEVENTF_LEFTUP]
      | Button_Right \<Rightarrow> [if down then MOUSEEVENTF_RIGHTDOWN else MOUSEEVENTF_RIGHTUP]
      | Button_Middle \<Rightarrow> [if down then MOUSEEVENTF_MIDDLEDOWN else MOUSEEVENTF_MIDDLEUP]
      | Button_raw _ \<Rightarrow> [])"

definition kModifierKeys :: "(u8 \<times> vk) list" where
  "kModifierKeys = [(kModCtrl, VK_CONTROL), (kModShift, VK_SHIFT), (kModAlt, VK_MENU), (kModMeta, VK_LWIN)]"

definition is_extended :: "(vk \<Rightarrow> u16) \<Rightarrow> u16 \<Rightarrow> bool" where
  "is_extended code v \<longleftrightarrow>
     v \<in> code ` {VK_INSERT, VK_DELETE, VK_HOME, VK_END, VK_PRIOR, VK_NEXT, VK_UP, VK_DOWN, VK_LEFT,
       VK_RIGHT, VK_DIVIDE, VK_NUMLOCK, VK_SNAPSHOT, VK_RCONTROL, VK_RMENU}"

definition key_input :: "(vk \<Rightarrow> u16) \<Rightarrow> u16 \<Rightarrow> bool \<Rightarrow> INPUT" where
  "key_input code v down =
     INPUT_KEYBOARD v
       ((if down then [] else [KEYEVENTF_KEYUP]) @
        (if is_extended code v then [KEYEVENTF_EXTENDEDKEY] else []))"

subsection \<open>The Windows injector\<close>

text \<open>The object and the desktop it acts on.\<close>

record 'w injector =
  i_bounds :: Recti
  i_held :: "bool list"
  i_held_keys :: "u16 list"
  i_held_mods :: u8
  i_clamped :: u64
  i_world :: 'w

definition injector_init :: "'w \<Rightarrow> 'w injector" where
  "injector_init w =
     \<lparr>i_bounds = recti 0 0 1 1, i_held = [False, False, False], i_held_keys = [], i_held_mods = 0,
      i_clamped = 0, i_world = w\<rparr>"

definition set_virtual_bounds :: "Recti \<Rightarrow> 'w injector \<Rightarrow> 'w injector" where
  "set_virtual_bounds b i = (if 0 < rect_w b \<and> 0 < rect_h b then i\<lparr>i_bounds := b\<rparr> else i)"

definition send_input :: "'w win32 \<Rightarrow> INPUT list \<Rightarrow> 'w injector \<Rightarrow> nat \<times> 'w injector" where
  "send_input os batch i = (let (n, w) = w_SendInput os batch (i_world i) in (n, i\<lparr>i_world := w\<rparr>))"

definition inj_normalize :: "int \<Rightarrow> int \<Rightarrow> 'w injector \<Rightarrow> (int \<times> int) \<times> 'w injector" where
  "inj_normalize x y i =
     (let b = i_bounds i; w = max (rect_w b) 1; h = max (rect_h b) 1;
          rx = x - rect_x b; ry = y - rect_y b;
          cx = clamp rx 0 (w - 1); cy = clamp ry 0 (h - 1) in
      ((pixel_to_normalized cx w, pixel_to_normalized cy h),
       if cx \<noteq> rx \<or> cy \<noteq> ry then i\<lparr>i_clamped := i_clamped i + 1\<rparr> else i))"

definition inj_emit :: "'w win32 \<Rightarrow> int \<Rightarrow> int \<Rightarrow> mouse_flag list \<Rightarrow> 'w injector \<Rightarrow> bool \<times> 'w injector" where
  "inj_emit os x y extra i =
     (let ((nx, ny), i1) = inj_normalize x y i;
          (n, i2) = send_input os
            [INPUT_MOUSE nx ny ([MOUSEEVENTF_MOVE, MOUSEEVENTF_ABSOLUTE, MOUSEEVENTF_VIRTUALDESK] @ extra)] i1 in
      (n = 1, i2))"

definition inj_move_to :: "'w win32 \<Rightarrow> int \<Rightarrow> int \<Rightarrow> 'w injector \<Rightarrow> bool \<times> 'w injector" where
  "inj_move_to os x y i = inj_emit os x y [] i"

definition inj_button :: "'w win32 \<Rightarrow> MouseButton \<Rightarrow> bool \<Rightarrow> int \<Rightarrow> int \<Rightarrow> 'w injector \<Rightarrow> bool \<times> 'w injector" where
  "inj_button os b down x y i =
     (let (ok, i1) = inj_emit os x y (button_flag b down) i in
      if \<not> ok then (False, i1)
      else (True, i1\<lparr>i_held := (i_held i1)[button_index b := down]\<rparr>))"

definition modifier_vks :: "u8 \<Rightarrow> vk list" where
  "modifier_vks mods = map snd (filter (\<lambda>(bit, _). mods AND bit \<noteq> 0) kModifierKeys)"

definition key_batch :: "'w win32 \<Rightarrow> Key \<Rightarrow> u16 \<Rightarrow> INPUT list" where
  "key_batch os k v =
     (let press_phase = k_action k \<noteq> Key_Up; release_phase = k_action k \<noteq> Key_Down;
          inp = key_input (w_code os); mods = map (w_code os) (modifier_vks (k_modifiers k)) in
      (if press_phase then map (\<lambda>m. inp m True) mods @ [inp v True] else []) @
      (if release_phase then inp v False # map (\<lambda>m. inp m False) (rev mods) else []))"

definition inj_key :: "'w win32 \<Rightarrow> Key \<Rightarrow> 'w injector \<Rightarrow> bool \<times> 'w injector" where
  "inj_key os k i =
     (case key_name_to_code (w_code os) (k_key k) of
        None \<Rightarrow> (False, i)
      | Some v \<Rightarrow>
          let batch = key_batch os k v; (n, i1) = send_input os batch i in
          if n \<noteq> length batch then (False, i1)
          else if k_action k = Key_Down then
            (True, i1\<lparr>i_held_keys := i_held_keys i1 @ [v], i_held_mods := i_held_mods i1 OR k_modifiers k\<rparr>)
          else
            (True, i1\<lparr>i_held_keys := filter (\<lambda>x. x \<noteq> v) (i_held_keys i1),
                      i_held_mods := (if k_action k = Key_Up then i_held_mods i1 AND NOT (k_modifiers k)
                                      else i_held_mods i1)\<rparr>))"

text \<open>The events \<open>release_all\<close> sends, one call of \<open>SendInput\<close> each.\<close>

definition release_events :: "'w win32 \<Rightarrow> 'w injector \<Rightarrow> INPUT list" where
  "release_events os i =
     map (\<lambda>v. key_input (w_code os) v False) (i_held_keys i) @
     map (\<lambda>m. key_input (w_code os) (w_code os m) False) (rev (modifier_vks (i_held_mods i))) @
     concat (map (\<lambda>(b, h). if h then [INPUT_MOUSE 0 0 (button_flag b False)] else [])
       (zip [Button_Left, Button_Right, Button_Middle] (i_held i)))"

definition inj_release_all :: "'w win32 \<Rightarrow> 'w injector \<Rightarrow> 'w injector" where
  "inj_release_all os i =
     (fold (\<lambda>e j. snd (send_input os [e] j)) (release_events os i) i)
       \<lparr>i_held_keys := [], i_held_mods := 0, i_held := [False, False, False]\<rparr>"

definition any_button_down :: "'w injector \<Rightarrow> bool" where
  "any_button_down i \<longleftrightarrow> True \<in> set (i_held i)"

definition inj_cursor_pos :: "'w win32 \<Rightarrow> 'w injector \<Rightarrow> (int \<times> int) option" where
  "inj_cursor_pos os i = w_GetCursorPos os (i_world i)"

subsection \<open>The interface IInputInjector\<close>

text \<open>The virtual methods the pointer pipeline calls, on an object of state \<open>'i\<close>.\<close>

record 'i injector_ops =
  io_move_to :: "int \<Rightarrow> int \<Rightarrow> 'i \<Rightarrow> bool \<times> 'i"
  io_button :: "MouseButton \<Rightarrow> bool \<Rightarrow> int \<Rightarrow> int \<Rightarrow> 'i \<Rightarrow> bool \<times> 'i"
  io_key :: "Key \<Rightarrow> 'i \<Rightarrow> bool \<times> 'i"
  io_release_all :: "'i \<Rightarrow> 'i"
  io_cursor_pos :: "'i \<Rightarrow> (int \<times> int) option"

definition win32_ops :: "'w win32 \<Rightarrow> 'w injector injector_ops" where
  "win32_ops os =
     \<lparr>io_move_to = inj_move_to os, io_button = inj_button os, io_key = inj_key os,
      io_release_all = inj_release_all os, io_cursor_pos = inj_cursor_pos os\<rparr>"

text \<open>
  What the interface promises about held buttons: a successful press or release changes exactly
  the button it names, everything else leaves them as they were, and \<open>release_all\<close> leaves none.
\<close>

locale input_injector =
  fixes ops :: "'i injector_ops"
    and held :: "'i \<Rightarrow> nat set"
    and inv :: "'i \<Rightarrow> bool"
  assumes move_inv: "inv i \<Longrightarrow> inv (snd (io_move_to ops x y i))"
    and move_held: "inv i \<Longrightarrow> held (snd (io_move_to ops x y i)) = held i"
    and button_inv: "inv i \<Longrightarrow> inv (snd (io_button ops b d x y i))"
    and button_ok: "inv i \<Longrightarrow> fst (io_button ops b d x y i) \<Longrightarrow>
      held (snd (io_button ops b d x y i)) =
        (if d then insert (button_index b) (held i) else held i - {button_index b})"
    and button_fail: "inv i \<Longrightarrow> \<not> fst (io_button ops b d x y i) \<Longrightarrow> held (snd (io_button ops b d x y i)) = held i"
    and key_inv: "inv i \<Longrightarrow> inv (snd (io_key ops k i))"
    and key_held: "inv i \<Longrightarrow> held (snd (io_key ops k i)) = held i"
    and release_inv: "inv i \<Longrightarrow> inv (io_release_all ops i)"
    and release_held: "inv i \<Longrightarrow> held (io_release_all ops i) = {}"

text \<open>
  The same with a watch on refusals: a state in which no button call has been refused. Once one is
  refused, nothing but \<open>release_all\<close> leads back.
\<close>

locale watched_injector = input_injector +
  fixes unrefused :: "'a \<Rightarrow> bool"
  assumes unrefused_move: "inv i \<Longrightarrow> unrefused (snd (io_move_to ops x y i)) \<Longrightarrow> unrefused i"
    and unrefused_button: "inv i \<Longrightarrow> unrefused (snd (io_button ops b d x y i)) \<Longrightarrow> unrefused i \<and> fst (io_button ops b d x y i)"
    and unrefused_key: "inv i \<Longrightarrow> unrefused (snd (io_key ops k i)) \<Longrightarrow> unrefused i"

section \<open>Coordinates\<close>

lemma normalized_range:
  assumes "0 < extent" "extent \<le> 65536" "0 \<le> p" "p < extent"
  shows "pixel_to_normalized p extent = (p * 65536 + extent - 1) div extent"
    and "(p * 65536 + extent - 1) div extent \<le> 65535" and "0 \<le> (p * 65536 + extent - 1) div extent"
proof -
  let ?n = "(p * 65536 + extent - 1) div extent"
  show le: "?n \<le> 65535" using assms by (simp add: zdiv_le_iff)
  show ge: "0 \<le> ?n" using assms by (simp add: pos_imp_zdiv_nonneg_iff)
  have "is_i32 ?n" using le ge by (simp add: is_i32_def)
  then show "pixel_to_normalized p extent = ?n"
    using assms le ge by (simp add: pixel_to_normalized_def kNormalizedSpan_def kNormalizedMax_def)
qed

lemma normalized_inverse:
  assumes "0 < extent" "extent \<le> 65536" "0 \<le> p" "p < extent"
  shows "normalized_to_pixel (pixel_to_normalized p extent) extent = p"
proof -
  let ?n = "(p * 65536 + extent - 1) div extent"
  note r = normalized_range [OF assms]
  have lo: "p * 65536 \<le> ?n * extent"
    using less_div_times [OF assms(1), of "p * 65536 + extent - 1"] by (simp add: distrib_right)
  have hi: "?n * extent < (p + 1) * 65536"
    using div_times_le [OF assms(1), of "p * 65536 + extent - 1"] assms(2) by simp
  have "?n * extent div 65536 = p"
    using lo hi by (intro antisym) (simp_all add: zdiv_le_iff le_zdiv_iff)
  moreover have "0 \<le> ?n * extent" using r(3) assms(1) by simp
  moreover have "is_i32 p" using assms by (simp add: is_i32_def)
  ultimately show ?thesis
    using assms r by (simp add: normalized_to_pixel_def kNormalizedSpan_def)
qed

section \<open>Injector lemmas\<close>

definition inj_inv :: "'w injector \<Rightarrow> bool" where
  "inj_inv i \<longleftrightarrow> length (i_held i) = 3"

definition held_buttons :: "'w injector \<Rightarrow> nat set" where
  "held_buttons i = {n. n < 3 \<and> i_held i ! n}"

lemma send_input_fields [simp]:
  "i_held (snd (send_input os es i)) = i_held i" "i_held_keys (snd (send_input os es i)) = i_held_keys i"
  "i_held_mods (snd (send_input os es i)) = i_held_mods i"
  by (simp_all add: send_input_def split: prod.split)

lemma inj_normalize_fields [simp]:
  "i_held (snd (inj_normalize x y i)) = i_held i" "i_held_keys (snd (inj_normalize x y i)) = i_held_keys i"
  "i_held_mods (snd (inj_normalize x y i)) = i_held_mods i" "i_world (snd (inj_normalize x y i)) = i_world i"
  by (simp_all add: inj_normalize_def Let_def)

lemma inj_emit_fields [simp]:
  "i_held (snd (inj_emit os x y fl i)) = i_held i" "i_held_keys (snd (inj_emit os x y fl i)) = i_held_keys i"
  "i_held_mods (snd (inj_emit os x y fl i)) = i_held_mods i"
  using inj_normalize_fields [of x y i] send_input_fields [of os _ "snd (inj_normalize x y i)"]
  by (auto simp: inj_emit_def Let_def simp del: inj_normalize_fields send_input_fields split: prod.splits)
    (metis snd_conv send_input_fields)+

lemma button_index_less [simp]: "button_index b < 3"
  by (simp add: button_index_def split: MouseButton.split)

lemma inj_release_all_held [simp]: "i_held (inj_release_all os i) = [False, False, False]"
  by (simp add: inj_release_all_def)

lemma inj_button_held:
  "i_held (snd (inj_button os b d x y i)) =
     (if fst (inj_button os b d x y i) then (i_held i)[button_index b := d] else i_held i)"
proof -
  obtain ok i1 where e: "inj_emit os x y (button_flag b d) i = (ok, i1)" by fastforce
  with inj_emit_fields(1) [of os x y "button_flag b d" i] have "i_held i1 = i_held i" by simp
  with e show ?thesis by (simp add: inj_button_def)
qed

lemma inj_key_held: "i_held (snd (inj_key os k i)) = i_held i"
proof (cases "key_name_to_code (w_code os) (k_key k)")
  case (Some v)
  obtain n i1 where e: "send_input os (key_batch os k v) i = (n, i1)" by fastforce
  with send_input_fields(1) [of os "key_batch os k v" i] have "i_held i1 = i_held i" by simp
  with Some e show ?thesis by (simp add: inj_key_def Let_def)
qed (simp add: inj_key_def)

interpretation win32: input_injector "win32_ops os" held_buttons inj_inv for os
proof unfold_locales
  fix i :: "'a injector" and x y b d k
  assume inv: "inj_inv i"
  show "inj_inv (snd (io_move_to (win32_ops os) x y i))"
    "held_buttons (snd (io_move_to (win32_ops os) x y i)) = held_buttons i"
    using inv by (simp_all add: win32_ops_def inj_move_to_def inj_inv_def held_buttons_def)
  show "inj_inv (snd (io_button (win32_ops os) b d x y i))"
    using inv by (simp add: win32_ops_def inj_inv_def inj_button_held)
  show "fst (io_button (win32_ops os) b d x y i) \<Longrightarrow>
      held_buttons (snd (io_button (win32_ops os) b d x y i)) =
        (if d then insert (button_index b) (held_buttons i) else held_buttons i - {button_index b})"
    using inv button_index_less [of b]
    by (auto simp: win32_ops_def held_buttons_def inj_button_held inj_inv_def nth_list_update
        simp del: button_index_less split: if_splits)
  show "\<not> fst (io_button (win32_ops os) b d x y i) \<Longrightarrow>
      held_buttons (snd (io_button (win32_ops os) b d x y i)) = held_buttons i"
    by (simp add: win32_ops_def held_buttons_def inj_button_held)
  show "inj_inv (snd (io_key (win32_ops os) k i))" "held_buttons (snd (io_key (win32_ops os) k i)) = held_buttons i"
    using inv by (simp_all add: win32_ops_def inj_inv_def held_buttons_def inj_key_held)
  show "inj_inv (io_release_all (win32_ops os) i)" "held_buttons (io_release_all (win32_ops os) i) = {}"
    by (auto simp: win32_ops_def inj_inv_def held_buttons_def nth_Cons' less_Suc_eq numeral_3_eq_3)
qed

section \<open>The desktop behind SendInput\<close>

text \<open>
  What the documentation of \<open>SendInput\<close> says of its events, as far as held keys and buttons go.
  \<open>faithful_os\<close> is the documented contract: unless the input is blocked (another thread, or a
  window of higher privilege), all events are inserted in order; if it is, none is.
\<close>

record desk =
  d_keys :: "u16 set"
  d_buttons :: "nat set"

fun flag_effect :: "mouse_flag \<Rightarrow> nat set \<Rightarrow> nat set" where
  "flag_effect MOUSEEVENTF_LEFTDOWN B = insert 0 B"
| "flag_effect MOUSEEVENTF_LEFTUP B = B - {0}"
| "flag_effect MOUSEEVENTF_RIGHTDOWN B = insert 1 B"
| "flag_effect MOUSEEVENTF_RIGHTUP B = B - {1}"
| "flag_effect MOUSEEVENTF_MIDDLEDOWN B = insert 2 B"
| "flag_effect MOUSEEVENTF_MIDDLEUP B = B - {2}"
| "flag_effect _ B = B"

fun apply_event :: "INPUT \<Rightarrow> desk \<Rightarrow> desk" where
  "apply_event (INPUT_MOUSE dx dy fl) d = d\<lparr>d_buttons := fold flag_effect fl (d_buttons d)\<rparr>"
| "apply_event (INPUT_KEYBOARD v fl) d =
     d\<lparr>d_keys := if KEYEVENTF_KEYUP \<in> set fl then d_keys d - {v} else insert v (d_keys d)\<rparr>"

definition faithful_os :: "'w win32 \<Rightarrow> ('w \<Rightarrow> desk) \<Rightarrow> ('w \<Rightarrow> bool) \<Rightarrow> bool" where
  "faithful_os os desktop blocked \<longleftrightarrow>
     (\<forall>es w. if blocked w then fst (w_SendInput os es w) = 0 \<and> desktop (snd (w_SendInput os es w)) = desktop w
             else fst (w_SendInput os es w) = length es \<and> \<not> blocked (snd (w_SendInput os es w)) \<and>
               desktop (snd (w_SendInput os es w)) = fold apply_event es (desktop w))"

text \<open>The injector's books cover whatever is held on the desktop.\<close>

definition tracked :: "'w win32 \<Rightarrow> ('w \<Rightarrow> desk) \<Rightarrow> 'w injector \<Rightarrow> bool" where
  "tracked os desktop i \<longleftrightarrow>
     inj_inv i \<and>
     d_keys (desktop (i_world i)) \<subseteq> set (i_held_keys i) \<union> w_code os ` set (modifier_vks (i_held_mods i)) \<and>
     d_buttons (desktop (i_world i)) \<subseteq> held_buttons i"

lemma key_events:
  "fold apply_event (map (\<lambda>m. key_input c m True) ms) d = d\<lparr>d_keys := d_keys d \<union> set ms\<rparr>"
  "fold apply_event (map (\<lambda>m. key_input c m False) ms) d = d\<lparr>d_keys := d_keys d - set ms\<rparr>"
  by (induction ms arbitrary: d) (auto simp: key_input_def Diff_insert2 [symmetric] insert_commute)

lemma modifier_vks_iff: "m \<in> set (modifier_vks x) \<longleftrightarrow> (\<exists>b. (b, m) \<in> set kModifierKeys \<and> x AND b \<noteq> 0)"
  by (force simp: modifier_vks_def)

lemma modifier_vks_or: "set (modifier_vks (x OR y)) = set (modifier_vks x) \<union> set (modifier_vks y)"
  by (auto simp: modifier_vks_iff bit.conj_disj_distrib2 or_eq_0_iff)

lemma and_not_mask: "y AND b = 0 \<Longrightarrow> (x AND NOT y) AND b = x AND b" for x y b :: u8
  by (rule bit_word_eqI) (auto simp: bit_simps dest!: arg_cong [where f = "\<lambda>w. bit w _"])

lemma modifier_vks_clear: "set (modifier_vks x) - set (modifier_vks y) \<subseteq> set (modifier_vks (x AND NOT y))"
proof
  fix m assume m: "m \<in> set (modifier_vks x) - set (modifier_vks y)"
  then obtain b where b: "(b, m) \<in> set kModifierKeys" "x AND b \<noteq> 0" by (auto simp: modifier_vks_iff)
  with m have "y AND b = 0" by (auto simp: modifier_vks_iff)
  then show "m \<in> set (modifier_vks (x AND NOT y))"
    using b and_not_mask [of y b x] by (auto simp: modifier_vks_iff)
qed

lemma key_batch_desk:
  fixes os :: "'w win32"
  assumes "M = w_code os ` set (modifier_vks (k_modifiers k))"
  shows "fold apply_event (key_batch os k v) d =
    d\<lparr>d_keys := (if k_action k = Key_Down then insert v (d_keys d \<union> M) else d_keys d - {v} - M)\<rparr>"
proof -
  define ms where "ms = map (w_code os) (modifier_vks (k_modifiers k))"
  have M: "M = set ms" by (simp add: ms_def assms)
  have kb: "key_batch os k v =
      (if k_action k \<noteq> Key_Up then map (\<lambda>m. key_input (w_code os) m True) (ms @ [v]) else []) @
      (if k_action k \<noteq> Key_Down then map (\<lambda>m. key_input (w_code os) m False) (v # rev ms) else [])"
    unfolding key_batch_def Let_def ms_def [symmetric] by simp
  show ?thesis unfolding kb M fold_append
    by (cases "k_action k")
      (auto simp: key_events simp del: list.map map_append intro!: arg_cong [where f = "\<lambda>K. d\<lparr>d_keys := K\<rparr>"])
qed

lemma key_batch_nonempty: "key_batch os k v \<noteq> []"
  by (cases "k_action k = Key_Up") (auto simp: key_batch_def Let_def)

lemma send_input_faithful:
  assumes "faithful_os os desktop blocked"
  shows "if blocked (i_world i) then fst (send_input os es i) = 0 \<and>
      desktop (i_world (snd (send_input os es i))) = desktop (i_world i)
    else fst (send_input os es i) = length es \<and> \<not> blocked (i_world (snd (send_input os es i))) \<and>
      desktop (i_world (snd (send_input os es i))) = fold apply_event es (desktop (i_world i))"
proof -
  obtain n w where "w_SendInput os es (i_world i) = (n, w)" by fastforce
  then show ?thesis
    using assms [unfolded faithful_os_def, rule_format, where es = es and w = "i_world i"]
    by (simp add: send_input_def split: if_splits)
qed

lemma tracked_move:
  assumes f: "faithful_os os desktop blocked" and t: "tracked os desktop i"
  shows "tracked os desktop (snd (inj_move_to os x y i))"
proof -
  obtain nx ny i1 where n: "inj_normalize x y i = ((nx, ny), i1)" by (metis prod.exhaust)
  let ?e = "[INPUT_MOUSE nx ny [MOUSEEVENTF_MOVE, MOUSEEVENTF_ABSOLUTE, MOUSEEVENTF_VIRTUALDESK]]"
  have i1: "i_world i1 = i_world i" "i_held i1 = i_held i" "i_held_keys i1 = i_held_keys i" "i_held_mods i1 = i_held_mods i"
    using inj_normalize_fields [of x y i] n by simp_all
  have eq: "snd (inj_move_to os x y i) = snd (send_input os ?e i1)"
    by (simp add: inj_move_to_def inj_emit_def n split: prod.split)
  have "desktop (i_world (snd (send_input os ?e i1))) = desktop (i_world i)"
    using send_input_faithful [OF f, of i1 ?e] i1 by (auto split: if_splits)
  then show ?thesis using t i1 unfolding eq by (simp add: tracked_def inj_inv_def held_buttons_def)
qed

lemma tracked_button:
  assumes f: "faithful_os os desktop blocked" and t: "tracked os desktop i" and b: "b \<in> {Button_Left, Button_Right, Button_Middle}"
  shows "tracked os desktop (snd (inj_button os b d x y i))"
proof -
  obtain nx ny i1 where n: "inj_normalize x y i = ((nx, ny), i1)" by (metis prod.exhaust)
  let ?e = "[INPUT_MOUSE nx ny ([MOUSEEVENTF_MOVE, MOUSEEVENTF_ABSOLUTE, MOUSEEVENTF_VIRTUALDESK] @ button_flag b d)]"
  obtain m i2 where s: "send_input os ?e i1 = (m, i2)" by fastforce
  have i1: "i_world i1 = i_world i" "i_held i1 = i_held i" "i_held_keys i1 = i_held_keys i" "i_held_mods i1 = i_held_mods i"
    using inj_normalize_fields [of x y i] n by simp_all
  have i2: "i_held i2 = i_held i" "i_held_keys i2 = i_held_keys i" "i_held_mods i2 = i_held_mods i"
    using send_input_fields [of os ?e i1] i1 unfolding s by simp_all
  have fl: "fold flag_effect (button_flag b d) B = (if d then insert (button_index b) B else B - {button_index b})" for B
    using b by (auto simp: button_flag_def button_index_def)
  have btn: "d_buttons (apply_event (hd ?e) D) =
      (if d then insert (button_index b) (d_buttons D) else d_buttons D - {button_index b})"
    "d_keys (apply_event (hd ?e) D) = d_keys D" for D
    by (simp_all add: fl)
  have eq: "snd (inj_button os b d x y i) =
      (if m = 1 then i2\<lparr>i_held := (i_held i2)[button_index b := d]\<rparr> else i2)"
    using n s by (simp add: inj_button_def inj_emit_def)
  have len: "length (i_held i) = 3" using t by (simp add: tracked_def inj_inv_def)
  show ?thesis
  proof (cases "blocked (i_world i)")
    case True
    then have "m = 0" "desktop (i_world i2) = desktop (i_world i)"
      using send_input_faithful [OF f, of i1 ?e] s i1 by auto
    then show ?thesis using t i2 unfolding eq by (simp add: tracked_def inj_inv_def held_buttons_def)
  next
    case False
    then have "m = 1" "desktop (i_world i2) = apply_event (hd ?e) (desktop (i_world i))"
      using send_input_faithful [OF f, of i1 ?e] s i1 by auto
    then show ?thesis using t i2 len btn [of "desktop (i_world i)"] unfolding eq
      by (auto simp: tracked_def inj_inv_def held_buttons_def nth_list_update simp del: apply_event.simps)
  qed
qed

lemma tracked_key:
  assumes f: "faithful_os os desktop blocked" and t: "tracked os desktop i"
  shows "tracked os desktop (snd (inj_key os k i))"
proof (cases "key_name_to_code (w_code os) (k_key k)")
  case None
  then show ?thesis using t by (simp add: inj_key_def)
next
  case (Some v)
  obtain m i1 where s: "send_input os (key_batch os k v) i = (m, i1)" by fastforce
  have i1: "i_held i1 = i_held i" "i_held_keys i1 = i_held_keys i" "i_held_mods i1 = i_held_mods i"
    using send_input_fields [of os "key_batch os k v" i] s by simp_all
  show ?thesis
  proof (cases "blocked (i_world i)")
    case True
    then have "m = 0" "desktop (i_world i1) = desktop (i_world i)"
      using send_input_faithful [OF f, of i "key_batch os k v"] s by auto
    then show ?thesis using t i1 Some s key_batch_nonempty [of os k v]
      by (simp add: inj_key_def tracked_def inj_inv_def held_buttons_def)
  next
    case False
    let ?M = "w_code os ` set (modifier_vks (k_modifiers k))"
    have m: "m = length (key_batch os k v)" and
      d: "desktop (i_world i1) = fold apply_event (key_batch os k v) (desktop (i_world i))"
      using False send_input_faithful [OF f, of i "key_batch os k v"] s by auto
    have K: "d_keys (desktop (i_world i)) \<subseteq> set (i_held_keys i) \<union> w_code os ` set (modifier_vks (i_held_mods i))"
      using t by (simp add: tracked_def)
    have img: "w_code os ` set (modifier_vks (i_held_mods i)) - ?M \<subseteq>
        w_code os ` set (modifier_vks (i_held_mods i AND NOT (k_modifiers k)))"
      using modifier_vks_clear [of "i_held_mods i" "k_modifiers k"] by blast
    have up: "d_keys (desktop (i_world i)) - {v} - ?M \<subseteq> set (filter (\<lambda>x. x \<noteq> v) (i_held_keys i)) \<union>
        w_code os ` set (modifier_vks (i_held_mods i AND NOT (k_modifiers k)))"
      unfolding set_filter using K img by blast
    have press: "d_keys (desktop (i_world i)) - {v} - ?M \<subseteq> set (filter (\<lambda>x. x \<noteq> v) (i_held_keys i)) \<union>
        w_code os ` set (modifier_vks (i_held_mods i))"
      using K by auto
    have down: "insert v (d_keys (desktop (i_world i)) \<union> ?M) \<subseteq> set (i_held_keys i @ [v]) \<union>
        w_code os ` set (modifier_vks (i_held_mods i OR k_modifiers k))"
      using K by (auto simp: modifier_vks_or)
    show ?thesis
      using t i1 Some s m d up press down
      by (simp add: inj_key_def tracked_def inj_inv_def held_buttons_def key_batch_desk [OF refl])
  qed
qed

lemma fold_send_faithful:
  assumes f: "faithful_os os desktop blocked"
  shows "\<not> blocked (i_world i) \<Longrightarrow>
    \<not> blocked (i_world (fold (\<lambda>e j. snd (send_input os [e] j)) es i)) \<and>
    desktop (i_world (fold (\<lambda>e j. snd (send_input os [e] j)) es i)) = fold apply_event es (desktop (i_world i))"
proof (induction es arbitrary: i)
  case (Cons e es)
  from send_input_faithful [OF f, of i "[e]"] Cons.prems Cons.IH [of "snd (send_input os [e] i)"]
  show ?case by simp
qed simp

lemma release_events_desk:
  assumes t: "tracked os desktop i"
  shows "fold apply_event (release_events os i) (desktop (i_world i)) =
    (desktop (i_world i))\<lparr>d_keys := {}, d_buttons := {}\<rparr>"
proof -
  obtain a b c where h: "i_held i = [a, b, c]"
    using t by (auto simp: tracked_def inj_inv_def length_Suc_conv numeral_3_eq_3)
  let ?D = "desktop (i_world i)"
  have B: "d_buttons ?D \<subseteq> {n. n < 3 \<and> [a, b, c] ! n}" and
    K: "d_keys ?D - set (i_held_keys i) - w_code os ` set (modifier_vks (i_held_mods i)) = {}"
    using t h by (auto simp: tracked_def held_buttons_def)
  have mods: "map (\<lambda>m. key_input (w_code os) (w_code os m) False) (rev (modifier_vks (i_held_mods i))) =
      map (\<lambda>m. key_input (w_code os) m False) (map (w_code os) (rev (modifier_vks (i_held_mods i))))"
    by simp
  have "d_buttons ?D - (if a then {0} else {}) - (if b then {1} else {}) - (if c then {2} else {}) = {}"
    using B by (auto simp: nth_Cons' split: if_splits)
  then show ?thesis
    unfolding release_events_def h mods fold_append comp_apply key_events
    using K by (auto simp: button_flag_def)
qed

lemma release_all_desk:
  assumes "faithful_os os desktop blocked" and "tracked os desktop i" and "\<not> blocked (i_world i)"
  shows "d_keys (desktop (i_world (inj_release_all os i))) = {}"
    "d_buttons (desktop (i_world (inj_release_all os i))) = {}"
  using fold_send_faithful [OF assms(1,3), of "release_events os i"] release_events_desk [OF assms(2)]
  by (simp_all add: inj_release_all_def)

section \<open>Counting refusals\<close>

text \<open>
  An injector beside a counter of the button calls it refused since the last \<open>release_all\<close>. It
  behaves as the injector does; the counter is there for statements about runs.
\<close>

definition logged :: "'i injector_ops \<Rightarrow> ('i \<times> nat) injector_ops" where
  "logged ops =
     \<lparr>io_move_to = (\<lambda>x y (i, n). let (ok, i') = io_move_to ops x y i in (ok, i', n)),
      io_button = (\<lambda>b d x y (i, n). let (ok, i') = io_button ops b d x y i in (ok, i', if ok then n else n + 1)),
      io_key = (\<lambda>k (i, n). let (ok, i') = io_key ops k i in (ok, i', n)),
      io_release_all = (\<lambda>(i, n). (io_release_all ops i, 0)),
      io_cursor_pos = (\<lambda>(i, n). io_cursor_pos ops i)\<rparr>"

lemma logged_sel [simp]:
  "io_move_to (logged ops) x y s = (fst (io_move_to ops x y (fst s)), snd (io_move_to ops x y (fst s)), snd s)"
  "io_button (logged ops) b d x y s = (fst (io_button ops b d x y (fst s)), snd (io_button ops b d x y (fst s)),
     if fst (io_button ops b d x y (fst s)) then snd s else snd s + 1)"
  "io_key (logged ops) k s = (fst (io_key ops k (fst s)), snd (io_key ops k (fst s)), snd s)"
  "io_release_all (logged ops) s = (io_release_all ops (fst s), 0)"
  "io_cursor_pos (logged ops) s = io_cursor_pos ops (fst s)"
  by (simp_all add: logged_def case_prod_beta Let_def)

interpretation win32w: watched_injector "logged (win32_ops os)" "\<lambda>s. held_buttons (fst s)" "\<lambda>s. inj_inv (fst s)" "\<lambda>s. snd s = 0"
  for os
  by unfold_locales
    (auto simp: win32.move_inv win32.move_held win32.button_inv win32.button_ok win32.button_fail win32.key_inv win32.key_held
      win32.release_inv win32.release_held split: if_splits)

section \<open>Properties\<close>

text \<open>
  the cursor lands on the pixel asked for. For every desktop up to 65536 pixels across,
  converting a pixel to the normalised coordinate and back the way Windows does gives the same
  pixel, and the normalised value is in range.
\<close>

theorem absolute_coord_roundtrip:
  assumes "0 \<le> p" and "p < extent" and "extent \<le> 65536"
  shows "normalized_to_pixel (pixel_to_normalized p extent) extent = p \<and>
    0 \<le> pixel_to_normalized p extent \<and> pixel_to_normalized p extent \<le> kNormalizedMax"
proof -
  have "0 < extent" using assms by simp
  then show ?thesis
    using normalized_inverse [of extent p] normalized_range [of extent p] assms
    by (simp add: kNormalizedMax_def)
qed

theorem absolute_coord_roundtrip_witness:
  "normalized_to_pixel (pixel_to_normalized 1919 1920) 1920 = 1919"
  using absolute_coord_roundtrip [of 1919 1920] by simp

text \<open>
  nothing stays stuck on the user's desktop. As long as \<open>SendInput\<close> behaves as documented, the
  injector's record covers every key, modifier and button that is down on the desktop, through
  any moves, button changes and key messages, failed ones included; and \<open>release_all\<close>,
  unless the input is blocked at that moment, leaves no key and no button down.
\<close>

theorem injector_never_sticks:
  assumes "faithful_os os desktop blocked"
  shows "(tracked os desktop i \<longrightarrow>
      tracked os desktop (snd (inj_move_to os x y i)) \<and>
      (b \<in> {Button_Left, Button_Right, Button_Middle} \<longrightarrow> tracked os desktop (snd (inj_button os b d x y i))) \<and>
      tracked os desktop (snd (inj_key os k i)) \<and>
      (\<not> blocked (i_world i) \<longrightarrow>
         d_keys (desktop (i_world (inj_release_all os i))) = {} \<and>
         d_buttons (desktop (i_world (inj_release_all os i))) = {}))"
  by (intro impI conjI)
    (rule tracked_move [OF assms] tracked_button [OF assms] tracked_key [OF assms] release_all_desk [OF assms];
      assumption)+

text \<open>A desktop that behaves as documented and is never blocked.\<close>

definition sim_os :: "desk win32" where
  "sim_os = \<lparr>w_code = (\<lambda>_. 17), w_SendInput = (\<lambda>es w. (length es, fold apply_event es w)),
     w_GetCursorPos = (\<lambda>_. Some (0, 0))\<rparr>"

lemma sim_os_faithful: "faithful_os sim_os id (\<lambda>_. False)"
  by (simp add: faithful_os_def sim_os_def)

theorem injector_never_sticks_witness:
  "d_keys (i_world (inj_release_all sim_os (injector_init \<lparr>d_keys = {}, d_buttons = {}\<rparr>))) = {}"
proof -
  have "tracked sim_os id (injector_init \<lparr>d_keys = {}, d_buttons = {}\<rparr>)"
    by (simp add: tracked_def injector_init_def inj_inv_def)
  with injector_never_sticks [OF sim_os_faithful, of "injector_init \<lparr>d_keys = {}, d_buttons = {}\<rparr>" 0 0 Button_Left True ex_Key]
  show ?thesis unfolding id_apply by blast
qed

text \<open>
  a key press leaves nothing behind: the batch of a KEY message that is neither a bare DOWN nor
  a bare UP presses modifiers and key and releases exactly these in the reverse order.
\<close>

theorem key_press_balanced:
  assumes "k_action k \<noteq> Key_Down" and "k_action k \<noteq> Key_Up"
  shows "\<exists>vs. key_batch os k v =
    map (\<lambda>m. key_input (w_code os) m True) vs @ map (\<lambda>m. key_input (w_code os) m False) (rev vs)"
  using assms
  by (intro exI [of _ "map (w_code os) (modifier_vks (k_modifiers k)) @ [v]"])
    (simp add: key_batch_def Let_def rev_map)

theorem key_press_balanced_witness:
  "\<exists>vs. key_batch sim_os ex_Key 65 =
    map (\<lambda>m. key_input (w_code sim_os) m True) vs @ map (\<lambda>m. key_input (w_code sim_os) m False) (rev vs)"
  using key_press_balanced [of ex_Key sim_os 65] by (simp add: ex_Key_def)

end
