(* ===== verification/SplineSmoother.thy ===== *)
theory SplineSmoother
  imports Geometry
begin

text \<open>
  The Catmull-Rom smoother of \<open>host/src/input/SplineSmoother.hpp\<close> and \<open>SplineSmoother.cpp\<close>: a
  window of four samples; each new sample draws the span between the middle two. \<open>double\<close> is
  modelled by \<open>real\<close>, \<open>std::pow\<close> of a distance by \<open>powr\<close> with \<open>pow(0, 0) = 1\<close>. What the
  smoother hands to \<open>emit\<close> is the list it returns.

  Shown here: a span is drawn with 1 to 64 points, the last of which is exactly the sample it
  leads to, so that a stroke passes through every sample and ends where the finger lifted.
\<close>

section \<open>Definitions\<close>

definition kMaxSubdivisions :: int where "kMaxSubdivisions = 64"

definition distance :: "Vec2 \<Rightarrow> Vec2 \<Rightarrow> real" where
  "distance a b = sqrt ((v_x b - v_x a) * (v_x b - v_x a) + (v_y b - v_y a) * (v_y b - v_y a))"

definition cpow :: "real \<Rightarrow> real \<Rightarrow> real" where
  "cpow x a = (if a = 0 then 1 else x powr a)"

record smoother =
  sm_enabled :: bool
  sm_step_px :: real
  sm_alpha :: real
  sm_points :: "Vec2 list"
  sm_count :: nat

definition smoother_init :: smoother where
  "smoother_init = \<lparr>sm_enabled = False, sm_step_px = 3, sm_alpha = 1 / 2,
     sm_points = replicate 4 (vec2 0 0), sm_count = 0\<rparr>"

definition sm_set_enabled :: "bool \<Rightarrow> smoother \<Rightarrow> smoother" where
  "sm_set_enabled on s = s\<lparr>sm_enabled := on\<rparr>"

definition set_step_px :: "real \<Rightarrow> smoother \<Rightarrow> smoother" where
  "set_step_px px s = s\<lparr>sm_step_px := if px > 0.25 then px else 0.25\<rparr>"

definition set_alpha :: "real \<Rightarrow> smoother \<Rightarrow> smoother" where
  "set_alpha a s = s\<lparr>sm_alpha := a\<rparr>"

definition sm_begin :: "Vec2 \<Rightarrow> smoother \<Rightarrow> smoother" where
  "sm_begin p s = s\<lparr>sm_points := (sm_points s)[0 := p, 1 := p], sm_count := 2\<rparr>"

definition sm_push :: "Vec2 \<Rightarrow> smoother \<Rightarrow> smoother" where
  "sm_push p s =
     (if sm_count s < length (sm_points s)
      then s\<lparr>sm_points := (sm_points s)[sm_count s := p], sm_count := sm_count s + 1\<rparr>
      else s\<lparr>sm_points := [sm_points s ! 1, sm_points s ! 2, sm_points s ! 3, p]\<rparr>)"

definition sm_reset :: "smoother \<Rightarrow> smoother" where
  "sm_reset s = s\<lparr>sm_count := 0\<rparr>"

definition sm_steps :: "smoother \<Rightarrow> real \<Rightarrow> int" where
  "sm_steps s chord = clamp \<lceil>chord / sm_step_px s\<rceil> 1 kMaxSubdivisions"

definition lerp :: "real \<Rightarrow> real \<Rightarrow> real \<Rightarrow> Vec2 \<Rightarrow> Vec2 \<Rightarrow> Vec2" where
  "lerp ta tb t a b =
     v_add (v_scale a ((tb - t) / (tb - ta))) (v_scale b ((t - ta) / (tb - ta)))"

text \<open>The barycentric pyramid of one point of the curve, x and y in one.\<close>

definition catmull_rom :: "real \<Rightarrow> real \<Rightarrow> real \<Rightarrow> real \<Rightarrow> Vec2 \<Rightarrow> Vec2 \<Rightarrow> Vec2 \<Rightarrow> Vec2 \<Rightarrow> real \<Rightarrow> Vec2" where
  "catmull_rom t0 t1 t2 t3 p0 p1 p2 p3 t =
     (let a1 = lerp t0 t1 t p0 p1; a2 = lerp t1 t2 t p1 p2; a3 = lerp t2 t3 t p2 p3;
          b1 = lerp t0 t2 t a1 a2; b2 = lerp t1 t3 t a2 a3 in
      lerp t1 t2 t b1 b2)"

definition emit_segment :: "smoother \<Rightarrow> Vec2 list" where
  "emit_segment s =
     (let p0 = sm_points s ! 0; p1 = sm_points s ! 1; p2 = sm_points s ! 2; p3 = sm_points s ! 3;
          chord = distance p1 p2 in
      if chord \<le> 1 / 10 ^ 9 then []
      else
        let t0 = 0; t1 = t0 + cpow (distance p0 p1) (sm_alpha s); t2 = t1 + cpow chord (sm_alpha s);
            t3 = t2 + cpow (distance p2 p3) (sm_alpha s); steps = sm_steps s chord in
        if t1 - t0 \<le> 1 / 10 ^ 9 \<or> t2 - t1 \<le> 1 / 10 ^ 9 \<or> t3 - t2 \<le> 1 / 10 ^ 9
        then map (\<lambda>i. v_add p1 (v_scale (v_sub p2 p1) (of_int i / of_int steps))) [1..steps]
        else map (\<lambda>i. catmull_rom t0 t1 t2 t3 p0 p1 p2 p3 (t1 + (t2 - t1) * (of_int i / of_int steps))) [1..steps])"

definition sm_add :: "Vec2 \<Rightarrow> smoother \<Rightarrow> Vec2 list \<times> smoother" where
  "sm_add p s =
     (if \<not> sm_enabled s then ([p], s)
      else if sm_count s = 0 then ([p], sm_begin p s)
      else
        let s' = sm_push p s in
        (if sm_count s' = length (sm_points s') then emit_segment s' else [], s'))"

text \<open>The padding loop of \<open>finish\<close>.\<close>

function sm_pad :: "smoother \<Rightarrow> Vec2 list \<times> smoother" where
  "sm_pad s =
     (if sm_count s < length (sm_points s) then
        let s' = sm_push (sm_points s ! (sm_count s - 1)) s;
            out = if sm_count s' = length (sm_points s') then emit_segment s' else [];
            (rest, s'') = sm_pad s' in
        (out @ rest, s'')
      else ([], s))"
  by pat_completeness auto
termination
  by (relation "measure (\<lambda>s. length (sm_points s) - sm_count s)") (auto simp: sm_push_def)

declare sm_pad.simps [simp del]

definition sm_finish :: "smoother \<Rightarrow> Vec2 list \<times> smoother" where
  "sm_finish s =
     (if \<not> sm_enabled s \<or> sm_count s = 0 then ([], sm_reset s)
      else
        let (out, s1) = sm_pad s; s2 = sm_push (sm_points s1 ! 3) s1 in
        (out @ emit_segment s2, sm_reset s2))"

text \<open>One stroke as the pipeline drives it: the press, the samples, the release.\<close>

fun sm_adds :: "Vec2 list \<Rightarrow> smoother \<Rightarrow> Vec2 list list \<times> smoother" where
  "sm_adds [] s = ([], s)"
| "sm_adds (p # ps) s = (let (out, s1) = sm_add p s; (outs, s2) = sm_adds ps s1 in (out # outs, s2))"

definition smooth_stroke :: "Vec2 \<Rightarrow> Vec2 list \<Rightarrow> smoother \<Rightarrow> Vec2 list \<times> smoother" where
  "smooth_stroke p ps s =
     (let (outs, s1) = sm_adds ps (sm_begin p s); (out, s2) = sm_finish s1 in (concat outs @ out, s2))"

section \<open>One segment\<close>

lemma sm_steps_bounds: "1 \<le> sm_steps s chord" "sm_steps s chord \<le> 64"
  by (simp_all add: sm_steps_def kMaxSubdivisions_def)

lemma lerp_end: "ta \<noteq> tb \<Longrightarrow> lerp ta tb tb a b = b"
  by (simp add: lerp_def vec2_defs)

lemma catmull_rom_end:
  assumes "t0 < t1" "t1 < t2" "t2 < t3"
  shows "catmull_rom t0 t1 t2 t3 p0 p1 p2 p3 t2 = p2"
proof -
  have "lerp t2 t3 t2 p2 p3 = p2" using assms by (simp add: lerp_def vec2_defs)
  moreover have "lerp t1 t3 t2 p2 p2 = p2"
    using assms by (simp add: lerp_def vec2_defs add_divide_distrib [symmetric] distrib_left [symmetric])
  ultimately show ?thesis using assms by (simp add: catmull_rom_def lerp_end Let_def)
qed

lemma last_upto_map: "1 \<le> n \<Longrightarrow> last (map f [1..n]) = f (n :: int)"
  by (subst upto_rec2) auto

lemma emit_segment_empty: "distance (sm_points s ! 1) (sm_points s ! 2) \<le> 1 / 10 ^ 9 \<Longrightarrow> emit_segment s = []"
  by (simp add: emit_segment_def)

lemma emit_segment_spec:
  assumes "1 / 10 ^ 9 < distance (sm_points s ! 1) (sm_points s ! 2)"
  shows "emit_segment s \<noteq> []" "length (emit_segment s) \<le> 64" "last (emit_segment s) = sm_points s ! 2"
proof -
  let ?p0 = "sm_points s ! 0" and ?p1 = "sm_points s ! 1" and ?p2 = "sm_points s ! 2" and ?p3 = "sm_points s ! 3"
  let ?n = "sm_steps s (distance ?p1 ?p2)"
  let ?t1 = "cpow (distance ?p0 ?p1) (sm_alpha s)"
  let ?t2 = "?t1 + cpow (distance ?p1 ?p2) (sm_alpha s)"
  let ?t3 = "?t2 + cpow (distance ?p2 ?p3) (sm_alpha s)"
  note n = sm_steps_bounds [of s "distance ?p1 ?p2"]
  obtain f where f: "emit_segment s = map f [1..?n]" "f ?n = ?p2"
  proof (cases "?t1 \<le> 1 / 10 ^ 9 \<or> ?t2 - ?t1 \<le> 1 / 10 ^ 9 \<or> ?t3 - ?t2 \<le> 1 / 10 ^ 9")
    case True
    then have "emit_segment s = map (\<lambda>i. v_add ?p1 (v_scale (v_sub ?p2 ?p1) (of_int i / of_int ?n))) [1..?n]"
      using assms by (simp add: emit_segment_def Let_def)
    moreover have "v_add ?p1 (v_scale (v_sub ?p2 ?p1) (of_int ?n / of_int ?n)) = ?p2"
      using n by (simp add: vec2_defs)
    ultimately show thesis by (rule that)
  next
    case False
    then have t: "0 < ?t1" "?t1 < ?t2" "?t2 < ?t3" by (auto simp: not_le intro: less_trans [rotated])
    have "emit_segment s = map (\<lambda>i. catmull_rom 0 ?t1 ?t2 ?t3 ?p0 ?p1 ?p2 ?p3
        (?t1 + (?t2 - ?t1) * (of_int i / of_int ?n))) [1..?n]"
      using assms False by (simp add: emit_segment_def Let_def)
    moreover have "catmull_rom 0 ?t1 ?t2 ?t3 ?p0 ?p1 ?p2 ?p3 (?t1 + (?t2 - ?t1) * (of_int ?n / of_int ?n)) = ?p2"
      using n catmull_rom_end [OF t] by simp
    ultimately show thesis by (rule that)
  qed
  show "emit_segment s \<noteq> []" "length (emit_segment s) \<le> 64" "last (emit_segment s) = ?p2"
    using f n last_upto_map [OF n(1), of f] by simp_all
qed

section \<open>A whole stroke\<close>

text \<open>
  What is drawn between two consecutive samples: nothing when they coincide (within the threshold
  of \<open>emit_segment\<close>), and otherwise 1 to 64 points, the last of which is the second sample.
\<close>

definition span_ok :: "Vec2 \<Rightarrow> Vec2 \<Rightarrow> Vec2 list \<Rightarrow> bool" where
  "span_ok a b g \<longleftrightarrow> (if distance a b \<le> 1 / 10 ^ 9 then g = [] else g \<noteq> [] \<and> length g \<le> 64 \<and> last g = b)"

fun spans_ok :: "Vec2 \<Rightarrow> Vec2 list \<Rightarrow> Vec2 list list \<Rightarrow> bool" where
  "spans_ok a (b # bs) (g # gs) \<longleftrightarrow> span_ok a b g \<and> spans_ok b bs gs"
| "spans_ok a [] [] \<longleftrightarrow> True"
| "spans_ok a _ _ \<longleftrightarrow> False"

text \<open>Samples that repeat do so exactly; a movement is larger than the threshold.\<close>

fun clear_cut :: "Vec2 list \<Rightarrow> bool" where
  "clear_cut (a # b # ps) \<longleftrightarrow> (distance a b \<le> 1 / 10 ^ 9 \<longrightarrow> a = b) \<and> clear_cut (b # ps)"
| "clear_cut _ \<longleftrightarrow> True"

lemma sm_push_full:
  "sm_count s = 4 \<Longrightarrow> sm_points s = [a, b, c, d] \<Longrightarrow> sm_push p s = s\<lparr>sm_points := [b, c, d, p]\<rparr>"
  by (simp add: sm_push_def)

lemma segment_full: "sm_points s = [b, c, d, p] \<Longrightarrow> span_ok c d (emit_segment s)"
  using emit_segment_spec [of s] emit_segment_empty [of s] by (auto simp: span_ok_def not_le)

lemma stroke_full:
  "sm_enabled s \<Longrightarrow> sm_count s = 4 \<Longrightarrow> sm_points s = [a, b, c, d] \<Longrightarrow>
   sm_adds ps s = (outs, s1) \<Longrightarrow> sm_finish s1 = (out, s2) \<Longrightarrow>
   spans_ok c (d # ps) (outs @ [out]) \<and> sm_count s2 = 0"
proof (induction ps arbitrary: s a b c d outs)
  case Nil
  have "sm_pad s = ([], s)" using Nil.prems(2,3) by (subst sm_pad.simps) simp
  then have "out = emit_segment (s\<lparr>sm_points := [b, c, d, d]\<rparr>)" "sm_count s2 = 0" "outs = []"
    using Nil by (auto simp: sm_finish_def sm_push_full sm_reset_def Let_def)
  then show ?case using segment_full [of "s\<lparr>sm_points := [b, c, d, d]\<rparr>" b c d d] by simp
next
  case (Cons p ps)
  let ?s = "s\<lparr>sm_points := [b, c, d, p]\<rparr>"
  have add: "sm_add p s = (emit_segment ?s, ?s)"
    using Cons.prems by (simp add: sm_add_def sm_push_full Let_def)
  obtain outs' where o: "sm_adds ps ?s = (outs', s1)" "outs = emit_segment ?s # outs'"
    using Cons.prems(4) add by (auto split: prod.splits)
  have "spans_ok d (p # ps) (outs' @ [out]) \<and> sm_count s2 = 0"
    by (rule Cons.IH [of ?s b c d p]) (use Cons.prems o in auto)
  then show ?case using segment_full [of ?s b c d p] o by simp
qed

text \<open>A window that is not full yet is padded by \<open>finish\<close>; the padding draws nothing of its own.\<close>

lemma finish_short:
  assumes "sm_enabled s" "sm_points s = [p, p, q, z]" "sm_count s = 3"
  shows "sm_finish s = (emit_segment (s\<lparr>sm_points := [p, p, q, q], sm_count := 4\<rparr>),
    s\<lparr>sm_points := [p, q, q, q], sm_count := 0\<rparr>)"
proof -
  let ?s4 = "s\<lparr>sm_points := [p, p, q, q], sm_count := 4\<rparr>" and ?s5 = "s\<lparr>sm_count := 4, sm_points := [p, q, q, q]\<rparr>"
  have "sm_pad ?s4 = ([], ?s4)" by (subst sm_pad.simps) simp
  then have pad: "sm_pad s = (emit_segment ?s4, ?s4)"
    using assms by (subst sm_pad.simps) (simp add: sm_push_def Let_def)
  have "emit_segment ?s5 = []" by (rule emit_segment_empty) (simp add: distance_def)
  then show ?thesis using assms pad by (simp add: sm_finish_def sm_push_def sm_reset_def Let_def)
qed

lemma finish_still:
  assumes "sm_enabled s" "sm_points s = [p, p, y, z]" "sm_count s = 2"
  shows "fst (sm_finish s) = [] \<and> sm_count (snd (sm_finish s)) = 0"
proof -
  let ?s3 = "s\<lparr>sm_points := [p, p, p, z], sm_count := 3\<rparr>"
  have "sm_pad s = sm_pad ?s3"
    using assms by (subst sm_pad.simps) (simp add: sm_push_def Let_def split: prod.split)
  then have "sm_finish s = sm_finish ?s3" using assms by (simp add: sm_finish_def)
  then show ?thesis using finish_short [of ?s3 p p z] assms
    by (simp add: emit_segment_empty distance_def)
qed

lemma stroke_segments:
  assumes en: "sm_enabled s" and len: "length (sm_points s) = 4"
  shows "\<exists>segs. fst (smooth_stroke p ps s) = concat segs \<and> spans_ok p ps segs \<and> sm_count (snd (smooth_stroke p ps s)) = 0"
proof -
  obtain w x y z where pts: "sm_points s = [w, x, y, z]"
    using len by (auto simp: length_Suc_conv numeral_eq_Suc)
  let ?s2 = "s\<lparr>sm_points := [p, p, y, z], sm_count := 2\<rparr>"
  have b: "sm_begin p s = ?s2" using pts by (simp add: sm_begin_def)
  consider "ps = []" | q where "ps = [q]" | q r rs where "ps = q # r # rs" by (metis list.exhaust)
  then show ?thesis
  proof cases
    case 1
    then show ?thesis using finish_still [of ?s2 p y z] en
      by (intro exI [of _ "[]"]) (simp add: smooth_stroke_def b split: prod.split)
  next
    case (2 q)
    let ?s3 = "s\<lparr>sm_points := [p, p, q, z], sm_count := 3\<rparr>" and ?s4 = "s\<lparr>sm_points := [p, p, q, q], sm_count := 4\<rparr>"
    have "sm_add q ?s2 = ([], ?s3)" using en by (simp add: sm_add_def sm_push_def Let_def)
    then have "smooth_stroke p ps s = (emit_segment ?s4, s\<lparr>sm_points := [p, q, q, q], sm_count := 0\<rparr>)"
      using 2 en finish_short [of ?s3 p q z] by (simp add: smooth_stroke_def b)
    then show ?thesis using segment_full [of ?s4 p p q q] 2 by (intro exI [of _ "[emit_segment ?s4]"]) simp
  next
    case (3 q r rs)
    let ?s3 = "s\<lparr>sm_points := [p, p, q, z], sm_count := 3\<rparr>" and ?s4 = "s\<lparr>sm_points := [p, p, q, r], sm_count := 4\<rparr>"
    have a: "sm_add q ?s2 = ([], ?s3)" "sm_add r ?s3 = (emit_segment ?s4, ?s4)"
      using en by (simp_all add: sm_add_def sm_push_def Let_def)
    obtain outs s1 where o: "sm_adds rs ?s4 = (outs, s1)" by fastforce
    obtain out s2 where f: "sm_finish s1 = (out, s2)" by fastforce
    have full: "spans_ok q (r # rs) (outs @ [out]) \<and> sm_count s2 = 0"
      by (rule stroke_full [OF _ _ _ o f, of p p q]) (use en in auto)
    have "smooth_stroke p ps s = (emit_segment ?s4 @ concat outs @ out, s2)"
      using 3 a o f by (simp add: smooth_stroke_def b)
    then show ?thesis using segment_full [of ?s4 p p q r] 3 full
      by (intro exI [of _ "emit_segment ?s4 # outs @ [out]"]) simp
  qed
qed

lemma spans_end: "spans_ok a bs gs \<Longrightarrow> clear_cut (a # bs) \<Longrightarrow> last (a # concat gs) = last (a # bs)"
proof (induction a bs gs rule: spans_ok.induct)
  case (1 a b bs g gs)
  then have "last (b # concat gs) = last (b # bs)" "g = [] \<longrightarrow> a = b" "g \<noteq> [] \<longrightarrow> last g = b"
    by (auto simp: span_ok_def split: if_splits)
  then show ?case by (auto simp: last_append split: if_splits)
qed auto

section \<open>Properties\<close>

text \<open>
  C32: the smoothed stroke goes through the samples. For every stroke, what the smoother emits is one
  run of points per sample after the first: an empty run when the finger did not move (the sample is
  within 1e-9 of the one before), and otherwise 1 to 64 points that end exactly on the sample. A
  stroke without any movement emits nothing. When samples that repeat do so exactly, the path ends
  exactly where the finger lifted. Afterwards the window is empty.
\<close>

theorem smooth_stroke_hits_samples:
  assumes "sm_enabled s" and "length (sm_points s) = 4"
  shows "\<exists>segs. fst (smooth_stroke p ps s) = concat segs \<and> spans_ok p ps segs \<and>
    (clear_cut (p # ps) \<longrightarrow> last (p # fst (smooth_stroke p ps s)) = last (p # ps)) \<and>
    sm_count (snd (smooth_stroke p ps s)) = 0"
  using stroke_segments [OF assms, of p ps] spans_end by metis

theorem smooth_stroke_hits_samples_witness:
  "last (fst (smooth_stroke (vec2 0 0) [vec2 0 0, vec2 3 4, vec2 3 4, vec2 6 8] (sm_set_enabled True smoother_init))) = vec2 6 8"
proof -
  let ?s = "sm_set_enabled True smoother_init" and ?ps = "[vec2 0 0, vec2 3 4, vec2 3 4, vec2 6 8]"
  have c: "clear_cut (vec2 0 0 # ?ps)" by (simp add: distance_def)
  have "sm_enabled ?s" "length (sm_points ?s) = 4" by (simp_all add: sm_set_enabled_def smoother_init_def)
  from smooth_stroke_hits_samples [OF this, of "vec2 0 0" ?ps] c
  have "last (vec2 0 0 # fst (smooth_stroke (vec2 0 0) ?ps ?s)) = vec2 6 8" by force
  moreover have "vec2 0 0 \<noteq> vec2 6 8" by (simp add: vec2_def)
  ultimately show ?thesis by (metis last.simps)
qed

end
