(* ===== verification/PointerPipeline.thy ===== *)
theory PointerPipeline
  imports InputInjector SplineSmoother
begin

text \<open>
  The pointer pipeline of \<open>host/src/input/PointerPipeline.hpp\<close> and \<open>PointerPipeline.cpp\<close>: POINTER and
  KEY messages in, calls of the injector interface out. The pipeline's own state and the injector
  behind it are threaded as a pair. The two callbacks are arguments: \<open>on_screen\<close> is the screen
  test, if one is set; \<open>window\<close> is what \<open>window_bounds_\<close> answers at that moment, \<open>None\<close> when there
  is no callback or it returns false. Coordinates of \<open>double\<close> type are reals.

  The lemmas are proved once for any injector that keeps the contract of the interface, and hold
  for the Windows injector by its interpretation.
\<close>

section \<open>Definitions\<close>

record pipeline_stats =
  st_received :: u64
  st_injected :: u64
  st_dropped_disabled :: u64
  st_protocol_errors :: u64
  st_inject_failures :: u64
  st_dropped_off_screen :: u64
  st_relative_events :: u64
  st_smoothed_points :: u64
  st_keys_sent :: u64
  st_keys_unknown :: u64
  st_dropped_no_window :: u64

definition stats_init :: pipeline_stats where
  "stats_init = \<lparr>st_received = 0, st_injected = 0, st_dropped_disabled = 0, st_protocol_errors = 0,
     st_inject_failures = 0, st_dropped_off_screen = 0, st_relative_events = 0, st_smoothed_points = 0,
     st_keys_sent = 0, st_keys_unknown = 0, st_dropped_no_window = 0\<rparr>"

record pipeline =
  pp_smoother :: smoother
  pp_rel_x :: real
  pp_rel_y :: real
  pp_rel_seeded :: bool
  pp_enabled :: bool
  pp_down :: bool
  pp_held :: MouseButton
  pp_last_x :: int
  pp_last_y :: int
  pp_stats :: pipeline_stats

definition pipeline_init :: pipeline where
  "pipeline_init = \<lparr>pp_smoother = smoother_init, pp_rel_x = 0, pp_rel_y = 0, pp_rel_seeded = False,
     pp_enabled = False, pp_down = False, pp_held = Button_Left, pp_last_x = 0, pp_last_y = 0,
     pp_stats = stats_init\<rparr>"

type_synonym screen_test = "(int \<Rightarrow> int \<Rightarrow> bool) option"

definition inject_move :: "'i injector_ops \<Rightarrow> int \<Rightarrow> int \<Rightarrow> pipeline \<times> 'i \<Rightarrow> pipeline \<times> 'i" where
  "inject_move ops x y ps =
     (let (p, i) = ps; (ok, i') = io_move_to ops x y i; st = pp_stats p in
      (if ok then p\<lparr>pp_stats := st\<lparr>st_injected := st_injected st + 1\<rparr>\<rparr>
       else p\<lparr>pp_stats := st\<lparr>st_inject_failures := st_inject_failures st + 1\<rparr>\<rparr>, i'))"

definition inject_button ::
  "'i injector_ops \<Rightarrow> MouseButton \<Rightarrow> bool \<Rightarrow> int \<Rightarrow> int \<Rightarrow> pipeline \<times> 'i \<Rightarrow> pipeline \<times> 'i" where
  "inject_button ops b down x y ps =
     (let (p, i) = ps; (ok, i') = io_button ops b down x y i; st = pp_stats p in
      (if ok then p\<lparr>pp_stats := st\<lparr>st_injected := st_injected st + 1\<rparr>\<rparr>
       else p\<lparr>pp_stats := st\<lparr>st_inject_failures := st_inject_failures st + 1\<rparr>\<rparr>, i'))"

definition emit_smoothed :: "'i injector_ops \<Rightarrow> Vec2 \<Rightarrow> pipeline \<times> 'i \<Rightarrow> pipeline \<times> 'i" where
  "emit_smoothed ops v ps =
     (let (p, i) = ps; st = pp_stats p in
      inject_move ops (to_i32 (lround (v_x v))) (to_i32 (lround (v_y v)))
        (p\<lparr>pp_stats := st\<lparr>st_smoothed_points := st_smoothed_points st + 1\<rparr>\<rparr>, i))"

definition release_stroke :: "'i injector_ops \<Rightarrow> pipeline \<times> 'i \<Rightarrow> pipeline \<times> 'i" where
  "release_stroke ops ps =
     (let (p, i) = ps; p1 = p\<lparr>pp_smoother := sm_reset (pp_smoother p)\<rparr> in
      if \<not> pp_down p1 then (p1, i)
      else
        let (p2, i2) = inject_button ops (pp_held p1) False (pp_last_x p1) (pp_last_y p1) (p1, i) in
        (p2\<lparr>pp_down := False\<rparr>, i2))"

definition set_enabled :: "'i injector_ops \<Rightarrow> bool \<Rightarrow> pipeline \<times> 'i \<Rightarrow> pipeline \<times> 'i" where
  "set_enabled ops on ps =
     (if pp_enabled (fst ps) = on then ps
      else
        let (p, i) = (if \<not> on then release_stroke ops ps else ps) in
        (p\<lparr>pp_enabled := on\<rparr>, i))"

definition on_screen_ok :: "screen_test \<Rightarrow> int \<Rightarrow> int \<Rightarrow> bool" where
  "on_screen_ok on_screen x y \<longleftrightarrow> (case on_screen of None \<Rightarrow> True | Some test \<Rightarrow> test x y)"

definition advance_relative :: "screen_test \<Rightarrow> real \<Rightarrow> real \<Rightarrow> pipeline \<Rightarrow> pipeline" where
  "advance_relative on_screen dx dy p =
     (case on_screen of
        None \<Rightarrow> p\<lparr>pp_rel_x := pp_rel_x p + dx, pp_rel_y := pp_rel_y p + dy\<rparr>
      | Some test \<Rightarrow>
          let lands = (\<lambda>x y. test (to_i32 (lround x)) (to_i32 (lround y)));
              want_x = pp_rel_x p + dx; want_y = pp_rel_y p + dy in
          if lands want_x want_y then p\<lparr>pp_rel_x := want_x, pp_rel_y := want_y\<rparr>
          else if lands want_x (pp_rel_y p) then p\<lparr>pp_rel_x := want_x\<rparr>
          else if lands (pp_rel_x p) want_y then p\<lparr>pp_rel_y := want_y\<rparr>
          else p)"

definition seed_relative :: "'i injector_ops \<Rightarrow> Pointer \<Rightarrow> pipeline \<times> 'i \<Rightarrow> pipeline" where
  "seed_relative ops m ps =
     (let (p, i) = ps in
      if p_flags m AND kPointerGestureStart \<noteq> 0 \<or> \<not> pp_rel_seeded p then
        (case io_cursor_pos ops i of
           Some (cx, cy) \<Rightarrow> p\<lparr>pp_rel_x := of_int cx, pp_rel_y := of_int cy, pp_rel_seeded := True\<rparr>
         | None \<Rightarrow> p\<lparr>pp_rel_seeded := True\<rparr>)
      else p)"

definition protocol_error :: "pipeline \<Rightarrow> pipeline" where
  "protocol_error p =
     p\<lparr>pp_stats := (pp_stats p)\<lparr>st_protocol_errors := st_protocol_errors (pp_stats p) + 1\<rparr>\<rparr>"

text \<open>A press, shared by the absolute and the relative switch: close a stroke left open, then open one.\<close>

definition press_button :: "'i injector_ops \<Rightarrow> MouseButton \<Rightarrow> int \<Rightarrow> int \<Rightarrow> pipeline \<times> 'i \<Rightarrow> pipeline \<times> 'i" where
  "press_button ops b x y ps =
     (let (p, i) = ps;
          (p1, i1) = (if pp_down p then inject_button ops (pp_held p) False x y (protocol_error p, i) else (p, i));
          (p2, i2) = inject_button ops b True x y (p1, i1) in
      (p2\<lparr>pp_down := True, pp_held := b\<rparr>, i2))"

text \<open>The switch of \<open>handle_relative\<close>, at the tracked position.\<close>

definition relative_action :: "'i injector_ops \<Rightarrow> Pointer \<Rightarrow> int \<Rightarrow> int \<Rightarrow> pipeline \<times> 'i \<Rightarrow> pipeline \<times> 'i" where
  "relative_action ops m x y ps =
     (let (p, i) = ps in
      case p_action m of
        Action_Down \<Rightarrow> press_button ops (p_button m) x y (p, i)
      | Action_Move \<Rightarrow> inject_move ops x y (p, i)
      | Action_Hover \<Rightarrow> inject_move ops x y (p, i)
      | Action_Up \<Rightarrow>
          if \<not> pp_down p then (p, i)
          else let (p', i') = inject_button ops (pp_held p) False x y (p, i) in (p'\<lparr>pp_down := False\<rparr>, i')
      | Action_Cancel \<Rightarrow>
          if pp_down p
          then let (p', i') = inject_button ops (pp_held p) False x y (p, i) in (p'\<lparr>pp_down := False\<rparr>, i')
          else (p, i)
      | Action_raw _ \<Rightarrow> (p, i))"

definition handle_relative :: "'i injector_ops \<Rightarrow> screen_test \<Rightarrow> Pointer \<Rightarrow> pipeline \<times> 'i \<Rightarrow> pipeline \<times> 'i" where
  "handle_relative ops on_screen m ps =
     (let p1 = advance_relative on_screen (of_int (sint (p_x m))) (of_int (sint (p_y m))) (seed_relative ops m ps);
          x = to_i32 (lround (pp_rel_x p1)); y = to_i32 (lround (pp_rel_y p1)) in
      relative_action ops m x y (p1\<lparr>pp_last_x := x, pp_last_y := y\<rparr>, snd ps))"

definition smooth_add :: "'i injector_ops \<Rightarrow> int \<Rightarrow> int \<Rightarrow> pipeline \<times> 'i \<Rightarrow> pipeline \<times> 'i" where
  "smooth_add ops x y ps =
     (let (p, i) = ps; (out, s) = sm_add (vec2 (of_int x) (of_int y)) (pp_smoother p) in
      fold (emit_smoothed ops) out (p\<lparr>pp_smoother := s\<rparr>, i))"

definition smooth_finish :: "'i injector_ops \<Rightarrow> pipeline \<times> 'i \<Rightarrow> pipeline \<times> 'i" where
  "smooth_finish ops ps =
     (let (p, i) = ps; (out, s) = sm_finish (pp_smoother p) in
      fold (emit_smoothed ops) out (p\<lparr>pp_smoother := s\<rparr>, i))"

definition handle_absolute :: "'i injector_ops \<Rightarrow> PointerAction \<Rightarrow> MouseButton \<Rightarrow> int \<Rightarrow> int \<Rightarrow> pipeline \<times> 'i \<Rightarrow> pipeline \<times> 'i" where
  "handle_absolute ops action b x y ps =
     (let (p, i) = ps in
      case action of
        Action_Down \<Rightarrow>
          let (p1, i1) = press_button ops b x y (p, i) in
          (p1\<lparr>pp_smoother := sm_begin (vec2 (of_int x) (of_int y)) (pp_smoother p1)\<rparr>, i1)
      | Action_Move \<Rightarrow>
          if sm_enabled (pp_smoother p) then smooth_add ops x y (p, i) else inject_move ops x y (p, i)
      | Action_Hover \<Rightarrow>
          if sm_enabled (pp_smoother p) then smooth_add ops x y (p, i) else inject_move ops x y (p, i)
      | Action_Up \<Rightarrow>
          if \<not> pp_down p then (protocol_error p, i)
          else
            let p1 = (if b \<noteq> pp_held p then protocol_error p else p);
                (p2, i2) = (if sm_enabled (pp_smoother p1) then smooth_finish ops (smooth_add ops x y (p1, i)) else (p1, i));
                (p3, i3) = inject_button ops (pp_held p2) False x y (p2, i2) in
            (p3\<lparr>pp_down := False\<rparr>, i3)
      | Action_Cancel \<Rightarrow>
          let p1 = p\<lparr>pp_smoother := sm_reset (pp_smoother p)\<rparr> in
          if pp_down p1
          then let (p2, i2) = inject_button ops (pp_held p1) False x y (p1, i) in (p2\<lparr>pp_down := False\<rparr>, i2)
          else (p1, i)
      | Action_raw _ \<Rightarrow> (p, i))"

definition needs_screen :: "PointerAction \<Rightarrow> bool" where
  "needs_screen a \<longleftrightarrow> a = Action_Down \<or> a = Action_Move \<or> a = Action_Hover"

definition handle_pointer ::
  "'i injector_ops \<Rightarrow> screen_test \<Rightarrow> Recti option \<Rightarrow> Pointer \<Rightarrow> pipeline \<times> 'i \<Rightarrow> pipeline \<times> 'i" where
  "handle_pointer ops on_screen window m ps =
     (let (p0, i) = ps; st = pp_stats p0; p = p0\<lparr>pp_stats := st\<lparr>st_received := st_received st + 1\<rparr>\<rparr>; st = pp_stats p in
      if \<not> pp_enabled p then
        (p\<lparr>pp_stats := st\<lparr>st_dropped_disabled := st_dropped_disabled st + 1\<rparr>\<rparr>, i)
      else if p_flags m AND kPointerRelative \<noteq> 0 then
        handle_relative ops on_screen m
          (p\<lparr>pp_stats := st\<lparr>st_relative_events := st_relative_events st + 1\<rparr>\<rparr>, i)
      else if p_flags m AND kPointerWindowRelative \<noteq> 0 \<and> window = None then
        (p\<lparr>pp_stats := st\<lparr>st_dropped_no_window := st_dropped_no_window st + 1\<rparr>\<rparr>, i)
      else
        let (wx, wy) =
              (if p_flags m AND kPointerWindowRelative \<noteq> 0
               then (rect_x (the window), rect_y (the window)) else (0, 0));
            x = sint (p_x m) + wx; y = sint (p_y m) + wy in
        if needs_screen (p_action m) \<and> \<not> on_screen_ok on_screen x y then
          (p\<lparr>pp_stats := st\<lparr>st_dropped_off_screen := st_dropped_off_screen st + 1\<rparr>\<rparr>, i)
        else handle_absolute ops (p_action m) (p_button m) x y (p\<lparr>pp_last_x := x, pp_last_y := y\<rparr>, i))"

definition handle_key :: "'i injector_ops \<Rightarrow> Key \<Rightarrow> pipeline \<times> 'i \<Rightarrow> pipeline \<times> 'i" where
  "handle_key ops k ps =
     (let (p0, i) = ps; st = pp_stats p0; p = p0\<lparr>pp_stats := st\<lparr>st_received := st_received st + 1\<rparr>\<rparr>; st = pp_stats p in
      if \<not> pp_enabled p then
        (p\<lparr>pp_stats := st\<lparr>st_dropped_disabled := st_dropped_disabled st + 1\<rparr>\<rparr>, i)
      else
        let (ok, i') = io_key ops k i in
        (if \<not> ok then p\<lparr>pp_stats := st\<lparr>st_keys_unknown := st_keys_unknown st + 1\<rparr>\<rparr>
         else p\<lparr>pp_stats := st\<lparr>st_keys_sent := st_keys_sent st + 1, st_injected := st_injected st + 1\<rparr>\<rparr>, i'))"

definition end_session :: "'i injector_ops \<Rightarrow> pipeline \<times> 'i \<Rightarrow> pipeline \<times> 'i" where
  "end_session ops ps =
     (let (p, i) = release_stroke ops ((fst ps)\<lparr>pp_rel_seeded := False\<rparr>, snd ps) in
      (p, io_release_all ops i))"

definition reset_stats :: "pipeline \<Rightarrow> pipeline" where
  "reset_stats p = p\<lparr>pp_stats := stats_init\<rparr>"

text \<open>What can happen to the pipeline, and a run of it.\<close>

datatype pipeline_event =
    Pe_pointer screen_test "Recti option" Pointer
  | Pe_key Key
  | Pe_enable bool
  | Pe_end
  | Pe_smoothing bool

fun pipeline_step :: "'i injector_ops \<Rightarrow> pipeline_event \<Rightarrow> pipeline \<times> 'i \<Rightarrow> pipeline \<times> 'i" where
  "pipeline_step ops (Pe_pointer scr win m) ps = handle_pointer ops scr win m ps"
| "pipeline_step ops (Pe_key k) ps = handle_key ops k ps"
| "pipeline_step ops (Pe_enable on) ps = set_enabled ops on ps"
| "pipeline_step ops Pe_end ps = end_session ops ps"
| "pipeline_step ops (Pe_smoothing on) ps =
     ((fst ps)\<lparr>pp_smoother := sm_set_enabled on (pp_smoother (fst ps))\<rparr>, snd ps)"

definition run_pipeline :: "'i injector_ops \<Rightarrow> pipeline_event list \<Rightarrow> pipeline \<times> 'i \<Rightarrow> pipeline \<times> 'i" where
  "run_pipeline ops evs ps = fold (pipeline_step ops) evs ps"

section \<open>Bookkeeping of the stroke\<close>

text \<open>
  The pipeline's record of the open stroke agrees with what the injector holds, unless a button
  call was refused, and a stroke is open only while injection is enabled.
\<close>

definition stroke_books ::
  "('i \<Rightarrow> nat set) \<Rightarrow> ('i \<Rightarrow> bool) \<Rightarrow> ('i \<Rightarrow> bool) \<Rightarrow> pipeline \<times> 'i \<Rightarrow> bool" where
  "stroke_books held ok unrefused ps \<longleftrightarrow>
     ok (snd ps) \<and> (pp_down (fst ps) \<longrightarrow> pp_enabled (fst ps)) \<and>
     (unrefused (snd ps) \<longrightarrow> held (snd ps) = (if pp_down (fst ps) then {button_index (pp_held (fst ps))} else {}))"

lemma inject_fields [simp]:
  "pp_down (fst (inject_move ops x y ps)) = pp_down (fst ps)"
  "pp_held (fst (inject_move ops x y ps)) = pp_held (fst ps)"
  "pp_enabled (fst (inject_move ops x y ps)) = pp_enabled (fst ps)"
  "pp_smoother (fst (inject_move ops x y ps)) = pp_smoother (fst ps)"
  "snd (inject_move ops x y ps) = snd (io_move_to ops x y (snd ps))"
  "pp_down (fst (inject_button ops b d x y ps)) = pp_down (fst ps)"
  "pp_held (fst (inject_button ops b d x y ps)) = pp_held (fst ps)"
  "pp_enabled (fst (inject_button ops b d x y ps)) = pp_enabled (fst ps)"
  "pp_smoother (fst (inject_button ops b d x y ps)) = pp_smoother (fst ps)"
  "snd (inject_button ops b d x y ps) = snd (io_button ops b d x y (snd ps))"
  by (simp_all add: inject_move_def inject_button_def Let_def split: prod.splits)

lemma protocol_error_fields [simp]:
  "pp_down (protocol_error p) = pp_down p" "pp_held (protocol_error p) = pp_held p"
  "pp_enabled (protocol_error p) = pp_enabled p" "pp_smoother (protocol_error p) = pp_smoother p"
  by (simp_all add: protocol_error_def)

lemma emit_smoothed_fields [simp]:
  "pp_down (fst (emit_smoothed ops v ps)) = pp_down (fst ps)"
  "pp_held (fst (emit_smoothed ops v ps)) = pp_held (fst ps)"
  "pp_enabled (fst (emit_smoothed ops v ps)) = pp_enabled (fst ps)"
  "snd (emit_smoothed ops v ps) =
     snd (io_move_to ops (to_i32 (lround (v_x v))) (to_i32 (lround (v_y v))) (snd ps))"
  by (simp_all add: emit_smoothed_def Let_def split: prod.splits)

lemma release_eq:
  "(let (p', i') = inject_button ops b False x y ps in (p'\<lparr>pp_down := False\<rparr>, i')) =
     ((fst (inject_button ops b False x y ps))\<lparr>pp_down := False\<rparr>, snd (inject_button ops b False x y ps))"
  by (simp add: Let_def case_prod_beta)

lemma advance_relative_fields [simp]:
  "pp_down (advance_relative scr dx dy p) = pp_down p" "pp_held (advance_relative scr dx dy p) = pp_held p"
  "pp_enabled (advance_relative scr dx dy p) = pp_enabled p"
  by (simp_all add: advance_relative_def Let_def split: option.split)

lemma seed_relative_fields [simp]:
  "pp_down (seed_relative ops m ps) = pp_down (fst ps)" "pp_held (seed_relative ops m ps) = pp_held (fst ps)"
  "pp_enabled (seed_relative ops m ps) = pp_enabled (fst ps)"
  by (simp_all add: seed_relative_def Let_def split: option.split prod.split)

context watched_injector
begin

abbreviation books :: "pipeline \<times> 'a \<Rightarrow> bool" where
  "books \<equiv> stroke_books held inv unrefused"

lemma books_cong:
  "books (p, i) \<Longrightarrow> pp_down p' = pp_down p \<Longrightarrow> pp_held p' = pp_held p \<Longrightarrow> pp_enabled p' = pp_enabled p \<Longrightarrow>
   books (p', i)"
  by (simp add: stroke_books_def)

lemma books_move: "books ps \<Longrightarrow> books (inject_move ops x y ps)"
  using unrefused_move [of "snd ps" x y] by (auto simp: stroke_books_def move_inv move_held)

lemma books_emit: "books ps \<Longrightarrow> books (emit_smoothed ops v ps)"
  using unrefused_move [of "snd ps"] by (auto simp: stroke_books_def move_inv move_held)

lemma books_fold_emit: "books ps \<Longrightarrow> books (fold (emit_smoothed ops) vs ps)"
  by (induction vs arbitrary: ps) (simp_all add: books_emit)

lemma fold_emit_fields [simp]:
  "pp_down (fst (fold (emit_smoothed ops) vs ps)) = pp_down (fst ps)"
  "pp_held (fst (fold (emit_smoothed ops) vs ps)) = pp_held (fst ps)"
  "pp_enabled (fst (fold (emit_smoothed ops) vs ps)) = pp_enabled (fst ps)"
  by (induction vs arbitrary: ps) simp_all

lemma books_release:
  "books ps \<Longrightarrow> pp_down (fst ps) \<Longrightarrow> b = pp_held (fst ps) \<Longrightarrow>
   books (let (p', i') = inject_button ops b False x y ps in (p'\<lparr>pp_down := False\<rparr>, i'))"
  using unrefused_button [of "snd ps" b False x y] button_ok [of "snd ps" b False x y]
  unfolding release_eq by (auto simp: stroke_books_def button_inv)

lemma books_press:
  assumes "books ps" "pp_enabled (fst ps)"
  shows "books (press_button ops b x y ps)"
proof -
  obtain p i where ps: "ps = (p, i)" by fastforce
  define q where "q = (if pp_down p then inject_button ops (pp_held p) False x y (protocol_error p, i) else (p, i))"
  have q: "inv (snd q)" "unrefused (snd q) \<longrightarrow> held (snd q) = {}" "pp_enabled (fst q)"
    using assms unrefused_button [of i "pp_held p" False x y] button_ok [of i "pp_held p" False x y]
    by (auto simp: q_def ps stroke_books_def button_inv)
  obtain r where r: "inject_button ops b True x y q = r" by simp
  then have "press_button ops b x y ps = ((fst r)\<lparr>pp_down := True, pp_held := b\<rparr>, snd r)"
    unfolding press_button_def ps q_def [symmetric] Let_def
    by (auto simp: q_def split: prod.splits if_splits)
  then show ?thesis using q r unrefused_button [OF q(1), of b True x y] button_ok [OF q(1), of b True x y]
    by (auto simp: stroke_books_def button_inv)
qed

lemma books_relative:
  assumes "books ps" "pp_enabled (fst ps)"
  shows "books (handle_relative ops scr m ps)"
proof -
  have act: "books (relative_action ops m x y (p, i))" if b: "books (p, i)" "pp_enabled p" for x y p i
    using b books_press [OF b(1)] books_move [OF b(1)] books_release [OF b(1)]
    by (cases "p_action m") (simp_all add: relative_action_def)
  show ?thesis using assms unfolding handle_relative_def Let_def
    by (intro act) (simp_all add: stroke_books_def)
qed

lemma books_smooth_add: "books ps \<Longrightarrow> books (smooth_add ops x y ps)"
  by (auto simp: smooth_add_def split: prod.splits intro!: books_fold_emit elim: books_cong)

lemma books_smooth_finish: "books ps \<Longrightarrow> books (smooth_finish ops ps)"
  by (auto simp: smooth_finish_def split: prod.splits intro!: books_fold_emit elim: books_cong)

lemma smooth_fields [simp]:
  "pp_down (fst (smooth_add ops x y ps)) = pp_down (fst ps)" "pp_held (fst (smooth_add ops x y ps)) = pp_held (fst ps)"
  "pp_down (fst (smooth_finish ops ps)) = pp_down (fst ps)" "pp_held (fst (smooth_finish ops ps)) = pp_held (fst ps)"
  by (simp_all add: smooth_add_def smooth_finish_def split: prod.split)

lemma books_absolute:
  assumes b: "books (p, i)" and en: "pp_enabled p"
  shows "books (handle_absolute ops a btn x y (p, i))"
proof (cases a)
  case Action_Down
  obtain p1 i1 where r: "press_button ops btn x y (p, i) = (p1, i1)" by fastforce
  with books_press [of "(p, i)" btn x y] b en have "books (p1, i1)" by simp
  then show ?thesis using r Action_Down by (simp add: handle_absolute_def books_cong)
next
  case Action_Up
  show ?thesis
  proof (cases "pp_down p")
    case True
    define p1 where "p1 = (if btn \<noteq> pp_held p then protocol_error p else p)"
    define q where "q = (if sm_enabled (pp_smoother p1) then smooth_finish ops (smooth_add ops x y (p1, i)) else (p1, i))"
    have p1: "books (p1, i)" "pp_down p1" "pp_held p1 = pp_held p"
      using b True by (auto simp: p1_def stroke_books_def)
    then have q: "books q" "pp_down (fst q)"
      by (auto simp: q_def books_smooth_add books_smooth_finish)
    have "handle_absolute ops a btn x y (p, i) =
        (let (p', i') = inject_button ops (pp_held (fst q)) False x y q in (p'\<lparr>pp_down := False\<rparr>, i'))"
      using Action_Up True
      by (simp add: handle_absolute_def Let_def case_prod_beta q_def p1_def)
    then show ?thesis using books_release [OF q refl] by simp
  next
    case False
    then show ?thesis using b Action_Up by (simp add: handle_absolute_def stroke_books_def)
  qed
next
  case Action_Cancel
  have "books (p\<lparr>pp_smoother := sm_reset (pp_smoother p)\<rparr>, i)" using b by (simp add: stroke_books_def)
  from books_release [OF this] this show ?thesis using Action_Cancel
    by (simp add: handle_absolute_def Let_def)
qed (use b books_smooth_add [OF b] books_move [OF b] in \<open>simp_all add: handle_absolute_def\<close>)

lemma books_pointer:
  assumes "books ps" shows "books (handle_pointer ops scr win m ps)"
proof -
  obtain p i where ps: "ps = (p, i)" by fastforce
  have rel: "books (handle_relative ops scr m (p', i))"
    if "pp_down p' = pp_down p" "pp_held p' = pp_held p" "pp_enabled p' = pp_enabled p" "pp_enabled p" for p'
    using assms that by (intro books_relative) (auto simp: ps stroke_books_def)
  have abs: "books (handle_absolute ops a b x y (p', i))"
    if "pp_down p' = pp_down p" "pp_held p' = pp_held p" "pp_enabled p' = pp_enabled p" "pp_enabled p" for p' a b x y
    using assms that by (intro books_absolute) (auto simp: ps stroke_books_def)
  have id: "books (p', i)" if "pp_down p' = pp_down p" "pp_held p' = pp_held p" "pp_enabled p' = pp_enabled p" for p'
    using assms that by (auto simp: ps stroke_books_def)
  show ?thesis unfolding ps handle_pointer_def Let_def case_prod_beta fst_conv snd_conv
    by (auto intro!: rel abs id)
qed

lemma books_key: "books ps \<Longrightarrow> books (handle_key ops k ps)"
  using unrefused_key [of "snd ps" k]
  by (auto simp: handle_key_def stroke_books_def Let_def case_prod_beta key_inv key_held)

lemma books_release_stroke: "books ps \<Longrightarrow> books (release_stroke ops ps) \<and> \<not> pp_down (fst (release_stroke ops ps))"
proof -
  obtain p i where ps: "ps = (p, i)" by fastforce
  assume b: "books ps"
  let ?p = "p\<lparr>pp_smoother := sm_reset (pp_smoother p)\<rparr>"
  have b': "books (?p, i)" using b by (simp add: ps stroke_books_def)
  show ?thesis
  proof (cases "pp_down p")
    case True
    have "release_stroke ops ps = (let (p', i') = inject_button ops (pp_held ?p) False (pp_last_x ?p) (pp_last_y ?p) (?p, i)
        in (p'\<lparr>pp_down := False\<rparr>, i'))"
      using True by (simp add: release_stroke_def ps)
    then show ?thesis using books_release [OF b'] True unfolding release_eq by simp
  qed (use b' in \<open>simp add: release_stroke_def ps\<close>)
qed

lemma books_set_enabled: "books ps \<Longrightarrow> books (set_enabled ops on ps)"
  using books_release_stroke [of ps]
  by (auto simp: set_enabled_def stroke_books_def Let_def case_prod_beta split: if_splits)

lemma books_end_session: "books ps \<Longrightarrow> books (end_session ops ps)"
proof -
  assume b: "books ps"
  define r where "r = release_stroke ops ((fst ps)\<lparr>pp_rel_seeded := False\<rparr>, snd ps)"
  have "books ((fst ps)\<lparr>pp_rel_seeded := False\<rparr>, snd ps)" using b by (simp add: stroke_books_def)
  from books_release_stroke [OF this] have "books r" "\<not> pp_down (fst r)" by (simp_all add: r_def)
  then show ?thesis
    by (simp add: end_session_def case_prod_beta stroke_books_def release_inv release_held flip: r_def)
qed

lemma books_step: "books ps \<Longrightarrow> books (pipeline_step ops e ps)"
proof (cases e)
  case (Pe_smoothing on)
  then show "books ps \<Longrightarrow> ?thesis" by (simp add: stroke_books_def)
qed (simp_all add: books_pointer books_key books_set_enabled books_end_session)

lemma books_run: "books ps \<Longrightarrow> books (run_pipeline ops evs ps)"
  unfolding run_pipeline_def by (induction evs arbitrary: ps) (simp_all add: books_step)

end

context input_injector
begin

lemma button_inv_snd: "inv (snd ps) \<Longrightarrow> inv (snd (release_stroke ops ps))"
  by (simp add: release_stroke_def Let_def case_prod_beta button_inv)

lemma end_session_held: "inv (snd ps) \<Longrightarrow> held (snd (end_session ops ps)) = {} \<and> \<not> pp_down (fst (end_session ops ps))"
  using button_inv_snd [of "((fst ps)\<lparr>pp_rel_seeded := False\<rparr>, snd ps)"]
  by (auto simp: end_session_def case_prod_beta release_held) (simp add: release_stroke_def Let_def case_prod_beta split: if_splits)

end

section \<open>A pipeline on a logged injector\<close>

text \<open>The counter of refusals changes nothing: without it, the run is the run on the injector itself.\<close>

definition unlogged :: "pipeline \<times> 'i \<times> nat \<Rightarrow> pipeline \<times> 'i" where
  "unlogged ps = (fst ps, fst (snd ps))"

lemma logged_inject:
  "fst (inject_move (logged ops) x y ps) = fst (inject_move ops x y (unlogged ps))"
  "fst (inject_button (logged ops) b d x y ps) = fst (inject_button ops b d x y (unlogged ps))"
  by (simp_all add: inject_move_def inject_button_def unlogged_def Let_def case_prod_beta)

lemma unlogged_move: "unlogged (inject_move (logged ops) x y ps) = inject_move ops x y (unlogged ps)"
  by (simp add: unlogged_def logged_inject prod_eq_iff)

lemma unlogged_emit: "unlogged (emit_smoothed (logged ops) v ps) = emit_smoothed ops v (unlogged ps)"
  unfolding emit_smoothed_def Let_def case_prod_beta unlogged_move by (simp add: unlogged_def)

lemma unlogged_fold: "unlogged (fold (emit_smoothed (logged ops)) vs ps) = fold (emit_smoothed ops) vs (unlogged ps)"
  by (induction vs arbitrary: ps) (simp_all add: unlogged_emit)

lemma unlogged_smooth:
  "unlogged (smooth_add (logged ops) x y ps) = smooth_add ops x y (unlogged ps)"
  "unlogged (smooth_finish (logged ops) ps) = smooth_finish ops (unlogged ps)"
  by (simp_all add: smooth_add_def smooth_finish_def case_prod_beta unlogged_fold) (simp_all add: unlogged_def)

lemma inject_button_pair:
  "(fst (inject_button ops b d x y (p, i)), snd (io_button ops b d x y i)) = inject_button ops b d x y (p, i)"
  by (simp add: prod_eq_iff)

lemma unlogged_press: "unlogged (press_button (logged ops) b x y ps) = press_button ops b x y (unlogged ps)"
  by (cases "pp_down (fst ps)") (simp_all add: press_button_def case_prod_beta logged_inject unlogged_def inject_button_pair)

lemma unlogged_seed: "seed_relative (logged ops) m ps = seed_relative ops m (unlogged ps)"
  by (auto simp: seed_relative_def case_prod_beta unlogged_def split: option.split)

lemma unlogged_relative: "unlogged (handle_relative (logged ops) scr m ps) = handle_relative ops scr m (unlogged ps)"
proof -
  have "unlogged (relative_action (logged ops) m x y qs) = relative_action ops m x y (unlogged qs)" for x y and qs :: "pipeline \<times> 'a \<times> nat"
    unfolding relative_action_def case_prod_beta [of "\<lambda>p i. case p_action m of _ \<Rightarrow> _"]
    by (cases "p_action m") (simp_all add: case_prod_beta logged_inject unlogged_press unlogged_move, simp_all add: unlogged_def)
  then show ?thesis by (simp add: handle_relative_def unlogged_seed Let_def) (simp add: unlogged_def)
qed

lemma unlogged_absolute: "unlogged (handle_absolute (logged ops) a b x y ps) = handle_absolute ops a b x y (unlogged ps)"
proof (cases a)
  case Action_Down
  have "fst (press_button (logged ops) b x y ps) = fst (press_button ops b x y (unlogged ps))"
    "fst (snd (press_button (logged ops) b x y ps)) = snd (press_button ops b x y (unlogged ps))"
    using arg_cong [OF unlogged_press [of ops b x y ps], of fst] arg_cong [OF unlogged_press [of ops b x y ps], of snd]
    by (simp_all add: unlogged_def)
  then show ?thesis using Action_Down by (simp add: handle_absolute_def case_prod_beta) (simp add: unlogged_def)
next
  case Action_Up
  define p1 where "p1 = (if b \<noteq> pp_held (fst ps) then protocol_error (fst ps) else fst ps)"
  define q where "q = (if sm_enabled (pp_smoother p1) then smooth_finish (logged ops) (smooth_add (logged ops) x y (p1, snd ps)) else (p1, snd ps))"
  have u: "unlogged q = (if sm_enabled (pp_smoother p1) then smooth_finish ops (smooth_add ops x y (p1, fst (snd ps))) else (p1, fst (snd ps)))"
    by (simp add: q_def unlogged_smooth) (simp add: unlogged_def)
  have "handle_absolute (logged ops) a b x y ps =
      (if \<not> pp_down (fst ps) then (protocol_error (fst ps), snd ps)
       else (let (p', i') = inject_button (logged ops) (pp_held (fst q)) False x y q in (p'\<lparr>pp_down := False\<rparr>, i')))"
    "handle_absolute ops a b x y (unlogged ps) =
      (if \<not> pp_down (fst ps) then (protocol_error (fst ps), fst (snd ps))
       else (let (p', i') = inject_button ops (pp_held (fst (unlogged q))) False x y (unlogged q) in (p'\<lparr>pp_down := False\<rparr>, i')))"
    unfolding u using Action_Up by (simp_all add: handle_absolute_def Let_def case_prod_beta q_def p1_def unlogged_def)
  then show ?thesis unfolding release_eq by (auto simp: unlogged_def logged_inject)
next
  case Action_Cancel
  then show ?thesis by (simp add: handle_absolute_def case_prod_beta Let_def logged_inject unlogged_def)
qed (simp_all add: handle_absolute_def case_prod_beta unlogged_smooth unlogged_move, simp_all add: unlogged_def)

lemma unlogged_pointer: "unlogged (handle_pointer (logged ops) scr win m ps) = handle_pointer ops scr win m (unlogged ps)"
  by (simp add: handle_pointer_def Let_def case_prod_beta unlogged_relative unlogged_absolute) (simp add: unlogged_def)

lemma unlogged_release: "unlogged (release_stroke (logged ops) ps) = release_stroke ops (unlogged ps)"
  by (simp add: release_stroke_def Let_def case_prod_beta logged_inject unlogged_def)

lemma unlogged_step: "unlogged (pipeline_step (logged ops) e ps) = pipeline_step ops e (unlogged ps)"
proof (cases e)
  case (Pe_key k)
  then show ?thesis by (simp add: handle_key_def Let_def case_prod_beta unlogged_def)
next
  case (Pe_enable on)
  then show ?thesis using unlogged_release [of ops ps]
    by (auto simp: set_enabled_def Let_def case_prod_beta unlogged_def prod_eq_iff)
next
  case Pe_end
  then show ?thesis using unlogged_release [of ops "((fst ps)\<lparr>pp_rel_seeded := False\<rparr>, snd ps)"]
    by (auto simp: end_session_def case_prod_beta unlogged_def prod_eq_iff)
qed (simp_all add: unlogged_pointer, simp add: unlogged_def)

lemma unlogged_run: "unlogged (run_pipeline (logged ops) evs ps) = run_pipeline ops evs (unlogged ps)"
  unfolding run_pipeline_def by (induction evs arbitrary: ps) (simp_all add: unlogged_step)

section \<open>Invariants of the injector carry over\<close>

text \<open>
  Whatever an injector keeps under moves, keys and presses and releases of the buttons in \<open>B\<close>, the
  pipeline keeps, as long as the messages name only buttons in \<open>B\<close>.
\<close>

locale injector_invariant =
  fixes ops :: "'i injector_ops"
    and P :: "'i \<Rightarrow> bool"
    and B :: "MouseButton set"
  assumes P_move: "P i \<Longrightarrow> P (snd (io_move_to ops x y i))"
    and P_button: "P i \<Longrightarrow> b \<in> B \<Longrightarrow> P (snd (io_button ops b d x y i))"
    and P_key: "P i \<Longrightarrow> P (snd (io_key ops k i))"
begin

definition keeps :: "pipeline \<times> 'i \<Rightarrow> bool" where
  "keeps ps \<longleftrightarrow> P (snd ps) \<and> pp_held (fst ps) \<in> B"

lemma keeps_move: "keeps ps \<Longrightarrow> keeps (inject_move ops x y ps)"
  by (simp add: keeps_def P_move)

lemma keeps_button: "keeps ps \<Longrightarrow> b \<in> B \<Longrightarrow> keeps (inject_button ops b d x y ps)"
  by (simp add: keeps_def P_button)

lemma keeps_fold: "keeps ps \<Longrightarrow> keeps (fold (emit_smoothed ops) vs ps)"
  by (induction vs arbitrary: ps) (simp_all add: keeps_def P_move)

lemma keeps_release:
  "keeps ps \<Longrightarrow> b = pp_held (fst ps) \<Longrightarrow>
   keeps (let (p', i') = inject_button ops b False x y ps in (p'\<lparr>pp_down := False\<rparr>, i'))"
  unfolding release_eq by (simp add: keeps_def P_button)

lemma keeps_press: "keeps ps \<Longrightarrow> b \<in> B \<Longrightarrow> keeps (press_button ops b x y ps)"
  by (simp add: press_button_def keeps_def Let_def case_prod_beta P_button)

lemma keeps_smooth: "keeps ps \<Longrightarrow> keeps (smooth_add ops x y ps)" "keeps ps \<Longrightarrow> keeps (smooth_finish ops ps)"
  by (auto simp: smooth_add_def smooth_finish_def split: prod.splits intro!: keeps_fold) (simp_all add: keeps_def)

lemma keeps_relative:
  assumes "keeps ps" "p_button m \<in> B" shows "keeps (handle_relative ops scr m ps)"
proof -
  have act: "keeps (relative_action ops m x y (p, i))" if "keeps (p, i)" for x y p i
    using that assms(2) keeps_press [OF that] keeps_move [OF that] keeps_release [OF that]
    by (cases "p_action m") (simp_all add: relative_action_def)
  show ?thesis using assms unfolding handle_relative_def Let_def
    by (intro act) (simp add: keeps_def)
qed

lemma keeps_absolute:
  assumes k: "keeps (p, i)" and b: "btn \<in> B" shows "keeps (handle_absolute ops a btn x y (p, i))"
proof (cases a)
  case Action_Down
  then show ?thesis using keeps_press [OF k b]
    by (simp add: handle_absolute_def Let_def case_prod_beta keeps_def)
next
  case Action_Up
  define p1 where "p1 = (if btn \<noteq> pp_held p then protocol_error p else p)"
  define q where "q = (if sm_enabled (pp_smoother p1) then smooth_finish ops (smooth_add ops x y (p1, i)) else (p1, i))"
  have "keeps (p1, i)" using k by (simp add: p1_def keeps_def)
  then have q: "keeps q" by (simp add: q_def keeps_smooth)
  have "handle_absolute ops a btn x y (p, i) =
      (if \<not> pp_down p then (protocol_error p, i)
       else let (p', i') = inject_button ops (pp_held (fst q)) False x y q in (p'\<lparr>pp_down := False\<rparr>, i'))"
    using Action_Up by (simp add: handle_absolute_def Let_def case_prod_beta q_def p1_def)
  then show ?thesis using keeps_release [OF q refl] k by (simp add: keeps_def)
next
  case Action_Cancel
  have "keeps (p\<lparr>pp_smoother := sm_reset (pp_smoother p)\<rparr>, i)" using k by (simp add: keeps_def)
  from keeps_release [OF this] this show ?thesis using Action_Cancel by (simp add: handle_absolute_def Let_def)
qed (use k keeps_smooth [OF k] keeps_move [OF k] in \<open>simp_all add: handle_absolute_def\<close>)

lemma keeps_pointer:
  assumes "keeps ps" "p_button m \<in> B" shows "keeps (handle_pointer ops scr win m ps)"
proof -
  obtain p i where ps: "ps = (p, i)" by fastforce
  have rel: "keeps (handle_relative ops scr m (p', i))" if "pp_held p' = pp_held p" for p'
    using assms that by (intro keeps_relative) (auto simp: ps keeps_def)
  have abs: "keeps (handle_absolute ops a (p_button m) x y (p', i))" if "pp_held p' = pp_held p" for p' a x y
    using assms that by (intro keeps_absolute) (auto simp: ps keeps_def)
  have id: "keeps (p', i)" if "pp_held p' = pp_held p" for p' using assms that by (auto simp: ps keeps_def)
  show ?thesis unfolding ps handle_pointer_def Let_def case_prod_beta fst_conv snd_conv
    by (auto intro!: rel abs id)
qed

lemma keeps_release_stroke: "keeps ps \<Longrightarrow> keeps (release_stroke ops ps)"
  using keeps_release [of "((fst ps)\<lparr>pp_smoother := sm_reset (pp_smoother (fst ps))\<rparr>, snd ps)"]
  by (auto simp: release_stroke_def Let_def case_prod_beta keeps_def)

lemma keeps_step:
  assumes "keeps ps" and "\<And>scr win m. e = Pe_pointer scr win m \<Longrightarrow> p_button m \<in> B" and "e \<noteq> Pe_end"
  shows "keeps (pipeline_step ops e ps)"
proof (cases e)
  case (Pe_enable on)
  then show ?thesis using assms(1) keeps_release_stroke [OF assms(1)]
    by (auto simp: set_enabled_def Let_def case_prod_beta) (simp_all add: keeps_def)
next
  case (Pe_key k)
  then show ?thesis using assms(1) by (simp add: handle_key_def Let_def case_prod_beta keeps_def P_key)
qed (use assms keeps_pointer in \<open>auto simp: keeps_def\<close>)

lemma keeps_run:
  "keeps ps \<Longrightarrow> \<forall>scr win m. Pe_pointer scr win m \<in> set evs \<longrightarrow> p_button m \<in> B \<Longrightarrow> Pe_end \<notin> set evs \<Longrightarrow>
   keeps (run_pipeline ops evs ps)"
  unfolding run_pipeline_def
proof (induction evs arbitrary: ps)
  case (Cons e evs)
  have "keeps (pipeline_step ops e ps)" by (rule keeps_step) (use Cons.prems in auto)
  with Cons show ?case by simp
qed simp

end

definition named_buttons :: "MouseButton set" where
  "named_buttons = {Button_Left, Button_Right, Button_Middle}"

text \<open>The record of the Windows injector covers the desktop, if \<open>SendInput\<close> is as documented.\<close>

definition win32_tracked :: "'w win32 \<Rightarrow> ('w \<Rightarrow> desk) \<Rightarrow> ('w \<Rightarrow> bool) \<Rightarrow> 'w injector \<Rightarrow> bool" where
  "win32_tracked os desktop blocked i \<longleftrightarrow> faithful_os os desktop blocked \<and> tracked os desktop i"

interpretation win32t: injector_invariant "win32_ops os" "win32_tracked os desktop blocked" named_buttons
  for os desktop blocked
  by unfold_locales
    (auto simp: win32_ops_def win32_tracked_def named_buttons_def tracked_move tracked_key intro: tracked_button)

section \<open>Releases\<close>

lemma relative_release:
  "p_action m = Action_Up \<or> p_action m = Action_Cancel \<Longrightarrow> \<not> pp_down (fst (handle_relative ops scr m ps))"
  by (elim disjE) (simp_all add: handle_relative_def relative_action_def Let_def case_prod_beta)

lemma absolute_release:
  "a = Action_Up \<or> a = Action_Cancel \<Longrightarrow> \<not> pp_down (fst (handle_absolute ops a b x y ps))"
  by (elim disjE) (simp_all add: handle_absolute_def Let_def case_prod_beta)

section \<open>Properties\<close>

text \<open>
  C31: the pipeline knows which button it holds. Whatever \<open>SendInput\<close> answers, after any sequence of
  pointer and key messages, switching injection or smoothing on and off, and session ends: a stroke is
  open only while injection is enabled; as long as no button call has been refused since the last
  session end, the injector holds exactly the button of the open stroke, and nothing when no stroke is
  open; and ending the session leaves no stroke open and no button held, whatever was refused before.
  The refusals are counted beside the injector, in a run that is otherwise the run of the program.
\<close>

theorem pipeline_holds_one_button:
  "(let (p, i, refused) = run_pipeline (logged (win32_ops os)) evs (pipeline_init, injector_init w, 0) in
    run_pipeline (win32_ops os) evs (pipeline_init, injector_init w) = (p, i) \<and>
    (pp_down p \<longrightarrow> pp_enabled p) \<and>
    (refused = 0 \<longrightarrow> held_buttons i = (if pp_down p then {button_index (pp_held p)} else {})) \<and>
    (let (p', i') = end_session (win32_ops os) (p, i) in \<not> pp_down p' \<and> held_buttons i' = {}))"
proof -
  obtain p i n where r: "run_pipeline (logged (win32_ops os)) evs (pipeline_init, injector_init w, 0) = (p, i, n)"
    by (metis prod_cases3)
  have "held_buttons (injector_init w) = {}"
    by (auto simp: held_buttons_def injector_init_def nth_Cons' less_Suc_eq numeral_3_eq_3)
  then have "win32w.books (pipeline_init, injector_init w, 0)"
    by (simp add: stroke_books_def pipeline_init_def inj_inv_def injector_init_def)
  from win32w.books_run [OF this, of os evs] have b: "win32w.books (p, i, n)" by (simp add: r)
  then have "inj_inv i" by (simp add: stroke_books_def)
  with win32.end_session_held [of "(p, i)" os] unlogged_run [of "win32_ops os" evs "(pipeline_init, injector_init w, 0)"] b
  show ?thesis by (auto simp: r stroke_books_def unlogged_def case_prod_beta)
qed

interpretation sim: injector_invariant "logged (win32_ops sim_os)" "\<lambda>s. snd s = 0" UNIV
  by unfold_locales
    (auto simp: win32_ops_def inj_button_def inj_emit_def send_input_def sim_os_def split: prod.splits)

theorem pipeline_holds_one_button_witness:
  "(let (p, i, refused) = run_pipeline (logged (win32_ops sim_os)) [Pe_enable True, Pe_pointer None None ex_Pointer]
      (pipeline_init, injector_init \<lparr>d_keys = {}, d_buttons = {}\<rparr>, 0) in
    refused = 0 \<and> pp_down p \<and> held_buttons i = {button_index Button_Left})"
proof -
  let ?evs = "[Pe_enable True, Pe_pointer None None ex_Pointer]"
  obtain p i n where r: "run_pipeline (logged (win32_ops sim_os)) ?evs
      (pipeline_init, injector_init \<lparr>d_keys = {}, d_buttons = {}\<rparr>, 0) = (p, i, n)"
    by (metis prod_cases3)
  have "sim.keeps (pipeline_init, injector_init \<lparr>d_keys = {}, d_buttons = {}\<rparr>, 0)" by (simp add: sim.keeps_def)
  from sim.keeps_run [OF this, of ?evs] have n: "n = 0" by (simp add: r sim.keeps_def)
  have "pp_down (fst (run_pipeline (logged (win32_ops sim_os)) ?evs (pipeline_init, injector_init \<lparr>d_keys = {}, d_buttons = {}\<rparr>, 0)))"
    "pp_held (fst (run_pipeline (logged (win32_ops sim_os)) ?evs (pipeline_init, injector_init \<lparr>d_keys = {}, d_buttons = {}\<rparr>, 0))) = Button_Left"
    by (simp_all add: run_pipeline_def set_enabled_def pipeline_init_def handle_pointer_def handle_absolute_def press_button_def
        ex_Pointer_def on_screen_ok_def kPointerRelative_def kPointerWindowRelative_def case_prod_beta Let_def)
  with pipeline_holds_one_button [of sim_os ?evs "\<lparr>d_keys = {}, d_buttons = {}\<rparr>"] n show ?thesis
    by (simp add: r)
qed

text \<open>
  a session never leaves anything pressed on the desktop. If \<open>SendInput\<close> behaves as documented, the
  desktop starts with nothing pressed, and the messages name real buttons, then after any run of
  the pipeline the end of the session leaves no key and no button down, unless the input is
  blocked at that moment, and whatever failed on the way.
\<close>

theorem session_end_releases_desktop:
  assumes "faithful_os os desktop blocked"
    and "d_keys (desktop w) = {}" and "d_buttons (desktop w) = {}"
    and "\<forall>scr win m. Pe_pointer scr win m \<in> set evs \<longrightarrow> p_button m \<in> named_buttons"
    and "Pe_end \<notin> set evs"
    and "\<not> blocked (i_world (snd (release_stroke (win32_ops os)
           ((fst (run_pipeline (win32_ops os) evs (pipeline_init, injector_init w)))\<lparr>pp_rel_seeded := False\<rparr>,
            snd (run_pipeline (win32_ops os) evs (pipeline_init, injector_init w))))))"
  shows "(let d = desktop (i_world (snd (end_session (win32_ops os)
        (run_pipeline (win32_ops os) evs (pipeline_init, injector_init w))))) in
    d_keys d = {} \<and> d_buttons d = {})"
proof -
  define ps where "ps = run_pipeline (win32_ops os) evs (pipeline_init, injector_init w)"
  define q where "q = release_stroke (win32_ops os) ((fst ps)\<lparr>pp_rel_seeded := False\<rparr>, snd ps)"
  have "win32_tracked os desktop blocked (injector_init w)"
    using assms by (simp add: win32_tracked_def tracked_def inj_inv_def injector_init_def)
  then have "win32t.keeps os desktop blocked (pipeline_init, injector_init w)"
    unfolding win32t.keeps_def by (simp add: pipeline_init_def named_buttons_def)
  then have "win32t.keeps os desktop blocked ps"
    unfolding ps_def by (rule win32t.keeps_run [OF _ assms(4,5)])
  then have "win32t.keeps os desktop blocked ((fst ps)\<lparr>pp_rel_seeded := False\<rparr>, snd ps)"
    unfolding win32t.keeps_def by simp
  then have "tracked os desktop (snd q)"
    using win32t.keeps_release_stroke unfolding q_def win32t.keeps_def win32_tracked_def by blast
  moreover have "\<not> blocked (i_world (snd q))" using assms(6) by (simp add: q_def ps_def)
  moreover have "snd (end_session (win32_ops os) ps) = inj_release_all os (snd q)"
    by (simp add: end_session_def q_def case_prod_beta win32_ops_def)
  ultimately show ?thesis
    unfolding ps_def [symmetric] using release_all_desk [OF assms(1)] by simp
qed

theorem session_end_releases_desktop_witness:
  "(let d = i_world (snd (end_session (win32_ops sim_os)
        (run_pipeline (win32_ops sim_os) [Pe_enable True, Pe_key ex_Key] (pipeline_init, injector_init \<lparr>d_keys = {}, d_buttons = {}\<rparr>)))) in
    d_keys d = {} \<and> d_buttons d = {})"
  using session_end_releases_desktop [OF sim_os_faithful, of "\<lparr>d_keys = {}, d_buttons = {}\<rparr>" "[Pe_enable True, Pe_key ex_Key]"]
  by simp

text \<open>
  the gates hold. While injection is disabled, pointer and key messages reach neither the
  injector nor the stroke; and while it is enabled, a press, move or hover that lands on no
  display is dropped before the injector sees it.
\<close>

theorem pipeline_gates:
  "(\<not> pp_enabled p \<longrightarrow>
      snd (handle_pointer ops scr win m (p, i)) = i \<and> pp_down (fst (handle_pointer ops scr win m (p, i))) = pp_down p \<and>
      snd (handle_key ops k (p, i)) = i) \<and>
   (p_flags m AND kPointerRelative = 0 \<and> p_flags m AND kPointerWindowRelative = 0 \<and>
    needs_screen (p_action m) \<and> \<not> on_screen_ok scr (sint (p_x m)) (sint (p_y m)) \<longrightarrow>
      snd (handle_pointer ops scr win m (p, i)) = i \<and> pp_down (fst (handle_pointer ops scr win m (p, i))) = pp_down p)"
  by (simp add: handle_pointer_def handle_key_def Let_def)

theorem pipeline_gates_witness:
  "snd (handle_pointer (win32_ops sim_os) None None ex_Pointer (pipeline_init, injector_init \<lparr>d_keys = {}, d_buttons = {}\<rparr>)) =
   injector_init \<lparr>d_keys = {}, d_buttons = {}\<rparr>"
  using pipeline_gates [of pipeline_init "win32_ops sim_os" None None ex_Pointer "injector_init \<lparr>d_keys = {}, d_buttons = {}\<rparr>" ex_Key]
  by (simp add: pipeline_init_def)

text \<open>
  a release ends the stroke, with one exception. While injection is enabled, an UP or a CANCEL
  leaves no stroke open, wherever it lands; but one given relative to the focused window is
  dropped when there is no such window, and then an open stroke stays open.
\<close>

theorem release_honoured:
  assumes "pp_enabled p" and "p_action m = Action_Up \<or> p_action m = Action_Cancel"
  shows "pp_down (fst (handle_pointer ops scr win m (p, i))) \<longleftrightarrow>
    pp_down p \<and> p_flags m AND kPointerRelative = 0 \<and> p_flags m AND kPointerWindowRelative \<noteq> 0 \<and> win = None"
proof -
  have "\<not> needs_screen (p_action m)" using assms(2) by (auto simp: needs_screen_def)
  then show ?thesis using assms(1)
    by (simp add: handle_pointer_def Let_def case_prod_beta relative_release [OF assms(2)] absolute_release [OF assms(2)])
qed

theorem release_honoured_witness:
  "(let m = ex_Pointer\<lparr>p_action := Action_Up, p_flags := kPointerWindowRelative\<rparr>;
        p = pipeline_init\<lparr>pp_enabled := True, pp_down := True\<rparr> in
    pp_down (fst (handle_pointer (win32_ops sim_os) None None m (p, injector_init \<lparr>d_keys = {}, d_buttons = {}\<rparr>))))"
  unfolding Let_def
  by (subst release_honoured) (simp_all add: kPointerWindowRelative_def kPointerRelative_def)

text \<open>
  in slide mode the tracked position never leaves the displays: if it is on a display, then
  after any relative movement it still is, however large the movement; and a movement that stays
  on the displays is taken in full.
\<close>

theorem relative_stays_on_screen:
  assumes "test (to_i32 (lround (pp_rel_x p))) (to_i32 (lround (pp_rel_y p)))"
  shows "(let q = advance_relative (Some test) dx dy p in
    test (to_i32 (lround (pp_rel_x q))) (to_i32 (lround (pp_rel_y q))) \<and>
    (test (to_i32 (lround (pp_rel_x p + dx))) (to_i32 (lround (pp_rel_y p + dy))) \<longrightarrow>
       pp_rel_x q = pp_rel_x p + dx \<and> pp_rel_y q = pp_rel_y p + dy))"
  using assms by (simp add: advance_relative_def Let_def)

theorem relative_stays_on_screen_witness:
  "(let q = advance_relative (Some (contains (recti 0 0 1920 1080))) 5000 3 pipeline_init in
    contains (recti 0 0 1920 1080) (to_i32 (lround (pp_rel_x q))) (to_i32 (lround (pp_rel_y q))))"
proof -
  have "contains (recti 0 0 1920 1080) (to_i32 (lround (pp_rel_x pipeline_init))) (to_i32 (lround (pp_rel_y pipeline_init)))"
    by (simp add: pipeline_init_def lround_def contains_def is_i32_def)
  from relative_stays_on_screen [of "contains (recti 0 0 1920 1080)", OF this, of 5000 3] show ?thesis by (simp add: Let_def)
qed

end
