(* ===== verification/Etc2.thy ===== *)
theory Etc2
  imports Tiling
begin

text \<open>
  The software ETC2 codec of \<open>host/src/screen/Etc2.hpp\<close> and \<open>Etc2.cpp\<close>: 4x4 blocks of 8 bytes. The
  encoder tries both splits of a block and both colour modes, fits the modifier tables and keeps
  the candidate of least squared error; the decoder is the other direction.

  Shown here: what the decoder makes of a block is what the encoder fitted, bit for bit; the error
  the encoder minimises is the squared error of the decoded block; no other table and no other
  indices would have given less for the same base colours; and an image takes the bytes
  \<open>etc2_size\<close> says. The pointers handed over are taken to be valid: the null checks of the two entry
  points have no counterpart.
\<close>

section \<open>Definitions\<close>

record Rgb =
  c_r :: int
  c_g :: int
  c_b :: int

definition rgb :: "int \<Rightarrow> int \<Rightarrow> int \<Rightarrow> Rgb" where
  "rgb r g b = \<lparr>c_r = r, c_g = g, c_b = b\<rparr>"

definition kModifiers :: "int list list" where
  "kModifiers =
     [[2, 8, -2, -8], [5, 17, -5, -17], [9, 29, -9, -29], [13, 42, -13, -42],
      [18, 60, -18, -60], [24, 80, -24, -80], [33, 106, -33, -106], [47, 183, -47, -183]]"

definition modifier :: "int \<Rightarrow> int \<Rightarrow> int" where
  "modifier table index = kModifiers ! nat table ! nat index"

definition clamp255 :: "int \<Rightarrow> int" where
  "clamp255 v = (if v < 0 then 0 else if 255 < v then 255 else v)"

definition quant4 :: "int \<Rightarrow> int" where
  "quant4 v = clamp (cdiv (v * 15 + 127) 255) 0 15"

definition expand4 :: "int \<Rightarrow> int" where
  "expand4 q = q * 17"

definition quant5 :: "int \<Rightarrow> int" where
  "quant5 v = clamp (cdiv (v * 31 + 127) 255) 0 31"

definition expand5 :: "int \<Rightarrow> int" where
  "expand5 q = push_bit 3 q OR drop_bit 2 q"

definition in_half :: "int \<Rightarrow> int \<Rightarrow> nat \<Rightarrow> nat \<Rightarrow> bool" where
  "in_half flip half x y \<longleftrightarrow>
     (if flip = 0 then (2 \<le> x) = (half = 1) else (2 \<le> y) = (half = 1))"

definition subblock_pixels :: "int \<Rightarrow> int \<Rightarrow> nat list" where
  "subblock_pixels flip half =
     concat (map (\<lambda>x. map (\<lambda>y. x * 4 + y) (filter (in_half flip half x) [0..<4])) [0..<4])"

definition pixel_error :: "Rgb \<Rightarrow> int \<Rightarrow> Rgb \<Rightarrow> int" where
  "pixel_error base m p =
     (let dr = clamp255 (c_r base + m) - c_r p; dg = clamp255 (c_g base + m) - c_g p;
          db = clamp255 (c_b base + m) - c_b p in
      dr * dr + dg * dg + db * db)"

fun best_index :: "Rgb \<Rightarrow> int \<Rightarrow> Rgb \<Rightarrow> int list \<Rightarrow> int \<times> int \<Rightarrow> int \<times> int" where
  "best_index base table p [] (best, idx) = (best, idx)"
| "best_index base table p (index # rest) (best, idx) =
     (let e = pixel_error base (modifier table index) p in
      best_index base table p rest (if best < 0 \<or> e < best then (e, index) else (best, idx)))"

definition fit_pixel :: "Rgb \<Rightarrow> int \<Rightarrow> Rgb \<Rightarrow> int \<times> int" where
  "fit_pixel base table p = best_index base table p [0, 1, 2, 3] (-1, 0)"

text \<open>One table: the loop over the pixels, left when the table is already worse.\<close>

fun fit_pixels :: "Rgb \<Rightarrow> int \<Rightarrow> int \<Rightarrow> Rgb list \<Rightarrow> int \<Rightarrow> int \<times> int list" where
  "fit_pixels base table best_error [] error = (error, [])"
| "fit_pixels base table best_error (p # ps) error =
     (let (e, i) = fit_pixel base table p; error' = error + e in
      if 0 \<le> best_error \<and> best_error \<le> error' then (error', i # replicate (length ps) 0)
      else let (er, is) = fit_pixels base table best_error ps error' in (er, i # is))"

fun fit_tables :: "Rgb \<Rightarrow> Rgb list \<Rightarrow> int list \<Rightarrow> int \<times> int \<times> int list \<Rightarrow> int \<times> int \<times> int list" where
  "fit_tables base ps [] st = st"
| "fit_tables base ps (table # tables) (best, tab, idx) =
     (let (error, indices) = fit_pixels base table best ps 0 in
      fit_tables base ps tables
        (if best < 0 \<or> error < best then (error, table, indices) else (best, tab, idx)))"

definition fit_subblock :: "Rgb list \<Rightarrow> Rgb \<Rightarrow> int \<times> int \<times> int list" where
  "fit_subblock ps base = fit_tables base ps [0, 1, 2, 3, 4, 5, 6, 7] (-1, 0, replicate 8 0)"

record Candidate =
  cd_error :: int
  cd_flip :: int
  cd_differential :: bool
  cd_q0 :: Rgb
  cd_q1 :: Rgb
  cd_table0 :: int
  cd_table1 :: int
  cd_indices0 :: "int list"
  cd_indices1 :: "int list"

definition half_pixels :: "Rgb list \<Rightarrow> int \<Rightarrow> int \<Rightarrow> Rgb list" where
  "half_pixels block flip half = map (\<lambda>i. block ! i) (subblock_pixels flip half)"

definition half_average :: "Rgb list \<Rightarrow> Rgb" where
  "half_average ps =
     rgb (cdiv (sum_list (map c_r ps) + 4) 8) (cdiv (sum_list (map c_g ps) + 4) 8)
       (cdiv (sum_list (map c_b ps) + 4) 8)"

definition map_rgb :: "(int \<Rightarrow> int) \<Rightarrow> Rgb \<Rightarrow> Rgb" where
  "map_rgb f c = rgb (f (c_r c)) (f (c_g c)) (f (c_b c))"

definition individual_candidate :: "Rgb list \<Rightarrow> int \<Rightarrow> Candidate" where
  "individual_candidate block flip =
     (let h0 = half_pixels block flip 0; h1 = half_pixels block flip 1;
          q0 = map_rgb quant4 (half_average h0); q1 = map_rgb quant4 (half_average h1);
          (e0, t0, i0) = fit_subblock h0 (map_rgb expand4 q0);
          (e1, t1, i1) = fit_subblock h1 (map_rgb expand4 q1) in
      \<lparr>cd_error = e0 + e1, cd_flip = flip, cd_differential = False, cd_q0 = q0, cd_q1 = q1,
       cd_table0 = t0, cd_table1 = t1, cd_indices0 = i0, cd_indices1 = i1\<rparr>)"

definition second_base :: "int \<Rightarrow> int \<Rightarrow> int" where
  "second_base base want = clamp (base + clamp (want - base) (-4) 3) 0 31"

definition differential_candidate :: "Rgb list \<Rightarrow> int \<Rightarrow> Candidate" where
  "differential_candidate block flip =
     (let h0 = half_pixels block flip 0; h1 = half_pixels block flip 1;
          q0 = map_rgb quant5 (half_average h0); want = map_rgb quant5 (half_average h1);
          second = rgb (second_base (c_r q0) (c_r want)) (second_base (c_g q0) (c_g want))
            (second_base (c_b q0) (c_b want));
          delta = rgb (c_r second - c_r q0) (c_g second - c_g q0) (c_b second - c_b q0);
          (e0, t0, i0) = fit_subblock h0 (map_rgb expand5 q0);
          (e1, t1, i1) = fit_subblock h1 (map_rgb expand5 second) in
      \<lparr>cd_error = e0 + e1, cd_flip = flip, cd_differential = True, cd_q0 = q0, cd_q1 = delta,
       cd_table0 = t0, cd_table1 = t1, cd_indices0 = i0, cd_indices1 = i1\<rparr>)"

definition candidate_init :: Candidate where
  "candidate_init =
     \<lparr>cd_error = -1, cd_flip = 0, cd_differential = False, cd_q0 = rgb 0 0 0, cd_q1 = rgb 0 0 0,
      cd_table0 = 0, cd_table1 = 0, cd_indices0 = replicate 8 0, cd_indices1 = replicate 8 0\<rparr>"

definition better :: "Candidate \<Rightarrow> Candidate \<Rightarrow> Candidate" where
  "better c best = (if cd_error best < 0 \<or> cd_error c < cd_error best then c else best)"

definition encode_block :: "Rgb list \<Rightarrow> Candidate" where
  "encode_block block =
     fold better
       [individual_candidate block 0, differential_candidate block 0,
        individual_candidate block 1, differential_candidate block 1] candidate_init"

definition field :: "nat \<Rightarrow> nat \<Rightarrow> int \<Rightarrow> u64" where
  "field k width v = push_bit k (word_of_int (v AND mask width))"

definition index_bits :: "(nat \<times> int) list \<Rightarrow> u64" where
  "index_bits pis =
     fold (\<lambda>(pixel, index) w.
       w OR push_bit (16 + pixel) (word_of_int (drop_bit 1 index AND 1)) OR
       push_bit pixel (word_of_int (index AND 1))) pis 0"

definition block_bits :: "Candidate \<Rightarrow> u64" where
  "block_bits c =
     (if cd_differential c then
        field 59 5 (c_r (cd_q0 c)) OR field 56 3 (c_r (cd_q1 c)) OR
        field 51 5 (c_g (cd_q0 c)) OR field 48 3 (c_g (cd_q1 c)) OR
        field 43 5 (c_b (cd_q0 c)) OR field 40 3 (c_b (cd_q1 c)) OR push_bit 33 1
      else
        field 60 4 (c_r (cd_q0 c)) OR field 56 4 (c_r (cd_q1 c)) OR
        field 52 4 (c_g (cd_q0 c)) OR field 48 4 (c_g (cd_q1 c)) OR
        field 44 4 (c_b (cd_q0 c)) OR field 40 4 (c_b (cd_q1 c))) OR
     field 37 3 (cd_table0 c) OR field 34 3 (cd_table1 c) OR field 32 1 (cd_flip c) OR
     index_bits (zip (subblock_pixels (cd_flip c) 0) (cd_indices0 c) @
       zip (subblock_pixels (cd_flip c) 1) (cd_indices1 c))"

definition write_block :: "Candidate \<Rightarrow> bytes" where
  "write_block c = map (\<lambda>i. ucast (drop_bit (56 - i * 8) (block_bits c))) [0..<8]"

definition block_at :: "bytes \<Rightarrow> int \<Rightarrow> int \<Rightarrow> int \<Rightarrow> Rgb list" where
  "block_at bgra stride bx by' =
     concat (map (\<lambda>x. map (\<lambda>y.
       let k = nat ((by' * 4 + y) * stride + (bx * 4 + x) * 4) in
       rgb (uint (bgra ! (k + 2))) (uint (bgra ! (k + 1))) (uint (bgra ! k))) [0, 1, 2, 3]) [0, 1, 2, 3])"

definition etc2_encode :: "bytes \<Rightarrow> int \<Rightarrow> int \<Rightarrow> int \<Rightarrow> bytes option" where
  "etc2_encode bgra w h stride =
     (if w \<le> 0 \<or> h \<le> 0 \<or> cmod w 4 \<noteq> 0 \<or> cmod h 4 \<noteq> 0 then None
      else
        let cols = cdiv w 4; rows = cdiv h 4 in
        Some (concat (map (\<lambda>by'. concat (map (\<lambda>bx.
          write_block (encode_block (block_at bgra stride bx by'))) [0..cols - 1])) [0..rows - 1])))"

definition read_bits :: "bytes \<Rightarrow> u64" where
  "read_bits bs = fold (\<lambda>i w. w OR push_bit (56 - i * 8) (ucast (bs ! i))) [0..<8] 0"

definition get_field :: "u64 \<Rightarrow> nat \<Rightarrow> nat \<Rightarrow> int" where
  "get_field bits k width = uint (drop_bit k bits AND mask width)"

definition sign3 :: "int \<Rightarrow> int" where
  "sign3 v = (if 4 \<le> v then v - 8 else v)"

definition decode_bases :: "u64 \<Rightarrow> Rgb \<times> Rgb" where
  "decode_bases bits =
     (if get_field bits 33 1 \<noteq> 0 then
        let r = get_field bits 59 5; g = get_field bits 51 5; b = get_field bits 43 5;
            dr = sign3 (get_field bits 56 3); dg = sign3 (get_field bits 48 3);
            db = sign3 (get_field bits 40 3) in
        (rgb (expand5 r) (expand5 g) (expand5 b),
         rgb (expand5 (clamp (r + dr) 0 31)) (expand5 (clamp (g + dg) 0 31)) (expand5 (clamp (b + db) 0 31)))
      else
        (rgb (expand4 (get_field bits 60 4)) (expand4 (get_field bits 52 4)) (expand4 (get_field bits 44 4)),
         rgb (expand4 (get_field bits 56 4)) (expand4 (get_field bits 48 4)) (expand4 (get_field bits 40 4))))"

definition add_modifier :: "Rgb \<Rightarrow> int \<Rightarrow> Rgb" where
  "add_modifier c m = rgb (clamp255 (c_r c + m)) (clamp255 (c_g c + m)) (clamp255 (c_b c + m))"

definition decode_pixel :: "u64 \<Rightarrow> nat \<Rightarrow> nat \<Rightarrow> Rgb" where
  "decode_pixel bits x y =
     (let pixel = x * 4 + y;
          index = get_field bits (16 + pixel) 1 * 2 + get_field bits pixel 1;
          half1 = (if get_field bits 32 1 = 0 then 2 \<le> x else 2 \<le> y) in
      if half1 then add_modifier (snd (decode_bases bits)) (modifier (get_field bits 34 3) index)
      else add_modifier (fst (decode_bases bits)) (modifier (get_field bits 37 3) index))"

definition decode_block :: "bytes \<Rightarrow> Rgb list" where
  "decode_block bs =
     (let bits = read_bits bs in
      concat (map (\<lambda>x. map (\<lambda>y. decode_pixel bits x y) [0..<4]) [0..<4]))"

definition etc2_decode :: "bytes \<Rightarrow> int \<Rightarrow> int \<Rightarrow> bytes option" where
  "etc2_decode blocks w h =
     (if w \<le> 0 \<or> h \<le> 0 \<or> cmod w 4 \<noteq> 0 \<or> cmod h 4 \<noteq> 0 then None
      else if length blocks < etc2_size w h then None
      else
        let cols = cdiv w 4 in
        Some (concat (map (\<lambda>Y. concat (map (\<lambda>X.
          let n = nat ((Y div 4) * cols + X div 4);
              c = decode_block (take 8 (drop (n * 8) blocks)) ! nat (X mod 4 * 4 + Y mod 4) in
          [word_of_int (c_b c), word_of_int (c_g c), word_of_int (c_r c), 255]) [0..w - 1])) [0..h - 1])))"

section \<open>Bit fields\<close>

lemma rgb_sel [simp]: "c_r (rgb r g b) = r" "c_g (rgb r g b) = g" "c_b (rgb r g b) = b"
  by (simp_all add: rgb_def)

lemma rgb_eqI: "c_r x = c_r y \<Longrightarrow> c_g x = c_g y \<Longrightarrow> c_b x = c_b y \<Longrightarrow> x = (y :: Rgb)"
  by simp

lemma bit_field: "bit (field k w v) n \<longleftrightarrow> k \<le> n \<and> n < 64 \<and> n - k < w \<and> bit v (n - k)"
  by (auto simp: field_def bit_simps)

lemma bit_get_field: "bit (get_field B k w) n \<longleftrightarrow> n < w \<and> bit B (k + n)"
  using bit_imp_le_length [of B "k + n"] by (auto simp: get_field_def bit_simps)

lemma index_bits_aux:
  "bit (fold (\<lambda>(pixel, index) w.
       w OR push_bit (16 + pixel) (word_of_int (drop_bit 1 index AND 1)) OR
       push_bit pixel (word_of_int (index AND 1))) pis (w0 :: u64)) n \<longleftrightarrow>
   bit w0 n \<or> n < 64 \<and> (\<exists>(p, i) \<in> set pis. n = 16 + p \<and> bit i 1 \<or> n = p \<and> bit i 0)"
proof (induction pis arbitrary: w0)
  case (Cons pi pis)
  obtain p i where pi: "pi = (p, i)" by fastforce
  show ?case unfolding pi fold_simps comp_apply prod.case Cons.IH
    by (auto simp: bit_simps bit_1_iff)
qed simp

lemma bit_index_bits:
  "bit (index_bits pis) n \<longleftrightarrow> n < 64 \<and> (\<exists>(p, i) \<in> set pis. n = 16 + p \<and> bit i 1 \<or> n = p \<and> bit i 0)"
  unfolding index_bits_def index_bits_aux by simp

section \<open>What a candidate stands for\<close>

definition base0 :: "Candidate \<Rightarrow> Rgb" where
  "base0 c = map_rgb (if cd_differential c then expand5 else expand4) (cd_q0 c)"

definition base1 :: "Candidate \<Rightarrow> Rgb" where
  "base1 c =
     (if cd_differential c
      then rgb (expand5 (c_r (cd_q0 c) + c_r (cd_q1 c))) (expand5 (c_g (cd_q0 c) + c_g (cd_q1 c)))
        (expand5 (c_b (cd_q0 c) + c_b (cd_q1 c)))
      else map_rgb expand4 (cd_q1 c))"

definition pixel_indices :: "Candidate \<Rightarrow> (nat \<times> int) list" where
  "pixel_indices c =
     zip (subblock_pixels (cd_flip c) 0) (cd_indices0 c) @ zip (subblock_pixels (cd_flip c) 1) (cd_indices1 c)"

definition reconstruct_pixel :: "Candidate \<Rightarrow> nat \<Rightarrow> nat \<Rightarrow> Rgb" where
  "reconstruct_pixel c x y =
     (let i = the (map_of (pixel_indices c) (x * 4 + y)) in
      if in_half (cd_flip c) 1 x y then add_modifier (base1 c) (modifier (cd_table1 c) i)
      else add_modifier (base0 c) (modifier (cd_table0 c) i))"

definition reconstruct :: "Candidate \<Rightarrow> Rgb list" where
  "reconstruct c = concat (map (\<lambda>x. map (\<lambda>y. reconstruct_pixel c x y) [0..<4]) [0..<4])"

definition in_range :: "int \<Rightarrow> Rgb \<Rightarrow> bool" where
  "in_range n c \<longleftrightarrow> 0 \<le> c_r c \<and> c_r c < n \<and> 0 \<le> c_g c \<and> c_g c < n \<and> 0 \<le> c_b c \<and> c_b c < n"

definition indices_ok :: "int list \<Rightarrow> bool" where
  "indices_ok is \<longleftrightarrow> length is = 8 \<and> (\<forall>i \<in> set is. 0 \<le> i \<and> i < 4)"

definition delta_ok :: "int \<Rightarrow> int \<Rightarrow> bool" where
  "delta_ok q d \<longleftrightarrow> -4 \<le> d \<and> d < 4 \<and> 0 \<le> q + d \<and> q + d < 32"

definition wf_candidate :: "Candidate \<Rightarrow> bool" where
  "wf_candidate c \<longleftrightarrow>
     (cd_flip c = 0 \<or> cd_flip c = 1) \<and> 0 \<le> cd_table0 c \<and> cd_table0 c < 8 \<and> 0 \<le> cd_table1 c \<and> cd_table1 c < 8 \<and>
     indices_ok (cd_indices0 c) \<and> indices_ok (cd_indices1 c) \<and>
     (if cd_differential c
      then in_range 32 (cd_q0 c) \<and> delta_ok (c_r (cd_q0 c)) (c_r (cd_q1 c)) \<and>
        delta_ok (c_g (cd_q0 c)) (c_g (cd_q1 c)) \<and> delta_ok (c_b (cd_q0 c)) (c_b (cd_q1 c))
      else in_range 16 (cd_q0 c) \<and> in_range 16 (cd_q1 c))"

lemma subblock_pixels_eval:
  "subblock_pixels 0 0 = [0, 1, 2, 3, 4, 5, 6, 7]" "subblock_pixels 0 1 = [8, 9, 10, 11, 12, 13, 14, 15]"
  "subblock_pixels 1 0 = [0, 1, 4, 5, 8, 9, 12, 13]" "subblock_pixels 1 1 = [2, 3, 6, 7, 10, 11, 14, 15]"
  by code_simp+

lemma subblock_pixels_part:
  assumes "flip = 0 \<or> flip = 1"
  shows "length (subblock_pixels flip 0) = 8" "length (subblock_pixels flip 1) = 8"
    "distinct (subblock_pixels flip 0 @ subblock_pixels flip 1)"
    "set (subblock_pixels flip 0 @ subblock_pixels flip 1) = {..<16}"
  using assms by (auto simp: subblock_pixels_eval lessThan_nat_numeral lessThan_Suc)

lemma pixel_indices_props:
  assumes "wf_candidate c"
  shows "distinct (map fst (pixel_indices c))" "fst ` set (pixel_indices c) = {..<16}"
    "(p, i) \<in> set (pixel_indices c) \<Longrightarrow> p < 16 \<and> 0 \<le> i \<and> i < 4"
proof -
  have f: "cd_flip c = 0 \<or> cd_flip c = 1" "length (cd_indices0 c) = 8" "length (cd_indices1 c) = 8"
    using assms by (auto simp: wf_candidate_def indices_ok_def)
  note sp = subblock_pixels_part [OF f(1)]
  have m: "map fst (pixel_indices c) = subblock_pixels (cd_flip c) 0 @ subblock_pixels (cd_flip c) 1"
    using f sp by (simp add: pixel_indices_def)
  show "distinct (map fst (pixel_indices c))" unfolding m by (fact sp(3))
  show s: "fst ` set (pixel_indices c) = {..<16}" unfolding m [folded set_map, symmetric] using m sp(4)
    by (metis list.set_map)
  assume pi: "(p, i) \<in> set (pixel_indices c)"
  then have "p < 16" using s by force
  moreover have "i \<in> set (cd_indices0 c) \<union> set (cd_indices1 c)"
    using pi by (auto simp: pixel_indices_def dest: set_zip_rightD)
  ultimately show "p < 16 \<and> 0 \<le> i \<and> i < 4" using assms by (auto simp: wf_candidate_def indices_ok_def)
qed

lemma bex_pair_unique:
  "(p, i) \<in> S \<Longrightarrow> (\<And>p' j. (p', j) \<in> S \<Longrightarrow> P p' j \<Longrightarrow> p' = p \<and> j = i) \<Longrightarrow> (\<exists>(p', j) \<in> S. P p' j) \<longleftrightarrow> P p i"
  by fast

lemma index_bits_candidate:
  assumes wf: "wf_candidate c"
  shows "32 \<le> n \<Longrightarrow> \<not> bit (index_bits (pixel_indices c)) n"
    and "p < 16 \<Longrightarrow> bit (index_bits (pixel_indices c)) p \<longleftrightarrow> bit (the (map_of (pixel_indices c) p)) 0"
    and "p < 16 \<Longrightarrow> bit (index_bits (pixel_indices c)) (16 + p) \<longleftrightarrow> bit (the (map_of (pixel_indices c) p)) 1"
    and "p < 16 \<Longrightarrow> 0 \<le> the (map_of (pixel_indices c) p) \<and> the (map_of (pixel_indices c) p) < 4"
proof -
  note pp = pixel_indices_props [OF wf]
  show "\<not> bit (index_bits (pixel_indices c)) n" if "32 \<le> n"
    using that pp(3) by (fastforce simp: bit_index_bits)
  assume p: "p < 16"
  then have "p \<in> fst ` set (pixel_indices c)" by (simp add: pp(2))
  then obtain i where i: "(p, i) \<in> set (pixel_indices c)" by auto
  then have m: "map_of (pixel_indices c) p = Some i" using pp(1) by simp
  have u: "j = i" if "(p, j) \<in> set (pixel_indices c)" for j using that i pp(1) by (metis eq_key_imp_eq_value)
  have "(\<exists>(p', j) \<in> set (pixel_indices c). p = 16 + p' \<and> bit j 1 \<or> p = p' \<and> bit j 0) \<longleftrightarrow> p = 16 + p \<and> bit i 1 \<or> p = p \<and> bit i 0"
    using i p u by (intro bex_pair_unique) (assumption, force)
  then show "bit (index_bits (pixel_indices c)) p \<longleftrightarrow> bit (the (map_of (pixel_indices c) p)) 0"
    unfolding bit_index_bits m using p by simp
  have "(\<exists>(p', j) \<in> set (pixel_indices c). 16 + p = 16 + p' \<and> bit j 1 \<or> 16 + p = p' \<and> bit j 0) \<longleftrightarrow>
      16 + p = 16 + p \<and> bit i 1 \<or> 16 + p = p \<and> bit i 0"
  proof (rule bex_pair_unique [OF i])
    fix p' j assume "(p', j) \<in> set (pixel_indices c)" "16 + p = 16 + p' \<and> bit j 1 \<or> 16 + p = p' \<and> bit j 0"
    moreover from this(1) have "p' < 16" by (blast dest: pp(3))
    ultimately show "p' = p \<and> j = i" using u by auto
  qed
  then show "bit (index_bits (pixel_indices c)) (16 + p) \<longleftrightarrow> bit (the (map_of (pixel_indices c) p)) 1"
    unfolding bit_index_bits m using p by simp
  show "0 \<le> the (map_of (pixel_indices c) p) \<and> the (map_of (pixel_indices c) p) < 4" using pp(3) [OF i] m by simp
qed

lemma get_field_or: "get_field (a OR b) k w = get_field a k w OR get_field b k w"
  by (rule bit_eqI) (auto simp: bit_get_field bit_or_iff)

lemma get_field_self: "k + w \<le> 64 \<Longrightarrow> get_field (field k w v) k w = v AND mask w"
  by (rule bit_eqI) (auto simp: bit_get_field bit_field bit_simps)

lemma get_field_other: "k + w \<le> k' \<or> k' + w' \<le> k \<Longrightarrow> get_field (field k' w' v) k w = 0"
  by (rule bit_eqI) (auto simp: bit_get_field bit_field)

lemma bit33_field: "push_bit 33 1 = field 33 1 1"
  by (simp add: field_def)

lemma get_field_indices: "wf_candidate c \<Longrightarrow> 32 \<le> k \<Longrightarrow> get_field (index_bits (pixel_indices c)) k w = 0"
  by (rule bit_eqI) (simp add: bit_get_field index_bits_candidate)

lemmas get_field_simps = get_field_or get_field_self get_field_other
  get_field_indices or.left_neutral or.right_neutral

lemma get_block_fields:
  assumes "wf_candidate c"
  shows "get_field (block_bits c) 37 3 = cd_table0 c AND mask 3"
    "get_field (block_bits c) 34 3 = cd_table1 c AND mask 3"
    "get_field (block_bits c) 32 1 = cd_flip c AND mask 1"
    "get_field (block_bits c) 33 1 = of_bool (cd_differential c)"
  unfolding block_bits_def bit33_field pixel_indices_def [symmetric]
  by (cases "cd_differential c"; simp add: get_field_simps assms)+

lemma get_differential_fields:
  assumes "wf_candidate c" "cd_differential c"
  shows "get_field (block_bits c) 59 5 = c_r (cd_q0 c) AND mask 5"
    "get_field (block_bits c) 51 5 = c_g (cd_q0 c) AND mask 5"
    "get_field (block_bits c) 43 5 = c_b (cd_q0 c) AND mask 5"
    "get_field (block_bits c) 56 3 = c_r (cd_q1 c) AND mask 3"
    "get_field (block_bits c) 48 3 = c_g (cd_q1 c) AND mask 3"
    "get_field (block_bits c) 40 3 = c_b (cd_q1 c) AND mask 3"
  unfolding block_bits_def bit33_field pixel_indices_def [symmetric]
  by (simp_all add: get_field_simps assms)

lemma get_individual_fields:
  assumes "wf_candidate c" "\<not> cd_differential c"
  shows "get_field (block_bits c) 60 4 = c_r (cd_q0 c) AND mask 4"
    "get_field (block_bits c) 52 4 = c_g (cd_q0 c) AND mask 4"
    "get_field (block_bits c) 44 4 = c_b (cd_q0 c) AND mask 4"
    "get_field (block_bits c) 56 4 = c_r (cd_q1 c) AND mask 4"
    "get_field (block_bits c) 48 4 = c_g (cd_q1 c) AND mask 4"
    "get_field (block_bits c) 40 4 = c_b (cd_q1 c) AND mask 4"
  unfolding block_bits_def bit33_field pixel_indices_def [symmetric]
  by (simp_all add: get_field_simps assms)

lemma get_index:
  assumes "wf_candidate c" "p < 16"
  shows "get_field (block_bits c) (16 + p) 1 * 2 + get_field (block_bits c) p 1 = the (map_of (pixel_indices c) p)"
proof -
  define i where "i = the (map_of (pixel_indices c) p)"
  note ib = index_bits_candidate(2-4) [OF assms, folded i_def]
  have hb: "get_field (block_bits c) k 1 = get_field (index_bits (pixel_indices c)) k 1" if "k < 32" for k
    unfolding block_bits_def bit33_field pixel_indices_def [symmetric]
    using that by (cases "cd_differential c") (simp_all add: get_field_or get_field_other)
  have g: "get_field B k 1 = of_bool (bit B k)" for B k
    by (rule bit_eqI) (auto simp: bit_get_field bit_of_bool_iff)
  have "i \<in> {0, 1, 2, 3}" using ib(3) by auto
  then have "of_bool (bit i 1) * 2 + of_bool (bit i 0) = i" by (auto simp: bit_iff_odd)
  then show ?thesis unfolding i_def [symmetric] using assms(2) ib(1,2) hb [of p] hb [of "16 + p"]
    unfolding g by simp
qed

lemma bit_fold_or:
  "n < 64 \<Longrightarrow> bit (fold (\<lambda>i w. w OR push_bit (k i) (f i)) is (w0 :: u64)) n \<longleftrightarrow>
     bit w0 n \<or> (\<exists>i \<in> set is. k i \<le> n \<and> bit (f i) (n - k i))"
  by (induction "is" arbitrary: w0) (auto simp: bit_simps)

lemma read_write_block: "read_bits (write_block c) = block_bits c"
proof (rule bit_word_eqI)
  fix n assume "n < LENGTH(64)"
  then have n: "n < 64" by simp
  have w: "bit (ucast (write_block c ! i) :: u64) m \<longleftrightarrow> m < 8 \<and> bit (block_bits c) (56 - i * 8 + m)" if "i < 8" for i m
    using that bit_imp_le_length [of "block_bits c" "56 - i * 8 + m"] by (auto simp: write_block_def bit_simps)
  define j where "j = 7 - n div 8"
  have "n div 8 < 8" "n = n div 8 * 8 + n mod 8" "n mod 8 < 8" using n by auto
  then have j: "j < 8" "56 - j * 8 \<le> n" "n - (56 - j * 8) < 8" unfolding j_def by linarith+
  have "bit (read_bits (write_block c)) n \<longleftrightarrow> (\<exists>i < 8. 56 - i * 8 \<le> n \<and> n - (56 - i * 8) < 8 \<and> bit (block_bits c) n)"
    unfolding read_bits_def bit_fold_or [OF n] by (auto simp: w)
  also have "\<dots> \<longleftrightarrow> bit (block_bits c) n" using j by blast
  finally show "bit (read_bits (write_block c)) n = bit (block_bits c) n" .
qed

lemma and_mask_small: "0 \<le> v \<Longrightarrow> v < 2 ^ w \<Longrightarrow> v AND mask w = (v :: int)"
  by (simp flip: take_bit_eq_mask add: take_bit_int_eq_self)

lemma sign3_and_mask:
  assumes "-4 \<le> d" "d < 4"
  shows "sign3 (d AND mask 3) = d"
proof -
  have "d \<in> {-4, -3, -2, -1, 0, 1, 2, 3}" using assms by auto
  then show ?thesis by (auto simp: sign3_def mask_eq_exp_minus_1)
qed

lemma decode_bases_block:
  assumes wf: "wf_candidate c"
  shows "decode_bases (block_bits c) = (base0 c, base1 c)"
proof (cases "cd_differential c")
  case True
  have d: "sign3 (v AND mask 3) = v" "clamp (q + v) 0 31 = q + v" if "delta_ok q v" for q v
    using that by (simp_all add: delta_ok_def sign3_and_mask)
  have w: "in_range 32 (cd_q0 c)" "delta_ok (c_r (cd_q0 c)) (c_r (cd_q1 c))"
    "delta_ok (c_g (cd_q0 c)) (c_g (cd_q1 c))" "delta_ok (c_b (cd_q0 c)) (c_b (cd_q1 c))"
    using wf True by (simp_all add: wf_candidate_def)
  show ?thesis using w(1) True
    unfolding decode_bases_def get_block_fields [OF wf] get_differential_fields [OF wf True] w(2-4) [THEN d(1)]
    by (simp add: Let_def base0_def base1_def map_rgb_def in_range_def and_mask_small w(2-4) [THEN d(2)])
next
  case False
  then have "in_range 16 (cd_q0 c)" "in_range 16 (cd_q1 c)" using wf by (simp_all add: wf_candidate_def)
  then show ?thesis using False
    unfolding decode_bases_def get_block_fields [OF wf] get_individual_fields [OF wf False]
    by (simp add: base0_def base1_def map_rgb_def in_range_def and_mask_small)
qed

lemma decode_write_block:
  assumes wf: "wf_candidate c"
  shows "decode_block (write_block c) = reconstruct c"
proof -
  have f: "get_field (block_bits c) 37 3 = cd_table0 c" "get_field (block_bits c) 34 3 = cd_table1 c"
    "get_field (block_bits c) 32 1 = cd_flip c"
    using wf unfolding get_block_fields [OF wf] by (auto simp: wf_candidate_def and_mask_small)
  have flip: "cd_flip c = 0 \<or> cd_flip c = 1" using wf by (simp add: wf_candidate_def)
  have "decode_pixel (block_bits c) x y = reconstruct_pixel c x y" if "x < 4" "y < 4" for x y
  proof -
    have "x * 4 + y < 16" using that by linarith
    then show ?thesis
      unfolding decode_pixel_def reconstruct_pixel_def Let_def get_index [OF wf, OF \<open>x * 4 + y < 16\<close>] decode_bases_block [OF wf] f(1-3)
      using flip by (auto simp: in_half_def)
  qed
  then show ?thesis by (auto simp: decode_block_def reconstruct_def read_write_block intro!: arg_cong [where f = concat])
qed

section \<open>The fit\<close>

definition indices_error :: "Rgb \<Rightarrow> int \<Rightarrow> Rgb list \<Rightarrow> int list \<Rightarrow> int" where
  "indices_error base table ps is = sum_list (map2 (\<lambda>p i. pixel_error base (modifier table i) p) ps is)"

abbreviation index_ok :: "int \<Rightarrow> bool" where
  "index_ok i \<equiv> 0 \<le> i \<and> i < 4"

lemma indices_error_simps [simp]:
  "indices_error base t [] is = 0" 
  "indices_error base t (p # ps) (i # is) = pixel_error base (modifier t i) p + indices_error base t ps is"
  by (simp_all add: indices_error_def)

lemma pixel_error_nonneg [simp]: "0 \<le> pixel_error base m p"
  by (simp add: pixel_error_def Let_def)

lemma indices_error_nonneg [simp]: "0 \<le> indices_error base t ps is"
  unfolding indices_error_def by (intro sum_list_nonneg) auto

lemma index_ok_cases: "index_ok i \<longleftrightarrow> i \<in> {0, 1, 2, 3}"
  by auto

lemma best_index_min:
  "best_index base t p is (pixel_error base (modifier t i) p, i) = (e, k) \<Longrightarrow>
     k \<in> insert i (set is) \<and> e = pixel_error base (modifier t k) p \<and>
     (\<forall>j \<in> insert i (set is). e \<le> pixel_error base (modifier t j) p)"
proof (induction "is" arbitrary: i)
  case (Cons j js)
  show ?case
  proof (cases "pixel_error base (modifier t j) p < pixel_error base (modifier t i) p")
    case True
    then show ?thesis using Cons.IH [of j] Cons.prems by (auto simp: Let_def)
  next
    case False
    then have "best_index base t p js (pixel_error base (modifier t i) p, i) = (e, k)"
      using Cons.prems pixel_error_nonneg [of base "modifier t i" p] by (simp add: Let_def not_less)
    from Cons.IH [OF this] show ?thesis using False by auto
  qed
qed auto

lemma fit_pixel_min:
  assumes "fit_pixel base t p = (e, i)"
  shows "index_ok i" "e = pixel_error base (modifier t i) p"
    "index_ok j \<Longrightarrow> e \<le> pixel_error base (modifier t j) p"
proof -
  have "best_index base t p [1, 2, 3] (pixel_error base (modifier t 0) p, 0) = (e, i)"
    using assms by (simp add: fit_pixel_def Let_def)
  note b = best_index_min [OF this]
  show "index_ok i" "e = pixel_error base (modifier t i) p" using b by auto
  show "e \<le> pixel_error base (modifier t j) p" if "index_ok j" using b that unfolding index_ok_cases by auto
qed

lemma fit_pixels_min:
  assumes "fit_pixels base t best ps error = (er, is)" "0 \<le> error"
  shows "length is = length ps \<and> (\<forall>i \<in> set is. index_ok i) \<and> 0 \<le> er \<and>
    (\<not> (0 \<le> best \<and> best \<le> er) \<longrightarrow> er = error + indices_error base t ps is) \<and>
    (\<forall>js. length js = length ps \<longrightarrow> (\<forall>j \<in> set js. index_ok j) \<longrightarrow>
       (if 0 \<le> best \<and> best \<le> er then best else er) \<le> error + indices_error base t ps js)"
  using assms
proof (induction ps arbitrary: error er "is")
  case (Cons p ps)
  obtain e i where ei: "fit_pixel base t p = (e, i)" by fastforce
  note fp = fit_pixel_min [OF ei]
  obtain er' is' where rec: "fit_pixels base t best ps (error + e) = (er', is')" by fastforce
  have e0: "0 \<le> error + e" using fp(2) Cons.prems(2) by simp
  note IH = Cons.IH [OF rec e0]
  show ?case
  proof (cases "0 \<le> best \<and> best \<le> error + e")
    case True
    then have s: "er = error + e" "is = i # replicate (length ps) 0" using Cons.prems(1) ei by auto
    have "best \<le> error + indices_error base t (p # ps) js"
      if js: "length js = length (p # ps)" "\<forall>j \<in> set js. index_ok j" for js
    proof -
      obtain j ks where [simp]: "js = j # ks" using js(1) by (cases js) auto
      have "e \<le> pixel_error base (modifier t j) p" using fp(3) [of j] js(2) by simp
      then show ?thesis using True indices_error_nonneg [of base t ps ks] unfolding \<open>js = j # ks\<close> indices_error_simps by linarith
    qed
    then show ?thesis using True s fp(1) e0 by auto
  next
    case False
    then have s: "er = er'" "is = i # is'" using Cons.prems(1) ei rec by (auto simp: Let_def)
    have "(if 0 \<le> best \<and> best \<le> er then best else er) \<le> error + indices_error base t (p # ps) js"
      if js: "length js = length (p # ps)" "\<forall>j \<in> set js. index_ok j" for js
    proof -
      obtain j ks where [simp]: "js = j # ks" using js(1) by (cases js) auto
      have "e \<le> pixel_error base (modifier t j) p" using fp(3) [of j] js(2) by simp
      moreover have "(if 0 \<le> best \<and> best \<le> er then best else er) \<le> error + e + indices_error base t ps ks"
        using IH [THEN conjunct2, THEN conjunct2, THEN conjunct2, THEN conjunct2, rule_format, of ks] js s by (simp split: if_splits)
      ultimately show ?thesis unfolding \<open>js = j # ks\<close> indices_error_simps by linarith
    qed
    then show ?thesis using IH s fp(1,2) by (auto simp: algebra_simps)
  qed
qed auto

definition fit_ok :: "Rgb \<Rightarrow> Rgb list \<Rightarrow> int \<times> int \<times> int list \<Rightarrow> bool" where
  "fit_ok base ps = (\<lambda>(e, t, is). 0 \<le> e \<and> 0 \<le> t \<and> t < 8 \<and> length is = length ps \<and>
     (\<forall>i \<in> set is. index_ok i) \<and> e = indices_error base t ps is)"

lemma fit_tables_min:
  assumes "fst st < 0 \<or> fit_ok base ps st" "\<forall>t \<in> set ts. 0 \<le> t \<and> t < 8" "fst st < 0 \<longrightarrow> ts \<noteq> []"
  shows "fit_ok base ps (fit_tables base ps ts st) \<and> (0 \<le> fst st \<longrightarrow> fst (fit_tables base ps ts st) \<le> fst st) \<and>
    (\<forall>t \<in> set ts. \<forall>js. length js = length ps \<longrightarrow> (\<forall>j \<in> set js. index_ok j) \<longrightarrow>
       fst (fit_tables base ps ts st) \<le> indices_error base t ps js)"
  using assms
proof (induction ts arbitrary: st)
  case (Cons t ts)
  obtain b tab idx where st: "st = (b, tab, idx)" by (cases st)
  obtain er "is" where rec: "fit_pixels base t b ps 0 = (er, is)" by fastforce
  note f = fit_pixels_min [OF rec order_refl]
  define st' where "st' = (if b < 0 \<or> er < b then (er, t, is) else (b, tab, idx))"
  have r: "fit_tables base ps (t # ts) st = fit_tables base ps ts st'" by (simp add: st rec st'_def)
  have ok: "fit_ok base ps st'"
    using f Cons.prems by (auto simp: st'_def fit_ok_def st)
  then have "0 \<le> fst st'" by (auto simp: fit_ok_def)
  have IH: "fit_ok base ps (fit_tables base ps ts st')" "fst (fit_tables base ps ts st') \<le> fst st'"
    "\<forall>t \<in> set ts. \<forall>js. length js = length ps \<longrightarrow> (\<forall>j \<in> set js. index_ok j) \<longrightarrow>
       fst (fit_tables base ps ts st') \<le> indices_error base t ps js"
    using Cons.IH [of st'] ok Cons.prems(2) \<open>0 \<le> fst st'\<close> by auto
  have "fst st' \<le> indices_error base t ps js" if "length js = length ps" "\<forall>j \<in> set js. index_ok j" for js
    using f that by (auto simp: st'_def split: if_splits)
  moreover have "0 \<le> fst st \<longrightarrow> fst st' \<le> fst st" by (auto simp: st'_def st)
  ultimately show ?case using IH unfolding r by (auto intro: order_trans)
qed auto

lemma fit_subblock_min:
  assumes "fit_subblock ps base = (e, t, is)"
  shows "0 \<le> e" "0 \<le> t" "t < 8" "length is = length ps" "\<forall>i \<in> set is. index_ok i"
    "e = indices_error base t ps is"
    "0 \<le> t' \<Longrightarrow> t' < 8 \<Longrightarrow> length js = length ps \<Longrightarrow> \<forall>j \<in> set js. index_ok j \<Longrightarrow> e \<le> indices_error base t' ps js"
proof -
  note f = fit_tables_min [of "(-1, 0, replicate 8 0)" base ps "[0, 1, 2, 3, 4, 5, 6, 7]", folded fit_subblock_def, unfolded assms]
  show "0 \<le> e" "0 \<le> t" "t < 8" "length is = length ps" "\<forall>i \<in> set is. index_ok i"
    "e = indices_error base t ps is" using f by (auto simp: fit_ok_def)
  assume t': "0 \<le> t'" "t' < 8" "length js = length ps" "\<forall>j \<in> set js. index_ok j"
  then have "t' \<in> set [0, 1, 2, 3, 4, 5, 6, 7]" by auto
  moreover note f [THEN conjunct2, THEN conjunct2]
  ultimately show "e \<le> indices_error base t' ps js" using t'(3,4) unfolding fst_conv by simp blast
qed

section \<open>The block\<close>

definition sq_error :: "Rgb \<Rightarrow> Rgb \<Rightarrow> int" where
  "sq_error a b = (c_r a - c_r b) ^ 2 + (c_g a - c_g b) ^ 2 + (c_b a - c_b b) ^ 2"

definition block_error :: "Rgb list \<Rightarrow> Rgb list \<Rightarrow> int" where
  "block_error decoded block = sum_list (map (\<lambda>k. sq_error (decoded ! k) (block ! k)) [0..<16])"

lemma pixel_error_sq: "pixel_error base m p = sq_error (add_modifier base m) p"
  by (simp add: pixel_error_def sq_error_def add_modifier_def Let_def power2_eq_square)

lemma reconstruct_nth: "k < 16 \<Longrightarrow> reconstruct c ! k = reconstruct_pixel c (k div 4) (k mod 4)"
proof -
  assume "k < 16"
  then have "k = 0 \<or> k = 1 \<or> k = 2 \<or> k = 3 \<or> k = 4 \<or> k = 5 \<or> k = 6 \<or> k = 7 \<or> k = 8 \<or> k = 9 \<or> k = 10 \<or>
    k = 11 \<or> k = 12 \<or> k = 13 \<or> k = 14 \<or> k = 15" by presburger
  moreover have "[0..<4] = [0, 1, 2, 3]" by code_simp
  ultimately show ?thesis unfolding reconstruct_def by (elim disjE) simp_all
qed

lemma in_half_subblock:
  assumes "flip = 0 \<or> flip = 1" "half = 0 \<or> half = 1" "k \<in> set (subblock_pixels flip half)"
  shows "in_half flip 1 (k div 4) (k mod 4) \<longleftrightarrow> half = 1"
  using assms by (elim disjE) (auto simp: subblock_pixels_eval in_half_def)

lemma half_error:
  assumes "length is = length sp"
    "\<And>k i. (k, i) \<in> set (zip sp is) \<Longrightarrow> f k = pixel_error base (modifier t i) (block ! k)"
  shows "sum_list (map f sp) = indices_error base t (map (\<lambda>i. block ! i) sp) is"
proof -
  have "map f sp = map (\<lambda>(k, i). f k) (zip sp is)" by (rule nth_equalityI) (use assms(1) in auto)
  then have "sum_list (map f sp) = sum_list (map (\<lambda>(k, i). f k) (zip sp is))" by (rule arg_cong)
  also have "\<dots> = sum_list (map (\<lambda>(k, i). pixel_error base (modifier t i) (block ! k)) (zip sp is))"
    using assms(2) by (intro arg_cong [where f = sum_list] map_cong) auto
  also have "\<dots> = indices_error base t (map (\<lambda>i. block ! i) sp) is"
    by (simp add: indices_error_def zip_map1 comp_def split_def)
  finally show ?thesis .
qed

lemma block_error_halves:
  assumes wf: "wf_candidate c"
  shows "block_error (reconstruct c) block =
    indices_error (base0 c) (cd_table0 c) (half_pixels block (cd_flip c) 0) (cd_indices0 c) +
    indices_error (base1 c) (cd_table1 c) (half_pixels block (cd_flip c) 1) (cd_indices1 c)"
proof -
  let ?f = "\<lambda>k. sq_error (reconstruct c ! k) (block ! k)"
  let ?p0 = "subblock_pixels (cd_flip c) 0" and ?p1 = "subblock_pixels (cd_flip c) 1"
  have flip: "cd_flip c = 0 \<or> cd_flip c = 1" and len: "length (cd_indices0 c) = 8" "length (cd_indices1 c) = 8"
    using wf by (auto simp: wf_candidate_def indices_ok_def)
  note sp = subblock_pixels_part [OF flip]
  have "block_error (reconstruct c) block = sum ?f (set [0..<16])"
    unfolding block_error_def by (rule sum_list_distinct_conv_sum_set) simp
  also have "set [0..<16] = set (?p0 @ ?p1)" unfolding sp(4) by auto
  also have "sum ?f \<dots> = sum_list (map ?f (?p0 @ ?p1))" using sum_list_distinct_conv_sum_set [OF sp(3)] by metis
  also have "\<dots> = sum_list (map ?f ?p0) + sum_list (map ?f ?p1)" by simp
  also have "sum_list (map ?f ?p0) = indices_error (base0 c) (cd_table0 c) (half_pixels block (cd_flip c) 0) (cd_indices0 c)"
    unfolding half_pixels_def
  proof (rule half_error)
    fix k i assume ki: "(k, i) \<in> set (zip ?p0 (cd_indices0 c))"
    then have "(k, i) \<in> set (pixel_indices c)" by (simp add: pixel_indices_def)
    with pixel_indices_props [OF wf] have "map_of (pixel_indices c) k = Some i" "k < 16" by auto
    moreover have "\<not> in_half (cd_flip c) 1 (k div 4) (k mod 4)"
      using in_half_subblock [OF flip, of 0 k] set_zip_leftD [OF ki] by simp
    ultimately show "?f k = pixel_error (base0 c) (modifier (cd_table0 c) i) (block ! k)"
      by (simp add: reconstruct_nth reconstruct_pixel_def pixel_error_sq)
  qed (use len sp in simp)
  also have "sum_list (map ?f ?p1) = indices_error (base1 c) (cd_table1 c) (half_pixels block (cd_flip c) 1) (cd_indices1 c)"
    unfolding half_pixels_def
  proof (rule half_error)
    fix k i assume ki: "(k, i) \<in> set (zip ?p1 (cd_indices1 c))"
    then have "(k, i) \<in> set (pixel_indices c)" by (simp add: pixel_indices_def)
    with pixel_indices_props [OF wf] have "map_of (pixel_indices c) k = Some i" "k < 16" by auto
    moreover have "in_half (cd_flip c) 1 (k div 4) (k mod 4)"
      using in_half_subblock [OF flip, of 1 k] set_zip_leftD [OF ki] by simp
    ultimately show "?f k = pixel_error (base1 c) (modifier (cd_table1 c) i) (block ! k)"
      by (simp add: reconstruct_nth reconstruct_pixel_def pixel_error_sq)
  qed (use len sp in simp)
  finally show ?thesis .
qed

lemma half_pixels_length: "flip = 0 \<or> flip = 1 \<Longrightarrow> half = 0 \<or> half = 1 \<Longrightarrow> length (half_pixels block flip half) = 8"
  unfolding half_pixels_def using subblock_pixels_part(1,2) [of flip] by auto

lemma quant_range: "0 \<le> quant4 v \<and> quant4 v < 16" "0 \<le> quant5 v \<and> quant5 v < 32"
  using clamp_le [of 0 "15 :: int"] clamp_ge [of 0 "15 :: int"] clamp_le [of 0 "31 :: int"] clamp_ge [of 0 "31 :: int"]
  by (auto simp: quant4_def quant5_def zle_add1_eq_le simp flip: zle_add1_eq_le [of _ 15, simplified] zle_add1_eq_le [of _ 31, simplified])

lemma second_base_ok: "0 \<le> q \<Longrightarrow> q < 32 \<Longrightarrow> delta_ok q (second_base q v - q)"
  by (auto simp: delta_ok_def second_base_def clamp_def)

text \<open>The four choices of base colours the encoder considers for a block.\<close>

definition candidates :: "Rgb list \<Rightarrow> Candidate list" where
  "candidates block =
     [individual_candidate block 0, differential_candidate block 0,
      individual_candidate block 1, differential_candidate block 1]"

definition same_bases :: "Candidate \<Rightarrow> Candidate \<Rightarrow> bool" where
  "same_bases c d \<longleftrightarrow> cd_flip c = cd_flip d \<and> base0 c = base0 d \<and> base1 c = base1 d"

definition fitted :: "Rgb list \<Rightarrow> Candidate \<Rightarrow> bool" where
  "fitted block c \<longleftrightarrow> wf_candidate c \<and> cd_error c = block_error (reconstruct c) block \<and>
     (\<forall>d. wf_candidate d \<longrightarrow> same_bases d c \<longrightarrow> cd_error c \<le> block_error (reconstruct d) block)"

lemma fittedI:
  assumes wf: "wf_candidate c"
    and f0: "fit_subblock (half_pixels block (cd_flip c) 0) (base0 c) = (e0, cd_table0 c, cd_indices0 c)"
    and f1: "fit_subblock (half_pixels block (cd_flip c) 1) (base1 c) = (e1, cd_table1 c, cd_indices1 c)"
    and e: "cd_error c = e0 + e1"
  shows "fitted block c"
  unfolding fitted_def
proof (intro conjI allI impI)
  have flip: "cd_flip c = 0 \<or> cd_flip c = 1" using wf by (simp add: wf_candidate_def)
  note len = half_pixels_length [OF flip, of _ block]
  show "cd_error c = block_error (reconstruct c) block"
    unfolding block_error_halves [OF wf] e fit_subblock_min(6) [OF f0] fit_subblock_min(6) [OF f1] ..
  fix d assume d: "wf_candidate d" "same_bases d c"
  then have dt: "0 \<le> cd_table0 d" "cd_table0 d < 8" "0 \<le> cd_table1 d" "cd_table1 d < 8"
    "length (cd_indices0 d) = 8" "length (cd_indices1 d) = 8"
    "\<forall>i \<in> set (cd_indices0 d). index_ok i" "\<forall>i \<in> set (cd_indices1 d). index_ok i"
    by (auto simp: wf_candidate_def indices_ok_def)
  have "e0 \<le> indices_error (base0 c) (cd_table0 d) (half_pixels block (cd_flip c) 0) (cd_indices0 d)"
    using dt len by (intro fit_subblock_min(7) [OF f0]) simp_all
  moreover have "e1 \<le> indices_error (base1 c) (cd_table1 d) (half_pixels block (cd_flip c) 1) (cd_indices1 d)"
    using dt len by (intro fit_subblock_min(7) [OF f1]) simp_all
  ultimately show "cd_error c \<le> block_error (reconstruct d) block"
    using d(2) unfolding block_error_halves [OF d(1)] e by (simp add: same_bases_def)
qed (fact wf)

lemma individual_fitted:
  assumes flip: "flip = 0 \<or> flip = 1"
  shows "fitted block (individual_candidate block flip)"
proof -
  let ?c = "individual_candidate block flip"
  define q0 where "q0 = map_rgb quant4 (half_average (half_pixels block flip 0))"
  define q1 where "q1 = map_rgb quant4 (half_average (half_pixels block flip 1))"
  obtain e0 t0 i0 where f0: "fit_subblock (half_pixels block flip 0) (map_rgb expand4 q0) = (e0, t0, i0)" by (metis prod_cases3)
  obtain e1 t1 i1 where f1: "fit_subblock (half_pixels block flip 1) (map_rgb expand4 q1) = (e1, t1, i1)" by (metis prod_cases3)
  have c: "?c = \<lparr>cd_error = e0 + e1, cd_flip = flip, cd_differential = False, cd_q0 = q0, cd_q1 = q1,
       cd_table0 = t0, cd_table1 = t1, cd_indices0 = i0, cd_indices1 = i1\<rparr>"
    using f0 f1 by (simp add: individual_candidate_def Let_def q0_def q1_def)
  have "in_range 16 q0" "in_range 16 q1" by (simp_all add: q0_def q1_def in_range_def map_rgb_def quant_range)
  then have wf: "wf_candidate ?c"
    using flip fit_subblock_min(2-5) [OF f0] fit_subblock_min(2-5) [OF f1] half_pixels_length [OF flip, of _ block]
    by (simp add: c wf_candidate_def indices_ok_def)
  show ?thesis by (rule fittedI [OF wf, of _ e0 e1]) (simp_all add: c base0_def base1_def f0 f1)
qed

lemma differential_fitted:
  assumes flip: "flip = 0 \<or> flip = 1"
  shows "fitted block (differential_candidate block flip)"
proof -
  let ?c = "differential_candidate block flip"
  define q0 where "q0 = map_rgb quant5 (half_average (half_pixels block flip 0))"
  define w where "w = map_rgb quant5 (half_average (half_pixels block flip 1))"
  define s where "s = rgb (second_base (c_r q0) (c_r w)) (second_base (c_g q0) (c_g w)) (second_base (c_b q0) (c_b w))"
  define d where "d = rgb (c_r s - c_r q0) (c_g s - c_g q0) (c_b s - c_b q0)"
  obtain e0 t0 i0 where f0: "fit_subblock (half_pixels block flip 0) (map_rgb expand5 q0) = (e0, t0, i0)" by (metis prod_cases3)
  obtain e1 t1 i1 where f1: "fit_subblock (half_pixels block flip 1) (map_rgb expand5 s) = (e1, t1, i1)" by (metis prod_cases3)
  have c: "?c = \<lparr>cd_error = e0 + e1, cd_flip = flip, cd_differential = True, cd_q0 = q0, cd_q1 = d,
       cd_table0 = t0, cd_table1 = t1, cd_indices0 = i0, cd_indices1 = i1\<rparr>"
    using f0 f1 by (simp add: differential_candidate_def Let_def q0_def w_def s_def d_def)
  have q: "in_range 32 q0" by (simp add: q0_def in_range_def map_rgb_def quant_range)
  then have "delta_ok (c_r q0) (c_r d)" "delta_ok (c_g q0) (c_g d)" "delta_ok (c_b q0) (c_b d)"
    by (simp_all add: d_def s_def in_range_def second_base_ok)
  then have wf: "wf_candidate ?c" using q
    using flip fit_subblock_min(2-5) [OF f0] fit_subblock_min(2-5) [OF f1] half_pixels_length [OF flip, of _ block]
    by (simp add: c wf_candidate_def indices_ok_def)
  have b1: "base1 ?c = map_rgb expand5 s" by (simp add: c base1_def d_def map_rgb_def)
  show ?thesis by (rule fittedI [OF wf, of _ e0 e1], unfold b1) (simp_all add: c base0_def f0 f1)
qed

lemma candidates_fitted: "c \<in> set (candidates block) \<Longrightarrow> fitted block c"
  by (auto simp: candidates_def individual_fitted differential_fitted)

lemma fold_better_min:
  "\<forall>c \<in> insert b (set cs). 0 \<le> cd_error c \<Longrightarrow>
     fold better cs b \<in> insert b (set cs) \<and> (\<forall>c \<in> insert b (set cs). cd_error (fold better cs b) \<le> cd_error c)"
proof (induction cs arbitrary: b)
  case (Cons c cs)
  from Cons.prems Cons.IH [of "better c b"] show ?case by (auto simp: better_def split: if_splits)
qed simp

lemma encode_block_min:
  "encode_block block \<in> set (candidates block)"
  "c \<in> set (candidates block) \<Longrightarrow> cd_error (encode_block block) \<le> cd_error c"
proof -
  have "0 \<le> cd_error c" if "c \<in> set (candidates block)" for c
  proof -
    have "cd_error c = block_error (reconstruct c) block" using candidates_fitted [OF that] by (simp add: fitted_def)
    then show ?thesis by (auto simp: block_error_def sq_error_def intro!: sum_list_nonneg)
  qed
  moreover have "encode_block block = fold better (tl (candidates block)) (individual_candidate block 0)"
    by (simp add: encode_block_def candidates_def candidate_init_def better_def [of "individual_candidate block 0"])
  moreover have "set (candidates block) = insert (individual_candidate block 0) (set (tl (candidates block)))"
    by (simp add: candidates_def)
  ultimately show "encode_block block \<in> set (candidates block)"
    "c \<in> set (candidates block) \<Longrightarrow> cd_error (encode_block block) \<le> cd_error c"
    using fold_better_min [of "individual_candidate block 0" "tl (candidates block)"] by metis+
qed

section \<open>Images\<close>

lemma nth_concat_uniform:
  "\<forall>xs \<in> set xss. length xs = n \<Longrightarrow> j < length xss \<Longrightarrow> i < n \<Longrightarrow> concat xss ! (j * n + i) = xss ! j ! i"
proof (induction xss arbitrary: j)
  case (Cons xs xss)
  then show ?case by (cases j) (auto simp: nth_append add.assoc)
qed simp

lemma length_concat_uniform: "\<forall>xs \<in> set xss. length xs = n \<Longrightarrow> length (concat xss) = length xss * n"
  by (induction xss) auto

lemma chunk_concat_uniform:
  assumes "\<forall>xs \<in> set xss. length xs = n" "j < length xss"
  shows "take n (drop (j * n) (concat xss)) = xss ! j"
proof (rule nth_equalityI)
  have "Suc j * n \<le> length (concat xss)"
    unfolding length_concat_uniform [OF assms(1)] using assms(2) by (intro mult_right_mono) auto
  then show l: "length (take n (drop (j * n) (concat xss))) = length (xss ! j)" using assms by (simp add: le_diff_conv2)
  fix i assume "i < length (take n (drop (j * n) (concat xss)))"
  then have "i < n" "j * n + i < length (concat xss)" by auto
  then show "take n (drop (j * n) (concat xss)) ! i = xss ! j ! i" using nth_concat_uniform [OF assms] by simp
qed

lemma concat_map_concat: "concat (map (\<lambda>y. concat (f y)) ys) = concat (concat (map f ys))"
  by (induction ys) simp_all

lemma raster_chunk:
  fixes f :: "int \<Rightarrow> int \<Rightarrow> 'a list"
  assumes len: "\<And>x y. length (f x y) = n" and x: "0 \<le> x" "x < w" and y: "0 \<le> y" "y < h"
  shows "take n (drop (nat (y * w + x) * n) (concat (map (\<lambda>y. concat (map (\<lambda>x. f x y) [0..w - 1])) [0..h - 1]))) = f x y"
    and "length (concat (map (\<lambda>y. concat (map (\<lambda>x. f x y) [0..w - 1])) [0..h - 1])) = nat w * nat h * n"
proof -
  let ?rows = "map (\<lambda>y. map (\<lambda>x. f x y) [0..w - 1]) [0..h - 1]"
  have c: "concat (map (\<lambda>y. concat (map (\<lambda>x. f x y) [0..w - 1])) [0..h - 1]) = concat (concat ?rows)"
    by (simp add: concat_map_concat)
  have rows: "\<forall>r \<in> set ?rows. length r = nat w" by auto
  have cells: "\<forall>r \<in> set (concat ?rows). length r = n" using len by auto
  have lr: "length (concat ?rows) = nat h * nat w" unfolding length_concat_uniform [OF rows] by simp
  show "length (concat (map (\<lambda>y. concat (map (\<lambda>x. f x y) [0..w - 1])) [0..h - 1])) = nat w * nat h * n"
    unfolding c length_concat_uniform [OF cells] lr by simp
  have k: "nat (y * w + x) = nat y * nat w + nat x" using x y by (simp add: nat_add_distrib nat_mult_distrib)
  have "nat y * nat w + nat x < nat h * nat w"
  proof -
    have "nat y * nat w + nat x < Suc (nat y) * nat w" using x by auto
    also have "\<dots> \<le> nat h * nat w" using y by (intro mult_right_mono) auto
    finally show ?thesis .
  qed
  then have "take n (drop (nat (y * w + x) * n) (concat (concat ?rows))) = concat ?rows ! (nat y * nat w + nat x)"
    unfolding k using lr by (intro chunk_concat_uniform [OF cells]) simp
  also have "\<dots> = ?rows ! nat y ! nat x" using x y by (intro nth_concat_uniform [OF rows]) auto
  also have "\<dots> = f x y" using x y by (simp add: nth_upto)
  finally show "take n (drop (nat (y * w + x) * n) (concat (map (\<lambda>y. concat (map (\<lambda>x. f x y) [0..w - 1])) [0..h - 1]))) = f x y"
    unfolding c .
qed

lemma write_block_length: "length (write_block c) = 8"
  by (simp add: write_block_def)

lemma etc2_encode_length:
  assumes "etc2_encode bgra w h stride = Some bs"
  shows "0 < w" "0 < h" "w mod 4 = 0" "h mod 4 = 0" "length bs = etc2_size w h"
proof -
  show g: "0 < w" "0 < h" "w mod 4 = 0" "h mod 4 = 0"
    using assms by (auto simp: etc2_encode_def not_le split: if_splits)
  then have "0 < w div 4" "0 < h div 4" by auto
  then show "length bs = etc2_size w h"
    using assms g raster_chunk(2) [of "\<lambda>bx by'. write_block (encode_block (block_at bgra stride bx by'))" 8 0 "w div 4" 0 "h div 4"]
    by (auto simp: etc2_encode_def Let_def etc2_size_def kEtc2BlockSize_def kEtc2BlockBytes_def write_block_length)
qed

section \<open>Properties\<close>

text \<open>
  C27: The block encoder is optimal for the base colours it considers, and honest about its error:
  decoding the eight bytes it writes gives exactly the picture it fitted, the error it recorded is
  the squared error of that decoded picture, and no choice of modifier tables and pixel indices
  over the bases of any of its four candidates (two splits, two colour modes) decodes to a picture
  nearer the block.
\<close>

theorem etc2_block_optimal:
  "decode_block (write_block (encode_block block)) = reconstruct (encode_block block) \<and>
   cd_error (encode_block block) = block_error (decode_block (write_block (encode_block block))) block \<and>
   (\<forall>b \<in> set (candidates block). \<forall>d. wf_candidate d \<and> same_bases d b \<longrightarrow>
     cd_error (encode_block block) \<le> block_error (decode_block (write_block d)) block)"
proof (intro conjI ballI allI impI)
  note e = candidates_fitted [OF encode_block_min(1), of block]
  then have wf: "wf_candidate (encode_block block)" by (simp add: fitted_def)
  show "decode_block (write_block (encode_block block)) = reconstruct (encode_block block)"
    by (rule decode_write_block [OF wf])
  show "cd_error (encode_block block) = block_error (decode_block (write_block (encode_block block))) block"
    unfolding decode_write_block [OF wf] using e by (simp add: fitted_def)
  fix b d assume b: "b \<in> set (candidates block)" and d: "wf_candidate d \<and> same_bases d b"
  have "cd_error (encode_block block) \<le> cd_error b" by (rule encode_block_min(2) [OF b])
  also have "\<dots> \<le> block_error (decode_block (write_block d)) block"
    unfolding decode_write_block [OF conjunct1 [OF d]] using candidates_fitted [OF b] d unfolding fitted_def by blast
  finally show "cd_error (encode_block block) \<le> block_error (decode_block (write_block d)) block" .
qed

theorem etc2_block_optimal_witness:
  "cd_error (encode_block (replicate 16 (rgb 12 200 7))) \<le>
     block_error (decode_block (write_block
       \<lparr>cd_error = 0, cd_flip = 0, cd_differential = False, cd_q0 = rgb 1 12 0, cd_q1 = rgb 1 12 0,
        cd_table0 = 7, cd_table1 = 3, cd_indices0 = [0, 1, 2, 3, 0, 1, 2, 3], cd_indices1 = replicate 8 3\<rparr>))
       (replicate 16 (rgb 12 200 7))"
proof (rule etc2_block_optimal [THEN conjunct2, THEN conjunct2, rule_format])
  show "individual_candidate (replicate 16 (rgb 12 200 7)) 0 \<in> set (candidates (replicate 16 (rgb 12 200 7)))"
    by (simp add: candidates_def)
qed code_simp

text \<open>
  An image whose sides are multiples of four always encodes, to exactly \<open>etc2_size\<close> bytes,
  and that always decodes, to four bytes a pixel; the pixel at (X, Y) of the decoded image is the
  one its 4x4 block was fitted with, so blocks are written and read in the same order.
\<close>

theorem etc2_image_roundtrip:
  assumes "0 < w" "0 < h" "w mod 4 = 0" "h mod 4 = 0"
  shows "\<exists>bs out. etc2_encode bgra w h stride = Some bs \<and> length bs = etc2_size w h \<and>
    etc2_decode bs w h = Some out \<and> length out = nat w * nat h * 4 \<and>
    (\<forall>X Y. 0 \<le> X \<and> X < w \<and> 0 \<le> Y \<and> Y < h \<longrightarrow>
      (let c = reconstruct (encode_block (block_at bgra stride (X div 4) (Y div 4))) ! nat (X mod 4 * 4 + Y mod 4) in
       take 4 (drop (nat (Y * w + X) * 4) out) =
         [word_of_int (c_b c), word_of_int (c_g c), word_of_int (c_r c), 255]))"
proof -
  define B where "B = (\<lambda>bx by'. write_block (encode_block (block_at bgra stride bx by')))"
  define bs where "bs = concat (map (\<lambda>by'. concat (map (\<lambda>bx. B bx by') [0..w div 4 - 1])) [0..h div 4 - 1])"
  have d: "0 < w div 4" "0 < h div 4" "w div 4 * 4 = w" "h div 4 * 4 = h" using assms by auto
  have enc: "etc2_encode bgra w h stride = Some bs" using assms by (simp add: etc2_encode_def Let_def bs_def B_def)
  have lB: "length (B x y) = 8" for x y by (simp add: B_def write_block_length)
  have len: "length bs = etc2_size w h" by (rule etc2_encode_length(5) [OF enc])
  define P where "P = (\<lambda>X Y. let n = nat ((Y div 4) * (w div 4) + X div 4);
      c = decode_block (take 8 (drop (n * 8) bs)) ! nat (X mod 4 * 4 + Y mod 4) in
      [word_of_int (c_b c), word_of_int (c_g c), word_of_int (c_r c), 255 :: u8])"
  define out where "out = concat (map (\<lambda>Y. concat (map (\<lambda>X. P X Y) [0..w - 1])) [0..h - 1])"
  have dec: "etc2_decode bs w h = Some out" using assms len by (simp add: etc2_decode_def Let_def out_def P_def)
  have lP: "length (P x y) = 4" for x y by (simp add: P_def Let_def)
  have lo: "length out = nat w * nat h * 4" unfolding out_def
    using raster_chunk(2) [of P 4 0 w 0 h] lP assms by simp
  have px: "take 4 (drop (nat (Y * w + X) * 4) out) = P X Y" if "0 \<le> X" "X < w" "0 \<le> Y" "Y < h" for X Y
    unfolding out_def by (rule raster_chunk(1) [OF lP that])
  have bl: "take 8 (drop (nat ((Y div 4) * (w div 4) + X div 4) * 8) bs) = B (X div 4) (Y div 4)"
    if "0 \<le> X" "X < w" "0 \<le> Y" "Y < h" for X Y
    unfolding bs_def using that d by (intro raster_chunk(1) [OF lB]) (auto simp: zdiv_less_iff)
  have B: "decode_block (B x y) = reconstruct (encode_block (block_at bgra stride x y))" for x y
    unfolding B_def using decode_write_block candidates_fitted [OF encode_block_min(1)] by (simp add: fitted_def)
  show ?thesis using enc len dec lo px by (intro exI [of _ bs] exI [of _ out]) (simp add: P_def bl B)
qed

theorem etc2_image_roundtrip_witness:
  "\<exists>bs out. etc2_encode (replicate 128 77) 8 4 32 = Some bs \<and> length bs = 16 \<and>
    etc2_decode bs 8 4 = Some out \<and> length out = 128"
  using etc2_image_roundtrip [of 8 4 "replicate 128 77" 32]
  by (auto simp: etc2_size_def kEtc2BlockSize_def kEtc2BlockBytes_def)

end
