(* ===== verification/FrameSender.thy ===== *)
theory FrameSender
  imports Etc2 TileScheduler Messages
begin

text \<open>
  The screen sender of \<open>host/src/screen/FrameSender.hpp\<close> and \<open>FrameSender.cpp\<close>, over the interface of
  \<open>FrameSource.hpp\<close>: it applies viewport requests, collects the damage of captured frames, asks the
  scheduler for a batch of tiles, cuts them out of the desktop and encodes them (or has the capture
  do it), compresses the batch and hands it to the sink as one FRAME_INFO and FRAME_DATA chunks.

  The capture backend, the clock, zstd and the readiness test are arguments: a record of
  operations on a state \<open>'w\<close> of the outside world. Clock readings are nanoseconds. What is handed to
  the sink is the list of encoded messages each operation returns; the scratch buffers the C++ keeps
  between calls to save allocations (tile pixels, payload, jobs, selection) are values here, and the
  log lines have no counterpart.
\<close>

section \<open>Definitions\<close>

definition kZstdLevel :: int where "kZstdLevel = 1"

record MoveRect =
  mv_to :: Recti
  mv_from_x :: int
  mv_from_y :: int

record FrameUpdate =
  fu_frame :: u64
  fu_full :: bool
  fu_dirty :: "Recti list"
  fu_moves :: "MoveRect list"
  fu_accumulated :: u32

record TileJob =
  tj_src :: Recti
  tj_out_w :: int
  tj_out_h :: int

text \<open>\<open>IFrameSource\<close> with \<open>make_frame_source\<close>, the steady clock, \<open>ZSTD_compress\<close> and the readiness test.\<close>

record 'w frame_source =
  io_make_source :: "'w \<Rightarrow> bool \<times> 'w"
  io_start :: "'w \<Rightarrow> bool \<times> 'w"
  io_stop :: "'w \<Rightarrow> 'w"
  io_bounds :: "'w \<Rightarrow> Recti"
  io_next :: "int \<Rightarrow> 'w \<Rightarrow> FrameUpdate option \<times> 'w"
  io_read :: "Recti \<Rightarrow> 'w \<Rightarrow> (bytes \<times> int) option \<times> 'w"
  io_encode_tiles :: "TileJob list \<Rightarrow> 'w \<Rightarrow> bytes option \<times> 'w"
  io_encode_dispatch_us :: "'w \<Rightarrow> real"
  io_encode_map_us :: "'w \<Rightarrow> real"
  io_now :: "'w \<Rightarrow> int \<times> 'w"
  io_compress :: "int \<Rightarrow> bytes \<Rightarrow> bytes option"
  io_batch_drained :: "'w \<Rightarrow> bool"

record sender_stats =
  ss_frames :: u64
  ss_tiles :: u64
  ss_bytes :: u64
  ss_raw_bytes :: u64
  ss_skipped_busy :: u64
  ss_captures :: u64
  ss_last_encode_ms :: real
  ss_encode_us :: u64
  ss_gpu_batches :: u64
  ss_read_us :: u64
  ss_gather_us :: u64
  ss_etc2_us :: u64
  ss_zstd_us :: u64

definition sender_stats_init :: sender_stats where
  "sender_stats_init =
     \<lparr>ss_frames = 0, ss_tiles = 0, ss_bytes = 0, ss_raw_bytes = 0, ss_skipped_busy = 0, ss_captures = 0,
      ss_last_encode_ms = 0, ss_encode_us = 0, ss_gpu_batches = 0, ss_read_us = 0, ss_gather_us = 0,
      ss_etc2_us = 0, ss_zstd_us = 0\<rparr>"

record frame_sender =
  sd_source :: bool
  sd_scheduler :: tile_scheduler
  sd_geometry :: ViewportGeometry
  sd_request :: ViewportReq
  sd_streaming :: bool
  sd_geometry_ready :: bool
  sd_seq :: u32
  sd_budget_tiles :: int
  sd_pen_down :: bool
  sd_logged_pen :: int
  sd_pen_x :: int
  sd_pen_y :: int
  sd_last_frame :: int
  sd_reported :: int
  sd_reported_bytes :: u64
  sd_reported_tiles :: u64
  sd_reported_frames :: u64
  sd_reported_busy :: u64
  sd_reported_encode_us :: u64
  sd_recommended :: int
  sd_region_pixels :: bytes
  sd_read_rect :: Recti
  sd_region_stride :: int
  sd_sink :: bool
  sd_ready :: bool
  sd_stats :: sender_stats

definition viewport_req_init :: ViewportReq where
  "viewport_req_init =
     \<lparr>vr_x = 0, vr_y = 0, vr_w = 0, vr_h = 0, vr_out_w = 0, vr_out_h = 0, vr_fps = 0,
      vr_format = Format_Off, vr_tile = 0, vr_flags = 0\<rparr>"

definition sender_init :: frame_sender where
  "sender_init =
     \<lparr>sd_source = False, sd_scheduler = ts_init, sd_geometry = empty_geometry,
      sd_request = viewport_req_init, sd_streaming = False, sd_geometry_ready = False, sd_seq = 0,
      sd_budget_tiles = 32, sd_pen_down = False, sd_logged_pen = -1, sd_pen_x = 0, sd_pen_y = 0,
      sd_last_frame = 0, sd_reported = 0, sd_reported_bytes = 0, sd_reported_tiles = 0,
      sd_reported_frames = 0, sd_reported_busy = 0, sd_reported_encode_us = 0, sd_recommended = 0,
      sd_region_pixels = [], sd_read_rect = recti 0 0 0 0, sd_region_stride = 0, sd_sink = False,
      sd_ready = False, sd_stats = sender_stats_init\<rparr>"

definition set_sink :: "bool \<Rightarrow> bool \<Rightarrow> frame_sender \<Rightarrow> frame_sender" where
  "set_sink sink ready s = s\<lparr>sd_sink := sink, sd_ready := ready\<rparr>"

definition set_budget_tiles :: "int \<Rightarrow> frame_sender \<Rightarrow> frame_sender" where
  "set_budget_tiles tiles s = s\<lparr>sd_budget_tiles := (if 0 < tiles then tiles else 1)\<rparr>"

definition request_geometry :: "ViewportReq \<Rightarrow> ViewportGeometry" where
  "request_geometry r =
     make_geometry (recti (sint (vr_x r)) (sint (vr_y r)) (sint (vr_w r)) (sint (vr_h r)))
       (uint (vr_out_w r)) (uint (vr_out_h r)) (uint (vr_tile r))"

definition set_viewport :: "ViewportReq \<Rightarrow> frame_sender \<Rightarrow> frame_sender" where
  "set_viewport request s =
     (let fresh = request_geometry request;
          wants_stream = 0 < vr_fps request \<and> vr_format request \<noteq> Format_Off in
      if \<not> wants_stream \<or> \<not> vg_valid fresh then s\<lparr>sd_streaming := False, sd_request := request\<rparr>
      else if vr_format request \<noteq> Format_Etc2Rgb8 then s\<lparr>sd_streaming := False\<rparr>
      else
        let changed = (\<not> sd_geometry_ready s \<or> vg_region fresh \<noteq> vg_region (sd_geometry s) \<or>
              vg_out_w fresh \<noteq> vg_out_w (sd_geometry s) \<or> vg_out_h fresh \<noteq> vg_out_h (sd_geometry s) \<or>
              vg_tile fresh \<noteq> vg_tile (sd_geometry s));
            s1 = s\<lparr>sd_geometry := fresh, sd_request := request, sd_streaming := True\<rparr> in
        if changed then
          s1\<lparr>sd_scheduler := ts_configure (vg_cols fresh) (vg_rows fresh) (sd_scheduler s),
             sd_geometry_ready := True, sd_read_rect := recti 0 0 0 0\<rparr>
        else s1)"

definition sender_stop :: "'w frame_source \<Rightarrow> frame_sender \<times> 'w \<Rightarrow> frame_sender \<times> 'w" where
  "sender_stop io sw =
     (let (s, w) = sw in
      (s\<lparr>sd_source := False, sd_scheduler := ts_configure 0 0 (sd_scheduler s), sd_streaming := False,
         sd_geometry_ready := False, sd_read_rect := recti 0 0 0 0\<rparr>,
       if sd_source s then io_stop io w else w))"

definition ensure_source :: "'w frame_source \<Rightarrow> frame_sender \<times> 'w \<Rightarrow> bool \<times> frame_sender \<times> 'w" where
  "ensure_source io sw =
     (let (s, w) = sw in
      if sd_source s then (True, s, w)
      else
        let (made, w1) = io_make_source io w in
        if \<not> made then (False, s\<lparr>sd_streaming := False\<rparr>, w1)
        else
          let (started, w2) = io_start io w1 in
          if \<not> started then (False, s\<lparr>sd_source := False, sd_streaming := False\<rparr>, w2)
          else (True, s\<lparr>sd_source := True\<rparr>, w2))"

definition mark_update :: "ViewportGeometry \<Rightarrow> FrameUpdate \<Rightarrow> tile_scheduler \<Rightarrow> tile_scheduler" where
  "mark_update g u ts =
     (let ts1 = (if fu_full u \<or> fu_dirty u = [] then mark_all_dirty ts
                 else fold (\<lambda>r. mark_dirty_rect (tiles_touching g r)) (fu_dirty u) ts) in
      fold (\<lambda>m. mark_dirty_rect (tiles_touching g (mv_to m))) (fu_moves u) ts1)"

definition capture :: "'w frame_source \<Rightarrow> frame_sender \<times> 'w \<Rightarrow> bool \<times> frame_sender \<times> 'w" where
  "capture io sw =
     (let (s, w) = sw in
      case io_next io 0 w of
        (None, w1) \<Rightarrow> (False, s, w1)
      | (Some u, w1) \<Rightarrow>
          (True, s\<lparr>sd_scheduler := mark_update (sd_geometry s) u (sd_scheduler s),
             sd_stats := (sd_stats s)\<lparr>ss_captures := ss_captures (sd_stats s) + 1\<rparr>\<rparr>, w1))"

subsection \<open>Cutting a tile out of the pixels read\<close>

definition span_start :: "int \<Rightarrow> int \<Rightarrow> int \<Rightarrow> int \<Rightarrow> int" where
  "span_start origin v extent n = origin + cdiv (v * extent) n"

definition span_of :: "int \<Rightarrow> int \<Rightarrow> int \<Rightarrow> int \<Rightarrow> int \<Rightarrow> int list" where
  "span_of origin limit v extent n =
     (let v0 = span_start origin v extent n; v1 = max (v0 + 1) (span_start origin (v + 1) extent n) in
      filter (\<lambda>k. \<not> (k < 0 \<or> limit \<le> k)) [v0..v1 - 1])"

definition average_pixel :: "bytes \<Rightarrow> int \<Rightarrow> int list \<Rightarrow> int list \<Rightarrow> bytes" where
  "average_pixel pixels stride sys sxs =
     (let offsets = concat (map (\<lambda>sy. map (\<lambda>sx. nat (sy * stride + sx * 4)) sxs) sys);
          n = (if offsets = [] then 1 else int (length offsets));
          total = (\<lambda>c. sum_list (map (\<lambda>k. uint (pixels ! (k + c))) offsets)) in
      [word_of_int (cdiv (total 0) n), word_of_int (cdiv (total 1) n), word_of_int (cdiv (total 2) n), 255])"

definition gather_tile :: "frame_sender \<Rightarrow> int \<Rightarrow> (int \<times> int \<times> bytes) option" where
  "gather_tile s index =
     (let out = tile_output_rect (sd_geometry s) index; src = tile_source_rect (sd_geometry s) index;
          region = sd_read_rect s; w = rect_w out; h = rect_h out in
      if w \<le> 0 \<or> h \<le> 0 then None
      else
        Some (w, h, concat (map (\<lambda>y. concat (map (\<lambda>x.
          average_pixel (sd_region_pixels s) (sd_region_stride s)
            (span_of (rect_y src - rect_y region) (rect_h region) y (rect_h src) h)
            (span_of (rect_x src - rect_x region) (rect_w region) x (rect_w src) w))
          [0..w - 1])) [0..h - 1])))"

subsection \<open>The pen\<close>

definition set_pen :: "bool \<Rightarrow> int \<Rightarrow> int \<Rightarrow> frame_sender \<Rightarrow> frame_sender" where
  "set_pen down pc_x pc_y s = s\<lparr>sd_pen_down := down, sd_pen_x := pc_x, sd_pen_y := pc_y\<rparr>"

definition pen_tile :: "frame_sender \<Rightarrow> int" where
  "pen_tile s =
     (if \<not> sd_pen_down s \<or> \<not> vg_valid (sd_geometry s) then -1
      else
        let hit = tiles_touching (sd_geometry s) (recti (sd_pen_x s) (sd_pen_y s) 1 1) in
        if rect_w hit \<le> 0 \<or> rect_h hit \<le> 0 then -1
        else rect_y hit * vg_cols (sd_geometry s) + rect_x hit)"

subsection \<open>Reading the box of a batch\<close>

definition rect_union :: "Recti \<Rightarrow> Recti \<Rightarrow> Recti" where
  "rect_union box src =
     (let x0 = min (rect_x box) (rect_x src); y0 = min (rect_y box) (rect_y src);
          x1 = max (rect_x box + rect_w box) (rect_x src + rect_w src);
          y1 = max (rect_y box + rect_h box) (rect_y src + rect_h src) in
      recti x0 y0 (x1 - x0) (y1 - y0))"

definition box_step :: "ViewportGeometry \<Rightarrow> u16 \<Rightarrow> Recti option \<Rightarrow> Recti option" where
  "box_step g index box =
     (let src = tile_source_rect g (uint index) in
      if rect_w src \<le> 0 \<or> rect_h src \<le> 0 then box
      else case box of None \<Rightarrow> Some src | Some b \<Rightarrow> Some (rect_union b src))"

definition selection_box :: "ViewportGeometry \<Rightarrow> u16 list \<Rightarrow> Recti option" where
  "selection_box g selected = fold (box_step g) selected None"

definition clip_box :: "Recti \<Rightarrow> Recti \<Rightarrow> Recti option" where
  "clip_box bounds box =
     (let x0 = max (rect_x box) (rect_x bounds); y0 = max (rect_y box) (rect_y bounds);
          x1 = min (rect_x box + rect_w box) (rect_x bounds + rect_w bounds);
          y1 = min (rect_y box + rect_h box) (rect_y bounds + rect_h bounds) in
      if x1 \<le> x0 \<or> y1 \<le> y0 then None else Some (recti x0 y0 (x1 - x0) (y1 - y0)))"

text \<open>\<open>static_cast<std::uint64_t>\<close> of a duration in microseconds.\<close>

definition elapsed_us :: "int \<Rightarrow> int \<Rightarrow> u64" where
  "elapsed_us t0 t1 = word_of_int (cdiv (t1 - t0) 1000)"

definition read_selection :: "'w frame_source \<Rightarrow> u16 list \<Rightarrow> frame_sender \<times> 'w \<Rightarrow> bool \<times> frame_sender \<times> 'w" where
  "read_selection io selected sw =
     (let (s, w) = sw in
      case selection_box (sd_geometry s) selected of
        None \<Rightarrow> (False, s, w)
      | Some box0 \<Rightarrow>
          (case clip_box (io_bounds io w) box0 of
             None \<Rightarrow> (False, s, w)
           | Some box \<Rightarrow>
               let (t0, w1) = io_now io w; (result, w2) = io_read io box w1; (t1, w3) = io_now io w2;
                   s1 = s\<lparr>sd_stats := (sd_stats s)\<lparr>ss_read_us := ss_read_us (sd_stats s) + elapsed_us t0 t1\<rparr>\<rparr> in
               case result of
                 None \<Rightarrow> (False, s1, w3)
               | Some (pixels, stride) \<Rightarrow>
                   (True, s1\<lparr>sd_region_pixels := pixels, sd_read_rect := box, sd_region_stride := stride\<rparr>, w3)))"

subsection \<open>The recommended budget\<close>

definition update_recommendation :: "u64 \<Rightarrow> u64 \<Rightarrow> frame_sender \<Rightarrow> frame_sender" where
  "update_recommendation batches busy s =
     (if batches < 4 then s
      else if 0 < busy then s\<lparr>sd_recommended := max (cdiv (sd_budget_tiles s * 2) 3) 1\<rparr>
      else
        let per_batch = real (unat (ss_tiles (sd_stats s) - sd_reported_tiles s)) / real (unat batches) in
        if per_batch < of_int (sd_budget_tiles s) * 0.9 then s
        else
          let target_us = 1000000 / of_int (max (uint (vr_fps (sd_request s))) 1) / 4;
              actual_us = real (unat (ss_encode_us (sd_stats s) - sd_reported_encode_us s)) / real (unat batches) in
          if actual_us \<le> 0 then s
          else
            let scale = clamp (target_us / actual_us) 0.5 2 in
            s\<lparr>sd_recommended := clamp (lround (of_int (sd_budget_tiles s) * scale)) 1 256\<rparr>)"

subsection \<open>A batch\<close>

fun tile_jobs :: "ViewportGeometry \<Rightarrow> u16 list \<Rightarrow> TileJob list \<Rightarrow> TileJob list" where
  "tile_jobs g [] jobs = jobs"
| "tile_jobs g (index # rest) jobs =
     (let out = tile_output_rect g (uint index); src = tile_source_rect g (uint index) in
      if rect_w out \<le> 0 \<or> rect_h out \<le> 0 \<or> rect_w src \<le> 0 \<or> rect_h src \<le> 0 then []
      else tile_jobs g rest (jobs @ [\<lparr>tj_src = src, tj_out_w = rect_w out, tj_out_h = rect_h out\<rparr>]))"

text \<open>The software path: one tile after the other, timed.\<close>

fun encode_selected :: "'w frame_source \<Rightarrow> u16 list \<Rightarrow> frame_sender \<times> 'w \<Rightarrow> bytes \<times> u16 list \<times> frame_sender \<times> 'w" where
  "encode_selected io [] (s, w) = ([], [], s, w)"
| "encode_selected io (index # rest) (s, w) =
     (let (t0, w1) = io_now io w in
      case gather_tile s (uint index) of
        None \<Rightarrow> encode_selected io rest (s, w1)
      | Some (tw, th, pixels) \<Rightarrow>
          let (t1, w2) = io_now io w1; encoded = etc2_encode pixels tw th (tw * 4); (t2, w3) = io_now io w2;
              st = sd_stats s;
              s1 = s\<lparr>sd_stats := st\<lparr>ss_gather_us := ss_gather_us st + elapsed_us t0 t1,
                                   ss_etc2_us := ss_etc2_us st + elapsed_us t1 t2\<rparr>\<rparr> in
          case encoded of
            None \<Rightarrow> encode_selected io rest (s1, w3)
          | Some blocks \<Rightarrow>
              let (payload, sent, r) = encode_selected io rest (s1, w3) in
              (blocks @ payload, index # sent, r))"

text \<open>The blocks of the batch: the capture's own where it can, else the software path.\<close>

definition batch_blocks :: "'w frame_source \<Rightarrow> u16 list \<Rightarrow> frame_sender \<times> 'w \<Rightarrow> bytes \<times> u16 list \<times> frame_sender \<times> 'w" where
  "batch_blocks io selected sw =
     (let (s, w) = sw; jobs = tile_jobs (sd_geometry s) selected [];
          (gpu, w1) = (if jobs = [] then (None, w) else io_encode_tiles io jobs w) in
      case gpu of
        Some blocks \<Rightarrow>
          let st = sd_stats s in
          (blocks, selected,
           s\<lparr>sd_stats := st\<lparr>ss_gpu_batches := ss_gpu_batches st + 1,
              ss_read_us := ss_read_us st +
                word_of_int \<lfloor>io_encode_dispatch_us io w1 + io_encode_map_us io w1\<rfloor>\<rparr>\<rparr>, w1)
      | None \<Rightarrow>
          let (ok, s2, w2) = read_selection io selected (s, w1) in
          if \<not> ok then ([], [], s2, w2) else encode_selected io selected (s2, w2))"

definition frame_info :: "frame_sender \<Rightarrow> u16 list \<Rightarrow> bytes \<Rightarrow> bytes \<Rightarrow> FrameInfo" where
  "frame_info s sent payload compressed =
     \<lparr>fi_seq = sd_seq s,
      fi_x = word_of_int (rect_x (vg_region (sd_geometry s))),
      fi_y = word_of_int (rect_y (vg_region (sd_geometry s))),
      fi_w = word_of_int (rect_w (vg_region (sd_geometry s))),
      fi_h = word_of_int (rect_h (vg_region (sd_geometry s))),
      fi_out_w = word_of_int (vg_out_w (sd_geometry s)),
      fi_out_h = word_of_int (vg_out_h (sd_geometry s)),
      fi_format = Format_Etc2Rgb8,
      fi_tile = word_of_int (vg_tile (sd_geometry s)),
      fi_raw_bytes = of_nat (length payload),
      fi_payload_bytes = of_nat (length compressed),
      fi_tiles = sent\<rparr>"

function frame_chunks :: "u32 \<Rightarrow> bytes \<Rightarrow> nat \<Rightarrow> FrameData list" where
  "frame_chunks seq compressed offset =
     (if offset < length compressed then
        let take_n = min kFrameChunkBytes (length compressed - offset) in
        \<lparr>fd_seq = seq, fd_offset = of_nat offset, fd_bytes = take take_n (drop offset compressed)\<rparr>
          # frame_chunks seq compressed (offset + kFrameChunkBytes)
      else [])"
  by pat_completeness auto
termination
  by (relation "measure (\<lambda>(seq, compressed, offset). length compressed - offset)")
    (auto simp: kFrameChunkBytes_def)

declare frame_chunks.simps [simp del]

definition send_batch :: "'w frame_source \<Rightarrow> frame_sender \<times> 'w \<Rightarrow> bytes list \<times> frame_sender \<times> 'w" where
  "send_batch io sw =
     (let (s0, w) = sw; pen = pen_tile s0;
          s = s0\<lparr>sd_scheduler := set_focus pen (sd_scheduler s0), sd_logged_pen := pen\<rparr>;
          selected = select (sd_budget_tiles s) (sd_scheduler s) in
      if selected = [] then ([], s, w)
      else
        let (started, w1) = io_now io w; (payload, sent, s1, w2) = batch_blocks io selected (s, w1) in
        if sent = [] then ([], s1, w2)
        else
          let (z0, w3) = io_now io w2; result = io_compress io kZstdLevel payload; (z1, w4) = io_now io w3;
              s2 = s1\<lparr>sd_stats := (sd_stats s1)\<lparr>ss_zstd_us := ss_zstd_us (sd_stats s1) + elapsed_us z0 z1\<rparr>\<rparr> in
          case result of
            None \<Rightarrow> ([], s2, w4)
          | Some compressed \<Rightarrow>
              let s3 = s2\<lparr>sd_seq := sd_seq s2 + 1\<rparr>;
                  messages = encode_FrameInfo (frame_info s3 sent payload compressed)
                    # map encode_FrameData (frame_chunks (sd_seq s3) compressed 0);
                  (e1, w5) = io_now io w4; (e2, w6) = io_now io w5; st = sd_stats s3 in
              (messages,
               s3\<lparr>sd_scheduler := mark_sent sent (sd_scheduler s3),
                  sd_stats := st\<lparr>ss_frames := ss_frames st + 1, ss_tiles := ss_tiles st + of_nat (length sent),
                    ss_bytes := ss_bytes st + of_nat (length compressed),
                    ss_raw_bytes := ss_raw_bytes st + of_nat (length payload),
                    ss_last_encode_ms := of_int (e2 - started) / 1000000,
                    ss_encode_us := ss_encode_us st + elapsed_us started e1\<rparr>\<rparr>, w6))"

subsection \<open>A tick\<close>

definition report_second :: "int \<Rightarrow> frame_sender \<Rightarrow> frame_sender" where
  "report_second now s =
     (if sd_reported s + 1000000000 < now then
        let batches = ss_frames (sd_stats s) - sd_reported_frames s;
            busy = ss_skipped_busy (sd_stats s) - sd_reported_busy s;
            s1 = (if sd_reported s \<noteq> 0 then update_recommendation batches busy s else s) in
        s1\<lparr>sd_reported := now, sd_reported_bytes := ss_bytes (sd_stats s),
           sd_reported_tiles := ss_tiles (sd_stats s), sd_reported_frames := ss_frames (sd_stats s),
           sd_reported_busy := ss_skipped_busy (sd_stats s),
           sd_reported_encode_us := ss_encode_us (sd_stats s)\<rparr>
      else s)"

definition sender_tick :: "'w frame_source \<Rightarrow> frame_sender \<times> 'w \<Rightarrow> bytes list \<times> frame_sender \<times> 'w" where
  "sender_tick io sw =
     (let (s, w) = sw in
      if \<not> sd_streaming s \<or> \<not> vg_valid (sd_geometry s) \<or> \<not> sd_sink s then ([], s, w)
      else
        let (ok, s1, w1) = ensure_source io (s, w) in
        if \<not> ok then ([], s1, w1)
        else
          let (got, s2, w2) = capture io (s1, w1); (now, w3) = io_now io w2;
              interval = cdiv 1000 (max (uint (vr_fps (sd_request s2))) 1) * 1000000 in
          if now - sd_last_frame s2 < interval then ([], s2, w3)
          else if \<not> anything_dirty (sd_scheduler s2) \<and> pen_tile s2 < 0 then ([], s2, w3)
          else if sd_ready s2 \<and> \<not> io_batch_drained io w3 then
            ([], s2\<lparr>sd_stats := (sd_stats s2)\<lparr>ss_skipped_busy := ss_skipped_busy (sd_stats s2) + 1\<rparr>\<rparr>, w3)
          else
            let (messages, s3, w4) = send_batch io (s2\<lparr>sd_last_frame := now\<rparr>, w3) in
            (messages, report_second now s3, w4))"

section \<open>Invariant\<close>

definition sender_inv :: "frame_sender \<Rightarrow> bool" where
  "sender_inv s \<longleftrightarrow>
     ts_inv (sd_scheduler s) \<and> 0 < sd_budget_tiles s \<and> (sd_streaming s \<longrightarrow> sd_geometry_ready s) \<and>
     (vg_valid (sd_geometry s) \<longrightarrow> sd_geometry s \<in> range request_geometry) \<and>
     (sd_geometry_ready s \<longrightarrow> vg_valid (sd_geometry s) \<and>
        ts_cols (sd_scheduler s) = vg_cols (sd_geometry s) \<and> ts_rows (sd_scheduler s) = vg_rows (sd_geometry s))"

text \<open>What a batch leaves alone: everything but the pixels read and the statistics.\<close>

definition core :: "frame_sender \<Rightarrow> frame_sender" where
  "core s = s\<lparr>sd_region_pixels := [], sd_read_rect := recti 0 0 0 0, sd_region_stride := 0,
     sd_stats := sender_stats_init\<rparr>"

lemma coreD:
  assumes "core a = core b"
  shows "sd_scheduler a = sd_scheduler b" "sd_geometry a = sd_geometry b" "sd_seq a = sd_seq b"
    "sd_budget_tiles a = sd_budget_tiles b" "sd_streaming a = sd_streaming b"
    "sd_geometry_ready a = sd_geometry_ready b" "sd_sink a = sd_sink b" "sd_source a = sd_source b"
proof -
  have "sd_scheduler (core s) = sd_scheduler s" "sd_geometry (core s) = sd_geometry s" "sd_seq (core s) = sd_seq s"
    "sd_budget_tiles (core s) = sd_budget_tiles s" "sd_streaming (core s) = sd_streaming s"
    "sd_geometry_ready (core s) = sd_geometry_ready s" "sd_sink (core s) = sd_sink s" "sd_source (core s) = sd_source s" for s
    by (simp_all add: core_def)
  then show "sd_scheduler a = sd_scheduler b" "sd_geometry a = sd_geometry b" "sd_seq a = sd_seq b"
    "sd_budget_tiles a = sd_budget_tiles b" "sd_streaming a = sd_streaming b"
    "sd_geometry_ready a = sd_geometry_ready b" "sd_sink a = sd_sink b" "sd_source a = sd_source b"
    using assms by metis+
qed

lemma core_stats [simp]: "core (s\<lparr>sd_stats := st\<rparr>) = core s"
  by (simp add: core_def)

lemma core_pixels [simp]: "core (s\<lparr>sd_region_pixels := p, sd_read_rect := r, sd_region_stride := n\<rparr>) = core s"
  by (cases s) (simp add: core_def)

lemma core_inv: "core a = core b \<Longrightarrow> sender_inv a = sender_inv b"
  using coreD [of a b] by (simp add: sender_inv_def)

lemma make_geometry_configured:
  "vg_valid g \<Longrightarrow> ts_cols (ts_configure (vg_cols g) (vg_rows g) s) = vg_cols g"
  "vg_valid g \<Longrightarrow> ts_rows (ts_configure (vg_cols g) (vg_rows g) s) = vg_rows g"
  using vg_cols_pos [of g] vg_rows_pos [of g] by (auto simp: ts_configure_def mark_all_dirty_def Let_def)

lemma geometry_eqI:
  "vg_region a = vg_region b \<Longrightarrow> vg_out_w a = vg_out_w b \<Longrightarrow> vg_out_h a = vg_out_h b \<Longrightarrow> vg_tile a = vg_tile b \<Longrightarrow>
   a = (b :: ViewportGeometry)"
  by simp

lemma sender_inv_viewport: "sender_inv s \<Longrightarrow> sender_inv (set_viewport r s)"
  unfolding set_viewport_def Let_def
  by (auto simp: sender_inv_def ts_inv_configure make_geometry_configured dest: geometry_eqI)

lemma sender_inv_simple:
  "sender_inv s \<Longrightarrow> sender_inv (set_pen d x y s)"
  "sender_inv s \<Longrightarrow> sender_inv (set_budget_tiles n s)"
  "sender_inv s \<Longrightarrow> sender_inv (set_sink b c s)"
  "sender_inv s \<Longrightarrow> sender_inv (fst (sender_stop io (s, w)))"
  by (auto simp: sender_inv_def set_pen_def set_budget_tiles_def set_sink_def sender_stop_def ts_inv_configure)

lemma sender_inv_source:
  "ensure_source io (s, w) = (ok, s1, w1) \<Longrightarrow> sender_inv s \<Longrightarrow> sender_inv s1"
  by (auto simp: ensure_source_def sender_inv_def split: if_splits prod.splits)

lemma grows_fold:
  assumes "\<And>x s. ts_inv s \<Longrightarrow> ts_inv (f x s) \<and> grows s (f x s)"
  shows "ts_inv s \<Longrightarrow> ts_inv (fold f xs s) \<and> grows s (fold f xs s)"
proof (induction xs arbitrary: s)
  case (Cons x xs)
  note a = assms [OF Cons.prems, of x]
  show ?case using Cons.IH [of "f x s"] a grows_trans [of s "f x s"] by simp
qed simp

lemma mark_rects:
  "ts_inv s \<Longrightarrow> ts_inv (fold (\<lambda>r. mark_dirty_rect (h r)) rs s) \<and> grows s (fold (\<lambda>r. mark_dirty_rect (h r)) rs s)"
  by (rule grows_fold) (use mark_dirty_rect_spec in auto)

lemma mark_all_grows: "ts_inv s \<Longrightarrow> grows s (mark_all_dirty s)"
  using sched_apply_spec [of s Ev_all_dirty] by simp

lemma mark_update_grows: "ts_inv s \<Longrightarrow> ts_inv (mark_update g u s) \<and> grows s (mark_update g u s)"
proof -
  assume inv: "ts_inv s"
  define s1 where "s1 = (if fu_full u \<or> fu_dirty u = [] then mark_all_dirty s
     else fold (\<lambda>r. mark_dirty_rect (tiles_touching g r)) (fu_dirty u) s)"
  have s1: "ts_inv s1" "grows s s1"
    using mark_rects [OF inv, of "tiles_touching g" "fu_dirty u"] ts_inv_mark_all [OF inv] mark_all_grows [OF inv]
    by (simp_all add: s1_def)
  have "mark_update g u s = fold (\<lambda>m. mark_dirty_rect (tiles_touching g (mv_to m))) (fu_moves u) s1"
    by (simp add: mark_update_def s1_def)
  then show ?thesis using mark_rects [OF s1(1), of "\<lambda>m. tiles_touching g (mv_to m)" "fu_moves u"] grows_trans [OF s1(2)] by simp
qed

lemma sender_inv_capture: "capture io (s, w) = (ok, s1, w1) \<Longrightarrow> sender_inv s \<Longrightarrow> sender_inv s1"
  using mark_update_grows [of "sd_scheduler s"]
  by (auto simp: capture_def sender_inv_def grows_def split: prod.splits option.splits)

section \<open>What a batch carries\<close>

definition tile_bytes :: "ViewportGeometry \<Rightarrow> u16 \<Rightarrow> nat" where
  "tile_bytes g t = (let r = tile_output_rect g (uint t) in etc2_size (rect_w r) (rect_h r))"

abbreviation tile_shown :: "ViewportGeometry \<Rightarrow> u16 \<Rightarrow> bool" where
  "tile_shown g t \<equiv> 0 < rect_w (tile_output_rect g (uint t)) \<and> 0 < rect_h (tile_output_rect g (uint t))"

text \<open>
  What the interface promises of \<open>encode_tiles\<close>: blocks come back concatenated in job order, each
  tile taking the bytes of its encoded size.
\<close>

definition encodes_job_sizes :: "'w frame_source \<Rightarrow> bool" where
  "encodes_job_sizes io \<longleftrightarrow>
     (\<forall>jobs w blocks w'. io_encode_tiles io jobs w = (Some blocks, w') \<longrightarrow>
        length blocks = sum_list (map (\<lambda>j. etc2_size (tj_out_w j) (tj_out_h j)) jobs))"

lemma tile_jobs_ok:
  "tile_jobs g sel acc \<noteq> [] \<Longrightarrow> acc \<noteq> [] \<or> sel \<noteq> [] \<Longrightarrow>
   (\<forall>t \<in> set sel. tile_shown g t) \<and>
   sum_list (map (\<lambda>j. etc2_size (tj_out_w j) (tj_out_h j)) (tile_jobs g sel acc)) =
     sum_list (map (\<lambda>j. etc2_size (tj_out_w j) (tj_out_h j)) acc) + sum_list (map (tile_bytes g) sel)"
proof (induction sel arbitrary: acc)
  case (Cons t sel)
  let ?o = "tile_output_rect g (uint t)" and ?s = "tile_source_rect g (uint t)"
  have ok: "\<not> (rect_w ?o \<le> 0 \<or> rect_h ?o \<le> 0 \<or> rect_w ?s \<le> 0 \<or> rect_h ?s \<le> 0)"
    using Cons.prems(1) by (auto simp: Let_def split: if_splits)
  then have eq: "tile_jobs g (t # sel) acc =
      tile_jobs g sel (acc @ [\<lparr>tj_src = ?s, tj_out_w = rect_w ?o, tj_out_h = rect_h ?o\<rparr>])" by (simp add: Let_def)
  have "tile_shown g t" using ok by simp
  with Cons.IH [of "acc @ [\<lparr>tj_src = ?s, tj_out_w = rect_w ?o, tj_out_h = rect_h ?o\<rparr>]"] Cons.prems(1)
  show ?case unfolding eq by (simp add: tile_bytes_def Let_def)
qed simp

lemma gather_tile_size:
  "gather_tile s i = Some (w, h, px) \<Longrightarrow>
     w = rect_w (tile_output_rect (sd_geometry s) i) \<and> h = rect_h (tile_output_rect (sd_geometry s) i) \<and> 0 < w \<and> 0 < h"
  by (auto simp: gather_tile_def Let_def split: if_splits)

lemma encode_selected_spec:
  "encode_selected io sel (s, w) = (payload, sent, s', w') \<Longrightarrow>
     core s' = core s \<and> set sent \<subseteq> set sel \<and> length sent \<le> length sel \<and>
     (\<forall>t \<in> set sent. tile_shown (sd_geometry s) t) \<and>
     length payload = sum_list (map (tile_bytes (sd_geometry s)) sent)"
proof (induction sel arbitrary: s w payload sent s' w')
  case (Cons t sel)
  obtain t0 w1 where n0: "io_now io w = (t0, w1)" by fastforce
  show ?case
  proof (cases "gather_tile s (uint t)")
    case None
    then have "encode_selected io sel (s, w1) = (payload, sent, s', w')" using Cons.prems n0 by simp
    from Cons.IH [OF this] show ?thesis by auto
  next
    case (Some g)
    then obtain tw th px where g: "gather_tile s (uint t) = Some (tw, th, px)" by (metis prod_cases3)
    obtain t1 w2 where n1: "io_now io w1 = (t1, w2)" by fastforce
    obtain t2 w3 where n2: "io_now io w2 = (t2, w3)" by fastforce
    define s1 where "s1 = s\<lparr>sd_stats := (sd_stats s)\<lparr>ss_gather_us := ss_gather_us (sd_stats s) + elapsed_us t0 t1,
       ss_etc2_us := ss_etc2_us (sd_stats s) + elapsed_us t1 t2\<rparr>\<rparr>"
    have c1: "core s1 = core s" "sd_geometry s1 = sd_geometry s" by (simp_all add: s1_def)
    obtain pl sn s2 w4 where rec: "encode_selected io sel (s1, w3) = (pl, sn, s2, w4)" by (metis prod_cases4)
    note IH = Cons.IH [OF rec]
    show ?thesis
    proof (cases "etc2_encode px tw th (tw * 4)")
      case None
      then have "(payload, sent, s', w') = (pl, sn, s2, w4)"
        using Cons.prems n0 n1 n2 g rec by (simp add: Let_def flip: s1_def)
      then show ?thesis using IH c1 by auto
    next
      case (Some blocks)
      then have e: "(payload, sent, s', w') = (blocks @ pl, t # sn, s2, w4)"
        using Cons.prems n0 n1 n2 g rec by (simp add: Let_def flip: s1_def)
      have "length blocks = tile_bytes (sd_geometry s) t"
        using etc2_encode_length(5) [OF Some] gather_tile_size [OF g] by (simp add: tile_bytes_def Let_def)
      then show ?thesis using e IH c1 gather_tile_size [OF g] by auto
    qed
  qed
qed simp

lemma read_selection_core: "read_selection io sel (s, w) = (ok, s', w') \<Longrightarrow> core s' = core s"
  by (auto simp: read_selection_def Let_def split: option.splits prod.splits)

lemma batch_blocks_spec:
  assumes b: "batch_blocks io sel (s, w) = (payload, sent, s', w')" and io: "encodes_job_sizes io" and ne: "sel \<noteq> []"
  shows "core s' = core s \<and> set sent \<subseteq> set sel \<and> length sent \<le> length sel \<and>
     (\<forall>t \<in> set sent. tile_shown (sd_geometry s) t) \<and>
     length payload = sum_list (map (tile_bytes (sd_geometry s)) sent)"
proof -
  define jobs where "jobs = tile_jobs (sd_geometry s) sel []"
  obtain gpu w1 where gw: "(if jobs = [] then (None, w) else io_encode_tiles io jobs w) = (gpu, w1)" by fastforce
  have b: "(case gpu of Some blocks \<Rightarrow>
        (blocks, sel, s\<lparr>sd_stats := (sd_stats s)\<lparr>ss_gpu_batches := ss_gpu_batches (sd_stats s) + 1,
          ss_read_us := ss_read_us (sd_stats s) +
            word_of_int \<lfloor>io_encode_dispatch_us io w1 + io_encode_map_us io w1\<rfloor>\<rparr>\<rparr>, w1)
      | None \<Rightarrow> let (ok, s2, w2) = read_selection io sel (s, w1) in
          if \<not> ok then ([], [], s2, w2) else encode_selected io sel (s2, w2)) = (payload, sent, s', w')"
    using b unfolding batch_blocks_def Let_def prod.case jobs_def [symmetric] gw .
  show ?thesis
  proof (cases gpu)
    case (Some blocks)
    then have j: "jobs \<noteq> []" "io_encode_tiles io jobs w = (Some blocks, w1)" using gw by (auto split: if_splits)
    from tile_jobs_ok [of "sd_geometry s" sel "[]"] j(1) ne
    have t: "\<forall>t \<in> set sel. tile_shown (sd_geometry s) t"
      "sum_list (map (\<lambda>j. etc2_size (tj_out_w j) (tj_out_h j)) jobs) = sum_list (map (tile_bytes (sd_geometry s)) sel)"
      by (simp_all add: jobs_def)
    have "length blocks = sum_list (map (\<lambda>j. etc2_size (tj_out_w j) (tj_out_h j)) jobs)"
      using io j(2) unfolding encodes_job_sizes_def by blast
    moreover have "payload = blocks" "sent = sel" "core s' = core s"
      using b Some by auto
    ultimately show ?thesis using t by simp
  next
    case None
    obtain ok s2 w2 where r: "read_selection io sel (s, w1) = (ok, s2, w2)" by (metis prod_cases3)
    note c = read_selection_core [OF r]
    show ?thesis
    proof (cases ok)
      case True
      then have "encode_selected io sel (s2, w2) = (payload, sent, s', w')"
        using b None r by simp
      from encode_selected_spec [OF this] show ?thesis using c coreD(2) [OF c] by simp
    next
      case False
      then have "(payload, sent, s', w') = ([], [], s2, w2)"
        using b None r by simp
      then show ?thesis using c by simp
    qed
  qed
qed

definition focused :: "frame_sender \<Rightarrow> frame_sender" where
  "focused s = s\<lparr>sd_scheduler := set_focus (pen_tile s) (sd_scheduler s), sd_logged_pen := pen_tile s\<rparr>"

definition selection :: "frame_sender \<Rightarrow> u16 list" where
  "selection s = select (sd_budget_tiles (focused s)) (sd_scheduler (focused s))"

lemma focused_sel [simp]:
  "sd_geometry (focused s) = sd_geometry s" "sd_seq (focused s) = sd_seq s" "sd_budget_tiles (focused s) = sd_budget_tiles s"
  "sd_streaming (focused s) = sd_streaming s" "sd_geometry_ready (focused s) = sd_geometry_ready s"
  "sd_scheduler (focused s) = set_focus (pen_tile s) (sd_scheduler s)"
  by (simp_all add: focused_def)

lemma sender_inv_focused: "sender_inv s \<Longrightarrow> sender_inv (focused s)"
  by (auto simp: sender_inv_def ts_inv_set_focus) (auto simp: set_focus_def)

text \<open>The two ways a batch can end: nothing handed to the sink, or a whole batch and its tiles marked.\<close>

lemma send_batch_cases:
  assumes sb: "send_batch io (s, w) = (ms, s', w')" and io: "encodes_job_sizes io"
  obtains (idle) "ms = []" "core s' = core (focused s)"
  | (batch) sent payload compressed where "sent \<noteq> []" "set sent \<subseteq> set (selection s)" "length sent \<le> length (selection s)"
      "\<forall>t \<in> set sent. tile_shown (sd_geometry s) t"
      "length payload = sum_list (map (tile_bytes (sd_geometry s)) sent)"
      "io_compress io kZstdLevel payload = Some compressed"
      "ms = encode_FrameInfo (frame_info s' sent payload compressed) # map encode_FrameData (frame_chunks (sd_seq s') compressed 0)"
      "core s' = core (focused s)\<lparr>sd_scheduler := mark_sent sent (sd_scheduler (focused s)), sd_seq := sd_seq s + 1\<rparr>"
      "\<exists>s1 w1. batch_blocks io (selection s) (focused s, snd (io_now io w)) = (payload, sent, s1, w1)"
proof (cases "selection s = []")
  case True
  then have "ms = []" "s' = focused s" using sb by (auto simp: send_batch_def Let_def selection_def focused_def)
  then show ?thesis using idle by simp
next
  case False
  obtain t0 w1 where n0: "io_now io w = (t0, w1)" by fastforce
  obtain payload sent s1 w2 where bb: "batch_blocks io (selection s) (focused s, w1) = (payload, sent, s1, w2)" by (metis prod_cases4)
  obtain z0 w3 where n1: "io_now io w2 = (z0, w3)" by fastforce
  obtain z1 w4 where n2: "io_now io w3 = (z1, w4)" by fastforce
  obtain e1 w5 where n3: "io_now io w4 = (e1, w5)" by fastforce
  obtain e2 w6 where n4: "io_now io w5 = (e2, w6)" by fastforce
  note spec = batch_blocks_spec [OF bb io False]
  define s2 where "s2 = s1\<lparr>sd_stats := (sd_stats s1)\<lparr>ss_zstd_us := ss_zstd_us (sd_stats s1) + elapsed_us z0 z1\<rparr>\<rparr>"
  have c2: "core s2 = core (focused s)" using spec by (simp add: s2_def)
  have sb: "(if sent = [] then ([], s1, w2) else
      case io_compress io kZstdLevel payload of None \<Rightarrow> ([], s2, w4)
      | Some c \<Rightarrow> let s3 = s2\<lparr>sd_seq := sd_seq s2 + 1\<rparr>; st = sd_stats s3 in
         (encode_FrameInfo (frame_info s3 sent payload c) # map encode_FrameData (frame_chunks (sd_seq s3) c 0),
          s3\<lparr>sd_scheduler := mark_sent sent (sd_scheduler s3),
            sd_stats := st\<lparr>ss_frames := ss_frames st + 1, ss_tiles := ss_tiles st + of_nat (length sent),
              ss_bytes := ss_bytes st + of_nat (length c), ss_raw_bytes := ss_raw_bytes st + of_nat (length payload),
              ss_last_encode_ms := of_int (e2 - t0) / 1000000, ss_encode_us := ss_encode_us st + elapsed_us t0 e1\<rparr>\<rparr>, w6)) =
      (ms, s', w')"
    using sb unfolding send_batch_def Let_def prod.case focused_def [symmetric] selection_def [symmetric]
      if_not_P [OF False] n0 bb n1 n2 n3 n4 s2_def [symmetric] .
  show ?thesis
  proof (cases "sent = [] \<or> io_compress io kZstdLevel payload = None")
    case True
    then have "ms = []" "core s' = core (focused s)" using sb spec c2 by (auto split: if_splits)
    then show ?thesis by (rule idle)
  next
    case ok: False
    then obtain c where c: "io_compress io kZstdLevel payload = Some c" by auto
    note d = coreD [OF c2]
    have "ms = encode_FrameInfo (frame_info s' sent payload c) # map encode_FrameData (frame_chunks (sd_seq s') c 0)"
      using sb ok c by (auto simp: Let_def frame_info_def)
    moreover have "core s' = core (focused s)\<lparr>sd_scheduler := mark_sent sent (sd_scheduler (focused s)), sd_seq := sd_seq s + 1\<rparr>"
      using sb ok c d unfolding c2 [symmetric] by (auto simp: Let_def core_def)
    moreover have "sent \<noteq> []" "set sent \<subseteq> set (selection s)" "length sent \<le> length (selection s)"
      "\<forall>t \<in> set sent. tile_shown (sd_geometry s) t" "length payload = sum_list (map (tile_bytes (sd_geometry s)) sent)"
      using ok spec by auto
    moreover have "\<exists>s1 w1. batch_blocks io (selection s) (focused s, snd (io_now io w)) = (payload, sent, s1, w1)"
      using bb n0 by simp
    ultimately show ?thesis using c by (intro batch [of sent payload c])
  qed
qed

lemma mark_sent_grid [simp]:
  "ts_cols (mark_sent ts s) = ts_cols s" "ts_rows (mark_sent ts s) = ts_rows s"
  by (simp_all add: mark_sent_def Let_def split: prod.splits)

lemma mark_sent_iff:
  assumes inv: "ts_inv s"
  shows "ts_is_dirty (mark_sent tiles s) i \<longleftrightarrow> ts_is_dirty s i \<and> i \<notin> uint ` set tiles"
proof (cases "tiles = [] \<or> ts_dirty s = []")
  case True
  then show ?thesis using ts_valid_length [OF inv, of i] by (auto simp: mark_sent_def ts_is_dirty_def)
next
  case False
  then have ne: "tiles \<noteq> []" "ts_dirty s \<noteq> []" by auto
  obtain d c f where "sent_inv s (set tiles) (d, c, f)"
    "mark_sent tiles s = s\<lparr>ts_dirty := d, ts_dirty_count := c,
       ts_cursor := (if 0 \<le> f then (ts_cursor s + f + 1) mod ts_size s else ts_cursor s)\<rparr>"
    using mark_sent_spec [OF inv ne] by blast
  then show ?thesis using ts_valid_length [OF inv, of i]
    by (auto simp: ts_is_dirty_def ts_valid_def ts_size_def sent_inv_def)
qed

lemma set_focus_dirty [simp]: "ts_is_dirty (set_focus i s) t = ts_is_dirty s t"
  by (simp add: set_focus_def ts_is_dirty_def ts_valid_def ts_size_def)

lemma core_sel [simp]:
  "sd_scheduler (core s) = sd_scheduler s" "sd_geometry (core s) = sd_geometry s" "sd_seq (core s) = sd_seq s"
  "sd_budget_tiles (core s) = sd_budget_tiles s" "sd_streaming (core s) = sd_streaming s"
  "sd_geometry_ready (core s) = sd_geometry_ready s"
  by (simp_all add: core_def)

lemma send_batch_core:
  assumes "core s' = core s0\<lparr>sd_scheduler := m, sd_seq := n\<rparr>"
  shows "sd_scheduler s' = m" "sd_seq s' = n" "sd_geometry s' = sd_geometry s0" "sd_budget_tiles s' = sd_budget_tiles s0"
    "sd_streaming s' = sd_streaming s0" "sd_geometry_ready s' = sd_geometry_ready s0"
  using arg_cong [OF assms, of sd_scheduler] arg_cong [OF assms, of sd_seq] arg_cong [OF assms, of sd_geometry]
    arg_cong [OF assms, of sd_budget_tiles] arg_cong [OF assms, of sd_streaming] arg_cong [OF assms, of sd_geometry_ready]
  by simp_all

lemma sender_inv_send_batch:
  assumes "send_batch io (s, w) = (ms, s', w')" "encodes_job_sizes io" "sender_inv s"
  shows "sender_inv s'"
proof -
  note f = sender_inv_focused [OF assms(3)]
  from assms(1,2) show ?thesis
  proof (cases rule: send_batch_cases)
    case idle
    then show ?thesis using f core_inv by blast
  next
    case (batch sent payload compressed)
    from send_batch_core [OF batch(8)] f show ?thesis by (simp add: sender_inv_def ts_inv_mark_sent)
  qed
qed

lemma update_recommendation_inv [simp]: "sender_inv (update_recommendation b k s) = sender_inv s"
  by (simp add: update_recommendation_def sender_inv_def Let_def)

lemma report_second_inv: "sender_inv (report_second now s) = sender_inv s"
proof -
  have u: "sender_inv (s\<lparr>sd_reported := a, sd_reported_bytes := b, sd_reported_tiles := c, sd_reported_frames := d,
      sd_reported_busy := e, sd_reported_encode_us := f\<rparr>) = sender_inv s" for s a b c d e f
    by (simp add: sender_inv_def)
  show ?thesis unfolding report_second_def Let_def by (simp add: u)
qed

lemma sender_inv_tick:
  assumes t: "sender_tick io (s, w) = (ms, s', w')" and io: "encodes_job_sizes io" and inv: "sender_inv s"
  shows "sender_inv s'"
proof (cases "\<not> sd_streaming s \<or> \<not> vg_valid (sd_geometry s) \<or> \<not> sd_sink s")
  case True
  then show ?thesis using t inv by (auto simp: sender_tick_def)
next
  case False
  obtain ok s1 w1 where e: "ensure_source io (s, w) = (ok, s1, w1)" by (metis prod_cases3)
  obtain got s2 w2 where c: "capture io (s1, w1) = (got, s2, w2)" by (metis prod_cases3)
  obtain now w3 where n: "io_now io w2 = (now, w3)" by fastforce
  obtain ms' s3 w4 where b: "send_batch io (s2\<lparr>sd_last_frame := now\<rparr>, w3) = (ms', s3, w4)" by (metis prod_cases3)
  have i1: "sender_inv s1" by (rule sender_inv_source [OF e inv])
  have i2: "sender_inv s2" by (rule sender_inv_capture [OF c i1])
  have "sender_inv (s2\<lparr>sd_last_frame := now\<rparr>)" using i2 by (simp add: sender_inv_def)
  from sender_inv_send_batch [OF b io this] have i3: "sender_inv (report_second now s3)" by (simp add: report_second_inv)
  have st: "sender_inv (s2\<lparr>sd_stats := x\<rparr>)" for x using i2 by (simp add: sender_inv_def)
  have "s' \<in> {s1, s2, s2\<lparr>sd_stats := (sd_stats s2)\<lparr>ss_skipped_busy := ss_skipped_busy (sd_stats s2) + 1\<rparr>\<rparr>, report_second now s3}"
    using t False e c n b by (simp add: sender_tick_def Let_def split: if_splits)
  then show ?thesis using i1 i2 i3 st by auto
qed

section \<open>Damage\<close>

lemma mark_rects_dirty:
  assumes "ts_inv s" "r \<in> set rs" "ts_valid s i" "contains (h r) (i mod ts_cols s) (i div ts_cols s)"
  shows "ts_is_dirty (fold (\<lambda>r. mark_dirty_rect (h r)) rs s) i"
  using assms
proof (induction rs arbitrary: s)
  case (Cons q rs)
  let ?s = "mark_dirty_rect (h q) s"
  have m: "ts_inv ?s" "grows s ?s" "ts_is_dirty ?s i \<longleftrightarrow> ts_is_dirty s i \<or> (ts_valid s i \<and> contains (h q) (i mod ts_cols s) (i div ts_cols s))"
    using mark_dirty_rect_spec [OF Cons.prems(1)] by auto
  show ?case
  proof (cases "r = q")
    case True
    then have "ts_is_dirty ?s i" using m(3) Cons.prems by blast
    then show ?thesis using mark_rects [OF m(1), of h rs] by (auto simp: grows_def)
  next
    case False
    then have "ts_is_dirty (fold (\<lambda>r. mark_dirty_rect (h r)) rs ?s) i"
      using Cons.IH [OF m(1)] Cons.prems m(2) by (auto simp: grows_def ts_valid_def ts_size_def)
    then show ?thesis by simp
  qed
qed simp

lemma mark_update_dirty:
  assumes inv: "ts_inv s" "ts_valid s i"
    and r: "fu_full u \<or> fu_dirty u = [] \<or> (\<exists>r \<in> set (fu_dirty u) \<union> mv_to ` set (fu_moves u).
      contains (tiles_touching g r) (i mod ts_cols s) (i div ts_cols s))"
  shows "ts_is_dirty (mark_update g u s) i"
proof -
  define s1 where "s1 = (if fu_full u \<or> fu_dirty u = [] then mark_all_dirty s
     else fold (\<lambda>r. mark_dirty_rect (tiles_touching g r)) (fu_dirty u) s)"
  have s1: "ts_inv s1" "grows s s1"
    using mark_rects [OF inv(1), of "tiles_touching g" "fu_dirty u"] ts_inv_mark_all [OF inv(1)] mark_all_grows [OF inv(1)]
    by (simp_all add: s1_def)
  have u: "mark_update g u s = fold (\<lambda>m. mark_dirty_rect (tiles_touching g (mv_to m))) (fu_moves u) s1"
    by (simp add: mark_update_def s1_def)
  have keep: "ts_is_dirty s1 i \<Longrightarrow> ts_is_dirty (mark_update g u s) i"
    unfolding u using mark_rects [OF s1(1), of "\<lambda>m. tiles_touching g (mv_to m)" "fu_moves u"] by (auto simp: grows_def)
  consider "fu_full u \<or> fu_dirty u = []" |
    r where "\<not> (fu_full u \<or> fu_dirty u = [])" "r \<in> set (fu_dirty u)" "contains (tiles_touching g r) (i mod ts_cols s) (i div ts_cols s)" |
    m where "m \<in> set (fu_moves u)" "contains (tiles_touching g (mv_to m)) (i mod ts_cols s) (i div ts_cols s)"
    using r by auto
  then show ?thesis
  proof cases
    case 1
    then show ?thesis using keep mark_all_dirty_iff [OF inv(1)] inv(2) by (simp add: s1_def)
  next
    case 2
    then have "ts_is_dirty s1 i" unfolding s1_def using mark_rects_dirty [OF inv(1) 2(2) inv(2)] by simp
    then show ?thesis by (rule keep)
  next
    case 3
    then show ?thesis unfolding u using s1 inv(2)
      by (intro mark_rects_dirty [OF s1(1) 3(1)]) (auto simp: grows_def ts_valid_def ts_size_def)
  qed
qed

section \<open>A small example\<close>

text \<open>A 64x64 viewport in four tiles, and a capture that reads grey and compresses by adding a byte.\<close>

definition ex_request :: ViewportReq where
  "ex_request =
     \<lparr>vr_x = 10, vr_y = 20, vr_w = 64, vr_h = 64, vr_out_w = 64, vr_out_h = 64, vr_fps = 30,
      vr_format = Format_Etc2Rgb8, vr_tile = 32, vr_flags = 0\<rparr>"

definition ex_sender :: frame_sender where
  "ex_sender = set_sink True True (set_viewport ex_request sender_init)"

definition ex_source :: "nat frame_source" where
  "ex_source =
     \<lparr>io_make_source = \<lambda>w. (True, w), io_start = \<lambda>w. (True, w), io_stop = \<lambda>w. w,
      io_bounds = \<lambda>w. recti 0 0 640 480,
      io_next = \<lambda>timeout w. (Some \<lparr>fu_frame = 1, fu_full = False, fu_dirty = [recti 50 30 1 1], fu_moves = [], fu_accumulated = 1\<rparr>, w),
      io_read = \<lambda>r w. (Some (replicate (nat (rect_w r * rect_h r * 4)) 119, rect_w r * 4), w),
      io_encode_tiles = \<lambda>jobs w.
        (Some (replicate (sum_list (map (\<lambda>j. etc2_size (tj_out_w j) (tj_out_h j)) jobs)) 7), w),
      io_encode_dispatch_us = \<lambda>w. 3, io_encode_map_us = \<lambda>w. 4,
      io_now = \<lambda>w. (int w * 1000000000, w + 1), io_compress = \<lambda>level p. Some (1 # p),
      io_batch_drained = \<lambda>w. True\<rparr>"

lemma ex_geometry_eq:
  "request_geometry ex_request = \<lparr>vg_region = recti 10 20 64 64, vg_out_w = 64, vg_out_h = 64, vg_tile = 32\<rparr>"
  by code_simp

lemma ex_sender_inv: "sender_inv ex_sender"
  unfolding ex_sender_def by (intro sender_inv_simple sender_inv_viewport)
    (auto simp: sender_inv_def sender_init_def ts_inv_init empty_geometry_def vg_valid_def recti_def)

lemma ex_source_sizes: "encodes_job_sizes ex_source"
  by (auto simp: encodes_job_sizes_def ex_source_def)

lemma ex_sender_sel:
  "sd_geometry ex_sender = \<lparr>vg_region = recti 10 20 64 64, vg_out_w = 64, vg_out_h = 64, vg_tile = 32\<rparr>"
  "sd_geometry_ready ex_sender" "sd_streaming ex_sender"
  "sd_scheduler ex_sender = ts_configure 2 2 ts_init" "sd_budget_tiles ex_sender = 32"
  unfolding ex_sender_def set_sink_def set_viewport_def ex_geometry_eq
  by (simp_all add: vg_valid_def sender_init_def ex_request_def vg_cols_def vg_rows_def recti_def)

section \<open>Properties\<close>

text \<open>
  C18: The sender keeps its parts in step through every operation: while it streams it has a valid
  geometry made from a request, and the scheduler's grid is the grid of that geometry, so a tile
  number always means the same square in both.
\<close>

theorem sender_invariant:
  "sender_inv sender_init \<and>
   (sender_inv s \<longrightarrow> sender_inv (set_viewport r s) \<and> sender_inv (set_pen d x y s) \<and>
      sender_inv (set_budget_tiles n s) \<and> sender_inv (set_sink a b s) \<and> sender_inv (fst (sender_stop io (s, w))) \<and>
      (encodes_job_sizes io \<longrightarrow> sender_inv (fst (snd (sender_tick io (s, w))))))"
proof -
  have "sender_inv sender_init"
    by (auto simp: sender_inv_def sender_init_def ts_inv_init empty_geometry_def vg_valid_def recti_def)
  then show ?thesis
    using sender_inv_viewport sender_inv_simple sender_inv_tick [of io s w] by (metis prod.collapse)
qed

theorem sender_invariant_witness:
  "sender_inv (set_viewport ex_request ex_sender) \<and> sender_inv (fst (snd (sender_tick ex_source (ex_sender, 5))))"
  using sender_invariant [of ex_sender ex_request False 0 0 1 True True ex_source 5] ex_sender_inv ex_source_sizes by simp

text \<open>
  Damage is never lost on its way into the schedule. When a captured frame reports a changed
  rectangle, or the target of a moved one, every tile that is sampled from one of its pixels is owed
  to the guest afterwards; a frame that says nothing about what changed makes every tile owed, and
  nothing that was owed before is forgotten.
\<close>

theorem captured_damage_is_owed:
  assumes "sender_inv s" and "sd_geometry_ready s" and "vg_i32 (sd_geometry s)"
    and "io_next io 0 w = (Some u, w1)" and "0 \<le> i" and "i < tile_count (sd_geometry s)"
    and "fu_full u \<or> fu_dirty u = [] \<or> ts_is_dirty (sd_scheduler s) i \<or>
      (\<exists>r \<in> set (fu_dirty u) \<union> mv_to ` set (fu_moves u).
         contains (tile_source_rect (sd_geometry s) i) px py \<and> contains r px py)"
  shows "ts_is_dirty (sd_scheduler (fst (snd (capture io (s, w))))) i"
proof -
  let ?g = "sd_geometry s" and ?ts = "sd_scheduler s"
  have inv: "ts_inv ?ts" and g: "vg_valid ?g" "ts_cols ?ts = vg_cols ?g" "ts_rows ?ts = vg_rows ?g"
    using assms(1,2) by (auto simp: sender_inv_def)
  have v: "ts_valid ?ts i" using assms(5,6) g by (simp add: ts_valid_def ts_size_def tile_count_def)
  have e: "sd_scheduler (fst (snd (capture io (s, w)))) = mark_update ?g u ?ts" by (simp add: capture_def assms(4))
  have t: "contains (tiles_touching ?g r) (i mod ts_cols ?ts) (i div ts_cols ?ts)"
    if "contains (tile_source_rect ?g i) px py" "contains r px py" for r
    using tiles_touching_covers [OF g(1) assms(3,5,6) that] g(2) by simp
  show ?thesis
  proof (cases "ts_is_dirty ?ts i")
    case True
    then show ?thesis unfolding e using mark_update_grows [OF inv, of ?g u] by (auto simp: grows_def)
  next
    case False
    then show ?thesis unfolding e using assms(7) t by (intro mark_update_dirty [OF inv v]) blast
  qed
qed

theorem captured_damage_is_owed_witness:
  "ts_is_dirty (sd_scheduler (fst (snd (capture ex_source (ex_sender, 5))))) 1"
proof (rule captured_damage_is_owed)
  show "io_next ex_source 0 5 =
    (Some \<lparr>fu_frame = 1, fu_full = False, fu_dirty = [recti 50 30 1 1], fu_moves = [], fu_accumulated = 1\<rparr>, 5)"
    by (simp add: ex_source_def)
  have "contains (tile_source_rect \<lparr>vg_region = recti 10 20 64 64, vg_out_w = 64, vg_out_h = 64, vg_tile = 32\<rparr> 1) 50 30"
    by code_simp
  then show "fu_full \<lparr>fu_frame = 1, fu_full = False, fu_dirty = [recti 50 30 1 1], fu_moves = [], fu_accumulated = 1\<rparr> \<or>
    fu_dirty \<lparr>fu_frame = 1, fu_full = False, fu_dirty = [recti 50 30 1 1], fu_moves = [], fu_accumulated = 1\<rparr> = [] \<or>
    ts_is_dirty (sd_scheduler ex_sender) 1 \<or>
    (\<exists>r \<in> set (fu_dirty \<lparr>fu_frame = 1, fu_full = False, fu_dirty = [recti 50 30 1 1], fu_moves = [], fu_accumulated = 1\<rparr>) \<union>
        mv_to ` set (fu_moves \<lparr>fu_frame = 1, fu_full = False, fu_dirty = [recti 50 30 1 1], fu_moves = [], fu_accumulated = 1\<rparr>).
       contains (tile_source_rect (sd_geometry ex_sender) 1) 50 30 \<and> contains r 50 30)"
    by (simp add: ex_sender_sel contains_def recti_def)
qed (simp_all add: ex_sender_inv ex_sender_sel vg_i32_def is_i32_def recti_def tile_count_def vg_cols_def vg_rows_def)

lemma ex_batch_sent: "fst (send_batch ex_source (ex_sender, 5)) \<noteq> []"
proof -
  have p: "pen_tile ex_sender = -1" by (simp add: pen_tile_def ex_sender_def set_sink_def set_viewport_def sender_init_def Let_def)
  have f: "focused ex_sender = ex_sender\<lparr>sd_scheduler := set_focus (-1) (ts_configure 2 2 ts_init), sd_logged_pen := -1\<rparr>"
    by (simp add: focused_def p ex_sender_sel)
  have "select 32 (set_focus (-1) (ts_configure 2 2 ts_init)) = [0, 1, 2, 3]" by code_simp
  then have sel: "selection ex_sender = [0, 1, 2, 3]" by (simp add: selection_def f ex_sender_sel)
  have j: "tile_jobs \<lparr>vg_region = recti 10 20 64 64, vg_out_w = 64, vg_out_h = 64, vg_tile = 32\<rparr> [0, 1, 2, 3] [] \<noteq> []"
    by code_simp
  have enc: "io_encode_tiles ex_source js w =
      (Some (replicate (sum_list (map (\<lambda>j. etc2_size (tj_out_w j) (tj_out_h j)) js)) 7), w)" for js w
    by (simp add: ex_source_def)
  have geo: "sd_geometry (focused ex_sender) = \<lparr>vg_region = recti 10 20 64 64, vg_out_w = 64, vg_out_h = 64, vg_tile = 32\<rparr>"
    by (simp add: ex_sender_sel)
  have "\<exists>pl s1 w2. batch_blocks ex_source (selection ex_sender) (focused ex_sender, 6) = (pl, [0, 1, 2, 3], s1, w2)"
    unfolding batch_blocks_def Let_def prod.case sel geo if_not_P [OF j] enc option.case by blast
  then obtain pl s1 w2 where b: "batch_blocks ex_source (selection ex_sender) (focused ex_sender, 6) = (pl, [0, 1, 2, 3], s1, w2)"
    by blast
  have n: "io_now ex_source w = (int w * 1000000000, w + 1)" "io_compress ex_source l q = Some (1 # q)" for w l q
    by (simp_all add: ex_source_def)
  have "selection ex_sender \<noteq> []" by (simp add: sel)
  then show ?thesis
    unfolding send_batch_def Let_def prod.case focused_def [symmetric] selection_def [symmetric] n
    using b by (simp add: n)
qed

text \<open>
  C17: A tile stops being owed only when it is in a batch handed to the sink. If a batch attempt puts
  nothing on the wire, for whatever reason (nothing selected, the screen could not be read, the
  compressor failed), exactly the same tiles are owed as before; otherwise the tiles that stopped
  being owed are named by the FRAME_INFO that was sent, and every tile it names is in the grid.
\<close>

theorem tile_owed_until_sent:
  assumes "sender_inv s" and "sd_geometry_ready s" and "encodes_job_sizes io"
    and "send_batch io (s, w) = (messages, s', w')"
  shows "(messages = [] \<longrightarrow> (\<forall>i. ts_is_dirty (sd_scheduler s') i \<longleftrightarrow> ts_is_dirty (sd_scheduler s) i)) \<and>
    (messages \<noteq> [] \<longrightarrow> (\<exists>info. hd messages = encode_FrameInfo info \<and> fi_seq info = sd_seq s + 1 \<and> fi_tiles info \<noteq> [] \<and>
       (\<forall>t \<in> set (fi_tiles info). uint t < tile_count (sd_geometry s)) \<and>
       (\<forall>i. ts_is_dirty (sd_scheduler s') i \<longleftrightarrow> ts_is_dirty (sd_scheduler s) i \<and> i \<notin> uint ` set (fi_tiles info))))"
  using assms(4,3)
proof (cases rule: send_batch_cases)
  case idle
  then show ?thesis using coreD(1) [OF idle(2)] by simp
next
  case (batch sent payload compressed)
  note c = send_batch_core [OF batch(8)]
  have inv: "ts_inv (set_focus (pen_tile s) (sd_scheduler s))"
    using assms(1) by (simp add: sender_inv_def ts_inv_set_focus)
  have d: "ts_is_dirty (sd_scheduler s') i \<longleftrightarrow> ts_is_dirty (sd_scheduler s) i \<and> i \<notin> uint ` set sent" for i
    using mark_sent_iff [OF inv] by (simp add: c(1))
  have g: "uint t < tile_count (sd_geometry s)" if "t \<in> set sent" for t
    using batch(4) that by (auto simp: tile_output_rect_def recti_def split: if_splits)
  show ?thesis using batch(1,7) d g c(2) by (auto simp: frame_info_def)
qed

theorem tile_owed_until_sent_witness:
  "\<exists>messages s' w' info. send_batch ex_source (ex_sender, 5) = (messages, s', w') \<and> messages \<noteq> [] \<and>
    hd messages = encode_FrameInfo info \<and> fi_seq info = sd_seq ex_sender + 1 \<and> fi_tiles info \<noteq> [] \<and>
    (\<forall>i. ts_is_dirty (sd_scheduler s') i \<longleftrightarrow> ts_is_dirty (sd_scheduler ex_sender) i \<and> i \<notin> uint ` set (fi_tiles info))"
proof -
  obtain messages s' w' where sb: "send_batch ex_source (ex_sender, 5) = (messages, s', w')" by (metis prod_cases3)
  then have "messages \<noteq> []" using ex_batch_sent by simp
  with tile_owed_until_sent [OF ex_sender_inv ex_sender_sel(2) ex_source_sizes sb] sb show ?thesis by blast
qed

text \<open>
  When the guest asks for a new geometry, every tile of the new grid is owed. When it asks for the
  geometry the sender already has, nothing becomes owed again, not even after a request that
  turned the stream off in between: what the guest dropped while it was away is not repainted.
\<close>

theorem viewport_repaint:
  assumes "sender_inv s" and "0 < vr_fps r" and "vr_format r = Format_Etc2Rgb8"
    and "vg_valid (request_geometry r)"
  shows "((\<not> sd_geometry_ready s \<or> request_geometry r \<noteq> sd_geometry s) \<longrightarrow>
      (\<forall>i. 0 \<le> i \<and> i < tile_count (request_geometry r) \<longrightarrow> ts_is_dirty (sd_scheduler (set_viewport r s)) i)) \<and>
    (sd_geometry_ready s \<and> request_geometry r = sd_geometry s \<and> vr_fps off = 0 \<longrightarrow>
      sd_scheduler (set_viewport r (set_viewport off s)) = sd_scheduler s \<and>
      sd_streaming (set_viewport r (set_viewport off s)))"
proof (intro conjI impI allI)
  fix i assume ch: "\<not> sd_geometry_ready s \<or> request_geometry r \<noteq> sd_geometry s"
    and i: "0 \<le> i \<and> i < tile_count (request_geometry r)"
  let ?g = "request_geometry r"
  have "sd_scheduler (set_viewport r s) = ts_configure (vg_cols ?g) (vg_rows ?g) (sd_scheduler s)"
    using ch assms(2-4) geometry_eqI [of ?g "sd_geometry s"] by (auto simp: set_viewport_def Let_def)
  moreover have "0 \<le> vg_cols ?g" "0 \<le> vg_rows ?g"
    using vg_cols_pos [OF assms(4)] vg_rows_pos [OF assms(4)] by simp_all
  ultimately show "ts_is_dirty (sd_scheduler (set_viewport r s)) i"
    using i by (auto simp: ts_configure_def mark_all_dirty_def Let_def ts_is_dirty_def ts_valid_def ts_size_def tile_count_def)
qed (use assms(2-4) in \<open>simp_all add: set_viewport_def Let_def\<close>)

theorem viewport_repaint_witness:
  "sd_scheduler (set_viewport ex_request (set_viewport viewport_req_init ex_sender)) = sd_scheduler ex_sender"
proof -
  have "0 < vr_fps ex_request" "vr_format ex_request = Format_Etc2Rgb8" "vr_fps viewport_req_init = 0"
    by (simp_all add: ex_request_def viewport_req_init_def)
  moreover have "vg_valid (request_geometry ex_request)" unfolding ex_geometry_eq by (simp add: vg_valid_def recti_def)
  ultimately show ?thesis
    using viewport_repaint [of ex_sender ex_request viewport_req_init] ex_sender_inv ex_sender_sel(1,2) ex_geometry_eq by simp
qed

end
