(* ===== verification/FrameReceiver.thy ===== *)
theory FrameReceiver
  imports Tiling Messages
begin

text \<open>
  The batch assembler of \<open>guest/app/src/main/cpp/screen/FrameReceiver.hpp\<close> and \<open>FrameReceiver.cpp\<close>: a
  FRAME_INFO opens a batch, FRAME_DATA chunks fill its buffer, and a full buffer is decompressed,
  checked against the tile sizes and queued for the render thread.

  \<open>ZSTD_decompress\<close> is an argument: given the capacity of the destination and the source it returns
  the bytes written, or \<open>None\<close> for an error code. The mutex has no counterpart: each operation
  is one step under it, and \<open>finish\<close>, which runs outside it, is called by the network thread alone.
\<close>

section \<open>Definitions\<close>

definition kMaxQueued :: nat where "kMaxQueued = 8"

record FrameBatch =
  fb_geometry :: ViewportGeometry
  fb_tiles :: "u16 list"
  fb_blocks :: bytes

record receiver_stats =
  rs_batches :: u64
  rs_tiles :: u64
  rs_bytes :: u64
  rs_malformed :: u64
  rs_stray_seq :: u64
  rs_dropped :: u64

record frame_receiver =
  fr_info :: FrameInfo
  fr_compressed :: bytes
  fr_received :: nat
  fr_have_info :: bool
  fr_ready :: "FrameBatch list"
  fr_stats :: receiver_stats

definition frame_info_init :: FrameInfo where
  "frame_info_init =
     \<lparr>fi_seq = 0, fi_x = 0, fi_y = 0, fi_w = 0, fi_h = 0, fi_out_w = 0, fi_out_h = 0, fi_format = Format_Off,
      fi_tile = 0, fi_raw_bytes = 0, fi_payload_bytes = 0, fi_tiles = []\<rparr>"

definition receiver_init :: frame_receiver where
  "receiver_init =
     \<lparr>fr_info = frame_info_init, fr_compressed = [], fr_received = 0, fr_have_info = False, fr_ready = [],
      fr_stats = \<lparr>rs_batches = 0, rs_tiles = 0, rs_bytes = 0, rs_malformed = 0, rs_stray_seq = 0, rs_dropped = 0\<rparr>\<rparr>"

definition fr_malformed :: "frame_receiver \<Rightarrow> frame_receiver" where
  "fr_malformed r = r\<lparr>fr_stats := (fr_stats r)\<lparr>rs_malformed := rs_malformed (fr_stats r) + 1\<rparr>\<rparr>"

definition fr_begin :: "FrameInfo \<Rightarrow> frame_receiver \<Rightarrow> frame_receiver" where
  "fr_begin info r =
     r\<lparr>fr_info := info, fr_compressed := replicate (unat (fi_payload_bytes info)) 0, fr_received := 0,
       fr_have_info := 0 < fi_payload_bytes info\<rparr>"

text \<open>The loop that adds up what the tiles need; \<open>None\<close> is a tile outside the grid.\<close>

fun blocks_needed :: "ViewportGeometry \<Rightarrow> u16 list \<Rightarrow> nat \<Rightarrow> nat option" where
  "blocks_needed g [] needed = Some needed"
| "blocks_needed g (index # rest) needed =
     (let rect = tile_output_rect g (uint index) in
      if rect_w rect \<le> 0 \<or> rect_h rect \<le> 0 then None
      else blocks_needed g rest (needed + etc2_size (rect_w rect) (rect_h rect)))"

definition info_geometry :: "FrameInfo \<Rightarrow> ViewportGeometry" where
  "info_geometry info =
     make_geometry (recti (sint (fi_x info)) (sint (fi_y info)) (sint (fi_w info)) (sint (fi_h info)))
       (uint (fi_out_w info)) (uint (fi_out_h info)) (uint (fi_tile info))"

definition fr_queue :: "FrameBatch \<Rightarrow> nat \<Rightarrow> frame_receiver \<Rightarrow> frame_receiver" where
  "fr_queue batch wire_bytes r =
     (let st = fr_stats r; full = kMaxQueued \<le> length (fr_ready r) in
      r\<lparr>fr_ready := (if full then tl (fr_ready r) else fr_ready r) @ [batch],
        fr_stats := st\<lparr>rs_batches := rs_batches st + 1, rs_tiles := rs_tiles st + of_nat (length (fb_tiles batch)),
          rs_bytes := rs_bytes st + of_nat wire_bytes,
          rs_dropped := rs_dropped st + (if full then 1 else 0)\<rparr>\<rparr>)"

definition fr_finish :: "(nat \<Rightarrow> bytes \<Rightarrow> bytes option) \<Rightarrow> FrameInfo \<Rightarrow> bytes \<Rightarrow> frame_receiver \<Rightarrow> frame_receiver" where
  "fr_finish decompress info compressed r =
     (if fi_format info \<noteq> Format_Etc2Rgb8 then fr_malformed r
      else
        let g = info_geometry info in
        if \<not> vg_valid g then fr_malformed r
        else
          case decompress (unat (fi_raw_bytes info)) compressed of
            None \<Rightarrow> fr_malformed r
          | Some blocks \<Rightarrow>
              if length blocks \<noteq> unat (fi_raw_bytes info) then fr_malformed r
              else
                (case blocks_needed g (fi_tiles info) 0 of
                   None \<Rightarrow> fr_malformed r
                 | Some needed \<Rightarrow>
                     if needed \<noteq> length blocks then fr_malformed r
                     else fr_queue \<lparr>fb_geometry = g, fb_tiles = fi_tiles info, fb_blocks = blocks\<rparr>
                       (length compressed) r))"

definition fr_append :: "(nat \<Rightarrow> bytes \<Rightarrow> bytes option) \<Rightarrow> FrameData \<Rightarrow> frame_receiver \<Rightarrow> frame_receiver" where
  "fr_append decompress chunk r =
     (if \<not> fr_have_info r then r
      else if fd_seq chunk \<noteq> fi_seq (fr_info r) then
        r\<lparr>fr_stats := (fr_stats r)\<lparr>rs_stray_seq := rs_stray_seq (fr_stats r) + 1\<rparr>\<rparr>
      else if length (fr_compressed r) < unat (fd_offset chunk) + length (fd_bytes chunk) then fr_malformed r
      else
        let o' = unat (fd_offset chunk); n = length (fd_bytes chunk);
            buffer = take o' (fr_compressed r) @ fd_bytes chunk @ drop (o' + n) (fr_compressed r);
            r1 = r\<lparr>fr_compressed := buffer, fr_received := fr_received r + n\<rparr> in
        if fr_received r1 < length (fr_compressed r1) then r1
        else fr_finish decompress (fr_info r1) buffer (r1\<lparr>fr_compressed := [], fr_have_info := False\<rparr>))"

definition fr_on_message :: "(nat \<Rightarrow> bytes \<Rightarrow> bytes option) \<Rightarrow> MsgType \<Rightarrow> bytes \<Rightarrow> frame_receiver \<Rightarrow> frame_receiver" where
  "fr_on_message decompress t payload r =
     (if t = Msg_FrameInfo then
        (case decode_FrameInfo payload of None \<Rightarrow> fr_malformed r | Some info \<Rightarrow> fr_begin info r)
      else if t = Msg_FrameData then
        (case decode_FrameData payload of None \<Rightarrow> fr_malformed r | Some chunk \<Rightarrow> fr_append decompress chunk r)
      else r)"

definition fr_reset :: "frame_receiver \<Rightarrow> frame_receiver" where
  "fr_reset r = r\<lparr>fr_compressed := [], fr_received := 0, fr_have_info := False, fr_ready := []\<rparr>"

definition fr_take :: "frame_receiver \<Rightarrow> FrameBatch list \<times> frame_receiver" where
  "fr_take r = (fr_ready r, r\<lparr>fr_ready := []\<rparr>)"

section \<open>Invariant\<close>

text \<open>
  A queued batch is one the renderer can walk: its geometry is valid, every tile is in its grid, and
  the blocks are exactly the bytes its tiles take.
\<close>

definition batch_ok :: "FrameBatch \<Rightarrow> bool" where
  "batch_ok b \<longleftrightarrow>
     vg_valid (fb_geometry b) \<and> (\<forall>t \<in> set (fb_tiles b). uint t < tile_count (fb_geometry b)) \<and>
     length (fb_blocks b) =
       sum_list (map (\<lambda>t. let r = tile_output_rect (fb_geometry b) (uint t) in etc2_size (rect_w r) (rect_h r)) (fb_tiles b))"

definition fr_inv :: "frame_receiver \<Rightarrow> bool" where
  "fr_inv r \<longleftrightarrow>
     length (fr_ready r) \<le> kMaxQueued \<and> (\<forall>b \<in> set (fr_ready r). batch_ok b) \<and>
     (fr_have_info r \<longrightarrow> fr_received r < length (fr_compressed r) \<and>
        length (fr_compressed r) = unat (fi_payload_bytes (fr_info r)))"

lemma blocks_needed_sum:
  "blocks_needed g ts n = Some k \<longleftrightarrow>
     (\<forall>t \<in> set ts. 0 < rect_w (tile_output_rect g (uint t)) \<and> 0 < rect_h (tile_output_rect g (uint t))) \<and>
     k = n + sum_list (map (\<lambda>t. let r = tile_output_rect g (uint t) in etc2_size (rect_w r) (rect_h r)) ts)"
  by (induction ts arbitrary: n) (auto simp: Let_def not_le)

lemma tile_in_grid:
  assumes "vg_valid g" "0 \<le> i"
  shows "0 < rect_w (tile_output_rect g i) \<and> 0 < rect_h (tile_output_rect g i) \<longleftrightarrow> i < tile_count g"
proof
  show "i < tile_count g" if "0 < rect_w (tile_output_rect g i) \<and> 0 < rect_h (tile_output_rect g i)"
    using that by (auto simp: tile_output_rect_def recti_def split: if_splits)
  show "0 < rect_w (tile_output_rect g i) \<and> 0 < rect_h (tile_output_rect g i)" if "i < tile_count g"
    using tile_output_rect_eq [OF assms(1,2) that] tile_split(5,6) [OF assms that] vg_validD(5) [OF assms(1)]
    by (simp add: recti_def)
qed

lemma blocks_needed_ok:
  assumes "vg_valid g"
  shows "blocks_needed g ts 0 = Some (length blocks) \<longleftrightarrow> batch_ok \<lparr>fb_geometry = g, fb_tiles = ts, fb_blocks = blocks\<rparr>"
  using assms tile_in_grid [OF assms] by (auto simp: blocks_needed_sum batch_ok_def)

lemma fr_malformed_sel [simp]:
  "fr_info (fr_malformed r) = fr_info r" "fr_compressed (fr_malformed r) = fr_compressed r"
  "fr_received (fr_malformed r) = fr_received r" "fr_have_info (fr_malformed r) = fr_have_info r"
  "fr_ready (fr_malformed r) = fr_ready r"
  by (simp_all add: fr_malformed_def)

lemma fr_inv_malformed [simp]: "fr_inv (fr_malformed r) = fr_inv r"
  by (simp add: fr_inv_def)

lemma fr_finish_cases:
  "fr_finish decompress info c r = fr_malformed r \<or>
   (\<exists>b. batch_ok b \<and> fb_tiles b = fi_tiles info \<and> fb_geometry b = info_geometry info \<and>
      fr_finish decompress info c r = fr_queue b (length c) r)"
  by (auto simp: fr_finish_def Let_def split: option.split) (metis blocks_needed_ok FrameBatch.select_convs(1,2))

lemma fr_inv_queue: "fr_inv r \<Longrightarrow> batch_ok b \<Longrightarrow> fr_inv (fr_queue b n r)"
  by (cases "fr_ready r") (auto simp: fr_inv_def fr_queue_def Let_def kMaxQueued_def)

lemma fr_inv_finish: "fr_inv r \<Longrightarrow> fr_inv (fr_finish decompress info c r)"
  using fr_finish_cases [of decompress info c r] fr_inv_queue by auto

lemma fr_inv_begin: "fr_inv r \<Longrightarrow> fr_inv (fr_begin info r)"
  by (auto simp: fr_inv_def fr_begin_def word_less_nat_alt)

lemma fr_inv_append: "fr_inv r \<Longrightarrow> fr_inv (fr_append decompress chunk r)"
  unfolding fr_append_def Let_def
  by (auto intro!: fr_inv_finish) (auto simp: fr_inv_def)

lemma fr_inv_on_message: "fr_inv r \<Longrightarrow> fr_inv (fr_on_message decompress t payload r)"
  by (simp add: fr_on_message_def fr_inv_begin fr_inv_append split: option.split)

section \<open>Assembling a batch\<close>

lemma fr_append_partial:
  assumes "fr_have_info r" "fd_seq chunk = fi_seq (fr_info r)"
    and "fr_compressed r = xs @ replicate (length (fd_bytes chunk) + k) 0" "fr_received r = length xs"
    and "unat (fd_offset chunk) = length xs" "0 < k"
  shows "fr_append decompress chunk r =
    r\<lparr>fr_compressed := (xs @ fd_bytes chunk) @ replicate k 0, fr_received := length (xs @ fd_bytes chunk)\<rparr>"
  using assms by (simp add: fr_append_def Let_def)

lemma fr_append_last:
  assumes "fr_have_info r" "fd_seq chunk = fi_seq (fr_info r)"
    and "fr_compressed r = xs @ replicate (length (fd_bytes chunk)) 0" "fr_received r = length xs"
    and "unat (fd_offset chunk) = length xs"
  shows "fr_append decompress chunk r =
    fr_finish decompress (fr_info r) (xs @ fd_bytes chunk)
      (r\<lparr>fr_received := length (xs @ fd_bytes chunk), fr_compressed := [], fr_have_info := False\<rparr>)"
  using assms by (simp add: fr_append_def Let_def)

lemma fr_finish_ok:
  assumes "fi_format info = Format_Etc2Rgb8" "decompress (unat (fi_raw_bytes info)) c = Some blocks"
    and "length blocks = unat (fi_raw_bytes info)"
    and "batch_ok \<lparr>fb_geometry = info_geometry info, fb_tiles = fi_tiles info, fb_blocks = blocks\<rparr>"
  shows "fr_finish decompress info c r =
    fr_queue \<lparr>fb_geometry = info_geometry info, fb_tiles = fi_tiles info, fb_blocks = blocks\<rparr> (length c) r"
proof -
  have v: "vg_valid (info_geometry info)" using assms(4) by (simp add: batch_ok_def)
  then show ?thesis using assms by (simp add: fr_finish_def Let_def blocks_needed_ok [THEN iffD2])
qed

section \<open>Properties\<close>

text \<open>
  Whatever arrives, in whatever order and however malformed, the receiver keeps at most eight
  batches waiting, and each waiting batch is safe to draw: its geometry is valid, every tile number
  is inside its grid, and it carries exactly the bytes its tiles take. The assembly buffer always
  has the announced size and is never full while a batch is still open.
\<close>

theorem receiver_queue_safe:
  "fr_inv receiver_init \<and>
   (fr_inv r \<longrightarrow> fr_inv (fr_on_message decompress t payload r) \<and> fr_inv (fr_reset r) \<and>
      fr_inv (snd (fr_take r)) \<and> (\<forall>b \<in> set (fst (fr_take r)). batch_ok b))"
  by (auto simp: fr_inv_on_message) (auto simp: fr_inv_def receiver_init_def fr_reset_def fr_take_def)

theorem receiver_queue_safe_witness:
  "fr_inv (fr_on_message (\<lambda>n c. None) Msg_FrameData [1, 2, 3] receiver_init)"
  using receiver_queue_safe [of receiver_init "\<lambda>n c. None" Msg_FrameData "[1, 2, 3]"]
    receiver_queue_safe [of receiver_init "\<lambda>n c. None" Msg_Hello "[]"] by simp

end
