(* ===== verification/ScreenStream.thy ===== *)
theory ScreenStream
  imports FrameSender FrameReceiver Framer
begin

text \<open>
  The screen stream from end to end: what the host's \<open>FrameSender\<close> hands to its sink, put through the
  byte stream and the guest's message framer, arrives in the guest's \<open>FrameReceiver\<close> as one batch with
  the same geometry, the same tiles and the same blocks.

  zstd is outside the sources; what the two ends rely on is stated as \<open>zstd_ok\<close>: compressing never gives
  an empty result or one beyond \<open>ZSTD_compressBound\<close>, and decompressing it into a buffer of the original
  size gives the original.
\<close>

section \<open>Definitions\<close>

definition zstd_ok :: "(int \<Rightarrow> bytes \<Rightarrow> bytes option) \<Rightarrow> (nat \<Rightarrow> bytes \<Rightarrow> bytes option) \<Rightarrow> bool" where
  "zstd_ok compress decompress \<longleftrightarrow>
     (\<forall>level p c. compress level p = Some c \<longrightarrow>
        c \<noteq> [] \<and> length c \<le> length p + length p div 256 + 64 \<and> decompress (length p) c = Some p)"

text \<open>What the guest's network thread does with the frames of a receive.\<close>

definition deliver :: "(nat \<Rightarrow> bytes \<Rightarrow> bytes option) \<Rightarrow> frame list \<Rightarrow> frame_receiver \<Rightarrow> frame_receiver" where
  "deliver decompress frames r = fold (\<lambda>(t, flags, payload). fr_on_message decompress t payload) frames r"

fun on_screen_message :: "(nat \<Rightarrow> bytes \<Rightarrow> bytes option) \<Rightarrow> message \<Rightarrow> frame_receiver \<Rightarrow> frame_receiver" where
  "on_screen_message decompress (M_FrameInfo info) r = fr_begin info r"
| "on_screen_message decompress (M_FrameData chunk) r = fr_append decompress chunk r"
| "on_screen_message decompress m r = r"

section \<open>Reassembly\<close>

lemma on_message_frame:
  "decode_frame (t, flags, p) = Some m \<Longrightarrow> fr_on_message decompress t p r = on_screen_message decompress m r"
  by (cases t) (auto simp: fr_on_message_def)

lemma deliver_messages:
  "map decode_frame frames = map Some ms \<Longrightarrow> deliver decompress frames r = fold (on_screen_message decompress) ms r"
proof (induction frames arbitrary: ms r)
  case (Cons f frames)
  then obtain m ms' where ms: "ms = m # ms'" "decode_frame f = Some m" "map decode_frame frames = map Some ms'" by (cases ms) auto
  obtain t fl p where f: "f = (t, fl, p)" by (metis prod_cases3)
  show ?case using Cons.IH [OF ms(3)] on_message_frame [of t fl p m decompress r] ms(2) unfolding f ms(1) deliver_def by simp
qed (simp add: deliver_def)

lemma append_chunks:
  assumes "offset < length c" "length c < 2 ^ 32"
    and "fr_have_info r" "fi_seq (fr_info r) = seq" "fr_received r = offset"
    and "fr_compressed r = take offset c @ replicate (length c - offset) 0"
  shows "fold (fr_append decompress) (frame_chunks seq c offset) r =
    fr_finish decompress (fr_info r) c (r\<lparr>fr_received := length c, fr_compressed := [], fr_have_info := False\<rparr>)"
  using assms
proof (induction seq c offset arbitrary: r rule: frame_chunks.induct)
  case (1 seq c offset)
  define n where "n = min kFrameChunkBytes (length c - offset)"
  let ?d = "\<lparr>fd_seq = seq, fd_offset = of_nat offset, fd_bytes = take n (drop offset c)\<rparr>"
  have ln: "length (fd_bytes ?d) = n" "0 < n" "n \<le> length c - offset"
    using "1.prems"(1) by (auto simp: n_def kFrameChunkBytes_def)
  have o': "unat (fd_offset ?d) = length (take offset c)" using "1.prems"(1,2) by (simp add: unat_of_nat take_bit_nat_eq_self)
  have tk: "take offset c @ take n (drop offset c) = take (offset + n) c" by (simp add: take_add)
  have u: "frame_chunks seq c offset = ?d # frame_chunks seq c (offset + kFrameChunkBytes)"
    using "1.prems"(1) by (subst frame_chunks.simps) (simp add: Let_def n_def)
  show ?case
  proof (cases "offset + kFrameChunkBytes < length c")
    case True
    then have n: "n = kFrameChunkBytes" by (simp add: n_def)
    have "fr_append decompress ?d r = r\<lparr>fr_compressed := (take offset c @ fd_bytes ?d) @ replicate (length c - offset - n) 0,
        fr_received := length (take offset c @ fd_bytes ?d)\<rparr>"
      using "1.prems" ln True o' n by (intro fr_append_partial) simp_all
    also have "\<dots> = r\<lparr>fr_compressed := take (offset + n) c @ replicate (length c - (offset + n)) 0, fr_received := offset + n\<rparr>"
      using True n "1.prems"(1) by (simp add: take_add)
    finally have a: "fr_append decompress ?d r = \<dots>" .
    have "fold (fr_append decompress) (frame_chunks seq c (offset + n)) (fr_append decompress ?d r) =
      fr_finish decompress (fr_info r) c (r\<lparr>fr_received := length c, fr_compressed := [], fr_have_info := False\<rparr>)"
      unfolding a using "1.IH" [OF "1.prems"(1) refl, of "r\<lparr>fr_compressed := take (offset + n) c @ replicate (length c - (offset + n)) 0, fr_received := offset + n\<rparr>"]
        True n "1.prems" by simp
    then show ?thesis unfolding u n by simp
  next
    case False
    then have n: "offset + n = length c" using "1.prems"(1) by (simp add: n_def)
    have z: "frame_chunks seq c (offset + kFrameChunkBytes) = []" using False by (subst frame_chunks.simps) simp
    have "fr_append decompress ?d r = fr_finish decompress (fr_info r) (take offset c @ fd_bytes ?d)
        (r\<lparr>fr_received := length (take offset c @ fd_bytes ?d), fr_compressed := [], fr_have_info := False\<rparr>)"
      using "1.prems" ln o' n by (intro fr_append_last) auto
    then show ?thesis unfolding u z using n by (simp add: tk)
  qed
qed

section \<open>The geometry survives the trip\<close>

lemma round_up_fixed: "0 < m \<Longrightarrow> 0 \<le> v \<Longrightarrow> v mod m = 0 \<Longrightarrow> round_up_to v m = v"
proof -
  assume m: "0 < m" and v: "0 \<le> v" "v mod m = 0"
  from v(2) obtain k where k: "v = m * k" by (auto elim: dvdE)
  have "m * k + m - 1 = m - 1 + k * m" by (simp add: mult.commute)
  then have "(m * k + m - 1) div m = k" using m by (simp only: div_mult_self1) simp
  then show ?thesis using m v by (simp add: round_up_to_def k)
qed

lemma make_geometry_bounds:
  assumes "g = make_geometry region ow oh t" "vg_valid g"
  shows "vg_region g = region" "4 \<le> vg_out_w g" "vg_out_w g \<le> 8192" "vg_out_w g mod 4 = 0"
    "4 \<le> vg_out_h g" "vg_out_h g \<le> 8192" "vg_out_h g mod 4 = 0"
    "8 \<le> vg_tile g" "vg_tile g \<le> 256" "vg_tile g mod 4 = 0" "0 < rect_w region" "0 < rect_h region"
proof -
  show p: "0 < rect_w region" "0 < rect_h region"
    using assms by (auto simp: make_geometry_def empty_geometry_def vg_valid_def split: if_splits)
  let ?ow = "if ow \<le> 0 then rect_w region else ow" and ?oh = "if oh \<le> 0 then rect_h region else oh"
  let ?t = "if t \<le> 0 then 64 else t"
  have g: "vg_region g = region" "vg_out_w g = round_up_to (clamp ?ow 4 8192) 4"
    "vg_out_h g = round_up_to (clamp ?oh 4 8192) 4" "vg_tile g = round_up_to (clamp ?t 8 256) 4"
    using p assms(1) by (simp_all add: make_geometry_def Let_def)
  show "vg_region g = region" by (fact g(1))
  show "4 \<le> vg_out_w g" "vg_out_w g \<le> 8192" "vg_out_w g mod 4 = 0" unfolding g by (rule round_up_clamp; simp)+
  show "4 \<le> vg_out_h g" "vg_out_h g \<le> 8192" "vg_out_h g mod 4 = 0" unfolding g by (rule round_up_clamp; simp)+
  show "8 \<le> vg_tile g" "vg_tile g \<le> 256" "vg_tile g mod 4 = 0" unfolding g by (rule round_up_clamp; simp)+
qed

lemma make_geometry_idem:
  assumes "g = make_geometry region ow oh t" "vg_valid g"
  shows "make_geometry (vg_region g) (vg_out_w g) (vg_out_h g) (vg_tile g) = g"
  using make_geometry_bounds [OF assms]
  by (intro geometry_eqI) (auto simp: make_geometry_def Let_def round_up_fixed)

lemma info_geometry_sent:
  assumes g: "sd_geometry s \<in> range request_geometry" "vg_valid (sd_geometry s)" "vg_tile (sd_geometry s) < 256"
  shows "info_geometry (frame_info s sent payload c) = sd_geometry s"
proof -
  obtain r where r: "sd_geometry s = request_geometry r" using g(1) by auto
  note b = make_geometry_bounds [OF r [unfolded request_geometry_def] g(2)]
  have reg: "vg_region (sd_geometry s) = recti (sint (vr_x r)) (sint (vr_y r)) (sint (vr_w r)) (sint (vr_h r))" by (rule b(1))
  have u: "uint (word_of_int (vg_out_w (sd_geometry s)) :: u16) = vg_out_w (sd_geometry s)"
    "uint (word_of_int (vg_out_h (sd_geometry s)) :: u16) = vg_out_h (sd_geometry s)"
    "uint (word_of_int (vg_tile (sd_geometry s)) :: u8) = vg_tile (sd_geometry s)"
    using b g(3) by (simp_all add: uint_word_of_int)
  have "info_geometry (frame_info s sent payload c) =
      make_geometry (vg_region (sd_geometry s)) (vg_out_w (sd_geometry s)) (vg_out_h (sd_geometry s)) (vg_tile (sd_geometry s))"
    unfolding info_geometry_def frame_info_def using u by (simp add: reg recti_def)
  also have "\<dots> = sd_geometry s" by (rule make_geometry_idem [OF r [unfolded request_geometry_def] g(2)])
  finally show ?thesis .
qed

section \<open>Sizes\<close>

lemma selection_length:
  assumes "ts_inv s" "0 \<le> budget"
  shows "length (select budget s) \<le> nat budget + 1"
  using taken_steps_props(2) [OF assms(2), of s] by (auto simp: select_eq [OF assms(1)])

lemma tile_bytes_le:
  assumes "vg_valid g" "vg_tile g \<le> 256"
  shows "tile_bytes g t \<le> 32768"
proof (cases "tile_shown g t")
  case True
  let ?r = "tile_output_rect g (uint t)"
  have "rect_w ?r \<le> 256" "rect_h ?r \<le> 256"
    using assms(2) by (auto simp: tile_output_rect_def recti_def Let_def)
  then have "nat (rect_w ?r div 4) \<le> 64" "nat (rect_h ?r div 4) \<le> 64" by auto
  then have "nat (rect_w ?r div 4) * nat (rect_h ?r div 4) \<le> 64 * 64" by (rule mult_le_mono)
  then show ?thesis using True by (simp add: tile_bytes_def etc2_size_def kEtc2BlockSize_def kEtc2BlockBytes_def Let_def mult.commute)
next
  case False
  then show ?thesis by (auto simp: tile_bytes_def etc2_size_def Let_def not_less)
qed

lemma sum_list_le: "(\<And>x. f x \<le> k) \<Longrightarrow> sum_list (map f xs) \<le> length xs * k" for k :: nat
  by (induction xs) (auto intro: add_mono)

lemma chunk_sizes: "d \<in> set (frame_chunks seq c offset) \<Longrightarrow> length (fd_bytes d) \<le> kFrameChunkBytes"
proof (induction seq c offset rule: frame_chunks.induct)
  case (1 seq c offset)
  from "1.prems" show ?case by (subst (asm) frame_chunks.simps) (auto simp: Let_def dest: "1.IH" split: if_splits)
qed

lemma batch_messages_arrive:
  assumes "wf_FrameInfo info" "c \<noteq> []" "length c < 2 ^ 32" "fi_payload_bytes info = of_nat (length c)" "fi_seq info = seq"
    and "concat cs = concat (encode_FrameInfo info # map encode_FrameData (frame_chunks seq c 0))"
    and "feed cs framer_init = (frames, f)"
  shows "deliver decompress frames r =
    fr_finish decompress info c (r\<lparr>fr_info := info, fr_received := length c, fr_compressed := [], fr_have_info := False\<rparr>)"
proof -
  let ?ms = "M_FrameInfo info # map M_FrameData (frame_chunks seq c 0)"
  have "\<forall>m \<in> set ?ms. wf_message m"
    using assms(1) chunk_sizes [of _ seq c 0] by (auto simp: wf_FrameData_def kMaxPayload_def kFrameChunkBytes_def dest!: chunk_sizes)
  then obtain fs where fs: "map decode_frame fs = map Some ?ms" "parse (concat (map encode_message ?ms)) = (fs, [], 0)"
    using parse_stream by blast
  have "concat cs = concat (map encode_message ?ms)" using assms(6) by (simp add: comp_def)
  with fs feed_parse [OF framer_idle_init, of cs fs "[]" 0] assms(7) have fr: "frames = fs" by (auto simp: pending_bytes_def framer_init_def)
  have n: "unat (fi_payload_bytes info) = length c" using assms(3,4) by (simp add: unat_of_nat take_bit_nat_eq_self)
  have p: "0 < fi_payload_bytes info" using n assms(2) by (simp add: word_less_nat_alt)
  let ?r = "fr_begin info r"
  have "deliver decompress frames r = fold (fr_append decompress) (frame_chunks seq c 0) ?r"
  proof -
    have "(\<lambda>d. on_screen_message decompress (M_FrameData d)) = fr_append decompress" by (intro ext) simp
    then show ?thesis unfolding fr deliver_messages [OF fs(1)] by (simp add: fold_map comp_def)
  qed
  also have "\<dots> = fr_finish decompress (fr_info ?r) c (?r\<lparr>fr_received := length c, fr_compressed := [], fr_have_info := False\<rparr>)"
    using assms(2,3,5) n p by (intro append_chunks) (simp_all add: fr_begin_def)
  finally show ?thesis by (simp add: fr_begin_def)
qed

section \<open>Properties\<close>

text \<open>
  C5: A batch arrives as it was sent. When the sender puts a batch on the wire, and the bytes reach
  the guest in whatever pieces the socket makes of them, the guest queues one batch: the sender's
  geometry, the tiles the sender encoded, in their order, and byte for byte the blocks it encoded
  for them (what \<open>batch_blocks\<close> produced for the tiles the scheduler selected). These are the tiles
  the sender marks as sent, and the blocks are as long as the tiles need; nothing is counted as
  malformed and nothing is left half assembled. It takes zstd to round trip, an encoder that
  gives each tile its size, a budget of at most 65536 tiles and a tile edge below 256, the only
  edge that does not fit its byte in FRAME_INFO.
\<close>

theorem batch_delivered:
  assumes "sender_inv s" and "sd_geometry_ready s" and "sd_budget_tiles s \<le> 65536"
    and "vg_tile (sd_geometry s) < 256"
    and "encodes_job_sizes io" and "zstd_ok (io_compress io) decompress"
    and "send_batch io (s, w) = (messages, s', w')" and "messages \<noteq> []"
    and "concat cs = concat messages" and "feed cs framer_init = (frames, f)"
  shows "\<exists>sent payload s1 w1 batch.
    batch_blocks io (selection s) (focused s, snd (io_now io w)) = (payload, sent, s1, w1) \<and>
    batch = \<lparr>fb_geometry = sd_geometry s, fb_tiles = sent, fb_blocks = payload\<rparr> \<and>
    batch_ok batch \<and> sent \<noteq> [] \<and>
    fr_ready (deliver decompress frames r) =
      (if kMaxQueued \<le> length (fr_ready r) then tl (fr_ready r) else fr_ready r) @ [batch] \<and>
    rs_malformed (fr_stats (deliver decompress frames r)) = rs_malformed (fr_stats r) \<and>
    \<not> fr_have_info (deliver decompress frames r) \<and>
    (\<forall>i. ts_is_dirty (sd_scheduler s') i \<longleftrightarrow> ts_is_dirty (sd_scheduler s) i \<and> i \<notin> uint ` set sent)"
  using assms(7,5)
proof (cases rule: send_batch_cases)
  case idle
  then show ?thesis using assms(8) by simp
next
  case (batch sent payload c)
  let ?g = "sd_geometry s" and ?info = "frame_info s' sent payload c"
  note co = send_batch_core [OF batch(8)]
  have g: "vg_valid ?g" "?g \<in> range request_geometry" and ts: "ts_inv (set_focus (pen_tile s) (sd_scheduler s))"
    using assms(1,2) by (auto simp: sender_inv_def ts_inv_set_focus)
  have "length sent \<le> 65537" using batch(3) selection_length [OF ts, of "sd_budget_tiles s"] assms(1,3)
    by (simp add: selection_def sender_inv_def)
  moreover have "length payload \<le> length sent * 32768"
    unfolding batch(5) using tile_bytes_le [OF g(1)] assms(4) by (intro sum_list_le) simp
  ultimately have pl: "length payload \<le> 65537 * 32768" and ls: "36 + 2 * length sent \<le> unat kMaxPayload"
    by (simp_all add: kMaxPayload_def)
  have z: "c \<noteq> []" "length c \<le> length payload + length payload div 256 + 64" "decompress (length payload) c = Some payload"
    using assms(6) batch(6) by (auto simp: zstd_ok_def)
  have lc: "length c < 2 ^ 32" using z(2) pl by simp
  have ig: "info_geometry ?info = ?g"
    using info_geometry_sent [of s'] g assms(4) co(3) by simp
  have raw: "unat (fi_raw_bytes ?info) = length payload" using pl by (simp add: frame_info_def unat_of_nat take_bit_nat_eq_self)
  let ?b = "\<lparr>fb_geometry = ?g, fb_tiles = sent, fb_blocks = payload\<rparr>"
  have ok: "batch_ok ?b"
    using g(1) batch(4,5) tile_in_grid [OF g(1)] by (auto simp: batch_ok_def tile_bytes_def [abs_def] Let_def)
  have fmt: "fi_format ?info = Format_Etc2Rgb8" "fi_tiles ?info = sent" by (simp_all add: frame_info_def)
  let ?r = "r\<lparr>fr_info := ?info, fr_received := length c, fr_compressed := [], fr_have_info := False\<rparr>"
  have "deliver decompress frames r = fr_finish decompress ?info c ?r"
    using ls z(1) lc assms(9,10) batch(7) 
    by (intro batch_messages_arrive) (simp_all add: frame_info_def wf_FrameInfo_def enum_FrameFormat_def frame_format_of_u8_def)
  also have "\<dots> = fr_queue ?b (length c) ?r"
    by (rule fr_finish_ok [of ?info decompress c payload ?r, unfolded ig fmt(2) raw, OF fmt(1) z(3) refl ok])
  finally have d: "deliver decompress frames r = fr_queue ?b (length c) ?r" .
  have "ts_is_dirty (sd_scheduler s') i \<longleftrightarrow> ts_is_dirty (sd_scheduler s) i \<and> i \<notin> uint ` set sent" for i
    using mark_sent_iff [OF ts] by (simp add: co(1))
  moreover obtain s1 w1 where "batch_blocks io (selection s) (focused s, snd (io_now io w)) = (payload, sent, s1, w1)"
    using batch(9) by blast
  ultimately show ?thesis unfolding d using ok batch(1)
    by (intro exI [of _ sent] exI [of _ payload] exI [of _ s1] exI [of _ w1] exI [of _ ?b]) (simp add: fr_queue_def Let_def)
qed

lemma ex_zstd: "zstd_ok (io_compress ex_source) (\<lambda>n c. Some (take n (tl c)))"
  by (auto simp: zstd_ok_def ex_source_def)

theorem batch_delivered_witness:
  "(let (messages, s', w') = send_batch ex_source (ex_sender, 5); (frames, f) = feed messages framer_init;
     (payload, sent, s1, w1) = batch_blocks ex_source (selection ex_sender) (focused ex_sender, snd (io_now ex_source 5)) in
    sent \<noteq> [] \<and> fr_ready (deliver (\<lambda>n c. Some (take n (tl c))) frames receiver_init) =
      [\<lparr>fb_geometry = sd_geometry ex_sender, fb_tiles = sent, fb_blocks = payload\<rparr>])"
proof -
  obtain messages s' w' where sb: "send_batch ex_source (ex_sender, 5) = (messages, s', w')" by (metis prod_cases3)
  obtain frames f where fd: "feed messages framer_init = (frames, f)" by fastforce
  have "messages \<noteq> []" using ex_batch_sent sb by simp
  from batch_delivered [OF ex_sender_inv ex_sender_sel(2) _ _ ex_source_sizes ex_zstd sb this refl fd, of receiver_init]
  show ?thesis by (auto simp: sb fd ex_sender_sel receiver_init_def kMaxQueued_def)
qed

text \<open>
  C25: The one tile edge that is lost: a request for 253 to 255 is rounded up to 256 pixels by the host,
  which no longer fits the byte FRAME_INFO has for it. The guest reads the edge as 0, takes that as the
  default of 64, and so lays the tiles of the batch out on a different grid.
\<close>

theorem widest_tile_lost:
  assumes "253 \<le> vr_tile r" and "vg_valid (request_geometry r)" and "sd_geometry s = request_geometry r"
  shows "vg_tile (sd_geometry s) = 256 \<and> vg_tile (info_geometry (frame_info s sent payload c)) = 64"
proof -
  have t: "253 \<le> uint (vr_tile r)" "uint (vr_tile r) \<le> 255"
    using assms(1) uint_lt2p [of "vr_tile r"] by (simp_all add: word_le_def)
  note b = make_geometry_bounds [OF refl assms(2) [unfolded request_geometry_def]]
  have "vg_tile (request_geometry r) = round_up_to (uint (vr_tile r)) 4"
    using t b(11,12) by (simp add: request_geometry_def make_geometry_def Let_def)
  also have "\<dots> = 256" using t by (simp add: round_up_to_def)
  finally have h: "vg_tile (sd_geometry s) = 256" using assms(3) by simp
  have "vg_region (sd_geometry s) = recti (sint (vr_x r)) (sint (vr_y r)) (sint (vr_w r)) (sint (vr_h r))"
    using b(1) assms(3) by (simp add: request_geometry_def)
  then show ?thesis using h b(11,12) 
    by (simp add: info_geometry_def frame_info_def make_geometry_def Let_def recti_def round_up_to_def)
qed

theorem widest_tile_lost_witness:
  "vg_tile (info_geometry (frame_info (set_viewport (ex_request\<lparr>vr_tile := 255\<rparr>) sender_init) [0] [] [1])) = 64"
proof -
  have v: "vg_valid (request_geometry (ex_request\<lparr>vr_tile := 255\<rparr>))" by code_simp
  have "sd_geometry (set_viewport (ex_request\<lparr>vr_tile := 255\<rparr>) sender_init) = request_geometry (ex_request\<lparr>vr_tile := 255\<rparr>)"
    using v by (simp add: set_viewport_def Let_def ex_request_def)
  from widest_tile_lost [OF _ v this, of "[0]" "[]" "[1]"] show ?thesis by simp
qed

end
