(* ===== verification/TouchRouter.thy ===== *)
theory TouchRouter
  imports Geometry Messages
begin

text \<open>
  The guest's touch routing of \<open>guest/app/src/main/cpp/input/TouchRouter.hpp\<close> and \<open>TouchRouter.cpp\<close>: one
  finger draws on the PC (or moves its cursor, in slide mode), two or more move the view, and widgets
  take the fingers that land on them.

  A motion event is given by its masked action, the pointer index encoded beside it, its time in
  milliseconds and its pointers. What is handed to the sink is the list of POINTER messages each
  operation returns. The widgets are operations on a state \<open>'u\<close>; a mode change a widget asks for is a
  step of its own. Coordinates are real numbers instead of \<open>double\<close>. The clock check in \<open>emit\<close> only
  writes a log line and has no counterpart.
\<close>

section \<open>Definitions\<close>

definition kPressSlopDp :: real where "kPressSlopDp = 3"
definition kPressHoldUs :: u64 where "kPressHoldUs = 100000"
definition kTapSlopDp :: real where "kTapSlopDp = 10"
definition kTapMaxUs :: u64 where "kTapMaxUs = 300000"

datatype InputMode = Mode_Draw | Mode_Slide | Mode_Pan

datatype tool_type = Tool_Finger | Tool_Stylus | Tool_Eraser | Tool_Other

record touch_pointer =
  tp_id :: int
  tp_pos :: Vec2
  tp_tool :: tool_type

datatype motion_action =
  Motion_Down | Motion_Up | Motion_Move | Motion_Cancel | Motion_PointerDown | Motion_PointerUp | Motion_Other

record motion_event =
  me_action :: motion_action
  me_index :: nat
  me_time :: u64
  me_pointers :: "touch_pointer list"

definition pointer_pos :: "motion_event \<Rightarrow> nat \<Rightarrow> Vec2" where
  "pointer_pos event index = tp_pos (me_pointers event ! index)"

definition remaining :: "motion_event \<Rightarrow> int \<Rightarrow> nat list" where
  "remaining event exclude = filter (\<lambda>i. int i \<noteq> exclude) [0..<length (me_pointers event)]"

definition v_length :: "Vec2 \<Rightarrow> real" where
  "v_length d = sqrt (v_x d * v_x d + v_y d * v_y d)"

definition centroid_of :: "motion_event \<Rightarrow> int \<Rightarrow> Vec2" where
  "centroid_of event exclude =
     (let is = remaining event exclude; total = fold (\<lambda>i acc. v_add acc (pointer_pos event i)) is (vec2 0 0) in
      if is \<noteq> [] then v_divide total (real (length is)) else total)"

definition spread_of :: "motion_event \<Rightarrow> Vec2 \<Rightarrow> int \<Rightarrow> real" where
  "spread_of event centroid exclude =
     (let is = remaining event exclude; total = sum_list (map (\<lambda>i. v_length (v_sub (pointer_pos event i) centroid)) is) in
      if 2 \<le> length is then total / real (length is) else 0)"

fun next_mode :: "InputMode \<Rightarrow> InputMode" where
  "next_mode Mode_Draw = Mode_Slide"
| "next_mode Mode_Slide = Mode_Pan"
| "next_mode Mode_Pan = Mode_Draw"

record touch_router =
  tr_view :: ViewTransform
  tr_sink :: bool
  tr_ui_captured :: bool
  tr_on_screen :: "(Vec2 \<Rightarrow> bool) option"
  tr_mode :: InputMode
  tr_stroke_active :: bool
  tr_stylus_only :: bool
  tr_press_pending :: bool
  tr_press_p :: Vec2
  tr_press_us :: u64
  tr_gesture_active :: bool
  tr_view_adjusted :: bool
  tr_stroke_pointer_id :: int
  tr_last_sent :: Vec2
  tr_last_sent_us :: u64
  tr_min_interval_us :: u64
  tr_min_distance_px :: real
  tr_gesture_centroid :: Vec2
  tr_gesture_spread :: real
  tr_density :: real
  tr_slide_active :: bool
  tr_slide_started_sent :: bool
  tr_slide_last :: Vec2
  tr_slide_remainder :: Vec2
  tr_slide_origin :: Vec2
  tr_slide_origin_us :: u64
  tr_slide_travel :: real
  tr_slide_sent_x :: int
  tr_slide_sent_y :: int
  tr_slide_sent_events :: int

definition router_init :: "ViewTransform \<Rightarrow> touch_router" where
  "router_init view =
     \<lparr>tr_view = view, tr_sink = True, tr_ui_captured = False, tr_on_screen = None, tr_mode = Mode_Draw,
      tr_stroke_active = False, tr_stylus_only = False, tr_press_pending = False, tr_press_p = vec2 0 0,
      tr_press_us = 0, tr_gesture_active = False, tr_view_adjusted = False, tr_stroke_pointer_id = -1,
      tr_last_sent = vec2 0 0, tr_last_sent_us = 0, tr_min_interval_us = 0, tr_min_distance_px = 0,
      tr_gesture_centroid = vec2 0 0, tr_gesture_spread = 0, tr_density = 1, tr_slide_active = False,
      tr_slide_started_sent = False, tr_slide_last = vec2 0 0, tr_slide_remainder = vec2 0 0,
      tr_slide_origin = vec2 0 0, tr_slide_origin_us = 0, tr_slide_travel = 0, tr_slide_sent_x = 0,
      tr_slide_sent_y = 0, tr_slide_sent_events = 0\<rparr>"

definition set_stylus_only :: "bool \<Rightarrow> touch_router \<Rightarrow> touch_router" where
  "set_stylus_only on r = r\<lparr>tr_stylus_only := on\<rparr>"

definition set_min_interval_us :: "u64 \<Rightarrow> touch_router \<Rightarrow> touch_router" where
  "set_min_interval_us us r = r\<lparr>tr_min_interval_us := us\<rparr>"

definition set_min_distance_px :: "real \<Rightarrow> touch_router \<Rightarrow> touch_router" where
  "set_min_distance_px px r = r\<lparr>tr_min_distance_px := px\<rparr>"

definition set_density :: "real \<Rightarrow> touch_router \<Rightarrow> touch_router" where
  "set_density density r = r\<lparr>tr_density := (if 0 < density then density else 1)\<rparr>"

definition set_pc_point_test :: "(Vec2 \<Rightarrow> bool) \<Rightarrow> touch_router \<Rightarrow> touch_router" where
  "set_pc_point_test on_screen r = r\<lparr>tr_on_screen := Some on_screen\<rparr>"

definition cancel_ui_capture :: "touch_router \<Rightarrow> touch_router" where
  "cancel_ui_capture r = r\<lparr>tr_ui_captured := False\<rparr>"

subsection \<open>Messages\<close>

definition lands_on_screen :: "touch_router \<Rightarrow> Vec2 \<Rightarrow> bool" where
  "lands_on_screen r surface =
     (case tr_on_screen r of None \<Rightarrow> True | Some on_screen \<Rightarrow> on_screen (to_pc (tr_view r) surface))"

text \<open>\<open>1.0f\<close> as a bit pattern.\<close>

definition f32_one :: f32 where "f32_one = 0x3F800000"

definition tr_emit :: "PointerAction \<Rightarrow> Vec2 \<Rightarrow> u64 \<Rightarrow> touch_router \<Rightarrow> Pointer list" where
  "tr_emit action surface t_us r =
     (if \<not> tr_sink r then []
      else
        let pc = to_pc (tr_view r) surface in
        [\<lparr>p_t_us = t_us, p_x = word_of_int (lround (v_x pc)), p_y = word_of_int (lround (v_y pc)),
          p_action = action, p_button = Button_Left, p_pointer_id = 0, p_flags = 0, p_pressure = f32_one\<rparr>])"

definition emit_relative :: "PointerAction \<Rightarrow> int \<Rightarrow> int \<Rightarrow> u64 \<Rightarrow> touch_router \<Rightarrow> Pointer list \<times> touch_router" where
  "emit_relative action dx dy t_us r =
     (if \<not> tr_sink r then ([], r)
      else
        ([\<lparr>p_t_us = t_us, p_x = word_of_int dx, p_y = word_of_int dy, p_action = action,
           p_button = Button_Left, p_pointer_id = 0,
           p_flags = (if tr_slide_started_sent r then kPointerRelative else kPointerRelative OR kPointerGestureStart),
           p_pressure = f32_one\<rparr>],
         r\<lparr>tr_slide_started_sent := True\<rparr>))"

subsection \<open>Strokes\<close>

definition cancel_stroke :: "touch_router \<Rightarrow> Pointer list \<times> touch_router" where
  "cancel_stroke r =
     (let r1 = r\<lparr>tr_press_pending := False\<rparr> in
      if \<not> tr_stroke_active r1 then ([], r1)
      else (tr_emit Action_Cancel (tr_last_sent r1) (tr_last_sent_us r1) r1,
            r1\<lparr>tr_stroke_active := False, tr_stroke_pointer_id := -1\<rparr>))"

definition flush_press :: "touch_router \<Rightarrow> Pointer list \<times> touch_router" where
  "flush_press r =
     (if \<not> tr_press_pending r then ([], r)
      else
        let r1 = r\<lparr>tr_stroke_active := True, tr_press_pending := False, tr_last_sent := tr_press_p r,
                   tr_last_sent_us := tr_press_us r\<rparr> in
        (tr_emit Action_Down (tr_press_p r1) (tr_press_us r1) r1, r1))"

definition tr_set_mode :: "InputMode \<Rightarrow> touch_router \<Rightarrow> Pointer list \<times> touch_router" where
  "tr_set_mode mode r =
     (if tr_mode r = mode then ([], r)
      else
        let (ms, r1) = cancel_stroke r in
        (ms, r1\<lparr>tr_mode := mode, tr_gesture_active := False, tr_slide_active := False\<rparr>))"

definition may_draw :: "touch_router \<Rightarrow> motion_event \<Rightarrow> nat \<Rightarrow> bool" where
  "may_draw r event index =
     (if \<not> tr_stylus_only r then True
      else if length (me_pointers event) \<le> index then False
      else tp_tool (me_pointers event ! index) \<in> {Tool_Stylus, Tool_Eraser})"

subsection \<open>View gestures\<close>

definition begin_gesture :: "motion_event \<Rightarrow> int \<Rightarrow> touch_router \<Rightarrow> touch_router" where
  "begin_gesture event exclude r =
     (let centroid = centroid_of event exclude in
      r\<lparr>tr_gesture_active := True, tr_gesture_centroid := centroid,
        tr_gesture_spread := spread_of event centroid exclude\<rparr>)"

definition update_gesture :: "motion_event \<Rightarrow> int \<Rightarrow> touch_router \<Rightarrow> touch_router" where
  "update_gesture event exclude r =
     (let centroid = centroid_of event exclude; spread = spread_of event centroid exclude;
          panned = pan_by (v_sub centroid (tr_gesture_centroid r)) (tr_view r);
          view = (if 1 < tr_gesture_spread r \<and> 1 < spread then zoom_about centroid (spread / tr_gesture_spread r) panned
                  else panned) in
      r\<lparr>tr_view := view, tr_view_adjusted := True, tr_gesture_centroid := centroid, tr_gesture_spread := spread\<rparr>)"

subsection \<open>Slide mode\<close>

definition slide_begin :: "Vec2 \<Rightarrow> u64 \<Rightarrow> touch_router \<Rightarrow> touch_router" where
  "slide_begin surface t_us r =
     r\<lparr>tr_slide_active := True, tr_slide_started_sent := False, tr_slide_last := surface,
       tr_slide_remainder := vec2 0 0, tr_slide_origin := surface, tr_slide_origin_us := t_us,
       tr_slide_travel := 0, tr_slide_sent_x := 0, tr_slide_sent_y := 0, tr_slide_sent_events := 0\<rparr>"

text \<open>\<open>std::trunc\<close>.\<close>

definition ctrunc :: "real \<Rightarrow> int" where
  "ctrunc x = (if 0 \<le> x then \<lfloor>x\<rfloor> else \<lceil>x\<rceil>)"

definition slide_move :: "Vec2 \<Rightarrow> u64 \<Rightarrow> touch_router \<Rightarrow> Pointer list \<times> touch_router" where
  "slide_move surface t_us r =
     (let step = v_sub surface (tr_slide_last r);
          scale = (if 0 < vt_scale (tr_view r) then vt_scale (tr_view r) else 1);
          wanted = v_add (v_divide step scale) (tr_slide_remainder r);
          dx = ctrunc (v_x wanted); dy = ctrunc (v_y wanted);
          r1 = r\<lparr>tr_slide_last := surface,
                 tr_slide_remainder := vec2 (v_x wanted - of_int dx) (v_y wanted - of_int dy),
                 tr_slide_travel := tr_slide_travel r + v_length step\<rparr> in
      if dx = 0 \<and> dy = 0 then ([], r1)
      else emit_relative Action_Move dx dy t_us
        (r1\<lparr>tr_slide_sent_x := tr_slide_sent_x r1 + dx, tr_slide_sent_y := tr_slide_sent_y r1 + dy,
            tr_slide_sent_events := tr_slide_sent_events r1 + 1\<rparr>))"

definition slide_end :: "Vec2 \<Rightarrow> u64 \<Rightarrow> touch_router \<Rightarrow> Pointer list \<times> touch_router" where
  "slide_end surface t_us r =
     (let (ms, r1) = slide_move surface t_us r;
          brief = t_us - tr_slide_origin_us r1 \<le> kTapMaxUs;
          still = tr_slide_travel r1 \<le> kTapSlopDp * tr_density r1;
          r2 = r1\<lparr>tr_slide_active := False\<rparr> in
      if \<not> brief \<or> \<not> still then (ms, r2)
      else
        let (down, r3) = emit_relative Action_Down 0 0 t_us r2; (up, r4) = emit_relative Action_Up 0 0 t_us r3 in
        (ms @ down @ up, r4))"

subsection \<open>Motion events\<close>

text \<open>The widgets: the hit test may claim the finger, then drags and the release go to them.\<close>

record 'u ui_handlers =
  ui_hit :: "(Vec2 \<Rightarrow> 'u \<Rightarrow> bool \<times> 'u) option"
  ui_drag :: "(Vec2 \<Rightarrow> 'u \<Rightarrow> 'u) option"
  ui_release :: "(Vec2 \<Rightarrow> 'u \<Rightarrow> 'u) option"

definition ui_notify :: "(Vec2 \<Rightarrow> 'u \<Rightarrow> 'u) option \<Rightarrow> motion_event \<Rightarrow> 'u \<Rightarrow> 'u" where
  "ui_notify handler event u =
     (case handler of None \<Rightarrow> u | Some f \<Rightarrow> if me_pointers event \<noteq> [] then f (pointer_pos event 0) u else u)"

definition our_pointer :: "touch_router \<Rightarrow> motion_event \<Rightarrow> nat option" where
  "our_pointer r event =
     find (\<lambda>i. tp_id (me_pointers event ! i) = tr_stroke_pointer_id r) [0..<length (me_pointers event)]"

definition handle_down :: "motion_event \<Rightarrow> u64 \<Rightarrow> touch_router \<Rightarrow> touch_router" where
  "handle_down event t_us r =
     (let p = pointer_pos event 0; pid = tp_id (me_pointers event ! 0) in
      if tr_mode r = Mode_Pan then begin_gesture event (-1) r
      else if tr_mode r = Mode_Draw \<and> \<not> may_draw r event 0 then begin_gesture event (-1) r
      else if tr_mode r = Mode_Slide then slide_begin p t_us (r\<lparr>tr_stroke_pointer_id := pid\<rparr>)
      else if \<not> lands_on_screen r p then r
      else r\<lparr>tr_press_pending := True, tr_press_p := p, tr_press_us := t_us, tr_stroke_pointer_id := pid,
             tr_last_sent := p, tr_last_sent_us := t_us\<rparr>)"

definition handle_pointer_down :: "motion_event \<Rightarrow> u64 \<Rightarrow> touch_router \<Rightarrow> Pointer list \<times> touch_router" where
  "handle_pointer_down event t_us r =
     (let r1 = (if tr_press_pending r then r\<lparr>tr_press_pending := False, tr_stroke_pointer_id := -1\<rparr> else r);
          (ms, r2) = (if tr_stroke_active r1
                      then (tr_emit Action_Cancel (tr_last_sent r1) t_us r1,
                            r1\<lparr>tr_stroke_active := False, tr_stroke_pointer_id := -1\<rparr>)
                      else ([], r1));
          r3 = (if tr_slide_active r2 then r2\<lparr>tr_stroke_pointer_id := -1, tr_slide_active := False\<rparr> else r2) in
      (ms, begin_gesture event (-1) r3))"

definition press_due :: "motion_event \<Rightarrow> u64 \<Rightarrow> touch_router \<Rightarrow> bool" where
  "press_due event t_us r =
     (case our_pointer r event of
        None \<Rightarrow> False
      | Some i \<Rightarrow>
          kPressSlopDp * tr_density r \<le> v_length (v_sub (pointer_pos event i) (tr_press_p r)) \<or>
          kPressHoldUs \<le> t_us - tr_press_us r)"

definition stroke_move :: "motion_event \<Rightarrow> u64 \<Rightarrow> touch_router \<Rightarrow> Pointer list \<times> touch_router" where
  "stroke_move event t_us r =
     (case our_pointer r event of
        None \<Rightarrow> ([], r)
      | Some i \<Rightarrow>
          let p = pointer_pos event i;
              far_enough = tr_min_distance_px r \<le> v_length (v_sub p (tr_last_sent r));
              late_enough = tr_min_interval_us r \<le> t_us - tr_last_sent_us r in
          if \<not> far_enough \<or> \<not> late_enough then ([], r)
          else if \<not> lands_on_screen r p then ([], r)
          else
            let r1 = r\<lparr>tr_last_sent := p, tr_last_sent_us := t_us\<rparr> in
            (tr_emit Action_Move p t_us r1, r1))"

definition handle_move :: "motion_event \<Rightarrow> u64 \<Rightarrow> touch_router \<Rightarrow> Pointer list \<times> touch_router" where
  "handle_move event t_us r =
     (if tr_gesture_active r then ([], update_gesture event (-1) r)
      else if tr_slide_active r then
        (case our_pointer r event of None \<Rightarrow> ([], r) | Some i \<Rightarrow> slide_move (pointer_pos event i) t_us r)
      else
        let (ms, r1) = (if tr_press_pending r \<and> press_due event t_us r then flush_press r else ([], r)) in
        if \<not> tr_stroke_active r1 then (ms, r1)
        else let (ms2, r2) = stroke_move event t_us r1 in (ms @ ms2, r2))"

definition handle_pointer_up :: "motion_event \<Rightarrow> touch_router \<Rightarrow> touch_router" where
  "handle_pointer_up event r =
     (let lifted = int (me_index event) in
      if tr_mode r = Mode_Pan then begin_gesture event lifted r
      else if length (me_pointers event) \<le> 2 then r\<lparr>tr_gesture_active := False\<rparr>
      else begin_gesture event lifted r)"

definition handle_up :: "motion_event \<Rightarrow> u64 \<Rightarrow> touch_router \<Rightarrow> Pointer list \<times> touch_router" where
  "handle_up event t_us r =
     (let p = pointer_pos event (me_index event);
          (ms1, r1) = (if tr_slide_active r then slide_end p t_us r else ([], r));
          (ms2, r2) = (if tr_press_pending r1 then flush_press r1 else ([], r1));
          ms3 = (if tr_stroke_active r2
                 then tr_emit Action_Up (if lands_on_screen r2 p then p else tr_last_sent r2) t_us r2 else []) in
      (ms1 @ ms2 @ ms3,
       r2\<lparr>tr_stroke_active := False, tr_gesture_active := False, tr_stroke_pointer_id := -1, tr_slide_active := False\<rparr>))"

definition tr_handle :: "'u ui_handlers \<Rightarrow> motion_event \<Rightarrow> touch_router \<times> 'u \<Rightarrow> Pointer list \<times> touch_router \<times> 'u" where
  "tr_handle ui event ru =
     (let (r, u) = ru; t_us = me_time event * 1000 in
      case me_action event of
        Motion_Down \<Rightarrow>
          let (hit, u1) = (case ui_hit ui of None \<Rightarrow> (False, u) | Some f \<Rightarrow> f (pointer_pos event 0) u) in
          if hit then ([], r\<lparr>tr_ui_captured := True\<rparr>, u1) else ([], handle_down event t_us r, u1)
      | Motion_PointerDown \<Rightarrow> let (ms, r1) = handle_pointer_down event t_us r in (ms, r1, u)
      | Motion_Move \<Rightarrow>
          if tr_ui_captured r then ([], r, ui_notify (ui_drag ui) event u)
          else let (ms, r1) = handle_move event t_us r in (ms, r1, u)
      | Motion_PointerUp \<Rightarrow> ([], handle_pointer_up event r, u)
      | Motion_Up \<Rightarrow>
          if tr_ui_captured r then ([], r\<lparr>tr_ui_captured := False\<rparr>, ui_notify (ui_release ui) event u)
          else let (ms, r1) = handle_up event t_us r in (ms, r1, u)
      | Motion_Cancel \<Rightarrow>
          let (ms, r1) = cancel_stroke r; r2 = r1\<lparr>tr_gesture_active := False, tr_slide_active := False\<rparr> in
          if tr_ui_captured r2 then (ms, r2\<lparr>tr_ui_captured := False\<rparr>, ui_notify (ui_release ui) event u)
          else (ms, r2, u)
      | Motion_Other \<Rightarrow> ([], r, u))"

section \<open>Sequences of events\<close>

text \<open>
  What happens to a router: motion events, mode changes, a lost link (the app cancels the stroke), a
  lost focus (the app also lets go of a widget that held the finger), and the settings the app makes at
  any moment: the test for points on a screen (installed at the start; what it answers changes with each
  HELLO_ACK, so it may be exchanged for any other), the stylus switch, the two throttle thresholds, the
  density, and the view, which the app reframes on a rotation or when the desktop becomes known.
\<close>

datatype touch_step = Motion motion_event | Set_mode InputMode | Link_down | Focus_lost
  | Set_point_test "Vec2 \<Rightarrow> bool" | Set_stylus_only bool | Set_throttle u64 real | Set_density real | Set_view ViewTransform

fun router_step :: "'u ui_handlers \<Rightarrow> touch_step \<Rightarrow> touch_router \<times> 'u \<Rightarrow> Pointer list \<times> touch_router \<times> 'u" where
  "router_step ui (Motion event) ru = tr_handle ui event ru"
| "router_step ui (Set_mode mode) (r, u) = (let (ms, r1) = tr_set_mode mode r in (ms, r1, u))"
| "router_step ui Link_down (r, u) = (let (ms, r1) = cancel_stroke r in (ms, r1, u))"
| "router_step ui Focus_lost (r, u) = (let (ms, r1) = cancel_stroke r in (ms, cancel_ui_capture r1, u))"
| "router_step ui (Set_point_test on_screen) (r, u) = ([], set_pc_point_test on_screen r, u)"
| "router_step ui (Set_stylus_only on) (r, u) = ([], set_stylus_only on r, u)"
| "router_step ui (Set_throttle us px) (r, u) = ([], set_min_distance_px px (set_min_interval_us us r), u)"
| "router_step ui (Set_density density) (r, u) = ([], set_density density r, u)"
| "router_step ui (Set_view view) (r, u) = ([], r\<lparr>tr_view := view\<rparr>, u)"

fun router_run :: "'u ui_handlers \<Rightarrow> touch_step list \<Rightarrow> touch_router \<times> 'u \<Rightarrow> Pointer list \<times> touch_router \<times> 'u" where
  "router_run ui [] ru = ([], ru)"
| "router_run ui (e # es) ru =
     (let (ms, ru1) = router_step ui e ru; (ms2, ru2) = router_run ui es ru1 in (ms @ ms2, ru2))"

text \<open>
  What the system promises of touch events: a first finger lands only when no gesture is open, and a
  gesture ends with the last finger up, with a cancel, or silently when the focus is lost.
\<close>

fun finger_down :: "touch_step \<Rightarrow> bool \<Rightarrow> bool" where
  "finger_down (Motion event) d =
     (case me_action event of Motion_Down \<Rightarrow> True | Motion_Up \<Rightarrow> False | Motion_Cancel \<Rightarrow> False | _ \<Rightarrow> d)"
| "finger_down Focus_lost d = False"
| "finger_down _ d = d"

fun gestures_ok :: "bool \<Rightarrow> touch_step list \<Rightarrow> bool" where
  "gestures_ok d [] = True"
| "gestures_ok d (e # es) =
     ((case e of Motion event \<Rightarrow> me_action event = Motion_Down \<longrightarrow> \<not> d | _ \<Rightarrow> True) \<and> gestures_ok (finger_down e d) es)"

text \<open>What the host needs of the messages: presses and releases alternate, absolute moves come between.\<close>

definition relative :: "Pointer \<Rightarrow> bool" where
  "relative m \<longleftrightarrow> p_flags m AND kPointerRelative \<noteq> 0"

fun bracket :: "bool \<Rightarrow> Pointer list \<Rightarrow> bool option" where
  "bracket pressed [] = Some pressed"
| "bracket pressed (m # ms) =
     (case p_action m of
        Action_Down \<Rightarrow> if pressed then None else bracket True ms
      | Action_Up \<Rightarrow> if pressed then bracket False ms else None
      | Action_Cancel \<Rightarrow> if pressed then bracket False ms else None
      | Action_Move \<Rightarrow> if pressed \<or> relative m then bracket pressed ms else None
      | _ \<Rightarrow> None)"

definition router_inv :: "bool \<Rightarrow> touch_router \<Rightarrow> bool" where
  "router_inv d r \<longleftrightarrow>
     (tr_stroke_active r \<or> tr_press_pending r \<or> tr_ui_captured r \<longrightarrow> d) \<and>
     (tr_stroke_active r \<longrightarrow> \<not> tr_press_pending r \<and> \<not> tr_ui_captured r) \<and>
     (tr_press_pending r \<longrightarrow> \<not> tr_ui_captured r) \<and>
     (tr_stroke_active r \<or> tr_press_pending r \<longrightarrow> tr_mode r = Mode_Draw) \<and>
     (tr_slide_active r \<longrightarrow> tr_mode r = Mode_Slide)"

lemma bracket_append: "bracket p ms = Some q \<Longrightarrow> bracket p (ms @ ms') = bracket q ms'"
  by (induction ms arbitrary: p) (auto split: PointerAction.splits if_splits)

lemma emit_bracket [simp]:
  "tr_sink r \<Longrightarrow> bracket False (tr_emit Action_Down p t r) = Some True"
  "tr_sink r \<Longrightarrow> bracket True (tr_emit Action_Move p t r) = Some True"
  "tr_sink r \<Longrightarrow> bracket True (tr_emit Action_Up p t r) = Some False"
  "tr_sink r \<Longrightarrow> bracket True (tr_emit Action_Cancel p t r) = Some False"
  by (simp_all add: tr_emit_def Let_def)

lemma relative_flags: "kPointerRelative AND kPointerRelative \<noteq> 0" "(kPointerRelative OR kPointerGestureStart) AND kPointerRelative \<noteq> 0"
  by (simp_all add: kPointerRelative_def kPointerGestureStart_def)

lemma emit_relative_spec:
  assumes "emit_relative a dx dy t r = (ms, r')"
  shows "r' = r\<lparr>tr_slide_started_sent := tr_slide_started_sent r \<or> tr_sink r\<rparr>"
    "ms = [] \<or> (\<exists>m. ms = [m] \<and> relative m \<and> p_action m = a)" "tr_sink r \<Longrightarrow> ms \<noteq> []"
  using assms relative_flags by (auto simp: emit_relative_def relative_def split: if_splits)

text \<open>What an operation may change, as far as brackets go.\<close>

definition flags_of :: "touch_router \<Rightarrow> bool \<times> bool \<times> bool \<times> bool \<times> bool \<times> InputMode" where
  "flags_of r = (tr_sink r, tr_stroke_active r, tr_press_pending r, tr_ui_captured r, tr_slide_active r, tr_mode r)"

lemma flags_ofD:
  "flags_of r' = flags_of r \<Longrightarrow> tr_sink r' = tr_sink r \<and> tr_stroke_active r' = tr_stroke_active r \<and>
     tr_press_pending r' = tr_press_pending r \<and> tr_ui_captured r' = tr_ui_captured r \<and>
     tr_slide_active r' = tr_slide_active r \<and> tr_mode r' = tr_mode r"
  by (simp add: flags_of_def)

lemma flags_simps [simp]:
  "flags_of (update_gesture e x r) = flags_of r" "flags_of (begin_gesture e x r) = flags_of r"
  "flags_of (set_pc_point_test f r) = flags_of r" "flags_of (set_stylus_only b r) = flags_of r"
  "flags_of (set_min_interval_us us r) = flags_of r" "flags_of (set_min_distance_px px r) = flags_of r"
  "flags_of (set_density px r) = flags_of r" "flags_of (r\<lparr>tr_view := v\<rparr>) = flags_of r"
  "flags_of (r\<lparr>tr_gesture_active := b\<rparr>) = flags_of r" "flags_of (r\<lparr>tr_stroke_pointer_id := i\<rparr>) = flags_of r"
  by (simp_all add: flags_of_def update_gesture_def begin_gesture_def set_pc_point_test_def set_stylus_only_def
      set_min_interval_us_def set_min_distance_px_def set_density_def Let_def)

lemma slide_move_spec:
  assumes "slide_move p t r = (ms, r')"
  shows "flags_of r' = flags_of r" "bracket q ms = Some q" "tr_sink r' = tr_sink r"
proof -
  define dx where "dx = ctrunc (v_x (v_add (v_divide (v_sub p (tr_slide_last r)) (if 0 < vt_scale (tr_view r) then vt_scale (tr_view r) else 1)) (tr_slide_remainder r)))"
  define dy where "dy = ctrunc (v_y (v_add (v_divide (v_sub p (tr_slide_last r)) (if 0 < vt_scale (tr_view r) then vt_scale (tr_view r) else 1)) (tr_slide_remainder r)))"
  obtain r1 where r1: "flags_of r1 = flags_of r"
    "(if dx = 0 \<and> dy = 0 then ([], r1) else emit_relative Action_Move dx dy t
        (r1\<lparr>tr_slide_sent_x := tr_slide_sent_x r1 + dx, tr_slide_sent_y := tr_slide_sent_y r1 + dy,
            tr_slide_sent_events := tr_slide_sent_events r1 + 1\<rparr>)) = (ms, r')"
    using assms unfolding slide_move_def Let_def dx_def [symmetric] dy_def [symmetric]
    by (rule that [rotated]) (simp add: flags_of_def)
  show f: "flags_of r' = flags_of r"
  proof (cases "dx = 0 \<and> dy = 0")
    case False
    have "emit_relative Action_Move dx dy t (r1\<lparr>tr_slide_sent_x := tr_slide_sent_x r1 + dx,
        tr_slide_sent_y := tr_slide_sent_y r1 + dy, tr_slide_sent_events := tr_slide_sent_events r1 + 1\<rparr>) = (ms, r')"
      using r1(2) unfolding if_not_P [OF False] .
    from emit_relative_spec(1) [OF this] show ?thesis using r1(1) by (simp add: flags_of_def)
  qed (use r1 in simp)
  then show "tr_sink r' = tr_sink r" by (simp add: flags_of_def)
  show "bracket q ms = Some q" using r1(2) by (auto dest!: emit_relative_spec(2) split: if_splits)
qed

lemma slide_end_spec:
  assumes e: "slide_end p t r = (ms, r')"
  shows "flags_of r' = flags_of (r\<lparr>tr_slide_active := False\<rparr>)" "tr_sink r \<Longrightarrow> bracket False ms = Some False"
proof -
  obtain ms1 r1 where m: "slide_move p t r = (ms1, r1)" by fastforce
  note s = slide_move_spec [OF m]
  let ?r2 = "r1\<lparr>tr_slide_active := False\<rparr>"
  obtain d r3 where d: "emit_relative Action_Down 0 0 t ?r2 = (d, r3)" by fastforce
  obtain u r4 where u: "emit_relative Action_Up 0 0 t r3 = (u, r4)" by fastforce
  have f2: "flags_of ?r2 = flags_of (r\<lparr>tr_slide_active := False\<rparr>)" using s(1) by (simp add: flags_of_def)
  have f4: "flags_of r4 = flags_of ?r2" using emit_relative_spec(1) [OF d] emit_relative_spec(1) [OF u] by (simp add: flags_of_def)
  have alt: "(ms, r') = (ms1, ?r2) \<or> (ms, r') = (ms1 @ d @ u, r4)"
    using e m d u by (auto simp: slide_end_def Let_def split: if_splits)
  then show "flags_of r' = flags_of (r\<lparr>tr_slide_active := False\<rparr>)" using f2 f4 by auto
  assume sink: "tr_sink r"
  then have "tr_sink ?r2" "tr_sink r3" using s(3) emit_relative_spec(1) [OF d] by simp_all
  then have "bracket False (d @ u) = Some False"
    using emit_relative_spec(2,3) [OF d] emit_relative_spec(2,3) [OF u] by auto
  then show "bracket False ms = Some False" using alt s(2) [of False] bracket_append [of False ms1 False "d @ u"] by auto
qed

lemma router_inv_flags: "flags_of r' = flags_of r \<Longrightarrow> router_inv d r' = router_inv d r"
proof -
  assume "flags_of r' = flags_of r"
  from flags_ofD [OF this] show ?thesis by (simp add: router_inv_def)
qed

definition step_ok :: "bool \<Rightarrow> bool \<Rightarrow> touch_router \<Rightarrow> Pointer list \<Rightarrow> touch_router \<Rightarrow> bool" where
  "step_ok d d' r ms r' \<longleftrightarrow>
     (router_inv d r \<and> tr_sink r \<longrightarrow>
        router_inv d' r' \<and> tr_sink r' \<and> bracket (tr_stroke_active r) ms = Some (tr_stroke_active r'))"

lemma step_ok_flags: "flags_of r' = flags_of r \<Longrightarrow> (\<And>q. bracket q ms = Some q) \<Longrightarrow> step_ok d d r ms r'"
  using router_inv_flags [of r' r d] flags_ofD [of r' r] by (simp add: step_ok_def)

lemma step_ok_flags_nil: "flags_of r' = flags_of r \<Longrightarrow> step_ok d d r [] r'"
  by (rule step_ok_flags) simp_all

lemma cancel_stroke_eq:
  "cancel_stroke r =
     (if tr_stroke_active r then tr_emit Action_Cancel (tr_last_sent r) (tr_last_sent_us r) (r\<lparr>tr_press_pending := False\<rparr>) else [],
      if tr_stroke_active r then r\<lparr>tr_press_pending := False, tr_stroke_active := False, tr_stroke_pointer_id := -1\<rparr>
      else r\<lparr>tr_press_pending := False\<rparr>)"
  by (simp add: cancel_stroke_def Let_def)

lemma cancel_stroke_ok: "cancel_stroke r = (ms, r') \<Longrightarrow> step_ok d d r ms r'"
  by (cases "tr_stroke_active r") (auto simp: cancel_stroke_eq step_ok_def router_inv_def)

lemma cancel_stroke_clear:
  "cancel_stroke r = (ms, r') \<Longrightarrow> \<not> tr_stroke_active r' \<and> \<not> tr_press_pending r' \<and> tr_mode r' = tr_mode r \<and>
     tr_slide_active r' = tr_slide_active r \<and> tr_ui_captured r' = tr_ui_captured r \<and> tr_sink r' = tr_sink r"
  by (cases "tr_stroke_active r") (auto simp: cancel_stroke_eq)

lemma set_mode_ok:
  assumes "tr_set_mode mode r = (ms, r')"
  shows "step_ok d d r ms r'"
proof (cases "tr_mode r = mode")
  case True
  then show ?thesis using assms by (simp add: tr_set_mode_def step_ok_flags_nil)
next
  case False
  obtain ms1 r1 where c: "cancel_stroke r = (ms1, r1)" by fastforce
  then have "ms = ms1" "r' = r1\<lparr>tr_mode := mode, tr_gesture_active := False, tr_slide_active := False\<rparr>"
    using assms False by (simp_all add: tr_set_mode_def)
  then show ?thesis using cancel_stroke_ok [OF c, of d] cancel_stroke_clear [OF c] by (simp add: step_ok_def router_inv_def)
qed

lemma flush_press_ok: "flush_press r = (ms, r') \<Longrightarrow> step_ok d d r ms r'"
  by (cases "tr_press_pending r") (auto simp: flush_press_def Let_def step_ok_def router_inv_def)

lemma flush_press_clear:
  "flush_press r = (ms, r') \<Longrightarrow> \<not> tr_press_pending r' \<and> tr_slide_active r' = tr_slide_active r \<and>
     tr_ui_captured r' = tr_ui_captured r \<and> tr_mode r' = tr_mode r \<and> tr_sink r' = tr_sink r"
  by (auto simp: flush_press_def Let_def split: if_splits)

lemma step_ok_trans:
  "step_ok d d1 r ms r1 \<Longrightarrow> step_ok d1 d2 r1 ms2 r2 \<Longrightarrow> step_ok d d2 r (ms @ ms2) r2"
  by (auto simp: step_ok_def bracket_append)

lemma stroke_move_ok:
  assumes "stroke_move e t r = (ms, r')" "tr_stroke_active r"
  shows "step_ok d d r ms r'"
  using assms by (auto simp: stroke_move_def Let_def step_ok_def router_inv_def split: option.splits if_splits)

lemma handle_move_ok:
  assumes "handle_move e t r = (ms, r')"
  shows "step_ok d d r ms r'"
proof -
  consider (gesture) "tr_gesture_active r" | (slide) "\<not> tr_gesture_active r" "tr_slide_active r" |
    (press) "\<not> tr_gesture_active r" "\<not> tr_slide_active r" by blast
  then show ?thesis
  proof cases
    case gesture
    then show ?thesis using assms by (auto simp: handle_move_def intro: step_ok_flags_nil)
  next
    case slide
    show ?thesis
    proof (cases "our_pointer r e")
      case None
      then show ?thesis using assms slide by (auto simp: handle_move_def intro: step_ok_flags_nil)
    next
      case (Some i)
      then have "slide_move (pointer_pos e i) t r = (ms, r')" using assms slide by (simp add: handle_move_def)
      then show ?thesis by (intro step_ok_flags slide_move_spec)
    qed
  next
    case press
    obtain ms1 r1 where f: "(if tr_press_pending r \<and> press_due e t r then flush_press r else ([], r)) = (ms1, r1)" by fastforce
    then have o1: "step_ok d d r ms1 r1" by (auto intro: flush_press_ok step_ok_flags_nil split: if_splits)
    obtain ms2 r2 where m: "stroke_move e t r1 = (ms2, r2)" by fastforce
    have "(ms, r') = (if \<not> tr_stroke_active r1 then (ms1, r1) else (ms1 @ ms2, r2))"
      using assms press unfolding handle_move_def Let_def f by (simp add: m split: if_splits)
    then show ?thesis using o1 step_ok_trans [OF o1 stroke_move_ok [OF m]] by (auto split: if_splits)
  qed
qed

lemma handle_down_ok:
  "router_inv False r \<Longrightarrow> tr_sink r \<Longrightarrow>
     router_inv True (handle_down e t r) \<and> tr_sink (handle_down e t r) \<and> \<not> tr_stroke_active (handle_down e t r)"
  by (cases "tr_mode r") (auto simp: handle_down_def begin_gesture_def slide_begin_def router_inv_def Let_def)

lemma handle_pointer_down_ok: "handle_pointer_down e t r = (ms, r') \<Longrightarrow> step_ok d d r ms r'"
  by (auto simp: handle_pointer_down_def begin_gesture_def Let_def step_ok_def router_inv_def split: if_splits)

lemma handle_up_ok:
  assumes u: "handle_up e t r = (ms, r')"
  shows "\<not> tr_ui_captured r \<Longrightarrow> step_ok d False r ms r'"
proof -
  assume nc: "\<not> tr_ui_captured r"
  define p where "p = pointer_pos e (me_index e)"
  obtain ms1 r1 where s: "(if tr_slide_active r then slide_end p t r else ([], r)) = (ms1, r1)" by fastforce
  obtain ms2 r2 where f: "(if tr_press_pending r1 then flush_press r1 else ([], r1)) = (ms2, r2)" by fastforce
  define ms3 where "ms3 = (if tr_stroke_active r2
     then tr_emit Action_Up (if lands_on_screen r2 p then p else tr_last_sent r2) t r2 else [])"
  define r3 where "r3 = r2\<lparr>tr_stroke_active := False, tr_gesture_active := False, tr_stroke_pointer_id := -1, tr_slide_active := False\<rparr>"
  have e: "ms = ms1 @ ms2 @ ms3" "r' = r3"
    using u unfolding handle_up_def Let_def p_def [symmetric] s f prod.case by (simp_all add: s f ms3_def r3_def)
  have o1: "step_ok d d r ms1 r1"
  proof (cases "tr_slide_active r")
    case True
    then have "slide_end p t r = (ms1, r1)" using s by simp
    from slide_end_spec [OF this] show ?thesis using True by (auto simp: step_ok_def router_inv_def flags_of_def)
  next
    case False
    then show ?thesis using s by (auto intro: step_ok_flags_nil)
  qed
  have o2: "step_ok d d r1 ms2 r2" using f by (auto intro: flush_press_ok step_ok_flags_nil split: if_splits)
  have c1: "tr_ui_captured r1 = tr_ui_captured r"
  proof (cases "tr_slide_active r")
    case True
    then have "slide_end p t r = (ms1, r1)" using s by simp
    from slide_end_spec(1) [OF this] show ?thesis by (simp add: flags_of_def)
  qed (use s in simp)
  have c2: "\<not> tr_ui_captured r2 \<and> \<not> tr_press_pending r2"
    using f c1 nc flush_press_clear [of r1 ms2 r2] by (auto split: if_splits)
  have o3: "step_ok d False r2 ms3 r3"
    using c2 by (auto simp: step_ok_def router_inv_def ms3_def r3_def)
  show ?thesis unfolding e by (rule step_ok_trans [OF o1 step_ok_trans [OF o2 o3]])
qed

lemma router_step_ok:
  assumes "router_step ui e (r, u) = (ms, r', u')"
    and "case e of Motion event \<Rightarrow> me_action event = Motion_Down \<longrightarrow> \<not> d | _ \<Rightarrow> True"
  shows "step_ok d (finger_down e d) r ms r'"
proof (cases e)
  case (Motion ev)
  let ?t = "me_time ev * 1000"
  have h: "tr_handle ui ev (r, u) = (ms, r', u')" using assms(1) Motion by simp
  show ?thesis
  proof (cases "me_action ev")
    case Motion_Down
    then have d: "\<not> d" using assms(2) Motion by simp
    from h Motion_Down have "ms = []" "r' = r\<lparr>tr_ui_captured := True\<rparr> \<or> r' = handle_down ev ?t r"
      by (auto simp: tr_handle_def Let_def split: prod.splits if_splits)
    then show ?thesis using d Motion Motion_Down handle_down_ok [of r ev ?t]
      by (auto simp: step_ok_def) (auto simp: router_inv_def)
  next
    case Motion_PointerDown
    then have "handle_pointer_down ev ?t r = (ms, r')" using h by (auto simp: tr_handle_def split: prod.splits)
    then show ?thesis using Motion Motion_PointerDown by (simp add: handle_pointer_down_ok)
  next
    case Motion_Move
    then have "(ms = [] \<and> r' = r) \<or> handle_move ev ?t r = (ms, r')"
      using h by (auto simp: tr_handle_def split: prod.splits if_splits)
    then show ?thesis using Motion Motion_Move by (auto simp: handle_move_ok step_ok_flags_nil)
  next
    case Motion_PointerUp
    then have "ms = []" "flags_of r' = flags_of r"
      using h by (auto simp: tr_handle_def handle_pointer_up_def Let_def split: if_splits)
    then show ?thesis using Motion Motion_PointerUp by (simp add: step_ok_flags_nil)
  next
    case Motion_Up
    show ?thesis
    proof (cases "tr_ui_captured r")
      case True
      then have "ms = []" "r' = r\<lparr>tr_ui_captured := False\<rparr>" using h Motion_Up by (auto simp: tr_handle_def)
      then show ?thesis using True Motion Motion_Up by (simp add: step_ok_def router_inv_def)
    next
      case False
      then have "handle_up ev ?t r = (ms, r')" using h Motion_Up by (auto simp: tr_handle_def split: prod.splits)
      then show ?thesis using handle_up_ok [OF _ False] Motion Motion_Up by simp
    qed
  next
    case Motion_Cancel
    obtain ms1 r1 where c: "cancel_stroke r = (ms1, r1)" by fastforce
    have "ms = ms1" "r' = r1\<lparr>tr_gesture_active := False, tr_slide_active := False, tr_ui_captured := False\<rparr> \<or>
      (\<not> tr_ui_captured r1 \<and> r' = r1\<lparr>tr_gesture_active := False, tr_slide_active := False\<rparr>)"
      using h Motion_Cancel c by (auto simp: tr_handle_def Let_def split: if_splits)
    then have "ms = ms1" "\<not> tr_ui_captured r'" "\<not> tr_slide_active r'" "tr_stroke_active r' = tr_stroke_active r1"
      "tr_press_pending r' = tr_press_pending r1" "tr_mode r' = tr_mode r1" "tr_sink r' = tr_sink r1" by auto
    then show ?thesis using cancel_stroke_ok [OF c, of d] cancel_stroke_clear [OF c] Motion Motion_Cancel
      by (simp add: step_ok_def router_inv_def)
  next
    case Motion_Other
    then show ?thesis using h Motion by (simp add: tr_handle_def step_ok_flags_nil)
  qed
next
  case (Set_mode mode)
  then show ?thesis using assms(1) set_mode_ok [of mode r ms r' d] by (auto split: prod.splits)
next
  case Link_down
  then show ?thesis using assms(1) cancel_stroke_ok [of r ms r' d] by (auto split: prod.splits)
next
  case Focus_lost
  obtain ms1 r1 where c: "cancel_stroke r = (ms1, r1)" by fastforce
  then have "ms = ms1" "r' = cancel_ui_capture r1" using assms(1) Focus_lost by auto
  then show ?thesis using cancel_stroke_ok [OF c, of d] cancel_stroke_clear [OF c] Focus_lost
    by (simp add: step_ok_def router_inv_def cancel_ui_capture_def)
qed (use assms(1) in \<open>auto intro!: step_ok_flags_nil\<close>)

lemma router_run_ok:
  "router_run ui es (r, u) = (ms, r', u') \<Longrightarrow> gestures_ok d es \<Longrightarrow> step_ok d (fold finger_down es d) r ms r'"
proof (induction es arbitrary: d r u ms)
  case (Cons e es)
  obtain ms1 r1 u1 where s: "router_step ui e (r, u) = (ms1, r1, u1)" by (metis prod_cases3)
  obtain ms2 where t: "router_run ui es (r1, u1) = (ms2, r', u')" "ms = ms1 @ ms2"
    using Cons.prems(1) s by (auto split: prod.splits)
  have "step_ok d (finger_down e d) r ms1 r1" using Cons.prems(2) by (intro router_step_ok [OF s]) (simp split: touch_step.splits)
  moreover have "step_ok (finger_down e d) (fold finger_down es (finger_down e d)) r1 ms2 r'"
    using Cons.prems(2) by (intro Cons.IH [OF t(1)]) simp
  ultimately show ?case unfolding t(2) by (simp add: step_ok_trans)
qed (auto simp: step_ok_def)

section \<open>Slide mode\<close>

lemma ctrunc_bounds: "\<bar>x - of_int (ctrunc x)\<bar> < 1" "\<bar>of_int (ctrunc x)\<bar> \<le> \<bar>x\<bar>"
  by (cases "0 \<le> x"; simp add: ctrunc_def; linarith)+

lemma slide_move_eq:
  assumes "slide_move p t r = (ms, r')" and s: "0 < vt_scale (tr_view r)" "tr_sink r"
  defines "W \<equiv> v_add (v_divide (v_sub p (tr_slide_last r)) (vt_scale (tr_view r))) (tr_slide_remainder r)"
  shows "tr_view r' = tr_view r" "tr_sink r' = tr_sink r" "tr_slide_last r' = p"
    "tr_slide_remainder r' = vec2 (v_x W - of_int (ctrunc (v_x W))) (v_y W - of_int (ctrunc (v_y W)))"
    "sum_list (map p_x ms) = word_of_int (ctrunc (v_x W))" "sum_list (map p_y ms) = word_of_int (ctrunc (v_y W))"
    "tr_slide_sent_x r' = tr_slide_sent_x r + ctrunc (v_x W)" "tr_slide_sent_y r' = tr_slide_sent_y r + ctrunc (v_y W)"
  using assms(1) s unfolding slide_move_def emit_relative_def Let_def W_def [symmetric]
  by (auto simp: W_def split: if_splits)

fun slide_moves :: "(Vec2 \<times> u64) list \<Rightarrow> touch_router \<Rightarrow> Pointer list \<times> touch_router" where
  "slide_moves [] r = ([], r)"
| "slide_moves ((p, t) # ps) r =
     (let (ms, r1) = slide_move p t r; (ms2, r2) = slide_moves ps r1 in (ms @ ms2, r2))"

lemma slide_moves_sum:
  assumes "slide_moves ps r = (ms, r')" "0 < vt_scale (tr_view r)" "tr_sink r"
    and "\<bar>v_x (tr_slide_remainder r)\<bar> < 1" "\<bar>v_y (tr_slide_remainder r)\<bar> < 1"
  shows "\<exists>nx ny. sum_list (map p_x ms) = word_of_int nx \<and> sum_list (map p_y ms) = word_of_int ny \<and>
    of_int nx + v_x (tr_slide_remainder r') =
      (v_x (tr_slide_last r') - v_x (tr_slide_last r)) / vt_scale (tr_view r) + v_x (tr_slide_remainder r) \<and>
    of_int ny + v_y (tr_slide_remainder r') =
      (v_y (tr_slide_last r') - v_y (tr_slide_last r)) / vt_scale (tr_view r) + v_y (tr_slide_remainder r) \<and>
    \<bar>v_x (tr_slide_remainder r')\<bar> < 1 \<and> \<bar>v_y (tr_slide_remainder r')\<bar> < 1 \<and>
    tr_slide_last r' = (if ps = [] then tr_slide_last r else fst (last ps))"
  using assms
proof (induction ps arbitrary: r ms)
  case Nil
  then show ?case by (auto intro!: exI [of _ 0])
next
  case (Cons q ps)
  obtain p t where q: "q = (p, t)" by fastforce
  obtain ms1 r1 where m: "slide_move p t r = (ms1, r1)" by fastforce
  obtain ms2 where ms: "slide_moves ps r1 = (ms2, r')" "ms = ms1 @ ms2"
    using Cons.prems(1) q m by (auto split: prod.splits)
  note e = slide_move_eq [OF m Cons.prems(2,3)]
  define W where "W = v_add (v_divide (v_sub p (tr_slide_last r)) (vt_scale (tr_view r))) (tr_slide_remainder r)"
  note e = e [folded W_def]
  have W: "v_x W = (v_x p - v_x (tr_slide_last r)) / vt_scale (tr_view r) + v_x (tr_slide_remainder r)"
    "v_y W = (v_y p - v_y (tr_slide_last r)) / vt_scale (tr_view r) + v_y (tr_slide_remainder r)"
    by (simp_all add: W_def vec2_defs)
  have rem: "\<bar>v_x (tr_slide_remainder r1)\<bar> < 1" "\<bar>v_y (tr_slide_remainder r1)\<bar> < 1"
    using ctrunc_bounds(1) [of "v_x W"] ctrunc_bounds(1) [of "v_y W"] by (simp_all add: e(4))
  obtain nx ny where n: "sum_list (map p_x ms2) = word_of_int nx" "sum_list (map p_y ms2) = word_of_int ny"
    "of_int nx + v_x (tr_slide_remainder r') = (v_x (tr_slide_last r') - v_x p) / vt_scale (tr_view r) + v_x (tr_slide_remainder r1)"
    "of_int ny + v_y (tr_slide_remainder r') = (v_y (tr_slide_last r') - v_y p) / vt_scale (tr_view r) + v_y (tr_slide_remainder r1)"
    "\<bar>v_x (tr_slide_remainder r')\<bar> < 1" "\<bar>v_y (tr_slide_remainder r')\<bar> < 1"
    "tr_slide_last r' = (if ps = [] then p else fst (last ps))"
    using Cons.IH [OF ms(1)] Cons.prems(2,3) rem e(1-3) by auto
  show ?case
  proof (intro exI conjI)
    show "sum_list (map p_x ms) = word_of_int (ctrunc (v_x W) + nx)" "sum_list (map p_y ms) = word_of_int (ctrunc (v_y W) + ny)"
      using n(1,2) e(5,6) by (simp_all add: ms(2))
    show "of_int (ctrunc (v_x W) + nx) + v_x (tr_slide_remainder r') =
      (v_x (tr_slide_last r') - v_x (tr_slide_last r)) / vt_scale (tr_view r) + v_x (tr_slide_remainder r)"
      using n(3) W(1) by (simp add: e(4) diff_divide_distrib)
    show "of_int (ctrunc (v_y W) + ny) + v_y (tr_slide_remainder r') =
      (v_y (tr_slide_last r') - v_y (tr_slide_last r)) / vt_scale (tr_view r) + v_y (tr_slide_remainder r)"
      using n(4) W(2) by (simp add: e(4) diff_divide_distrib)
    show "tr_slide_last r' = (if q # ps = [] then tr_slide_last r else fst (last (q # ps)))" using n(7) q by simp
  qed (use n(5,6) in simp_all)
qed

section \<open>Pinches\<close>

lemma undue_moves:
  assumes "\<forall>e \<in> set es. me_action e = Motion_Move"
    and "\<not> tr_stroke_active r" "\<not> tr_slide_active r" "\<not> tr_ui_captured r"
    and "tr_press_pending r \<longrightarrow> \<not> tr_gesture_active r \<and> (\<forall>e \<in> set es. \<not> press_due e (me_time e * 1000) r)"
  shows "\<exists>r'. router_run ui (map Motion es) (r, u) = ([], r', u) \<and> flags_of r' = flags_of r"
  using assms
proof (induction es arbitrary: r)
  case (Cons e es)
  show ?case
  proof (cases "tr_gesture_active r")
    case True
    let ?r = "update_gesture e (-1) r"
    have f: "flags_of ?r = flags_of r" by simp
    have step: "router_step ui (Motion e) (r, u) = ([], ?r, u)"
      using Cons.prems True by (simp add: tr_handle_def handle_move_def)
    have "\<not> tr_press_pending ?r" using Cons.prems(5) True flags_ofD [OF f] by simp
    then have "\<exists>r'. router_run ui (map Motion es) (?r, u) = ([], r', u) \<and> flags_of r' = flags_of ?r"
      using Cons.prems flags_ofD [OF f] by (intro Cons.IH) simp_all
    then show ?thesis using step by auto
  next
    case False
    have "\<not> (tr_press_pending r \<and> press_due e (me_time e * 1000) r)" using Cons.prems(5) by auto
    then have step: "router_step ui (Motion e) (r, u) = ([], r, u)"
      using Cons.prems(1-4) False by (simp only: router_step.simps tr_handle_def handle_move_def Let_def prod.case if_False) simp
    have "\<exists>r'. router_run ui (map Motion es) (r, u) = ([], r', u) \<and> flags_of r' = flags_of r"
      using Cons.prems by (intro Cons.IH) simp_all
    then show ?thesis using step by auto
  qed
qed simp

section \<open>Properties\<close>

text \<open>
  C28: Whatever the fingers do, and whatever happens to the link, the mode, the focus, the view and the
  settings in between, the POINTER messages a router sends are properly nested: a press only when nothing
  is pressed, absolute moves, releases and cancels only while something is, and what is pressed at the end
  is exactly the stroke the router still considers open. So the host is never left with a button no later
  message releases. It holds for every test for points on a screen, exchanged for another at any moment,
  with the stylus switch on or off, and for all throttle thresholds and densities. It takes what Android
  promises: a first finger lands only when no gesture is open.
\<close>

theorem touch_strokes_bracketed:
  assumes "gestures_ok False steps" and "router_run ui steps (router_init view, u) = (messages, r, u')"
  shows "bracket False messages = Some (tr_stroke_active r) \<and>
    (tr_stroke_active r \<or> tr_press_pending r \<longrightarrow> tr_mode r = Mode_Draw \<and> fold finger_down steps False)"
proof -
  have "router_inv False (router_init view)" "tr_sink (router_init view)" "\<not> tr_stroke_active (router_init view)"
    by (simp_all add: router_init_def router_inv_def)
  with router_run_ok [OF assms(2,1)] show ?thesis by (auto simp: step_ok_def router_inv_def)
qed

definition ex_ui :: "unit ui_handlers" where
  "ex_ui = \<lparr>ui_hit = Some (\<lambda>p u. (v_x p < 10, u)), ui_drag = None, ui_release = None\<rparr>"

definition ex_touch :: "motion_action \<Rightarrow> u64 \<Rightarrow> (real \<times> real) list \<Rightarrow> motion_event" where
  "ex_touch a t ps = \<lparr>me_action = a, me_index = 0, me_time = t,
     me_pointers = map (\<lambda>(i, x, y). \<lparr>tp_id = int i, tp_pos = vec2 x y, tp_tool = Tool_Finger\<rparr>) (enumerate 0 ps)\<rparr>"

text \<open>A stroke that leaves the screen and is lifted there, with a screen test, a throttle and a later link loss.\<close>

definition ex_touches :: "touch_step list" where
  "ex_touches = [Set_point_test (\<lambda>p. v_x p < 500), Set_throttle 1000 2, Motion (ex_touch Motion_Down 10 [(100, 100)]),
     Motion (ex_touch Motion_Move 20 [(150, 100)]), Set_stylus_only True, Motion (ex_touch Motion_Move 30 [(900, 100)]),
     Motion (ex_touch Motion_Up 40 [(900, 100)]), Link_down]"

lemma ex_touches_sent:
  "map p_action (fst (router_run ex_ui ex_touches (router_init view_init, ()))) = [Action_Down, Action_Move, Action_Up]"
  by (simp add: ex_touches_def ex_touch_def ex_ui_def router_init_def view_init_def tr_handle_def handle_down_def handle_move_def
      handle_up_def pointer_pos_def our_pointer_def flush_press_def press_due_def stroke_move_def tr_emit_def lands_on_screen_def
      to_pc_def set_pc_point_test_def set_stylus_only_def set_min_distance_px_def set_min_interval_us_def cancel_stroke_eq
      may_draw_def kPressSlopDp_def kPressHoldUs_def vec2_defs v_length_def Let_def upt_rec)

theorem touch_strokes_bracketed_witness:
  "(let (messages, r, u') = router_run ex_ui ex_touches (router_init view_init, ()) in
    map p_action messages = [Action_Down, Action_Move, Action_Up] \<and>
    bracket False messages = Some (tr_stroke_active r) \<and> \<not> tr_stroke_active r \<and> \<not> tr_press_pending r)"
proof -
  obtain messages r u' where rr: "router_run ex_ui ex_touches (router_init view_init, ()) = (messages, r, u')" by (metis prod_cases3)
  have "gestures_ok False ex_touches" "\<not> fold finger_down ex_touches False" by (simp_all add: ex_touch_def ex_touches_def)
  with touch_strokes_bracketed [OF _ rr] ex_touches_sent show ?thesis unfolding rr Let_def prod.case by auto
qed

text \<open>
  C29: A pinch never clicks. In draw mode, when a first finger lands on an idle router and a second
  follows before the first has moved past the slop or stayed past the hold time, nothing at all is
  sent: not at the first finger, not at its small moves, not at the second finger; and no stroke is
  open or pending afterwards. The comment on top of \<open>TouchRouter.hpp\<close>, section 5.2 of
  \<open>ARCHITECTURE.md\<close> and the table of \<open>PROTOCOL.md\<close> describe an earlier scheme, in which the
  first finger sends DOWN at once and the second one CANCEL; what is proved is the scheme of the code,
  in which the press is held back.
\<close>

theorem pinch_never_clicks:
  assumes "router_inv False r" and "\<not> tr_gesture_active r" and "tr_mode r = Mode_Draw"
    and "me_action first = Motion_Down" and "\<forall>e \<in> set moves. me_action e = Motion_Move"
    and "me_action second = Motion_PointerDown"
    and "\<forall>e \<in> set moves. \<not> press_due e (me_time e * 1000) (handle_down first (me_time first * 1000) r)"
    and "\<forall>f. ui_hit ui = Some f \<longrightarrow> \<not> fst (f (pointer_pos first 0) u)"
    and "router_run ui (Motion first # map Motion moves @ [Motion second]) (r, u) = (messages, r', u')"
  shows "messages = [] \<and> \<not> tr_stroke_active r' \<and> \<not> tr_press_pending r' \<and> tr_gesture_active r'"
proof -
  let ?r = "handle_down first (me_time first * 1000) r"
  have idle: "\<not> tr_stroke_active r" "\<not> tr_press_pending r" "\<not> tr_ui_captured r" "\<not> tr_slide_active r"
    using assms(1,3) by (auto simp: router_inv_def)
  obtain u1 where d: "router_step ui (Motion first) (r, u) = ([], ?r, u1)"
  proof (cases "ui_hit ui")
    case None
    then show ?thesis using that [of u] assms(4) by (simp add: tr_handle_def)
  next
    case (Some f)
    obtain hit u2 where h: "f (pointer_pos first 0) u = (hit, u2)" by fastforce
    then have "\<not> hit" using assms(8) Some by auto
    then show ?thesis using that [of u2] assms(4) Some h by (simp add: tr_handle_def)
  qed
  have f: "\<not> tr_stroke_active ?r" "\<not> tr_slide_active ?r" "\<not> tr_ui_captured ?r" "tr_press_pending ?r \<longrightarrow> \<not> tr_gesture_active ?r"
    using idle assms(2,3) by (simp_all add: handle_down_def begin_gesture_def Let_def)
  obtain r1 where m: "router_run ui (map Motion moves) (?r, u1) = ([], r1, u1)" "flags_of r1 = flags_of ?r"
    using undue_moves [OF assms(5) f(1-3), of ui u1] f(4) assms(7) by blast
  have f1: "\<not> tr_stroke_active r1" using flags_ofD [OF m(2)] f(1) by simp
  have app: "router_run ui (es @ [x]) ru = (let (ms, ru1) = router_run ui es ru; (ms2, ru2) = router_step ui x ru1 in (ms @ ms2, ru2))"
    for es x ru by (induction es arbitrary: ru) (auto split: prod.splits)
  obtain ms2 r2 where p: "handle_pointer_down second (me_time second * 1000) r1 = (ms2, r2)" by fastforce
  then have "router_step ui (Motion second) (r1, u1) = (ms2, r2, u1)" using assms(6) by (simp add: tr_handle_def)
  then have "messages = ms2" "r' = r2" using assms(9) d m(1) by (simp_all add: app)
  then show ?thesis using p f1
    by (auto simp: handle_pointer_down_def begin_gesture_def Let_def split: if_splits)
qed

theorem pinch_never_clicks_witness:
  "fst (router_run ex_ui (Motion (ex_touch Motion_Down 10 [(100, 100)]) # map Motion [] @
      [Motion (ex_touch Motion_PointerDown 20 [(100, 100), (300, 300)])]) (router_init view_init, ())) = []"
proof -
  let ?es = "Motion (ex_touch Motion_Down 10 [(100, 100)]) # map Motion [] @
      [Motion (ex_touch Motion_PointerDown 20 [(100, 100), (300, 300)])]"
  obtain messages r u' where rr: "router_run ex_ui ?es (router_init view_init, ()) = (messages, r, u')" by (metis prod_cases3)
  have "messages = []"
    by (rule conjunct1 [OF pinch_never_clicks [OF _ _ _ _ _ _ _ _ rr]])
      (simp_all add: router_init_def router_inv_def ex_touch_def ex_ui_def pointer_pos_def)
  then show ?thesis using rr by simp
qed

text \<open>
  Slow movement is not lost. In slide mode the messages of one touch, added up, are the finger's
  whole path divided by the scale of the view, to within one pixel, however many events it was cut
  into and however small each was.
\<close>

theorem slide_keeps_fractions:
  assumes "0 < vt_scale (tr_view r)" and "tr_sink r" and "points \<noteq> []"
    and "slide_moves points (slide_begin start t r) = (messages, r')"
  shows "\<exists>nx ny. sum_list (map p_x messages) = word_of_int nx \<and> sum_list (map p_y messages) = word_of_int ny \<and>
    \<bar>(v_x (fst (last points)) - v_x start) / vt_scale (tr_view r) - of_int nx\<bar> < 1 \<and>
    \<bar>(v_y (fst (last points)) - v_y start) / vt_scale (tr_view r) - of_int ny\<bar> < 1"
proof -
  let ?r = "slide_begin start t r"
  have s: "0 < vt_scale (tr_view ?r)" "tr_sink ?r" "\<bar>v_x (tr_slide_remainder ?r)\<bar> < 1" "\<bar>v_y (tr_slide_remainder ?r)\<bar> < 1"
    using assms(1,2) by (simp_all add: slide_begin_def)
  obtain nx ny where n: "sum_list (map p_x messages) = word_of_int nx" "sum_list (map p_y messages) = word_of_int ny"
    "of_int nx + v_x (tr_slide_remainder r') = (v_x (fst (last points)) - v_x start) / vt_scale (tr_view r)"
    "of_int ny + v_y (tr_slide_remainder r') = (v_y (fst (last points)) - v_y start) / vt_scale (tr_view r)"
    "\<bar>v_x (tr_slide_remainder r')\<bar> < 1" "\<bar>v_y (tr_slide_remainder r')\<bar> < 1"
    using slide_moves_sum [OF assms(4) s] assms(3) by (auto simp: slide_begin_def)
  show ?thesis unfolding n(3,4) [symmetric] using n(1,2,5,6) by (intro exI [of _ nx] exI [of _ ny]) simp
qed

theorem slide_keeps_fractions_witness:
  "\<exists>nx ny. sum_list (map p_x (fst (slide_moves [(vec2 1 0, 10), (vec2 2 0, 20)] (slide_begin (vec2 0 0) 0 (router_init view_init))))) =
    word_of_int nx \<and> \<bar>(2 :: real) - of_int nx\<bar> < 1 \<and> \<bar>(0 :: real) - of_int ny\<bar> < 1"
proof -
  obtain ms r' where m: "slide_moves [(vec2 1 0, 10), (vec2 2 0, 20)] (slide_begin (vec2 0 0) 0 (router_init view_init)) = (ms, r')" by fastforce
  have "0 < vt_scale (tr_view (router_init view_init))" "tr_sink (router_init view_init)"
    by (simp_all add: router_init_def view_init_def)
  from slide_keeps_fractions [OF this _ m] show ?thesis unfolding m by (auto simp: router_init_def view_init_def)
qed

text \<open>
  A lost focus leaves a view gesture open. The app cancels the stroke and lets go of the widgets, but
  the router stays in the pinch: a finger that lands afterwards is put on hold for a press as usual,
  and yet its moves send nothing and pan the view, because the gesture comes first.
\<close>

theorem focus_loss_keeps_gesture:
  "tr_gesture_active (fst (snd (router_step ui Focus_lost (r, u)))) = tr_gesture_active r \<and>
   tr_gesture_active (handle_down event t r) \<ge> tr_gesture_active r \<and>
   (tr_gesture_active r \<longrightarrow> handle_move event t r = ([], update_gesture event (-1) r))"
  by (auto simp: cancel_stroke_eq cancel_ui_capture_def handle_down_def begin_gesture_def slide_begin_def
      handle_move_def Let_def)

end
