(* ===== verification/TextFile.thy ===== *)
theory TextFile
  imports Complex_Main
begin

text \<open>
  Text files as the program reads and writes them: lines by \<open>std::getline\<close>, fields cut at a
  separator, \<open>trim\<close> (which \<open>Settings.cpp\<close>, \<open>HostSettings.cpp\<close> and \<open>AdbClient.cpp\<close> each have a copy
  of), \<open>key=value\<close> lines, words by \<open>operator>>\<close>, and numbers by \<open>atoi\<close>, \<open>atof\<close> and \<open>operator<<\<close>.

  A number read by \<open>atoi\<close> is not cut to 32 bits: what C does with a larger one is undefined. A
  \<open>double\<close> read or written is the rational number it stands for; \<open>atof\<close> does not round it and does not
  know the hexadecimal, infinite and not-a-number forms.
\<close>

section \<open>Definitions\<close>

definition TAB :: char where "TAB = CHR 0x09"
definition LF :: char where "LF = CHR 0x0A"
definition CR :: char where "CR = CHR 0x0D"

text \<open>The text cut at a separator, which may come first, last or twice in a row.\<close>

fun split_on :: "char \<Rightarrow> string \<Rightarrow> string list" where
  "split_on sep [] = [[]]"
| "split_on sep (c # cs) =
     (if c = sep then [] # split_on sep cs
      else (case split_on sep cs of p # ps \<Rightarrow> (c # p) # ps | [] \<Rightarrow> [[c]]))"

text \<open>\<open>std::getline\<close> until it fails: a last line without a newline counts, an empty one does not.\<close>

definition getlines :: "string \<Rightarrow> string list" where
  "getlines s = (let ps = split_on LF s in if last ps = [] then butlast ps else ps)"

definition is_space :: "char \<Rightarrow> bool" where
  "is_space c \<longleftrightarrow> c \<in> {CHR '' '', TAB, LF, CHR 0x0B, CHR 0x0C, CR}"

definition dec_digit :: "char \<Rightarrow> nat option" where
  "dec_digit c = (if 48 \<le> (of_char c :: nat) \<and> (of_char c :: nat) \<le> 57 then Some (of_char c - 48) else None)"

fun read_digits :: "string \<Rightarrow> nat \<Rightarrow> nat" where
  "read_digits [] acc = acc"
| "read_digits (c # cs) acc =
     (case dec_digit c of None \<Rightarrow> acc | Some d \<Rightarrow> read_digits cs (acc * 10 + d))"

text \<open>
  \<open>std::atoi\<close> of a number that fits an \<open>int\<close>. What it returns for larger ones is undefined; here it is the number itself.
\<close>

definition to_int :: "string \<Rightarrow> int" where
  "to_int s =
     (case dropWhile is_space s of
        [] \<Rightarrow> 0
      | c # cs \<Rightarrow>
          if c = CHR ''-'' then - int (read_digits cs 0)
          else if c = CHR ''+'' then int (read_digits cs 0)
          else int (read_digits (c # cs) 0))"

fun show_nat :: "nat \<Rightarrow> string" where
  "show_nat n = (if n < 10 then [char_of (48 + n)] else show_nat (n div 10) @ [char_of (48 + n mod 10)])"

declare show_nat.simps [simp del]

text \<open>\<open>operator<<\<close> of an \<open>int\<close>.\<close>

definition show_int :: "int \<Rightarrow> string" where
  "show_int i = (if i < 0 then CHR ''-'' # show_nat (nat (- i)) else show_nat (nat i))"

subsection \<open>Trimming, keys and words\<close>

definition tspace :: "char \<Rightarrow> bool" where
  "tspace c \<longleftrightarrow> c = CHR '' '' \<or> c = TAB \<or> c = CR \<or> c = LF"

definition trim :: "string \<Rightarrow> string" where
  "trim s = rev (dropWhile tspace (rev (dropWhile tspace s)))"

text \<open>The part before the first \<open>=\<close> and the part after it, both trimmed.\<close>

definition key_value :: "string \<Rightarrow> (string \<times> string) option" where
  "key_value line =
     (if CHR ''='' \<notin> set line then None
      else Some (trim (takeWhile (\<lambda>c. c \<noteq> CHR ''='') line), trim (tl (dropWhile (\<lambda>c. c \<noteq> CHR ''='') line))))"

text \<open>\<open>operator>>\<close> into a string until it fails.\<close>

fun words_from :: "string \<Rightarrow> string \<Rightarrow> string list" where
  "words_from [] w = (if w = [] then [] else [rev w])"
| "words_from (c # cs) w =
     (if is_space c then (if w = [] then words_from cs [] else rev w # words_from cs []) else words_from cs (c # w))"

definition stream_words :: "string \<Rightarrow> string list" where
  "stream_words s = words_from s []"

subsection \<open>Decimal fractions\<close>

text \<open>
  \<open>operator<<\<close> of a \<open>float\<close> or \<open>double\<close>, that is \<open>%g\<close>: six significant digits, rounded to nearest with
  ties to even, trailing zeros removed, and an exponent when it is below -4 or above 5.
\<close>

definition round_even :: "rat \<Rightarrow> int" where
  "round_even x =
     (let f = floor x; d = x - of_int f in
      if d < 1 / 2 then f else if d > 1 / 2 then f + 1 else if even f then f else f + 1)"

definition decimal_exponent :: "rat \<Rightarrow> int" where
  "decimal_exponent x =
     (if 1 \<le> x then int (length (show_nat (nat \<lfloor>x\<rfloor>))) - 1
      else - int (length (show_nat (nat (\<lceil>1 / x\<rceil> - 1)))))"

definition pow10 :: "int \<Rightarrow> rat" where
  "pow10 e = (if 0 \<le> e then 10 ^ nat e else 1 / 10 ^ nat (- e))"

definition strip_zeros :: "string \<Rightarrow> string" where
  "strip_zeros s = rev (dropWhile (\<lambda>c. c = CHR ''0'') (rev s))"

definition with_fraction :: "string \<Rightarrow> string \<Rightarrow> string" where
  "with_fraction whole part =
     (let p = strip_zeros part in if p = [] then whole else whole @ CHR ''.'' # p)"

definition show_positive :: "rat \<Rightarrow> string" where
  "show_positive x =
     (let e = decimal_exponent x; m = round_even (x / pow10 (e - 5));
          (e, m) = (if 10 ^ 6 \<le> m then (e + 1, 10 ^ 5) else (e, m));
          ds = show_nat (nat m) in
      if - 4 \<le> e \<and> e < 6 then
        if 0 \<le> e then with_fraction (take (nat e + 1) ds) (drop (nat e + 1) ds)
        else with_fraction ''0'' (replicate (nat (- e) - 1) CHR ''0'' @ ds)
      else
        with_fraction (take 1 ds) (drop 1 ds) @ CHR ''e'' # (if e < 0 then CHR ''-'' else CHR ''+'') #
          (let n = show_nat (nat \<bar>e\<bar>) in if length n < 2 then CHR ''0'' # n else n))"

definition show_double :: "rat \<Rightarrow> string" where
  "show_double x = (if x = 0 then ''0'' else if x < 0 then CHR ''-'' # show_positive (- x) else show_positive x)"

text \<open>\<open>std::atof\<close>.\<close>

definition digit_char :: "char \<Rightarrow> bool" where
  "digit_char c \<longleftrightarrow> dec_digit c \<noteq> None"

definition read_exponent :: "string \<Rightarrow> int" where
  "read_exponent s =
     (case s of
        [] \<Rightarrow> 0
      | c # cs \<Rightarrow>
          if c \<noteq> CHR ''e'' \<and> c \<noteq> CHR ''E'' then 0
          else
            case cs of
              [] \<Rightarrow> 0
            | d # ds \<Rightarrow>
                if d = CHR ''-'' then - int (read_digits ds 0)
                else if d = CHR ''+'' then int (read_digits ds 0)
                else int (read_digits cs 0))"

definition read_unsigned :: "string \<Rightarrow> rat" where
  "read_unsigned s =
     (let whole = takeWhile digit_char s; rest = dropWhile digit_char s;
          part = (case rest of c # cs \<Rightarrow> if c = CHR ''.'' then takeWhile digit_char cs else [] | [] \<Rightarrow> []);
          after = (case rest of c # cs \<Rightarrow> if c = CHR ''.'' then dropWhile digit_char cs else rest | [] \<Rightarrow> []) in
      if whole = [] \<and> part = [] then 0
      else of_nat (read_digits (whole @ part) 0) * pow10 (read_exponent after - int (length part)))"

definition to_double :: "string \<Rightarrow> rat" where
  "to_double s =
     (case dropWhile is_space s of
        [] \<Rightarrow> 0
      | c # cs \<Rightarrow>
          if c = CHR ''-'' then - read_unsigned cs
          else if c = CHR ''+'' then read_unsigned cs
          else read_unsigned (c # cs))"

section \<open>Lemmas\<close>

lemma dec_digit_digit: "d < 10 \<Longrightarrow> dec_digit (char_of (48 + d)) = Some d"
  by (simp add: dec_digit_def)

lemma read_digits_append:
  "\<forall>c \<in> set xs. dec_digit c \<noteq> None \<Longrightarrow> read_digits (xs @ ys) acc = read_digits ys (read_digits xs acc)"
  by (induction xs arbitrary: acc) auto

lemma show_nat_digits: "\<forall>c \<in> set (show_nat n). dec_digit c \<noteq> None"
proof (induction n rule: show_nat.induct)
  case (1 n)
  then show ?case by (subst show_nat.simps) (auto simp: dec_digit_digit)
qed

lemma show_nat_ne [simp]: "show_nat n \<noteq> []"
  by (subst show_nat.simps) simp

lemma read_show_nat: "read_digits (show_nat n) 0 = n"
proof (induction n rule: show_nat.induct)
  case (1 n)
  show ?case
  proof (cases "n < 10")
    case True
    then show ?thesis by (subst show_nat.simps) (simp add: dec_digit_digit)
  next
    case False
    then have "show_nat n = show_nat (n div 10) @ [char_of (48 + n mod 10)]" by (subst show_nat.simps) simp
    then show ?thesis using 1 [OF False] read_digits_append [OF show_nat_digits] by (simp add: dec_digit_digit)
  qed
qed

lemma digit_chars: "dec_digit c \<noteq> None \<Longrightarrow> \<not> is_space c \<and> c \<noteq> CHR ''-'' \<and> c \<noteq> CHR ''+'' \<and> c \<noteq> TAB \<and> c \<noteq> LF \<and> c \<noteq> CR"
  by (auto simp: dec_digit_def is_space_def TAB_def LF_def CR_def split: if_splits)

lemma to_int_show: "to_int (show_int i) = i"
proof (cases "i < 0")
  case True
  have "\<not> is_space CHR ''-''" by (simp add: is_space_def TAB_def LF_def CR_def)
  then show ?thesis using True by (simp add: to_int_def show_int_def read_show_nat)
next
  case False
  obtain c cs where c: "show_nat (nat i) = c # cs" by (meson show_nat_ne list.exhaust)
  then have "dec_digit c \<noteq> None" using show_nat_digits [of "nat i"] by auto
  from digit_chars [OF this] show ?thesis using False read_show_nat [of "nat i"] by (simp add: to_int_def show_int_def c)
qed

definition plain :: "string \<Rightarrow> bool" where
  "plain s \<longleftrightarrow> TAB \<notin> set s \<and> LF \<notin> set s"

lemma plain_show_int: "plain (show_int i)" "CR \<notin> set (show_int i)"
  using show_nat_digits [of "nat i"] show_nat_digits [of "nat (- i)"] digit_chars
  by (auto simp: plain_def show_int_def TAB_def LF_def CR_def)

lemma split_on_ne [simp]: "split_on sep s \<noteq> []"
  by (induction s) (auto split: list.splits)

lemma split_on_plain: "sep \<notin> set s \<Longrightarrow> split_on sep s = [s]"
  by (induction s) auto

lemma split_on_sep: "sep \<notin> set s \<Longrightarrow> split_on sep (s @ sep # t) = s # split_on sep t"
  by (induction s) auto

lemma getlines_concat:
  "\<forall>l \<in> set ls. LF \<notin> set l \<Longrightarrow> getlines (concat (map (\<lambda>l. l @ [LF]) ls)) = ls"
proof -
  assume "\<forall>l \<in> set ls. LF \<notin> set l"
  then have "split_on LF (concat (map (\<lambda>l. l @ [LF]) ls)) = ls @ [[]]"
    by (induction ls) (auto simp: split_on_sep)
  then show ?thesis by (simp add: getlines_def)
qed

subsection \<open>Trimming and keys\<close>

lemma trim_id: "s = [] \<or> \<not> tspace (hd s) \<and> \<not> tspace (last s) \<Longrightarrow> trim s = s"
proof -
  assume a: "s = [] \<or> \<not> tspace (hd s) \<and> \<not> tspace (last s)"
  have "dropWhile tspace s = s" using a by (cases s) auto
  moreover have "dropWhile tspace (rev s) = rev s" using a by (cases s rule: rev_cases) auto
  ultimately show ?thesis by (simp add: trim_def)
qed

lemma trim_solid: "\<forall>c \<in> set s. \<not> tspace c \<Longrightarrow> trim s = s"
  by (rule trim_id) auto

lemma trim_CR: "trim (s @ [CR]) = trim s"
proof -
  have "tspace CR" by (simp add: tspace_def)
  then have "dropWhile tspace (rev (dropWhile tspace (s @ [CR]))) = dropWhile tspace (rev (dropWhile tspace s))"
    by (cases "Ball (set s) tspace") (simp_all add: dropWhile_append dropWhile_eq_Nil_conv [THEN iffD2])
  then show ?thesis by (simp add: trim_def)
qed

lemma key_value_line:
  assumes "\<forall>c \<in> set k. \<not> tspace c \<and> c \<noteq> CHR ''=''" "\<forall>c \<in> set v. \<not> tspace c"
  shows "key_value (k @ CHR ''='' # v) = Some (k, v)"
proof -
  have "takeWhile (\<lambda>c. c \<noteq> CHR ''='') (k @ CHR ''='' # v) = k" "dropWhile (\<lambda>c. c \<noteq> CHR ''='') (k @ CHR ''='' # v) = CHR ''='' # v"
    using assms(1) by (simp_all add: takeWhile_append2 dropWhile_append2)
  then show ?thesis using assms trim_solid by (simp add: key_value_def)
qed

subsection \<open>Characters of a number\<close>

definition number_char :: "char \<Rightarrow> bool" where
  "number_char c \<longleftrightarrow> digit_char c \<or> c = CHR ''-'' \<or> c = CHR ''+'' \<or> c = CHR ''.'' \<or> c = CHR ''e''"

lemma number_char_solid: "number_char c \<Longrightarrow> \<not> tspace c \<and> c \<noteq> LF"
  using digit_chars [of c] by (auto simp: number_char_def digit_char_def tspace_def is_space_def TAB_def LF_def CR_def)

lemma number_char_minus: "number_char CHR ''-''"
  by (simp add: number_char_def)

lemma number_show_nat: "c \<in> set (show_nat n) \<Longrightarrow> number_char c"
  using show_nat_digits [of n] by (auto simp: number_char_def digit_char_def)

lemma number_show_int: "c \<in> set (show_int i) \<Longrightarrow> number_char c"
  using number_show_nat [of c "nat i"] number_show_nat [of c "nat (- i)"] number_char_minus
  by (auto simp: show_int_def split: if_splits)

lemma number_with_fraction:
  "\<forall>c \<in> set whole. number_char c \<Longrightarrow> \<forall>c \<in> set part. number_char c \<Longrightarrow> c \<in> set (with_fraction whole part) \<Longrightarrow> number_char c"
proof -
  assume "\<forall>c \<in> set whole. number_char c" "\<forall>c \<in> set part. number_char c" and c: "c \<in> set (with_fraction whole part)"
  moreover have "set (strip_zeros part) \<subseteq> set part" by (auto simp: strip_zeros_def dest: set_dropWhileD)
  moreover have "number_char CHR ''.''" by (simp add: number_char_def)
  ultimately show ?thesis by (auto simp: with_fraction_def Let_def split: if_splits)
qed

lemma zero_digit_char: "digit_char CHR ''0''"
  by (simp add: digit_char_def dec_digit_def)

lemma number_show_positive: "c \<in> set (show_positive x) \<Longrightarrow> number_char c"
proof -
  assume c: "c \<in> set (show_positive x)"
  have z: "number_char CHR ''0''" "number_char CHR ''e''" "number_char CHR ''-''" "number_char CHR ''+''"
    using zero_digit_char by (simp_all add: number_char_def)
  have parts: "\<forall>c \<in> set (take k (show_nat n)). number_char c" "\<forall>c \<in> set (drop k (show_nat n)). number_char c" for k n
    using number_show_nat by (auto dest: in_set_takeD in_set_dropD)
  have zs: "\<forall>c \<in> set (replicate k CHR ''0'' @ show_nat n). number_char c" "\<forall>c \<in> set ''0''. number_char c" for k n
    using number_show_nat z(1) by auto
  from c show ?thesis
    using number_with_fraction [OF parts(1) parts(2)] number_with_fraction [OF zs(2) zs(1)] number_show_nat z
    by (auto simp: show_positive_def Let_def split: if_splits)
qed

lemma number_show_double: "c \<in> set (show_double x) \<Longrightarrow> number_char c"
  using number_show_positive [of c x] number_show_positive [of c "- x"] zero_digit_char number_char_minus
  by (auto simp: show_double_def number_char_def [of "CHR ''0''"] split: if_splits)

subsection \<open>The size of a number\<close>

lemma show_nat_length: "n \<noteq> 0 \<Longrightarrow> 10 ^ (length (show_nat n) - 1) \<le> n \<and> n < 10 ^ length (show_nat n)"
proof (induction n rule: show_nat.induct)
  case (1 n)
  show ?case
  proof (cases "n < 10")
    case True
    then show ?thesis using 1 by (subst show_nat.simps, subst (2) show_nat.simps) simp
  next
    case False
    let ?l = "length (show_nat (n div 10))"
    have ih: "10 ^ (?l - 1) \<le> n div 10" "n div 10 < 10 ^ ?l" using 1 False by auto
    have "?l > 0" by simp
    then obtain k where k: "?l = Suc k" using gr0_implies_Suc by blast
    have "length (show_nat n) = Suc (Suc k)" using False k by (subst show_nat.simps) simp
    then show ?thesis using ih k by simp linarith
  qed
qed

lemma show_nat_length_eq:
  assumes "10 ^ k \<le> n" "n < 10 ^ (k + 1)"
  shows "length (show_nat n) = k + 1"
proof -
  have "n \<noteq> 0" using assms(1) by (metis not_numeral_le_zero power_eq_0_iff le_zero_eq zero_neq_numeral)
  note l = show_nat_length [OF this]
  have "(10::nat) ^ k < 10 ^ length (show_nat n)" "(10::nat) ^ (length (show_nat n) - 1) < 10 ^ (k + 1)"
    using l assms by linarith+
  then have "k < length (show_nat n)" "length (show_nat n) - 1 < k + 1" by (simp_all only: power_strict_increasing_iff [of "10::nat"])
  then show ?thesis by linarith
qed

lemma pow10_powi: "pow10 e = 10 powi e"
  by (cases "0 \<le> e") (simp_all add: pow10_def power_int_def inverse_eq_divide power_one_over)

lemma decimal_exponent_eq:
  assumes "pow10 e \<le> x" "x < pow10 (e + 1)"
  shows "decimal_exponent x = e"
proof (cases "0 \<le> e")
  case True
  then obtain k where k: "e = int k" using nonneg_eq_int by blast
  have x: "10 ^ k \<le> x" "x < 10 ^ (k + 1)" using assms by (simp_all add: pow10_def k nat_add_distrib)
  have f: "(10::int) ^ k \<le> \<lfloor>x\<rfloor>" "\<lfloor>x\<rfloor> < 10 ^ (k + 1)" using x by (simp_all add: le_floor_iff floor_less_iff)
  have "(10::nat) ^ k \<le> nat \<lfloor>x\<rfloor>" "nat \<lfloor>x\<rfloor> < 10 ^ (k + 1)"
    using f by (metis nat_mono nat_numeral nat_power_eq zero_le_numeral,
                metis f(1) nat_less_iff nat_numeral nat_power_eq zero_le_numeral of_nat_numeral of_nat_power order_trans zero_le_power)
  moreover have "1 \<le> x" using x(1) one_le_power [of "10::rat" k] by linarith
  ultimately show ?thesis using show_nat_length_eq by (simp add: decimal_exponent_def k)
next
  case False
  define k where "k = nat (- e) - 1"
  have e: "e = - int (k + 1)" using False by (simp add: k_def)
  have x: "1 / 10 ^ (k + 1) \<le> x" "x < 1 / 10 ^ k" using assms by (simp_all add: pow10_def e) (auto split: if_splits simp: nat_add_distrib)
  have pos: "0 < x" using x(1) by (meson less_le_trans zero_less_divide_1_iff zero_less_numeral zero_less_power)
  have y: "10 ^ k < 1 / x" "1 / x \<le> 10 ^ (k + 1)" using x pos by (simp_all add: field_simps)
  have c: "(10::int) ^ k < \<lceil>1 / x\<rceil>" "\<lceil>1 / x\<rceil> \<le> 10 ^ (k + 1)" using y by (simp_all add: less_ceiling_iff ceiling_le_iff)
  have c0: "0 \<le> \<lceil>1 / x\<rceil> - 1" using c(1) zero_le_power [of "10::int" k] by linarith
  have "(10::nat) ^ k \<le> nat (\<lceil>1 / x\<rceil> - 1)" "nat (\<lceil>1 / x\<rceil> - 1) < 10 ^ (k + 1)"
    using c c0 by (simp_all add: nat_less_iff le_nat_iff)
  moreover have "1 / (10::rat) ^ k \<le> 1" by simp
  then have "\<not> 1 \<le> x" using x(2) by linarith
  ultimately show ?thesis using show_nat_length_eq by (simp add: decimal_exponent_def e)
qed

subsection \<open>Six digits survive\<close>

lemma read_digits_zeros: "read_digits (replicate k CHR ''0'') acc = acc * 10 ^ k"
  by (induction k arbitrary: acc) (simp_all add: dec_digit_def)

lemma strip_zeros_append: "\<exists>k. s = strip_zeros s @ replicate k CHR ''0''"
proof -
  have "rev s = takeWhile (\<lambda>c. c = CHR ''0'') (rev s) @ dropWhile (\<lambda>c. c = CHR ''0'') (rev s)" by simp
  moreover have "takeWhile (\<lambda>c. c = CHR ''0'') (rev s) = replicate (length (takeWhile (\<lambda>c. c = CHR ''0'') (rev s))) CHR ''0''"
    by (intro replicate_length_same [symmetric]) (auto dest: set_takeWhileD)
  ultimately have "rev s = replicate (length (takeWhile (\<lambda>c. c = CHR ''0'') (rev s))) CHR ''0'' @ rev (strip_zeros s)"
    by (simp add: strip_zeros_def)
  from arg_cong [OF this, of rev] show ?thesis by auto
qed

lemma read_with_fraction:
  assumes "whole \<noteq> []" "\<forall>c \<in> set whole. digit_char c" "\<forall>c \<in> set part. digit_char c"
  shows "read_unsigned (with_fraction whole part) = of_nat (read_digits (whole @ part) 0) / 10 ^ length part"
proof -
  obtain k where k: "part = strip_zeros part @ replicate k CHR ''0''" using strip_zeros_append by blast
  let ?p = "strip_zeros part"
  have p: "\<forall>c \<in> set ?p. digit_char c" using assms(3) k by (metis Un_iff set_append)
  have dot: "\<not> digit_char CHR ''.''" by (simp add: digit_char_def dec_digit_def)
  have v: "read_digits (whole @ part) 0 = read_digits (whole @ ?p) 0 * 10 ^ k"
    using read_digits_append [of "whole @ ?p" "replicate k CHR ''0''" 0] read_digits_zeros assms(2) p k
    by (metis (no_types, lifting) Un_iff append.assoc digit_char_def set_append)
  have l: "length part = length ?p + k" using k by (metis length_append length_replicate)
  have "read_unsigned (with_fraction whole part) = of_nat (read_digits (whole @ ?p) 0) / 10 ^ length ?p"
  proof (cases "?p = []")
    case True
    have tw: "takeWhile digit_char whole = whole" "dropWhile digit_char whole = []"
      using assms(2) takeWhile_eq_all_conv [of digit_char whole] dropWhile_eq_Nil_conv [of digit_char whole] by auto
    show ?thesis using True assms(1) by (simp add: with_fraction_def read_unsigned_def read_exponent_def pow10_def Let_def tw)
  next
    case False
    have tw: "takeWhile digit_char (whole @ CHR ''.'' # ?p) = whole" "dropWhile digit_char (whole @ CHR ''.'' # ?p) = CHR ''.'' # ?p"
      "takeWhile digit_char ?p = ?p" "dropWhile digit_char ?p = []"
      using assms(2) p dot by (simp_all add: takeWhile_append2 dropWhile_append2)
    show ?thesis using False assms(1) by (simp add: with_fraction_def read_unsigned_def read_exponent_def pow10_def Let_def tw)
  qed
  then show ?thesis by (simp add: v l power_add)
qed

lemma with_fraction_hd: "whole \<noteq> [] \<Longrightarrow> with_fraction whole part \<noteq> [] \<and> hd (with_fraction whole part) = hd whole"
  by (simp add: with_fraction_def Let_def)

lemma to_double_digit: "s \<noteq> [] \<Longrightarrow> digit_char (hd s) \<Longrightarrow> to_double s = read_unsigned s"
  using digit_chars [of "hd s"] by (cases s) (simp_all add: to_double_def digit_char_def)

lemma show_positive_exact:
  assumes "10 ^ 5 \<le> m" "m < 10 ^ 6" "- 4 \<le> e" "e < 6"
  shows "to_double (show_positive (of_nat m * pow10 (e - 5))) = of_nat m * pow10 (e - 5)"
proof -
  let ?x = "of_nat m * pow10 (e - 5)"
  have p: "pow10 (a + b) = pow10 a * pow10 b" for a b by (simp add: pow10_powi power_int_add)
  have pos: "pow10 a > 0" for a by (simp add: pow10_powi)
  have five: "pow10 5 = 10 ^ 5" "pow10 6 = 10 ^ 6" by (simp_all add: pow10_def)
  have "pow10 e = 10 ^ 5 * pow10 (e - 5)" "pow10 (e + 1) = 10 ^ 6 * pow10 (e - 5)"
    using p [of 5 "e - 5"] p [of 6 "e - 5"] five by (simp_all add: algebra_simps)
  moreover have "(10 ^ 5 :: rat) \<le> of_nat m" "of_nat m < (10 ^ 6 :: rat)"
    using assms(1,2) by (metis of_nat_le_iff of_nat_numeral of_nat_power, metis of_nat_less_iff of_nat_numeral of_nat_power)
  ultimately have e: "decimal_exponent ?x = e" using pos [of "e - 5"] by (intro decimal_exponent_eq) simp_all
  have xd: "?x / pow10 (e - 5) = of_nat m" using pos [of "e - 5"] by simp
  have r: "round_even (of_nat m) = int m" by (simp add: round_even_def)
  define ds where "ds = show_nat m"
  have ds: "length ds = 6" "\<forall>c \<in> set ds. digit_char c" "read_digits ds 0 = m"
    using show_nat_length_eq [of 5 m] assms(1,2) show_nat_digits [of m] read_show_nat by (simp_all add: ds_def digit_char_def)
  have parts: "\<forall>c \<in> set (take k ds). digit_char c" "\<forall>c \<in> set (drop k ds). digit_char c" for k
    using ds(2) by (auto dest: in_set_takeD in_set_dropD)
  have z: "\<forall>c \<in> set ''0''. digit_char c" "\<forall>c \<in> set (replicate k CHR ''0'' @ ds). digit_char c" for k using ds(2) zero_digit_char by auto
  have s: "show_positive ?x =
      (if 0 \<le> e then with_fraction (take (nat e + 1) ds) (drop (nat e + 1) ds)
       else with_fraction ''0'' (replicate (nat (- e) - 1) CHR ''0'' @ ds))"
    unfolding show_positive_def e xd r Let_def using assms by (simp add: ds_def)
  show ?thesis
  proof (cases "0 \<le> e")
    case True
    have ne: "take (nat e + 1) ds \<noteq> []" using ds(1) by auto
    note w = read_with_fraction [OF this parts(1) parts(2) [of "nat e + 1"]]
    have "digit_char (hd (take (nat e + 1) ds))" using parts(1) ne by (meson hd_in_set)
    then have "to_double (show_positive ?x) = read_unsigned (show_positive ?x)"
      unfolding s using True with_fraction_hd [OF ne] by (intro to_double_digit) simp_all
    moreover
    have "pow10 (e - 5) = 1 / 10 ^ (5 - nat e)" using True assms(4) by (simp add: pow10_def nat_diff_distrib) 
    ultimately show ?thesis unfolding s using True w ds by simp
  next
    case False
    have "read_digits (''0'' @ replicate (nat (- e) - 1) CHR ''0'' @ ds) 0 = m"
      using read_digits_append [of "''0'' @ replicate (nat (- e) - 1) CHR ''0''" ds 0] read_digits_zeros [of "nat (- e) - 1" 0] ds(3)
      by (simp add: dec_digit_def)
    moreover have "nat (- e) - 1 + 6 = nat (5 - e)" using False by linarith
    moreover have "to_double (show_positive ?x) = read_unsigned (show_positive ?x)"
      unfolding s using False with_fraction_hd [of "''0''"] zero_digit_char by (intro to_double_digit) simp_all
    ultimately show ?thesis unfolding s using False read_with_fraction [OF _ z(1) z(2) [of "nat (- e) - 1"]] ds(1)
      by (simp add: pow10_def)
  qed
qed

text \<open>Half steps up to 16, which is what the decimation slider can be set to.\<close>

lemma half_steps_survive:
  assumes "k \<le> 32"
  shows "to_double (show_double (of_nat k / 2)) = of_nat k / 2"
proof -
  consider "k = 0" | "k = 1" | "2 \<le> k" "k < 20" | "20 \<le> k" by linarith
  then show ?thesis
  proof cases
    case 1
    then show ?thesis by (simp add: show_double_def to_double_def read_unsigned_def read_exponent_def is_space_def digit_char_def
        dec_digit_def TAB_def LF_def CR_def)
  next
    case 2
    then show ?thesis using show_positive_exact [of 500000 "-1"] by (simp add: show_double_def pow10_def)
  next
    case 3
    then show ?thesis using show_positive_exact [of "k * 50000" 0] by (simp add: show_double_def pow10_def)
  next
    case 4
    then show ?thesis using assms show_positive_exact [of "k * 5000" 1] by (simp add: show_double_def pow10_def)
  qed
qed

end
