(* ===== verification/ButtonStore.thy ===== *)
theory ButtonStore
  imports Geometry Wire TextFile
begin

text \<open>
  The custom buttons of \<open>guest/app/src/main/cpp/buttons/ButtonStore.hpp\<close> and \<open>ButtonStore.cpp\<close>: buttons
  grouped into presets, edited one operation at a time and kept in a tab separated text file.

  The file is its content: loading takes the content (or \<open>None\<close> for a file that cannot be opened), and
  each operation that saves returns the content it writes beside the new store (\<open>None\<close> when no
  path is known). Lines, numbers and fields are those of theory \<open>TextFile\<close>.
\<close>

section \<open>Definitions\<close>

definition kMaxButtons :: nat where "kMaxButtons = 256"
definition kMaxPresets :: nat where "kMaxPresets = 64"
definition kButtonsFileName :: string where "kButtonsFileName = ''buttons.txt''"

datatype ButtonKind = Kind_Point | Kind_Region | Kind_Shortcut

record CustomButton =
  cb_kind :: ButtonKind
  cb_label :: string
  cb_target :: Recti
  cb_modifiers :: u8
  cb_key :: string

record Preset =
  pr_name :: string
  pr_match :: string
  pr_buttons :: "CustomButton list"

definition empty_preset :: Preset where
  "empty_preset = \<lparr>pr_name = '''', pr_match = '''', pr_buttons = []\<rparr>"

record button_store =
  bs_path :: string
  bs_presets :: "Preset list"
  bs_current :: int

definition store_init :: button_store where
  "store_init = \<lparr>bs_path = '''', bs_presets = [empty_preset], bs_current = 0\<rparr>"

subsection \<open>Text\<close>

text \<open>The loop of \<open>split_tabs\<close> is \<open>split_on\<close> with a tab.\<close>

definition split_tabs :: "string \<Rightarrow> string list" where
  "split_tabs line = split_on TAB line"

definition to_lower :: "char \<Rightarrow> char" where
  "to_lower c = (if 65 \<le> (of_char c :: nat) \<and> (of_char c :: nat) \<le> 90 then char_of (of_char c + (32 :: nat)) else c)"

definition iequals :: "string \<Rightarrow> string \<Rightarrow> bool" where
  "iequals a b = (length a = length b \<and> map to_lower a = map to_lower b)"

definition sanitize_label :: "string \<Rightarrow> string" where
  "sanitize_label label = take 24 (filter (\<lambda>c. \<not> (c = TAB \<or> c = LF \<or> c = CR)) label)"

subsection \<open>Loading\<close>

definition kind_of_int :: "int \<Rightarrow> ButtonKind option" where
  "kind_of_int k = (if k = 0 then Some Kind_Point else if k = 1 then Some Kind_Region
     else if k = 2 then Some Kind_Shortcut else None)"

definition parse_button :: "string list \<Rightarrow> nat \<Rightarrow> CustomButton option" where
  "parse_button f k =
     (if length f < k + 8 then None
      else
        case kind_of_int (to_int (f ! k)) of
          None \<Rightarrow> None
        | Some kind \<Rightarrow>
            Some \<lparr>cb_kind = kind, cb_label = sanitize_label (f ! (k + 1)),
                  cb_target = recti (to_int (f ! (k + 2))) (to_int (f ! (k + 3))) (to_int (f ! (k + 4)))
                    (to_int (f ! (k + 5))),
                  cb_modifiers = word_of_int (to_int (f ! (k + 6))), cb_key = f ! (k + 7)\<rparr>)"

definition add_to_last :: "CustomButton \<Rightarrow> Preset list \<Rightarrow> Preset list" where
  "add_to_last b ps = butlast ps @ [(last ps)\<lparr>pr_buttons := pr_buttons (last ps) @ [b]\<rparr>]"

fun load_lines :: "string list \<Rightarrow> Preset list \<Rightarrow> nat \<Rightarrow> Preset list \<times> nat" where
  "load_lines [] loaded buttons = (loaded, buttons)"
| "load_lines (raw # rest) loaded buttons =
     (let line = (if raw \<noteq> [] \<and> last raw = CR then butlast raw else raw) in
      if line = [] \<or> hd line = CHR ''#'' then load_lines rest loaded buttons
      else
        let f = split_tabs line in
        if f ! 0 = ''P'' then
          if kMaxPresets \<le> length loaded then (loaded, buttons)
          else
            load_lines rest
              (loaded @ [\<lparr>pr_name = (if 1 < length f then sanitize_label (f ! 1) else []),
                          pr_match = (if 2 < length f then sanitize_label (f ! 2) else []), pr_buttons = []\<rparr>])
              buttons
        else
          case parse_button f (if f ! 0 = ''B'' then 1 else 0) of
            None \<Rightarrow> load_lines rest loaded buttons
          | Some button \<Rightarrow>
              let loaded1 = (if loaded = [] then [empty_preset] else loaded) in
              if kMaxButtons \<le> buttons then (loaded1, buttons)
              else load_lines rest (add_to_last button loaded1) (buttons + 1))"

definition store_load :: "string \<Rightarrow> string option \<Rightarrow> button_store \<Rightarrow> button_store" where
  "store_load external_dir file s =
     (if external_dir = [] then s
      else
        let s1 = s\<lparr>bs_path := external_dir @ ''/'' @ kButtonsFileName\<rparr> in
        case file of
          None \<Rightarrow> s1
        | Some text \<Rightarrow>
            let (loaded, n) = load_lines (getlines text) [] 0 in
            s1\<lparr>bs_presets := (if loaded \<noteq> [] then loaded else bs_presets s1), bs_current := 0\<rparr>)"

subsection \<open>Saving\<close>

fun kind_to_int :: "ButtonKind \<Rightarrow> int" where
  "kind_to_int Kind_Point = 0"
| "kind_to_int Kind_Region = 1"
| "kind_to_int Kind_Shortcut = 2"

fun join_tabs :: "string list \<Rightarrow> string" where
  "join_tabs [] = []"
| "join_tabs [f] = f"
| "join_tabs (f # fs) = f @ TAB # join_tabs fs"

definition button_line :: "CustomButton \<Rightarrow> string" where
  "button_line b =
     join_tabs [''B'', show_int (kind_to_int (cb_kind b)), cb_label b, show_int (rect_x (cb_target b)),
       show_int (rect_y (cb_target b)), show_int (rect_w (cb_target b)), show_int (rect_h (cb_target b)),
       show_int (uint (cb_modifiers b)), cb_key b]"

definition preset_line :: "Preset \<Rightarrow> string" where
  "preset_line p = join_tabs [''P'', pr_name p, pr_match p]"

definition header_line :: string where
  "header_line = ''# digitiz buttons.  '' @ join_tabs [''P'', ''name'', ''match   |   B'', ''kind'', ''label'', ''x'',
     ''y'', ''w'', ''h'', ''modifiers'', ''key'']"

definition file_lines :: "Preset list \<Rightarrow> string list" where
  "file_lines ps = header_line # concat (map (\<lambda>p. preset_line p # map button_line (pr_buttons p)) ps)"

definition file_text :: "Preset list \<Rightarrow> string" where
  "file_text ps = concat (map (\<lambda>l. l @ [LF]) (file_lines ps))"

definition store_save :: "button_store \<Rightarrow> string option" where
  "store_save s = (if bs_path s = [] then None else Some (file_text (bs_presets s)))"

subsection \<open>The preset in use\<close>

definition bs_buttons :: "button_store \<Rightarrow> CustomButton list" where
  "bs_buttons s = pr_buttons (bs_presets s ! nat (bs_current s))"

definition bs_valid :: "button_store \<Rightarrow> int \<Rightarrow> bool" where
  "bs_valid s index \<longleftrightarrow> 0 \<le> index \<and> nat index < length (bs_buttons s)"

definition set_buttons :: "CustomButton list \<Rightarrow> button_store \<Rightarrow> button_store" where
  "set_buttons bs s =
     s\<lparr>bs_presets := (bs_presets s)[nat (bs_current s) := (bs_presets s ! nat (bs_current s))\<lparr>pr_buttons := bs\<rparr>]\<rparr>"

definition saved :: "button_store \<Rightarrow> button_store \<times> string option" where
  "saved s = (s, store_save s)"

definition store_add :: "CustomButton \<Rightarrow> button_store \<Rightarrow> button_store \<times> string option" where
  "store_add button s =
     (if kMaxButtons \<le> length (bs_buttons s) then (s, None)
      else saved (set_buttons (bs_buttons s @ [button\<lparr>cb_label := sanitize_label (cb_label button)\<rparr>]) s))"

definition store_replace :: "int \<Rightarrow> CustomButton \<Rightarrow> button_store \<Rightarrow> button_store \<times> string option" where
  "store_replace index button s =
     (if \<not> bs_valid s index then (s, None)
      else saved (set_buttons ((bs_buttons s)[nat index := button\<lparr>cb_label := sanitize_label (cb_label button)\<rparr>]) s))"

definition store_remove :: "int \<Rightarrow> button_store \<Rightarrow> button_store \<times> string option" where
  "store_remove index s =
     (if \<not> bs_valid s index then (s, None)
      else saved (set_buttons (take (nat index) (bs_buttons s) @ drop (nat index + 1) (bs_buttons s)) s))"

definition store_move :: "int \<Rightarrow> int \<Rightarrow> button_store \<Rightarrow> button_store \<times> string option" where
  "store_move index delta s =
     (if \<not> bs_valid s index \<or> delta = 0 then (s, None)
      else
        let to = clamp (index + delta) 0 (int (length (bs_buttons s)) - 1) in
        if to = index then (s, None)
        else
          let moved = bs_buttons s ! nat index;
              rest = take (nat index) (bs_buttons s) @ drop (nat index + 1) (bs_buttons s) in
          saved (set_buttons (take (nat to) rest @ moved # drop (nat to) rest) s))"

subsection \<open>The presets\<close>

definition valid_preset :: "button_store \<Rightarrow> int \<Rightarrow> bool" where
  "valid_preset s index \<longleftrightarrow> 0 \<le> index \<and> nat index < length (bs_presets s)"

definition store_select :: "int \<Rightarrow> button_store \<Rightarrow> bool \<times> button_store" where
  "store_select index s =
     (if \<not> valid_preset s index \<or> index = bs_current s then (False, s) else (True, s\<lparr>bs_current := index\<rparr>))"

definition store_create :: "string \<Rightarrow> button_store \<Rightarrow> button_store \<times> string option" where
  "store_create name s =
     (if kMaxPresets \<le> length (bs_presets s) then (s, None)
      else
        let ps = bs_presets s @ [empty_preset\<lparr>pr_name := sanitize_label name\<rparr>] in
        saved (s\<lparr>bs_presets := ps, bs_current := int (length ps) - 1\<rparr>))"

definition store_rename :: "int \<Rightarrow> string \<Rightarrow> button_store \<Rightarrow> button_store \<times> string option" where
  "store_rename index name s =
     (if \<not> valid_preset s index then (s, None)
      else saved (s\<lparr>bs_presets := (bs_presets s)[nat index := (bs_presets s ! nat index)\<lparr>pr_name := sanitize_label name\<rparr>]\<rparr>))"

definition store_set_match :: "int \<Rightarrow> string \<Rightarrow> button_store \<Rightarrow> button_store \<times> string option" where
  "store_set_match index process s =
     (if \<not> valid_preset s index then (s, None)
      else saved (s\<lparr>bs_presets := (bs_presets s)[nat index := (bs_presets s ! nat index)\<lparr>pr_match := sanitize_label process\<rparr>]\<rparr>))"

definition remove_preset :: "int \<Rightarrow> button_store \<Rightarrow> button_store \<times> string option" where
  "remove_preset index s =
     (if \<not> valid_preset s index \<or> length (bs_presets s) \<le> 1 then (s, None)
      else
        let ps = take (nat index) (bs_presets s) @ drop (nat index + 1) (bs_presets s) in
        saved (s\<lparr>bs_presets := ps, bs_current := clamp (bs_current s) 0 (int (length ps) - 1)\<rparr>))"

fun find_match :: "string \<Rightarrow> Preset list \<Rightarrow> int \<Rightarrow> int" where
  "find_match process [] i = -1"
| "find_match process (p # ps) i =
     (if pr_match p \<noteq> [] \<and> iequals (pr_match p) process then i else find_match process ps (i + 1))"

definition preset_for :: "string \<Rightarrow> button_store \<Rightarrow> int" where
  "preset_for process s = (if process = [] then -1 else find_match process (bs_presets s) 0)"

section \<open>Fields\<close>

lemma split_join: "\<forall>f \<in> set fs. TAB \<notin> set f \<Longrightarrow> fs \<noteq> [] \<Longrightarrow> split_tabs (join_tabs fs) = fs"
  unfolding split_tabs_def
  by (induction fs rule: join_tabs.induct) (auto simp: split_on_plain split_on_sep)

lemma set_join_tabs: "set (join_tabs fs) \<subseteq> insert TAB (\<Union>f \<in> set fs. set f)"
  by (induction fs rule: join_tabs.induct) auto

lemma sanitize_plain: "CR \<notin> set (sanitize_label l) \<and> plain (sanitize_label l) \<and> length (sanitize_label l) \<le> 24"
  by (auto simp: sanitize_label_def plain_def dest: in_set_takeD)

lemma sanitize_id: "CR \<notin> set l \<Longrightarrow> plain l \<Longrightarrow> length l \<le> 24 \<Longrightarrow> sanitize_label l = l"
proof -
  assume "CR \<notin> set l" "plain l" "length l \<le> 24"
  moreover from this have "filter (\<lambda>c. \<not> (c = TAB \<or> c = LF \<or> c = CR)) l = l" by (intro filter_True) (auto simp: plain_def)
  ultimately show ?thesis by (simp add: sanitize_label_def)
qed

lemma sanitize_idem [simp]: "sanitize_label (sanitize_label l) = sanitize_label l"
  using sanitize_plain [of l] by (intro sanitize_id) auto

section \<open>The file\<close>

text \<open>What the file can hold: cleaned names and labels, and keys that fit a line.\<close>

definition key_ok :: "string \<Rightarrow> bool" where
  "key_ok k \<longleftrightarrow> plain k \<and> (k \<noteq> [] \<longrightarrow> last k \<noteq> CR)"

definition button_ok :: "CustomButton \<Rightarrow> bool" where
  "button_ok b \<longleftrightarrow> sanitize_label (cb_label b) = cb_label b \<and> key_ok (cb_key b)"

definition preset_ok :: "Preset \<Rightarrow> bool" where
  "preset_ok p \<longleftrightarrow> sanitize_label (pr_name p) = pr_name p \<and> sanitize_label (pr_match p) = pr_match p \<and>
     (\<forall>b \<in> set (pr_buttons p). button_ok b)"

definition total_buttons :: "Preset list \<Rightarrow> nat" where
  "total_buttons ps = sum_list (map (\<lambda>p. length (pr_buttons p)) ps)"

lemma parse_button_line:
  assumes "button_ok b"
  shows "parse_button (split_tabs (button_line b)) 1 = Some b" "split_tabs (button_line b) ! 0 = ''B''"
    "LF \<notin> set (button_line b)" "button_line b \<noteq> []" "hd (button_line b) = CHR ''B''" "last (button_line b) \<noteq> CR"
proof -
  let ?fs = "[''B'', show_int (kind_to_int (cb_kind b)), cb_label b, show_int (rect_x (cb_target b)),
       show_int (rect_y (cb_target b)), show_int (rect_w (cb_target b)), show_int (rect_h (cb_target b)),
       show_int (uint (cb_modifiers b)), cb_key b]"
  have p: "plain (cb_label b)" "plain (cb_key b)" using assms sanitize_plain [of "cb_label b"] by (auto simp: button_ok_def key_ok_def)
  have "\<forall>f \<in> set ?fs. plain f" using p plain_show_int by (auto simp: plain_def TAB_def LF_def)
  then have "\<forall>f \<in> set ?fs. TAB \<notin> set f" "\<forall>f \<in> set ?fs. LF \<notin> set f" by (auto simp: plain_def)
  then have f: "split_tabs (button_line b) = ?fs" unfolding button_line_def by (intro split_join) simp_all
  show "LF \<notin> set (button_line b)"
    using \<open>\<forall>f \<in> set ?fs. LF \<notin> set f\<close> set_join_tabs [of ?fs] unfolding button_line_def by (auto simp: TAB_def LF_def)
  have k: "kind_of_int (kind_to_int x) = Some x" for x by (cases x) (simp_all add: kind_of_int_def)
  have "recti (rect_x t) (rect_y t) (rect_w t) (rect_h t) = t" for t by (simp add: recti_def)
  then show "parse_button (split_tabs (button_line b)) 1 = Some b"
    unfolding f using assms by (simp add: parse_button_def to_int_show k button_ok_def)
  show "split_tabs (button_line b) ! 0 = ''B''" unfolding f by simp
  show "button_line b \<noteq> []" "hd (button_line b) = CHR ''B''" by (simp_all add: button_line_def)
  show "last (button_line b) \<noteq> CR"
    using assms plain_show_int(2) by (auto simp: button_line_def button_ok_def key_ok_def TAB_def CR_def)
qed

lemma load_button_line:
  assumes "button_ok b" "loaded \<noteq> []" "buttons < kMaxButtons"
  shows "load_lines (button_line b # rest) loaded buttons = load_lines rest (add_to_last b loaded) (buttons + 1)"
  using parse_button_line [OF assms(1)] assms(2,3) by simp

lemma load_button_lines:
  assumes "\<forall>b \<in> set bs. button_ok b" "buttons + length bs \<le> kMaxButtons"
  shows "load_lines (map button_line bs @ rest) (ps @ [p]) buttons =
    load_lines rest (ps @ [p\<lparr>pr_buttons := pr_buttons p @ bs\<rparr>]) (buttons + length bs)"
  using assms
proof (induction bs arbitrary: p buttons)
  case (Cons b bs)
  then show ?case
    using load_button_line [of b "ps @ [p]" buttons "map button_line bs @ rest"]
      Cons.IH [of "buttons + 1" "p\<lparr>pr_buttons := pr_buttons p @ [b]\<rparr>"] by (simp add: add_to_last_def)
qed simp

lemma load_preset_line:
  assumes "preset_ok p" "length loaded < kMaxPresets"
  shows "load_lines (preset_line p # rest) loaded buttons =
    load_lines rest (loaded @ [p\<lparr>pr_buttons := []\<rparr>]) buttons" "LF \<notin> set (preset_line p)"
proof -
  have p: "plain (pr_name p)" "plain (pr_match p)" "CR \<notin> set (pr_match p)"
    using assms(1) sanitize_plain [of "pr_name p"] sanitize_plain [of "pr_match p"] by (auto simp: preset_ok_def)
  have f: "split_tabs (preset_line p) = [''P'', pr_name p, pr_match p]"
    unfolding preset_line_def using p by (intro split_join) (auto simp: plain_def TAB_def)
  show "LF \<notin> set (preset_line p)" using p by (auto simp: preset_line_def plain_def TAB_def LF_def)
  have l: "last (preset_line p) \<noteq> CR" using p(3) by (auto simp: preset_line_def TAB_def CR_def) (metis last_in_set)
  have "preset_line p \<noteq> []" "hd (preset_line p) = CHR ''P''" by (simp_all add: preset_line_def)
  then show "load_lines (preset_line p # rest) loaded buttons = load_lines rest (loaded @ [p\<lparr>pr_buttons := []\<rparr>]) buttons"
    using l f assms by (cases p) (simp add: preset_ok_def)
qed

lemma load_presets:
  assumes "\<forall>p \<in> set ps. preset_ok p" "length loaded + length ps \<le> kMaxPresets" "buttons + total_buttons ps \<le> kMaxButtons"
  shows "load_lines (concat (map (\<lambda>p. preset_line p # map button_line (pr_buttons p)) ps)) loaded buttons =
    (loaded @ ps, buttons + total_buttons ps)"
  using assms
proof (induction ps arbitrary: loaded buttons)
  case (Cons p ps)
  let ?rest = "concat (map (\<lambda>p. preset_line p # map button_line (pr_buttons p)) ps)"
  have "load_lines (preset_line p # map button_line (pr_buttons p) @ ?rest) loaded buttons =
      load_lines ?rest (loaded @ [p]) (buttons + length (pr_buttons p))"
    using Cons.prems load_preset_line(1) [of p loaded] load_button_lines [of "pr_buttons p" buttons ?rest loaded "p\<lparr>pr_buttons := []\<rparr>"]
    by (simp add: preset_ok_def total_buttons_def)
  then show ?case using Cons.IH [of "loaded @ [p]" "buttons + length (pr_buttons p)"] Cons.prems
    by (simp add: total_buttons_def)
qed (simp add: total_buttons_def)

lemma header_line_skipped: "load_lines (header_line # rest) loaded buttons = load_lines rest loaded buttons"
  by (simp add: header_line_def CR_def)

declare load_lines.simps(2) [simp del]

lemma file_lines_plain: "\<forall>p \<in> set ps. preset_ok p \<Longrightarrow> l \<in> set (file_lines ps) \<Longrightarrow> LF \<notin> set l"
  using parse_button_line(3) load_preset_line(2) [where loaded = "[]"]
  by (auto simp: file_lines_def preset_ok_def kMaxPresets_def) (auto simp: header_line_def LF_def TAB_def)

lemma load_file_text:
  assumes "\<forall>p \<in> set ps. preset_ok p" "length ps \<le> kMaxPresets" "total_buttons ps \<le> kMaxButtons"
  shows "load_lines (getlines (file_text ps)) [] 0 = (ps, total_buttons ps)"
proof -
  have "getlines (file_text ps) = file_lines ps"
    unfolding file_text_def using file_lines_plain [OF assms(1)] by (intro getlines_concat) blast
  then have "load_lines (getlines (file_text ps)) [] 0 = load_lines (file_lines ps) [] 0" by simp
  also have "\<dots> = (ps, total_buttons ps)" unfolding file_lines_def header_line_skipped
    using load_presets [of ps "[]" 0] assms by simp
  finally show ?thesis .
qed

section \<open>Invariant\<close>

definition store_inv :: "button_store \<Rightarrow> bool" where
  "store_inv s \<longleftrightarrow>
     bs_presets s \<noteq> [] \<and> length (bs_presets s) \<le> kMaxPresets \<and> valid_preset s (bs_current s) \<and>
     (\<forall>p \<in> set (bs_presets s). sanitize_label (pr_name p) = pr_name p \<and> sanitize_label (pr_match p) = pr_match p \<and>
        length (pr_buttons p) \<le> kMaxButtons \<and> (\<forall>b \<in> set (pr_buttons p). sanitize_label (cb_label b) = cb_label b))"

abbreviation buttons_fine :: "CustomButton list \<Rightarrow> bool" where
  "buttons_fine bs \<equiv> length bs \<le> kMaxButtons \<and> (\<forall>b \<in> set bs. sanitize_label (cb_label b) = cb_label b)"

lemma store_inv_set_buttons:
  assumes "store_inv s" "buttons_fine bs"
  shows "store_inv (set_buttons bs s)"
  using assms by (auto simp: store_inv_def set_buttons_def valid_preset_def dest!: set_update_subset_insert [THEN subsetD])

lemma store_inv_buttons: "store_inv s \<Longrightarrow> buttons_fine (bs_buttons s)"
  by (auto simp: store_inv_def bs_buttons_def valid_preset_def)

lemma set_take_drop: "set (take n xs @ drop m xs) \<subseteq> set xs"
  by (auto dest: in_set_takeD in_set_dropD)

lemma buttons_fine_without: "buttons_fine xs \<Longrightarrow> buttons_fine (take n xs @ drop (n + 1) xs)"
  by (auto dest: in_set_takeD in_set_dropD)

lemma buttons_fine_insert:
  assumes "buttons_fine xs" "length xs < kMaxButtons" "sanitize_label (cb_label b) = cb_label b"
  shows "buttons_fine (take n xs @ b # drop n xs)"
proof -
  have "length (take n xs @ b # drop n xs) = length xs + 1" by simp
  then show ?thesis using assms by (auto dest: in_set_takeD in_set_dropD)
qed

lemma preset_update_inv:
  assumes "store_inv s" "valid_preset s i" "sanitize_label (pr_name p) = pr_name p" "sanitize_label (pr_match p) = pr_match p"
    "pr_buttons p = pr_buttons (bs_presets s ! nat i)"
  shows "store_inv (s\<lparr>bs_presets := (bs_presets s)[nat i := p]\<rparr>)"
proof -
  have "bs_presets s ! nat i \<in> set (bs_presets s)" using assms(2) by (simp add: valid_preset_def)
  then have "buttons_fine (pr_buttons p)" using assms(1,5) by (auto simp: store_inv_def)
  then show ?thesis using assms(1,3,4)
    by (auto simp: store_inv_def valid_preset_def dest!: set_update_subset_insert [THEN subsetD])
qed

lemma load_lines_inv:
  assumes "load_lines ls loaded n = (ps, k)" "length loaded \<le> kMaxPresets" "total_buttons loaded = n" "n \<le> kMaxButtons"
    "\<forall>p \<in> set loaded. sanitize_label (pr_name p) = pr_name p \<and> sanitize_label (pr_match p) = pr_match p \<and>
        (\<forall>b \<in> set (pr_buttons p). sanitize_label (cb_label b) = cb_label b)"
  shows "length ps \<le> kMaxPresets \<and> total_buttons ps = k \<and> k \<le> kMaxButtons \<and>
    (\<forall>p \<in> set ps. sanitize_label (pr_name p) = pr_name p \<and> sanitize_label (pr_match p) = pr_match p \<and>
        (\<forall>b \<in> set (pr_buttons p). sanitize_label (cb_label b) = cb_label b))"
  using assms
proof (induction ls loaded n rule: load_lines.induct)
  case (2 raw rest loaded n)
  define line where "line = (if raw \<noteq> [] \<and> last raw = CR then butlast raw else raw)"
  define f where "f = split_tabs line"
  define l1 where "l1 = (if loaded = [] then [empty_preset] else loaded)"
  have e: "sanitize_label [] = []" by (simp add: sanitize_label_def)
  have l1: "l1 \<noteq> []" "length l1 \<le> kMaxPresets" "total_buttons l1 = n"
    "\<forall>p \<in> set l1. sanitize_label (pr_name p) = pr_name p \<and> sanitize_label (pr_match p) = pr_match p \<and>
        (\<forall>b \<in> set (pr_buttons p). sanitize_label (cb_label b) = cb_label b)"
    using "2.prems" e by (auto simp: l1_def empty_preset_def kMaxPresets_def total_buttons_def)
  note eq = load_lines.simps(2) [of raw rest loaded n, unfolded Let_def, folded line_def, folded f_def, folded l1_def]
  consider (skip) "line = [] \<or> hd line = CHR ''#''" | (full) "\<not> (line = [] \<or> hd line = CHR ''#'')" "f ! 0 = ''P''" "kMaxPresets \<le> length loaded"
    | (preset) "\<not> (line = [] \<or> hd line = CHR ''#'')" "f ! 0 = ''P''" "\<not> kMaxPresets \<le> length loaded"
    | (bad) "\<not> (line = [] \<or> hd line = CHR ''#'')" "f ! 0 \<noteq> ''P''" "parse_button f (if f ! 0 = ''B'' then 1 else 0) = None"
    | (toomany) b where "\<not> (line = [] \<or> hd line = CHR ''#'')" "f ! 0 \<noteq> ''P''" "parse_button f (if f ! 0 = ''B'' then 1 else 0) = Some b" "kMaxButtons \<le> n"
    | (button) b where "\<not> (line = [] \<or> hd line = CHR ''#'')" "f ! 0 \<noteq> ''P''" "parse_button f (if f ! 0 = ''B'' then 1 else 0) = Some b" "\<not> kMaxButtons \<le> n"
    by blast
  then show ?case
  proof cases
    case skip
    then show ?thesis using "2.IH"(1) [OF line_def] "2.prems" eq by simp
  next
    case full
    then show ?thesis using "2.prems" eq by simp
  next
    case preset
    let ?p = "\<lparr>pr_name = (if 1 < length f then sanitize_label (f ! 1) else []),
        pr_match = (if 2 < length f then sanitize_label (f ! 2) else []), pr_buttons = []\<rparr>"
    have "load_lines rest (loaded @ [?p]) n = (ps, k)" using "2.prems"(1) eq preset by simp
    then show ?thesis using "2.IH"(2) [OF line_def _ f_def] preset "2.prems" e by (auto simp: total_buttons_def)
  next
    case bad
    then show ?thesis using "2.IH"(3) [OF line_def _ f_def] "2.prems" eq by simp
  next
    case toomany
    then show ?thesis using "2.prems" eq l1 by auto
  next
    case button
    have ll: "load_lines rest (add_to_last b l1) (n + 1) = (ps, k)" using "2.prems"(1) eq button by simp
    have sb: "sanitize_label (cb_label b) = cb_label b"
      using button(3) by (auto simp: parse_button_def split: if_splits option.splits)
    obtain qs q where q: "l1 = qs @ [q]" using l1(1) by (meson rev_exhaust)
    have l2: "add_to_last b l1 = qs @ [q\<lparr>pr_buttons := pr_buttons q @ [b]\<rparr>]" by (simp add: add_to_last_def q)
    show ?thesis
    proof (rule "2.IH"(4) [OF line_def button(1) f_def button(2,3) l1_def button(4) ll])
      show "length (add_to_last b l1) \<le> kMaxPresets" "total_buttons (add_to_last b l1) = n + 1" "n + 1 \<le> kMaxButtons"
        unfolding l2 using l1(2,3) button(4) unfolding q by (simp_all add: total_buttons_def)
      show "\<forall>p \<in> set (add_to_last b l1). sanitize_label (pr_name p) = pr_name p \<and> sanitize_label (pr_match p) = pr_match p \<and>
        (\<forall>b \<in> set (pr_buttons p). sanitize_label (cb_label b) = cb_label b)"
        unfolding l2 using l1(4) sb unfolding q by auto
    qed
  qed
qed auto

section \<open>Properties\<close>

text \<open>
  C30: The button file loses nothing it can hold. When the names, labels and matches are clean (which
  every editing operation sees to), the keys fit a line, and there are at most 64 presets and 256
  buttons in all, loading what was saved gives back the same presets with the same buttons.
\<close>

theorem buttons_file_roundtrip:
  assumes "\<forall>p \<in> set ps. preset_ok p" and "ps \<noteq> []" and "length ps \<le> kMaxPresets" and "total_buttons ps \<le> kMaxButtons"
    and "dir \<noteq> []"
  shows "bs_presets (store_load dir (Some (file_text ps)) s) = ps \<and> bs_current (store_load dir (Some (file_text ps)) s) = 0"
  using load_file_text [OF assms(1,3,4)] assms(2,5) by (simp add: store_load_def Let_def)

definition ex_button :: CustomButton where
  "ex_button = \<lparr>cb_kind = Kind_Shortcut, cb_label = ''Undo'', cb_target = recti (-3) 40 0 12, cb_modifiers = 5, cb_key = ''z''\<rparr>"

definition ex_presets :: "Preset list" where
  "ex_presets = [\<lparr>pr_name = ''Krita'', pr_match = ''krita.exe'', pr_buttons = [ex_button, ex_button]\<rparr>, empty_preset]"

lemma ex_presets_ok: "\<forall>p \<in> set ex_presets. preset_ok p"
  by (simp add: ex_presets_def ex_button_def empty_preset_def preset_ok_def button_ok_def key_ok_def plain_def sanitize_label_def
      TAB_def LF_def CR_def)

theorem buttons_file_roundtrip_witness:
  "bs_presets (store_load ''/data'' (Some (file_text ex_presets)) store_init) = ex_presets"
proof -
  have "ex_presets \<noteq> []" "length ex_presets \<le> kMaxPresets" "total_buttons ex_presets \<le> kMaxButtons"
    by (simp_all add: ex_presets_def empty_preset_def total_buttons_def kMaxPresets_def kMaxButtons_def)
  then show ?thesis using buttons_file_roundtrip [OF ex_presets_ok, of "''/data''" store_init] by simp
qed

text \<open>
  The store stays well formed through every operation and through any file, however corrupt: there
  is always a preset and the selected one exists, there are at most 64 presets of at most 256 buttons
  each, and every name, match and label is free of tabs and line ends and at most 24 bytes long.
\<close>

theorem store_invariant:
  "store_inv store_init \<and>
   (store_inv s \<longrightarrow> store_inv (store_load dir file s) \<and> store_inv (fst (store_add b s)) \<and>
      store_inv (fst (store_replace i b s)) \<and> store_inv (fst (store_remove i s)) \<and> store_inv (fst (store_move i delta s)) \<and>
      store_inv (snd (store_select i s)) \<and> store_inv (fst (store_create name s)) \<and> store_inv (fst (store_rename i name s)) \<and>
      store_inv (fst (store_set_match i name s)) \<and> store_inv (fst (remove_preset i s)))"
proof (intro conjI impI)
  have e: "sanitize_label [] = []" by (simp add: sanitize_label_def)
  show "store_inv store_init"
    using e by (simp add: store_inv_def store_init_def empty_preset_def valid_preset_def kMaxPresets_def kMaxButtons_def)
  assume inv: "store_inv s"
  note bf = store_inv_buttons [OF inv] and sb = store_inv_set_buttons [OF inv]
  have pu: "valid_preset s i \<Longrightarrow> sanitize_label (pr_name (bs_presets s ! nat i)) = pr_name (bs_presets s ! nat i) \<and>
      sanitize_label (pr_match (bs_presets s ! nat i)) = pr_match (bs_presets s ! nat i)"
    using inv by (simp add: store_inv_def valid_preset_def)
  have sub: "buttons_fine bs" if "set bs \<subseteq> insert (b\<lparr>cb_label := sanitize_label (cb_label b)\<rparr>) (set (bs_buttons s))" "length bs \<le> kMaxButtons" for bs
    using that bf by auto
  show "store_inv (fst (store_add b s))"
    using inv sb [OF sub] by (simp add: store_add_def saved_def subset_insertI)
  show "store_inv (fst (store_replace i b s))"
    using inv bf sb [OF sub] by (simp add: store_replace_def saved_def set_update_subset_insert)
  show "store_inv (fst (store_remove i s))"
    using inv sb [OF buttons_fine_without [OF bf]] by (simp add: store_remove_def saved_def)
  show "store_inv (fst (store_move i delta s))"
  proof (cases "bs_valid s i")
    case True
    let ?bs = "bs_buttons s"
    let ?rest = "take (nat i) ?bs @ drop (nat i + 1) ?bs"
    have l: "length ?rest < length ?bs" "?bs ! nat i \<in> set ?bs" using True by (auto simp: bs_valid_def)
    have "buttons_fine (take n ?rest @ (?bs ! nat i) # drop n ?rest)" for n
    proof (rule buttons_fine_insert [OF buttons_fine_without [OF bf]])
      show "length ?rest < kMaxButtons" using l(1) bf by linarith
      show "sanitize_label (cb_label (?bs ! nat i)) = cb_label (?bs ! nat i)" using l(2) bf by blast
    qed
    then show ?thesis using inv sb by (simp add: store_move_def saved_def Let_def)
  qed (simp add: store_move_def inv)
  show "store_inv (snd (store_select i s))"
    using inv by (auto simp: store_select_def store_inv_def valid_preset_def)
  show "store_inv (fst (store_rename i name s))"
    using inv pu preset_update_inv [OF inv, of i] by (simp add: store_rename_def saved_def)
  show "store_inv (fst (store_set_match i name s))"
    using inv pu preset_update_inv [OF inv, of i] by (simp add: store_set_match_def saved_def)
  show "store_inv (fst (store_create name s))"
    using inv e by (auto simp: store_create_def saved_def store_inv_def valid_preset_def Let_def empty_preset_def)
  show "store_inv (fst (remove_preset i s))"
    using inv set_take_drop [of "nat i" "bs_presets s" "nat i + 1"]
    by (auto simp: remove_preset_def saved_def store_inv_def valid_preset_def Let_def clamp_def)
  show "store_inv (store_load dir file s)"
  proof (cases "dir = [] \<or> file = None")
    case True
    then show ?thesis using inv by (auto simp: store_load_def store_inv_def valid_preset_def Let_def)
  next
    case False
    then obtain content where f: "file = Some content" by auto
    obtain ps k where l: "load_lines (getlines content) [] 0 = (ps, k)" by fastforce
    have lp: "length ps \<le> kMaxPresets" "total_buttons ps \<le> kMaxButtons"
      "\<forall>p \<in> set ps. sanitize_label (pr_name p) = pr_name p \<and> sanitize_label (pr_match p) = pr_match p \<and>
        (\<forall>b \<in> set (pr_buttons p). sanitize_label (cb_label b) = cb_label b)"
      using load_lines_inv [OF l] by (simp_all add: total_buttons_def)
    have "length (pr_buttons p) \<le> kMaxButtons" if "p \<in> set ps" for p
      using sum_list_ge_elem [OF that, of "\<lambda>p. length (pr_buttons p)"] lp(2) by (simp add: total_buttons_def)
    then show ?thesis using inv False f l lp by (auto simp: store_load_def store_inv_def valid_preset_def Let_def)
  qed
qed

theorem store_invariant_witness:
  "store_inv (fst (store_add ex_button (store_load ''/data'' (Some ''P'') store_init)))"
  using store_invariant [of store_init "''/data''" "Some ''P''" ex_button 0 0 "[]"]
    store_invariant [of "store_load ''/data'' (Some ''P'') store_init" "[]" None ex_button 0 0 "[]"] by blast

text \<open>
  A program whose name is longer than 24 bytes never gets its preset. The match is cut to 24 bytes
  like a label, and is then compared with the whole name ACTIVE_WINDOW reports, which may have up to 63.
\<close>

theorem long_process_never_matched:
  assumes "store_inv s" and "24 < length process"
  shows "preset_for process (fst (store_set_match i process s)) = -1"
proof -
  have n: "find_match process ps k = -1" if "\<forall>p \<in> set ps. length (pr_match p) \<le> 24" for ps k
    using that assms(2) by (induction ps arbitrary: k) (auto simp: iequals_def)
  have "length (pr_match p) \<le> 24" if "p \<in> set (bs_presets (fst (store_set_match i process s)))" for p
    using that assms(1) sanitize_plain [of process] sanitize_plain
    by (auto simp: store_set_match_def saved_def store_inv_def split: if_splits dest!: set_update_subset_insert [THEN subsetD])
      (metis sanitize_plain)+
  then show ?thesis using n by (auto simp: preset_for_def)
qed

theorem long_process_never_matched_witness:
  "preset_for ''ApplicationFrameHostingProcess.exe''
     (fst (store_set_match 0 ''ApplicationFrameHostingProcess.exe'' store_init)) = -1"
  by (rule long_process_never_matched)
    (simp_all add: store_inv_def store_init_def empty_preset_def valid_preset_def kMaxPresets_def kMaxButtons_def sanitize_label_def)

end
