(* ===== verification/Settings.thy ===== *)
theory Settings
  imports TextFile
begin

text \<open>
  The two settings files, one \<open>key=value\<close> per line and written whole at every change:
  \<open>guest/app/src/main/cpp/core/Settings.cpp\<close> and \<open>host/src/app/HostSettings.cpp\<close>.

  The file is its content, as in theory \<open>ButtonStore\<close>: loading takes \<open>None\<close> for a file that cannot be
  opened, and what an operation writes is returned beside the new settings (\<open>None\<close> when it writes
  nothing). The \<open>float\<close> and the \<open>double\<close>s are the rational numbers they stand for.
\<close>

section \<open>Definitions\<close>

subsection \<open>Lines\<close>

definition bool_text :: "bool \<Rightarrow> string" where
  "bool_text b = show_int (if b then 1 else 0)"

definition setting_line :: "string \<times> string \<Rightarrow> string" where
  "setting_line kv = fst kv @ CHR ''='' # snd kv"

definition settings_text :: "string \<Rightarrow> (string \<times> string) list \<Rightarrow> string" where
  "settings_text title kvs = concat (map (\<lambda>l. l @ [LF]) (title # map setting_line kvs))"

text \<open>The loop over the lines: those without \<open>=\<close> are skipped, the others given to the settings.\<close>

fun read_settings :: "(string \<Rightarrow> string \<Rightarrow> 's \<Rightarrow> 's) \<Rightarrow> string list \<Rightarrow> 's \<Rightarrow> 's" where
  "read_settings apply_key [] s = s"
| "read_settings apply_key (line # rest) s =
     (case key_value line of
        None \<Rightarrow> read_settings apply_key rest s
      | Some (key, value) \<Rightarrow> read_settings apply_key rest (apply_key key value s))"

subsection \<open>The guest\<close>

definition kSettingsFileName :: string where "kSettingsFileName = ''settings.txt''"
definition kAutoLaunchKey :: string where "kAutoLaunchKey = ''auto_launch''"
definition kMinIntervalKey :: string where "kMinIntervalKey = ''min_interval_ms''"
definition kMinDistanceKey :: string where "kMinDistanceKey = ''min_distance_dp''"
definition kStripVerticalKey :: string where "kStripVerticalKey = ''strip_vertical''"
definition kStripExpandedKey :: string where "kStripExpandedKey = ''strip_expanded''"
definition kStripSlotsKey :: string where "kStripSlotsKey = ''strip_slots''"
definition kScreenKey :: string where "kScreenKey = ''screen''"
definition kStylusKey :: string where "kStylusKey = ''stylus_only''"

lemmas guest_key_defs = kAutoLaunchKey_def kMinIntervalKey_def kMinDistanceKey_def kStripVerticalKey_def kStripExpandedKey_def
  kStripSlotsKey_def kScreenKey_def kStylusKey_def

record settings =
  se_path :: string
  se_auto_launch :: bool
  se_min_interval_ms :: int
  se_min_distance_dp :: rat
  se_strip_vertical :: bool
  se_strip_expanded :: bool
  se_strip_slots :: int
  se_screen_enabled :: bool
  se_stylus_only :: bool

definition settings_init :: settings where
  "settings_init =
     \<lparr>se_path = [], se_auto_launch = True, se_min_interval_ms = 0, se_min_distance_dp = 0, se_strip_vertical = False,
      se_strip_expanded = False, se_strip_slots = 0, se_screen_enabled = False, se_stylus_only = False\<rparr>"

definition apply_setting :: "string \<Rightarrow> string \<Rightarrow> settings \<Rightarrow> settings" where
  "apply_setting key value s =
     (if key = kAutoLaunchKey then s\<lparr>se_auto_launch := (value \<noteq> ''0'')\<rparr>
      else if key = kMinIntervalKey then s\<lparr>se_min_interval_ms := to_int value\<rparr>
      else if key = kMinDistanceKey then s\<lparr>se_min_distance_dp := to_double value\<rparr>
      else if key = kStripVerticalKey then s\<lparr>se_strip_vertical := (value \<noteq> ''0'')\<rparr>
      else if key = kStripExpandedKey then s\<lparr>se_strip_expanded := (value \<noteq> ''0'')\<rparr>
      else if key = kStripSlotsKey then s\<lparr>se_strip_slots := to_int value\<rparr>
      else if key = kScreenKey then s\<lparr>se_screen_enabled := (value \<noteq> ''0'')\<rparr>
      else if key = kStylusKey then s\<lparr>se_stylus_only := (value \<noteq> ''0'')\<rparr>
      else s)"

definition settings_pairs :: "settings \<Rightarrow> (string \<times> string) list" where
  "settings_pairs s =
     [(kAutoLaunchKey, bool_text (se_auto_launch s)),
      (kMinIntervalKey, show_int (se_min_interval_ms s)),
      (kMinDistanceKey, show_double (se_min_distance_dp s)),
      (kStripVerticalKey, bool_text (se_strip_vertical s)),
      (kStripExpandedKey, bool_text (se_strip_expanded s)),
      (kStripSlotsKey, show_int (se_strip_slots s)),
      (kScreenKey, bool_text (se_screen_enabled s)),
      (kStylusKey, bool_text (se_stylus_only s))]"

definition settings_save :: "settings \<Rightarrow> string option" where
  "settings_save s =
     (if se_path s = [] then None else Some (settings_text ''# digitiz guest settings'' (settings_pairs s)))"

definition settings_load :: "string \<Rightarrow> string option \<Rightarrow> settings \<Rightarrow> settings \<times> string option" where
  "settings_load external_dir file s =
     (if external_dir = [] then (s, None)
      else
        let s1 = s\<lparr>se_path := external_dir @ ''/'' @ kSettingsFileName\<rparr> in
        case file of
          None \<Rightarrow> (s1, settings_save s1)
        | Some content \<Rightarrow> (read_settings apply_setting (getlines content) s1, None))"

text \<open>A setter returns early when the fields it sets have these values already, and writes the file otherwise.\<close>

definition changed_to :: "settings \<Rightarrow> settings \<Rightarrow> settings \<times> string option" where
  "changed_to s s1 = (if s1 = s then (s, None) else (s1, settings_save s1))"

definition set_throttle :: "int \<Rightarrow> rat \<Rightarrow> settings \<Rightarrow> settings \<times> string option" where
  "set_throttle interval_ms distance_dp s =
     changed_to s (s\<lparr>se_min_interval_ms := interval_ms, se_min_distance_dp := distance_dp\<rparr>)"

definition set_strip :: "bool \<Rightarrow> bool \<Rightarrow> settings \<Rightarrow> settings \<times> string option" where
  "set_strip vertical expanded s = changed_to s (s\<lparr>se_strip_vertical := vertical, se_strip_expanded := expanded\<rparr>)"

definition set_strip_slots :: "int \<Rightarrow> settings \<Rightarrow> settings \<times> string option" where
  "set_strip_slots slots s = changed_to s (s\<lparr>se_strip_slots := slots\<rparr>)"

definition set_screen_enabled :: "bool \<Rightarrow> settings \<Rightarrow> settings \<times> string option" where
  "set_screen_enabled on s = changed_to s (s\<lparr>se_screen_enabled := on\<rparr>)"

definition se_set_stylus_only :: "bool \<Rightarrow> settings \<Rightarrow> settings \<times> string option" where
  "se_set_stylus_only on s = changed_to s (s\<lparr>se_stylus_only := on\<rparr>)"

definition set_auto_launch :: "bool \<Rightarrow> settings \<Rightarrow> settings \<times> string option" where
  "set_auto_launch on s = changed_to s (s\<lparr>se_auto_launch := on\<rparr>)"

subsection \<open>The host\<close>

definition kHostSettingsFileName :: string where "kHostSettingsFileName = ''host.txt''"
definition kInjectionKey :: string where "kInjectionKey = ''injection''"
definition kSweepTilesKey :: string where "kSweepTilesKey = ''sweep_tiles''"
definition kSmoothingKey :: string where "kSmoothingKey = ''smoothing''"
definition kSmoothingStepKey :: string where "kSmoothingStepKey = ''smoothing_step_px''"
definition kSmoothingAlphaKey :: string where "kSmoothingAlphaKey = ''smoothing_alpha''"

lemmas host_key_defs = kInjectionKey_def kSweepTilesKey_def kSmoothingKey_def kSmoothingStepKey_def kSmoothingAlphaKey_def

record host_settings =
  hs_path :: string
  hs_injection :: bool
  hs_sweep_tiles :: int
  hs_smoothing :: bool
  hs_smoothing_step_px :: rat
  hs_smoothing_alpha :: rat

definition host_settings_init :: host_settings where
  "host_settings_init =
     \<lparr>hs_path = [], hs_injection = False, hs_sweep_tiles = 1, hs_smoothing = False, hs_smoothing_step_px = 2,
      hs_smoothing_alpha = 1 / 2\<rparr>"

definition hs_seed :: "bool \<Rightarrow> int \<Rightarrow> bool \<Rightarrow> rat \<Rightarrow> rat \<Rightarrow> host_settings \<Rightarrow> host_settings" where
  "hs_seed injection sweep_tiles smoothing step_px alpha s =
     s\<lparr>hs_injection := injection, hs_sweep_tiles := sweep_tiles, hs_smoothing := smoothing, hs_smoothing_step_px := step_px,
       hs_smoothing_alpha := alpha\<rparr>"

definition apply_host_setting :: "string \<Rightarrow> string \<Rightarrow> host_settings \<Rightarrow> host_settings" where
  "apply_host_setting key value s =
     (if key = kInjectionKey then s\<lparr>hs_injection := (value \<noteq> ''0'')\<rparr>
      else if key = kSweepTilesKey then s\<lparr>hs_sweep_tiles := to_int value\<rparr>
      else if key = kSmoothingKey then s\<lparr>hs_smoothing := (value \<noteq> ''0'')\<rparr>
      else if key = kSmoothingStepKey then s\<lparr>hs_smoothing_step_px := to_double value\<rparr>
      else if key = kSmoothingAlphaKey then s\<lparr>hs_smoothing_alpha := to_double value\<rparr>
      else s)"

definition host_settings_pairs :: "host_settings \<Rightarrow> (string \<times> string) list" where
  "host_settings_pairs s =
     [(kInjectionKey, bool_text (hs_injection s)),
      (kSweepTilesKey, show_int (hs_sweep_tiles s)),
      (kSmoothingKey, bool_text (hs_smoothing s)),
      (kSmoothingStepKey, show_double (hs_smoothing_step_px s)),
      (kSmoothingAlphaKey, show_double (hs_smoothing_alpha s))]"

definition hs_save :: "host_settings \<Rightarrow> string option" where
  "hs_save s =
     (if hs_path s = [] then None else Some (settings_text ''# digitiz host settings'' (host_settings_pairs s)))"

definition hs_load :: "string \<Rightarrow> string option \<Rightarrow> host_settings \<Rightarrow> host_settings \<times> string option" where
  "hs_load dir file s =
     (if dir = [] then (s, None)
      else
        let s1 = s\<lparr>hs_path := dir @ ''/'' @ kHostSettingsFileName\<rparr> in
        case file of
          None \<Rightarrow> (s1, hs_save s1)
        | Some content \<Rightarrow> (read_settings apply_host_setting (getlines content) s1, None))"

definition hs_set_injection :: "bool \<Rightarrow> host_settings \<Rightarrow> host_settings \<times> string option" where
  "hs_set_injection on s =
     (if hs_injection s = on then (s, None) else let s1 = s\<lparr>hs_injection := on\<rparr> in (s1, hs_save s1))"

definition hs_set_sweep_tiles :: "int \<Rightarrow> host_settings \<Rightarrow> host_settings \<times> string option" where
  "hs_set_sweep_tiles tiles s =
     (if hs_sweep_tiles s = tiles then (s, None) else let s1 = s\<lparr>hs_sweep_tiles := tiles\<rparr> in (s1, hs_save s1))"

definition hs_set_smoothing :: "bool \<Rightarrow> rat \<Rightarrow> rat \<Rightarrow> host_settings \<Rightarrow> host_settings \<times> string option" where
  "hs_set_smoothing on step_px alpha s =
     (if hs_smoothing s = on \<and> hs_smoothing_step_px s = step_px \<and> hs_smoothing_alpha s = alpha then (s, None)
      else
        let s1 = s\<lparr>hs_smoothing := on, hs_smoothing_step_px := step_px, hs_smoothing_alpha := alpha\<rparr> in (s1, hs_save s1))"

section \<open>Reading what was written\<close>

lemma bool_text_solid: "c \<in> set (bool_text b) \<Longrightarrow> number_char c"
  using number_show_int by (simp add: bool_text_def)

lemma bool_text_not_0: "bool_text b \<noteq> ''0'' \<longleftrightarrow> b"
proof -
  have "show_nat 1 = ''1''" "show_nat 0 = ''0''" by code_simp+
  then show ?thesis by (simp add: bool_text_def show_int_def)
qed

text \<open>Keys and values the file can hold: no blanks, and no \<open>=\<close> in a key.\<close>

definition pair_ok :: "string \<times> string \<Rightarrow> bool" where
  "pair_ok kv \<longleftrightarrow> (\<forall>c \<in> set (fst kv). \<not> tspace c \<and> c \<noteq> CHR ''='') \<and> (\<forall>c \<in> set (snd kv). \<not> tspace c)"

lemma setting_line_plain: "pair_ok kv \<Longrightarrow> LF \<notin> set (setting_line kv)"
proof -
  assume "pair_ok kv"
  moreover have "tspace LF" by (simp add: tspace_def)
  ultimately show ?thesis by (auto simp: setting_line_def pair_ok_def LF_def)
qed

lemma read_settings_text:
  assumes "\<forall>kv \<in> set kvs. pair_ok kv" "LF \<notin> set title" "CHR ''='' \<notin> set title"
  shows "read_settings f (getlines (settings_text title kvs)) s = fold (\<lambda>(k, v). f k v) kvs s"
proof -
  have "LF \<notin> set (setting_line kv)" if "kv \<in> set kvs" for kv
    using that assms(1) setting_line_plain by blast
  then have g: "getlines (settings_text title kvs) = title # map setting_line kvs"
    unfolding settings_text_def using assms(2) by (intro getlines_concat) auto
  have t: "key_value title = None" using assms(3) by (simp add: key_value_def)
  have "read_settings f (map setting_line kvs) s = fold (\<lambda>(k, v). f k v) kvs s"
    using assms(1)
  proof (induction kvs arbitrary: s)
    case (Cons kv kvs)
    obtain k v where kv: "kv = (k, v)" by fastforce
    have "key_value (setting_line kv) = Some (k, v)"
      using Cons.prems by (simp add: kv setting_line_def pair_ok_def key_value_line)
    then show ?case using Cons by (simp add: kv)
  qed simp
  then show ?thesis by (simp add: g t)
qed

lemma settings_pairs_ok: "\<forall>kv \<in> set (settings_pairs s). pair_ok kv" "\<forall>kv \<in> set (host_settings_pairs h). pair_ok kv"
  using bool_text_solid number_show_int number_show_double number_char_solid
  by (auto simp: settings_pairs_def host_settings_pairs_def pair_ok_def guest_key_defs host_key_defs tspace_def TAB_def LF_def CR_def)

lemma settings_read_back:
  "fold (\<lambda>(k, v). apply_setting k v) (settings_pairs s) s0 =
     s\<lparr>se_path := se_path s0, se_min_distance_dp := to_double (show_double (se_min_distance_dp s))\<rparr>"
  by (simp add: settings_pairs_def apply_setting_def guest_key_defs to_int_show bool_text_not_0)

lemma host_settings_read_back:
  "fold (\<lambda>(k, v). apply_host_setting k v) (host_settings_pairs s) s0 =
     s\<lparr>hs_path := hs_path s0, hs_smoothing_step_px := to_double (show_double (hs_smoothing_step_px s)),
       hs_smoothing_alpha := to_double (show_double (hs_smoothing_alpha s))\<rparr>"
  by (simp add: host_settings_pairs_def apply_host_setting_def host_key_defs to_int_show bool_text_not_0)

section \<open>Properties\<close>

text \<open>
  C35: The guest's settings survive a restart. Whatever the settings were and whatever the new process
  starts from, loading the file that save wrote restores every one of them; the decimation distance,
  which the slider sets in half steps up to 16 dp, is restored exactly although it goes through text.
\<close>

theorem settings_survive_restart:
  assumes "settings_save s = Some content" and "dir \<noteq> []" and "se_min_distance_dp s = of_nat k / 2" and "k \<le> 32"
  shows "settings_load dir (Some content) s0 = (s\<lparr>se_path := dir @ ''/'' @ kSettingsFileName\<rparr>, None)"
proof -
  have c: "content = settings_text ''# digitiz guest settings'' (settings_pairs s)"
    using assms(1) by (auto simp: settings_save_def split: if_splits)
  let ?s1 = "s0\<lparr>se_path := dir @ ''/'' @ kSettingsFileName\<rparr>"
  have "read_settings apply_setting (getlines content) ?s1 =
      s\<lparr>se_path := se_path ?s1, se_min_distance_dp := to_double (show_double (se_min_distance_dp s))\<rparr>"
    unfolding c settings_read_back [symmetric] by (rule read_settings_text [OF settings_pairs_ok(1)]) (simp_all add: LF_def)
  moreover have "to_double (show_double (se_min_distance_dp s)) = se_min_distance_dp s"
    unfolding assms(3) by (rule half_steps_survive [OF assms(4)])
  ultimately show ?thesis using assms(2) by (simp add: settings_load_def)
qed

definition ex_settings :: settings where
  "ex_settings = settings_init\<lparr>se_path := ''/f/settings.txt'', se_auto_launch := False, se_min_interval_ms := 12,
     se_min_distance_dp := 7 / 2, se_stylus_only := True\<rparr>"

theorem settings_survive_restart_witness:
  "settings_load ''/f'' (settings_save ex_settings) settings_init = (ex_settings, None)"
proof -
  have "settings_save ex_settings = Some (settings_text ''# digitiz guest settings'' (settings_pairs ex_settings))"
    by (simp add: settings_save_def ex_settings_def)
  from settings_survive_restart [OF this, of "''/f''" 7 settings_init]
  show ?thesis unfolding \<open>settings_save ex_settings = _\<close> by (simp add: ex_settings_def kSettingsFileName_def settings_init_def)
qed

text \<open>
  The host's settings survive a restart: injection, the sweep and the smoothing switch always, and
  the two smoothing values whenever six significant digits hold them.
\<close>

theorem host_settings_survive_restart:
  assumes "hs_save s = Some content" and "dir \<noteq> []"
    and "to_double (show_double (hs_smoothing_step_px s)) = hs_smoothing_step_px s"
    and "to_double (show_double (hs_smoothing_alpha s)) = hs_smoothing_alpha s"
  shows "hs_load dir (Some content) s0 = (s\<lparr>hs_path := dir @ ''/'' @ kHostSettingsFileName\<rparr>, None)"
proof -
  have c: "content = settings_text ''# digitiz host settings'' (host_settings_pairs s)"
    using assms(1) by (auto simp: hs_save_def split: if_splits)
  let ?s1 = "s0\<lparr>hs_path := dir @ ''/'' @ kHostSettingsFileName\<rparr>"
  have "read_settings apply_host_setting (getlines content) ?s1 =
      s\<lparr>hs_path := hs_path ?s1, hs_smoothing_step_px := to_double (show_double (hs_smoothing_step_px s)),
        hs_smoothing_alpha := to_double (show_double (hs_smoothing_alpha s))\<rparr>"
    unfolding c host_settings_read_back [symmetric] by (rule read_settings_text [OF settings_pairs_ok(2)]) (simp_all add: LF_def)
  then show ?thesis using assms(2-4) by (simp add: hs_load_def)
qed

theorem host_settings_survive_restart_witness:
  "hs_load ''/h'' (hs_save (host_settings_init\<lparr>hs_path := ''/h/host.txt'', hs_injection := True\<rparr>)) host_settings_init =
     (host_settings_init\<lparr>hs_path := ''/h/host.txt'', hs_injection := True\<rparr>, None)"
proof -
  let ?s = "host_settings_init\<lparr>hs_path := ''/h/host.txt'', hs_injection := True\<rparr>"
  have "hs_save ?s = Some (settings_text ''# digitiz host settings'' (host_settings_pairs ?s))" by (simp add: hs_save_def)
  moreover have "to_double (show_double (hs_smoothing_step_px ?s)) = hs_smoothing_step_px ?s"
    using half_steps_survive [of 4] by (simp add: host_settings_init_def)
  moreover have "to_double (show_double (hs_smoothing_alpha ?s)) = hs_smoothing_alpha ?s"
    using half_steps_survive [of 1] by (simp add: host_settings_init_def)
  ultimately show ?thesis using host_settings_survive_restart [of ?s _ "''/h''" host_settings_init]
    by (simp add: kHostSettingsFileName_def host_settings_init_def)
qed

end
