(* ===== verification/AdbClient.thy ===== *)
theory AdbClient
  imports Settings
begin

text \<open>
  The wrapper around the \<open>adb\<close> command, \<open>host/src/transport/AdbClient.cpp\<close>: what each operation runs and
  how it reads the answer.

  Running a process is an argument, \<open>run_process exe args\<close>; so are the environment variables and the
  search of \<open>PATH\<close>. The Windows branch of the preprocessor conditionals is the one modelled, as in the
  other theories of the host. Time limits are not modelled: a process that ran out of time is one of
  the results \<open>run_process\<close> may give.
\<close>

section \<open>Definitions\<close>

record ProcessResult =
  proc_launched :: bool
  proc_timed_out :: bool
  proc_exit_code :: int
  proc_output :: string

definition no_process :: ProcessResult where
  "no_process = \<lparr>proc_launched = False, proc_timed_out = False, proc_exit_code = -1, proc_output = []\<rparr>"

definition proc_ok :: "ProcessResult \<Rightarrow> bool" where
  "proc_ok r \<longleftrightarrow> proc_launched r \<and> \<not> proc_timed_out r \<and> proc_exit_code r = 0"

record AdbDevice =
  dev_serial :: string
  dev_state :: string
  dev_model :: string

definition usable :: "AdbDevice \<Rightarrow> bool" where
  "usable d \<longleftrightarrow> dev_state d = ''device''"

record adb_client =
  adb_path :: string
  adb_version :: string

definition adb_ready :: "adb_client \<Rightarrow> bool" where
  "adb_ready a \<longleftrightarrow> adb_path a \<noteq> []"

subsection \<open>Finding adb\<close>

definition kAdbName :: string where "kAdbName = ''adb.exe''"

definition path_join :: "string \<Rightarrow> string \<Rightarrow> string" where
  "path_join dir tail = (if dir = [] then [] else dir @ [CHR 0x5C] @ tail)"

definition adb_search_paths :: "(string \<Rightarrow> string) \<Rightarrow> (string \<Rightarrow> string) \<Rightarrow> string list" where
  "adb_search_paths find_executable env_var =
     (let on_path = find_executable ''adb'' in
      (if on_path \<noteq> [] then [on_path] else []) @
      concat (map (\<lambda>var. let root = env_var var in
          if root \<noteq> [] then [path_join (path_join root ''platform-tools'') kAdbName] else [])
        [''ANDROID_HOME'', ''ANDROID_SDK_ROOT'']) @
      (let local = env_var ''LOCALAPPDATA'' in
       if local \<noteq> [] then [path_join (path_join (path_join local ''Android'') ''Sdk'') (''platform-tools'' @ [CHR 0x5C] @ kAdbName)]
       else []))"

type_synonym runner = "string \<Rightarrow> string list \<Rightarrow> ProcessResult"

definition first_line :: "string \<Rightarrow> string" where
  "first_line s = (case getlines s of [] \<Rightarrow> [] | l # _ \<Rightarrow> l)"

text \<open>
  The first candidate whose \<open>version\<close> succeeds is kept. The code then runs \<open>start-server\<close>, whose result is
  only logged, so the call has no place in the model.
\<close>

fun try_candidates :: "runner \<Rightarrow> string list \<Rightarrow> adb_client \<Rightarrow> bool \<times> adb_client" where
  "try_candidates run_process [] a = (False, a)"
| "try_candidates run_process (candidate # rest) a =
     (if candidate = [] then try_candidates run_process rest a
      else
        let r = run_process candidate [''version''] in
        if \<not> proc_ok r then try_candidates run_process rest a
        else (True, a\<lparr>adb_path := candidate, adb_version := trim (first_line (proc_output r))\<rparr>))"

definition adb_init :: "runner \<Rightarrow> string list \<Rightarrow> adb_client \<Rightarrow> bool \<times> adb_client" where
  "adb_init run_process paths a = (if adb_ready a then (True, a) else try_candidates run_process paths a)"

definition adb_run :: "runner \<Rightarrow> string list \<Rightarrow> adb_client \<Rightarrow> ProcessResult" where
  "adb_run run_process args a = (if \<not> adb_ready a then no_process else run_process (adb_path a) args)"

subsection \<open>Devices\<close>

text \<open>The last \<open>model:\<close> field wins.\<close>

fun read_fields :: "string list \<Rightarrow> AdbDevice \<Rightarrow> AdbDevice" where
  "read_fields [] d = d"
| "read_fields (token # rest) d =
     read_fields rest (if take 6 token = ''model:'' then d\<lparr>dev_model := drop 6 token\<rparr> else d)"

definition parse_device :: "string \<Rightarrow> AdbDevice option" where
  "parse_device line =
     (case stream_words line of
        serial # state # tokens \<Rightarrow> Some (read_fields tokens \<lparr>dev_serial = serial, dev_state = state, dev_model = []\<rparr>)
      | _ \<Rightarrow> None)"

fun device_lines :: "string list \<Rightarrow> bool \<Rightarrow> AdbDevice list" where
  "device_lines [] first = []"
| "device_lines (raw # rest) first =
     (let line = trim raw in
      if first then device_lines rest False
      else if line = [] then device_lines rest first
      else
        case parse_device line of
          None \<Rightarrow> device_lines rest first
        | Some d \<Rightarrow> d # device_lines rest first)"

definition adb_devices :: "runner \<Rightarrow> adb_client \<Rightarrow> AdbDevice list" where
  "adb_devices run_process a =
     (let r = adb_run run_process [''devices'', ''-l''] a in
      if \<not> proc_ok r then [] else device_lines (getlines (proc_output r)) True)"

subsection \<open>The tunnel and the guest\<close>

definition adb_reverse :: "runner \<Rightarrow> string \<Rightarrow> int \<Rightarrow> int \<Rightarrow> adb_client \<Rightarrow> bool" where
  "adb_reverse run_process serial device_port host_port a =
     proc_ok (adb_run run_process [''-s'', serial, ''reverse'', ''tcp:'' @ show_int device_port, ''tcp:'' @ show_int host_port] a)"

definition reverse_remove :: "runner \<Rightarrow> string \<Rightarrow> int \<Rightarrow> adb_client \<Rightarrow> bool" where
  "reverse_remove run_process serial device_port a =
     proc_ok (adb_run run_process [''-s'', serial, ''reverse'', ''--remove'', ''tcp:'' @ show_int device_port] a)"

definition is_app_running :: "runner \<Rightarrow> string \<Rightarrow> string \<Rightarrow> adb_client \<Rightarrow> bool" where
  "is_app_running run_process serial package a =
     (trim (proc_output (adb_run run_process [''-s'', serial, ''shell'', ''pidof'', package] a)) \<noteq> [])"

fun find_flag :: "string list \<Rightarrow> string \<Rightarrow> bool \<Rightarrow> bool" where
  "find_flag [] key fallback = fallback"
| "find_flag (raw # rest) key fallback =
     (let line = trim raw in
      if line = [] \<or> hd line = CHR ''#'' then find_flag rest key fallback
      else
        case key_value line of
          None \<Rightarrow> find_flag rest key fallback
        | Some (k, v) \<Rightarrow> if k = key then v \<noteq> ''0'' else find_flag rest key fallback)"

definition read_guest_flag :: "runner \<Rightarrow> string \<Rightarrow> string \<Rightarrow> string \<Rightarrow> bool \<Rightarrow> adb_client \<Rightarrow> bool" where
  "read_guest_flag run_process serial path key fallback a =
     (let r = adb_run run_process [''-s'', serial, ''shell'', ''cat'', path] a in
      if \<not> proc_launched r then fallback else find_flag (getlines (proc_output r)) key fallback)"

definition contains_text :: "string \<Rightarrow> string \<Rightarrow> bool" where
  "contains_text needle s \<longleftrightarrow> (\<exists>i \<in> set [0..<length s + 1]. take (length needle) (drop i s) = needle)"

definition start_activity :: "runner \<Rightarrow> string \<Rightarrow> string \<Rightarrow> adb_client \<Rightarrow> bool" where
  "start_activity run_process serial component a =
     (let r = adb_run run_process [''-s'', serial, ''shell'', ''am'', ''start'', ''-n'', component] a in
      proc_ok r \<and> \<not> contains_text ''Error'' (trim (proc_output r)))"

section \<open>Reading the guest's file\<close>

text \<open>
  The output of \<open>adb shell cat\<close>: the lines of the file, which the older versions of \<open>adb\<close> end with a
  carriage return as well.
\<close>

definition shell_output :: "bool \<Rightarrow> string list \<Rightarrow> string" where
  "shell_output crlf ls = concat (map (\<lambda>l. l @ (if crlf then [CR, LF] else [LF])) ls)"

lemma getlines_shell_output:
  assumes "\<forall>l \<in> set ls. LF \<notin> set l"
  shows "map trim (getlines (shell_output crlf ls)) = map trim ls"
proof (cases crlf)
  case True
  have "shell_output crlf ls = concat (map (\<lambda>l. l @ [LF]) (map (\<lambda>l. l @ [CR]) ls))" by (simp add: shell_output_def True comp_def)
  moreover have "getlines \<dots> = map (\<lambda>l. l @ [CR]) ls" using assms by (intro getlines_concat) (auto simp: LF_def CR_def)
  ultimately show ?thesis by (simp add: trim_CR)
qed (use getlines_concat [OF assms] in \<open>simp add: shell_output_def\<close>)

lemma find_flag_trim: "map trim ls = map trim ls' \<Longrightarrow> find_flag ls key fallback = find_flag ls' key fallback"
proof (induction ls arbitrary: ls')
  case (Cons l ls)
  then obtain l' ls'' where l: "ls' = l' # ls''" "trim l = trim l'" "map trim ls = map trim ls''" by (cases ls') auto
  show ?case using Cons.IH [OF l(3)] by (simp add: l(1,2) Let_def split: option.split)
qed simp

lemma find_flag_first:
  assumes "pair_ok (key, v)" "key \<noteq> []" "hd key \<noteq> CHR ''#''"
  shows "find_flag (setting_line (key, v) # rest) key fallback = (v \<noteq> ''0'')"
proof -
  have "\<not> tspace CHR ''=''" by (simp add: tspace_def TAB_def LF_def CR_def)
  then have "\<forall>c \<in> set (setting_line (key, v)). \<not> tspace c" using assms(1) by (auto simp: setting_line_def pair_ok_def)
  then have t: "trim (setting_line (key, v)) = setting_line (key, v)" by (rule trim_solid)
  have "key_value (setting_line (key, v)) = Some (key, v)"
    using assms(1) by (simp add: setting_line_def pair_ok_def key_value_line)
  moreover have "setting_line (key, v) \<noteq> []" "hd (setting_line (key, v)) = hd key" using assms(2) by (simp_all add: setting_line_def)
  ultimately show ?thesis using t assms(3) by simp
qed

lemma find_flag_skip_title: "trim t \<noteq> [] \<Longrightarrow> hd (trim t) = CHR ''#'' \<Longrightarrow> find_flag (t # rest) key fallback = find_flag rest key fallback"
  by simp

lemma find_flag_absent: "\<forall>l \<in> set ls. CHR ''='' \<notin> set (trim l) \<Longrightarrow> find_flag ls key fallback = fallback"
  by (induction ls) (auto simp: key_value_def Let_def)

section \<open>Words of a line\<close>

definition word_ok :: "string \<Rightarrow> bool" where
  "word_ok w \<longleftrightarrow> w \<noteq> [] \<and> (\<forall>c \<in> set w. \<not> is_space c)"

lemma words_from_solid: "\<forall>c \<in> set w. \<not> is_space c \<Longrightarrow> words_from (w @ s) acc = words_from s (rev w @ acc)"
  by (induction w arbitrary: acc) auto

lemma stream_words_word: "word_ok w \<Longrightarrow> is_space c \<Longrightarrow> stream_words (w @ c # s) = w # stream_words s"
  unfolding stream_words_def word_ok_def by (subst words_from_solid) auto

lemma stream_words_last: "word_ok w \<Longrightarrow> stream_words w = [w]"
  unfolding stream_words_def word_ok_def using words_from_solid [of w "[]" "[]"] by simp

lemma stream_words_spaces: "stream_words (replicate n CHR '' '' @ s) = stream_words s"
  unfolding stream_words_def by (induction n) (simp_all add: is_space_def)

text \<open>A line of \<open>adb devices -l\<close>: the serial, blanks, the state, and the fields separated by blanks.\<close>

fun field_text :: "string list \<Rightarrow> string" where
  "field_text [] = []"
| "field_text (f # fs) = CHR '' '' # f @ field_text fs"

definition device_line :: "string \<times> nat \<times> string \<times> string list \<Rightarrow> string" where
  "device_line = (\<lambda>(serial, pad, state, fields). serial @ replicate (Suc pad) CHR '' '' @ state @ field_text fields)"

definition device_of :: "string \<times> nat \<times> string \<times> string list \<Rightarrow> AdbDevice" where
  "device_of = (\<lambda>(serial, pad, state, fields). read_fields fields \<lparr>dev_serial = serial, dev_state = state, dev_model = []\<rparr>)"

definition entry_ok :: "string \<times> nat \<times> string \<times> string list \<Rightarrow> bool" where
  "entry_ok = (\<lambda>(serial, pad, state, fields). word_ok serial \<and> word_ok state \<and> list_all word_ok fields)"

lemma space_is_space: "is_space CHR '' ''"
  by (simp add: is_space_def)

lemma stream_words_fields: "word_ok w \<Longrightarrow> list_all word_ok fs \<Longrightarrow> stream_words (w @ field_text fs) = w # fs"
proof (induction fs arbitrary: w)
  case (Cons f fs)
  then show ?case using stream_words_word [OF Cons.prems(1) space_is_space] by simp
qed (simp add: stream_words_last)

lemma tspace_is_space: "tspace c \<Longrightarrow> is_space c"
  by (auto simp: tspace_def is_space_def)

lemma last_fields: "word_ok w \<Longrightarrow> list_all word_ok fs \<Longrightarrow> \<not> is_space (last (w @ field_text fs))"
proof (induction fs arbitrary: w)
  case (Cons f fs)
  then have "word_ok f" "\<not> is_space (last (f @ field_text fs))" by auto
  then show ?case by (auto simp: word_ok_def)
qed (auto simp: word_ok_def)

lemma device_line_trim:
  assumes "entry_ok e"
  shows "trim (device_line e) = device_line e" "device_line e \<noteq> []" "parse_device (device_line e) = Some (device_of e)"
proof -
  obtain serial pad state fields where e: "e = (serial, pad, state, fields)" by (metis prod_cases4)
  have w: "word_ok serial" "word_ok state" "list_all word_ok fields" using assms by (simp_all add: e entry_ok_def)
  show ne: "device_line e \<noteq> []" using w(1) by (simp add: e device_line_def word_ok_def)
  have "\<not> is_space (hd (device_line e))" using w(1) by (simp add: e device_line_def word_ok_def)
  moreover have "state @ field_text fields \<noteq> []" using w(2) by (simp add: word_ok_def)
  then have "last ((serial @ replicate (Suc pad) CHR '' '') @ (state @ field_text fields)) = last (state @ field_text fields)"
    by (rule last_appendR)
  then have "last (device_line e) = last (state @ field_text fields)" by (simp add: e device_line_def)
  then have "\<not> is_space (last (device_line e))" using last_fields [OF w(2,3)] by simp
  ultimately show "trim (device_line e) = device_line e" using tspace_is_space by (intro trim_id) blast
  have "stream_words (device_line e) = serial # state # fields"
    using stream_words_word [OF w(1) space_is_space] stream_words_spaces [of pad] stream_words_fields [OF w(2,3)]
    by (simp add: e device_line_def)
  then show "parse_device (device_line e) = Some (device_of e)" by (simp add: parse_device_def e device_of_def)
qed

lemma device_lines_trim: "map trim ls = map trim ls' \<Longrightarrow> device_lines ls first = device_lines ls' first"
proof (induction ls arbitrary: ls' first)
  case (Cons l ls)
  then obtain l' ls'' where l: "ls' = l' # ls''" "trim l = trim l'" "map trim ls = map trim ls''" by (cases ls') auto
  show ?case using Cons.IH [OF l(3)] by (simp add: l(1,2) Let_def split: option.split)
qed simp

lemma device_lines_entries: "\<forall>e \<in> set es. entry_ok e \<Longrightarrow> device_lines (map device_line es @ [[]]) False = map device_of es"
proof (induction es)
  case (Cons e es)
  then show ?case using device_line_trim [of e] by simp
qed (simp add: trim_def)

section \<open>Properties\<close>

text \<open>
  The phone decides whether it is launched. When the guest's settings file, as the guest wrote it,
  comes back from \<open>adb shell cat\<close> with either line ending, the host reads exactly the guest's auto
  launch switch, whatever the other settings are.
\<close>

theorem host_reads_guest_switch:
  assumes "adb_ready a"
    and "run_process (adb_path a) [''-s'', serial, ''shell'', ''cat'', path] = r"
    and "proc_launched r"
    and "proc_output r = shell_output crlf (''# digitiz guest settings'' # map setting_line (settings_pairs s))"
  shows "read_guest_flag run_process serial path ''auto_launch'' fallback a = se_auto_launch s"
proof -
  let ?ls = "''# digitiz guest settings'' # map setting_line (settings_pairs s)"
  have "LF \<notin> set (setting_line kv)" if "kv \<in> set (settings_pairs s)" for kv
    using that settings_pairs_ok(1) setting_line_plain by blast
  then have "\<forall>l \<in> set ?ls. LF \<notin> set l" by (auto simp: LF_def)
  note t = find_flag_trim [OF getlines_shell_output [OF this]]
  have p: "settings_pairs s = (''auto_launch'', bool_text (se_auto_launch s)) # tl (settings_pairs s)"
    by (simp add: settings_pairs_def kAutoLaunchKey_def)
  let ?kv = "(''auto_launch'', bool_text (se_auto_launch s))"
  have ok: "pair_ok ?kv" using settings_pairs_ok(1) [of s] p by (metis list.set_intros(1))
  have m: "map setting_line (settings_pairs s) = setting_line ?kv # map setting_line (tl (settings_pairs s))"
    using arg_cong [OF p, of "map setting_line"] by (simp only: list.map)
  have "find_flag (map setting_line (settings_pairs s)) ''auto_launch'' fallback = se_auto_launch s"
    unfolding m by (subst find_flag_first [OF ok]) (simp_all add: bool_text_not_0)
  moreover have "find_flag ?ls ''auto_launch'' fallback = find_flag (map setting_line (settings_pairs s)) ''auto_launch'' fallback"
    by (rule find_flag_skip_title) (simp_all add: trim_def tspace_def TAB_def LF_def CR_def)
  ultimately show ?thesis using assms t by (simp add: read_guest_flag_def adb_run_def del: find_flag.simps)
qed

definition ex_adb :: "string \<Rightarrow> runner" where
  "ex_adb out = (\<lambda>exe args. \<lparr>proc_launched = True, proc_timed_out = False, proc_exit_code = 0, proc_output = out\<rparr>)"

theorem host_reads_guest_switch_witness:
  "\<not> read_guest_flag
       (ex_adb (shell_output True (''# digitiz guest settings'' # map setting_line (settings_pairs ex_settings))))
       ''R58'' ''/settings.txt'' ''auto_launch'' True \<lparr>adb_path = ''adb'', adb_version = []\<rparr>"
proof -
  have "\<not> se_auto_launch ex_settings" by (simp add: ex_settings_def)
  then show ?thesis
    by (subst host_reads_guest_switch [where s = ex_settings and crlf = True, OF _ refl]) (simp_all add: adb_ready_def ex_adb_def)
qed

text \<open>
  Every device \<open>adb devices -l\<close> prints is found, in order, with its serial, state and model,
  whichever blanks separate the columns and whichever way the lines end.
\<close>

theorem devices_all_found:
  assumes "adb_ready a" and "\<forall>e \<in> set es. entry_ok e"
    and "run_process (adb_path a) [''devices'', ''-l''] = r" and "proc_ok r"
    and "proc_output r = shell_output crlf (''List of devices attached'' # map device_line es @ [[]])"
  shows "adb_devices run_process a = map device_of es"
proof -
  let ?ls = "''List of devices attached'' # map device_line es @ [[]]"
  have sp: "is_space LF" by (simp add: is_space_def)
  have f: "LF \<notin> set (field_text fs)" if "list_all word_ok fs" for fs
    using that by (induction fs) (auto simp: word_ok_def sp LF_def is_space_def)
  have "LF \<notin> set (device_line e)" if "e \<in> set es" for e
    using that assms(2) f sp by (cases e) (auto simp: device_line_def entry_ok_def word_ok_def LF_def)
  then have "\<forall>l \<in> set ?ls. LF \<notin> set l" by (auto simp: LF_def)
  note t = device_lines_trim [OF getlines_shell_output [OF this]]
  have "device_lines ?ls True = map device_of es" using device_lines_entries [OF assms(2)] by simp
  then show ?thesis using assms t by (simp add: adb_devices_def adb_run_def del: device_lines.simps)
qed

theorem devices_all_found_witness:
  "adb_devices
     (ex_adb (shell_output True [''List of devices attached'', ''R58     device usb:1-2 model:SM_X900'', []]))
     \<lparr>adb_path = ''adb'', adb_version = []\<rparr> =
   [\<lparr>dev_serial = ''R58'', dev_state = ''device'', dev_model = ''SM_X900''\<rparr>]"
proof -
  let ?e = "(''R58'', 4::nat, ''device'', [''usb:1-2'', ''model:SM_X900''])"
  have l: "device_line ?e = ''R58     device usb:1-2 model:SM_X900''" by (simp add: device_line_def numeral_eq_Suc)
  have "entry_ok ?e" by (simp add: entry_ok_def word_ok_def is_space_def TAB_def LF_def CR_def)
  then show ?thesis
    by (subst devices_all_found [where es = "[?e]" and crlf = True, OF _ _ refl])
      (simp_all add: adb_ready_def proc_ok_def l ex_adb_def, simp add: device_of_def)
qed

end
