(* ===== verification/AdbTransport.thy ===== *)
theory AdbTransport
  imports AdbClient Framer SendQueue
begin

text \<open>
  The host's transport, \<open>host/src/transport/AdbTransport.cpp\<close>: a thread that finds a device, sets up the
  reverse tunnel, waits for the guest and receives from it; a thread that writes the send queue to the
  socket; and the callers of \<open>send\<close> and \<open>drop_session\<close> on other threads.

  Every operation is a function on the transport's state. What the operating system answers is an
  argument: the sockets and the port \<open>open_listener\<close> gets, each wait for a client, each \<open>recv\<close> and
  \<open>send\<close>. \<open>at_step\<close> interleaves the three threads at the points where the code takes \<open>send_mutex_\<close>, with
  the call of \<open>::send\<close> outside it as a step of its own. A socket is a number; it is not used again in the
  same run, so writing to a closed one fails. \<open>reverse_remove\<close> is called for
  its effect on the device, so it does not show in the state. Waiting times other than the accept timeout
  and the text that goes to the log are not modelled; the message shown without \<open>adb\<close> is shortened.
\<close>

section \<open>Definitions\<close>

definition kAcceptTimeoutMs :: nat where "kAcceptTimeoutMs = 15000"
definition kSelectSliceMs :: nat where "kSelectSliceMs = 250"
definition kWriteChunk :: nat where "kWriteChunk = 16 * 1024"
definition kDevicePort :: int where "kDevicePort = 27183"
definition kGuestPackage :: string where "kGuestPackage = ''com.onart.digitiz''"
definition kGuestComponent :: string where "kGuestComponent = ''com.onart.digitiz/.MainActivity''"
definition kGuestSettingsPath :: string where
  "kGuestSettingsPath = ''/sdcard/Android/data/com.onart.digitiz/files/settings.txt''"

datatype SendPriority = Priority_Interactive | Priority_Bulk

datatype TransportState =
  State_Stopped | State_NoAdb | State_WaitingForDevice | State_Unauthorized | State_Preparing | State_WaitingForClient
  | State_Connected

fun transport_state_name :: "TransportState \<Rightarrow> string" where
  "transport_state_name State_Stopped = ''Stopped''"
| "transport_state_name State_NoAdb = ''No adb''"
| "transport_state_name State_WaitingForDevice = ''Waiting for device''"
| "transport_state_name State_Unauthorized = ''Unauthorized''"
| "transport_state_name State_Preparing = ''Preparing''"
| "transport_state_name State_WaitingForClient = ''Waiting for guest''"
| "transport_state_name State_Connected = ''Connected''"

record adb_transport =
  at_adb :: adb_client
  at_framer :: framer
  at_running :: bool
  at_dropping :: bool
  at_queue :: send_queue
  at_client :: "nat option"
  at_listener :: "nat option"
  at_rx_messages :: u64
  at_rx_bytes :: u64
  at_tx_messages :: u64
  at_tx_bytes :: u64
  at_resync_bytes :: u64
  at_sessions :: u64
  at_launched_serial :: string
  at_state :: TransportState
  at_detail :: string
  at_serial :: string
  at_model :: string
  at_host_port :: int

definition transport_init :: adb_transport where
  "transport_init =
     \<lparr>at_adb = \<lparr>adb_path = [], adb_version = []\<rparr>, at_framer = framer_init, at_running = False, at_dropping = False,
      at_queue = sq_init, at_client = None, at_listener = None, at_rx_messages = 0, at_rx_bytes = 0, at_tx_messages = 0,
      at_tx_bytes = 0, at_resync_bytes = 0, at_sessions = 0, at_launched_serial = [], at_state = State_Stopped,
      at_detail = [], at_serial = [], at_model = [], at_host_port = 0\<rparr>"

definition set_state :: "TransportState \<Rightarrow> string \<Rightarrow> adb_transport \<Rightarrow> adb_transport" where
  "set_state state detail t = t\<lparr>at_state := state, at_detail := detail\<rparr>"

definition close_listener :: "adb_transport \<Rightarrow> adb_transport" where
  "close_listener t = t\<lparr>at_listener := None\<rparr>"

definition close_client :: "adb_transport \<Rightarrow> adb_transport" where
  "close_client t = t\<lparr>at_client := None\<rparr>"

text \<open>\<open>None\<close> when one of \<open>socket\<close>, \<open>bind\<close>, \<open>listen\<close> and \<open>getsockname\<close> fails, else the socket and its port.\<close>

definition open_listener :: "(nat \<times> int) option \<Rightarrow> adb_transport \<Rightarrow> bool \<times> adb_transport" where
  "open_listener os t =
     (let t = close_listener t in
      case os of
        None \<Rightarrow> (False, t)
      | Some (s, port) \<Rightarrow> (True, t\<lparr>at_listener := Some s, at_host_port := port\<rparr>))"

subsection \<open>A session is prepared\<close>

text \<open>The first usable device, and whether one was unauthorized.\<close>

fun pick_device :: "AdbDevice list \<Rightarrow> AdbDevice option \<Rightarrow> bool \<Rightarrow> AdbDevice option \<times> bool" where
  "pick_device [] chosen saw = (chosen, saw)"
| "pick_device (d # ds) chosen saw =
     pick_device ds (if usable d \<and> chosen = None then Some d else chosen) (saw \<or> dev_state d = ''unauthorized'')"

definition launch_guest :: "runner \<Rightarrow> string \<Rightarrow> adb_transport \<Rightarrow> string list \<times> adb_transport" where
  "launch_guest run_process serial t =
     (if at_launched_serial t = serial then ([], t)
      else
        (if is_app_running run_process serial kGuestPackage (at_adb t) then []
         else if \<not> read_guest_flag run_process serial kGuestSettingsPath ''auto_launch'' True (at_adb t) then []
         else [serial],
         t\<lparr>at_launched_serial := serial\<rparr>))"

text \<open>
  \<open>serve_one_session\<close> up to the wait for the guest: the serial and model when the tunnel is up, and the
  serials on which the activity was started.
\<close>

definition prepare_session ::
  "runner \<Rightarrow> string list \<Rightarrow> (nat \<times> int) option \<Rightarrow> adb_transport \<Rightarrow> (string \<times> string) option \<times> string list \<times> adb_transport" where
  "prepare_session run_process paths os t =
     (let (ready, adb) = adb_init run_process paths (at_adb t); t = t\<lparr>at_adb := adb\<rparr> in
      if \<not> ready then (None, [], set_state State_NoAdb (''adb not found '' @ [CHR 0xE2, CHR 0x80, CHR 0x94] @ '' put it on PATH or set ANDROID_HOME'') t)
      else
        case pick_device (adb_devices run_process adb) None False of
          (None, saw_unauthorized) \<Rightarrow>
            let t = t\<lparr>at_launched_serial := []\<rparr> in
            (None, [],
             if saw_unauthorized then set_state State_Unauthorized ''accept the USB debugging prompt on the phone'' t
             else set_state State_WaitingForDevice ''connect the phone over USB with USB debugging on'' t)
        | (Some d, _) \<Rightarrow>
            let serial = dev_serial d; model = dev_model d;
                t = set_state State_Preparing ''setting up the reverse tunnel'' (t\<lparr>at_serial := serial, at_model := model\<rparr>);
                (opened, t) = open_listener os t in
            if \<not> opened then (None, [], t)
            else if \<not> adb_reverse run_process serial kDevicePort (at_host_port t) adb then (None, [], close_listener t)
            else
              let (launched, t) = launch_guest run_process serial t in
              (Some (serial, model), launched, set_state State_WaitingForClient ''waiting for the guest to connect'' t))"

text \<open>One wait of the accept loop. \<open>Slice_stopped\<close>: the transport was stopped meanwhile.\<close>

datatype accept_slice = Slice_stopped | Slice_error | Slice_timeout | Slice_accept_failed | Slice_accepted nat

function accept_loop :: "(nat \<Rightarrow> accept_slice) \<Rightarrow> nat \<Rightarrow> nat option" where
  "accept_loop outcome waited =
     (if \<not> waited < kAcceptTimeoutMs then None
      else
        case outcome (waited div kSelectSliceMs) of
          Slice_stopped \<Rightarrow> None
        | Slice_error \<Rightarrow> None
        | Slice_timeout \<Rightarrow> accept_loop outcome (waited + kSelectSliceMs)
        | Slice_accept_failed \<Rightarrow> None
        | Slice_accepted s \<Rightarrow> Some s)"
  by pat_completeness auto
termination
  by (relation "measure (\<lambda>(_, waited). kAcceptTimeoutMs - waited)") (auto simp: kSelectSliceMs_def)

declare accept_loop.simps [simp del]

text \<open>The wait timed out or failed.\<close>

definition give_up :: "adb_transport \<Rightarrow> adb_transport" where
  "give_up t = close_listener t"

subsection \<open>A session\<close>

definition begin_session :: "nat \<Rightarrow> string \<Rightarrow> string \<Rightarrow> adb_transport \<Rightarrow> adb_transport" where
  "begin_session accepted serial model t =
     set_state State_Connected (if model = [] then serial else model @ '' ('' @ serial @ '')'')
       (t\<lparr>at_client := Some accepted, at_framer := framer_reset (at_framer t), at_dropping := False,
          at_sessions := at_sessions t + 1\<rparr>)"

text \<open>One \<open>recv\<close> that returned bytes.\<close>

definition receive_bytes :: "bytes \<Rightarrow> adb_transport \<Rightarrow> frame list \<times> adb_transport" where
  "receive_bytes got t =
     (let (messages, f) = drain (framer_push got (at_framer t)) in
      (messages,
       t\<lparr>at_framer := f, at_rx_bytes := at_rx_bytes t + of_nat (length got),
         at_rx_messages := at_rx_messages t + of_nat (length messages), at_resync_bytes := f_resync_bytes f\<rparr>))"

definition end_session_sockets :: "adb_transport \<Rightarrow> adb_transport" where
  "end_session_sockets t = close_listener (close_client t)"

definition at_drop_session :: "adb_transport \<Rightarrow> adb_transport" where
  "at_drop_session t = (if at_client t = None then t else t\<lparr>at_dropping := True\<rparr>)"

subsection \<open>Sending\<close>

definition at_send :: "bytes \<Rightarrow> SendPriority \<Rightarrow> adb_transport \<Rightarrow> bool \<times> adb_transport" where
  "at_send bs priority t =
     (if bs = [] then (True, t)
      else if at_client t = None then (False, t)
      else
        (True,
         t\<lparr>at_queue := (if priority = Priority_Bulk then push_bulk bs (at_queue t) else push_interactive bs (at_queue t)),
           at_tx_messages := at_tx_messages t + 1, at_tx_bytes := at_tx_bytes t + of_nat (length bs)\<rparr>))"

definition at_bulk_idle :: "adb_transport \<Rightarrow> bool" where
  "at_bulk_idle t = bulk_idle (at_queue t)"

text \<open>
  One turn of \<open>send_loop\<close> under the lock: what to write and where, if anything. Without a client the
  queue is thrown away.
\<close>

definition sender_take :: "adb_transport \<Rightarrow> (bytes \<times> nat) option \<times> adb_transport" where
  "sender_take t =
     (case at_client t of
        None \<Rightarrow> (None, t\<lparr>at_queue := sq_clear (at_queue t)\<rparr>)
      | Some s \<Rightarrow>
          let (chunk, q) = pending kWriteChunk (at_queue t); t = t\<lparr>at_queue := q\<rparr> in
          if chunk = [] then (None, t) else (Some (chunk, s), t))"

text \<open>What \<open>::send\<close> took is consumed; when it failed, the queue is thrown away.\<close>

definition sender_consume :: "nat \<Rightarrow> adb_transport \<Rightarrow> adb_transport" where
  "sender_consume n t = t\<lparr>at_queue := consume n (at_queue t)\<rparr>"

definition sender_fail :: "adb_transport \<Rightarrow> adb_transport" where
  "sender_fail t = t\<lparr>at_queue := sq_clear (at_queue t)\<rparr>"

subsection \<open>Starting and stopping\<close>

text \<open>The preparations of the retry loop one after the other, with what a session leaves closed in between.\<close>

fun prepare_rounds :: "(runner \<times> string list \<times> (nat \<times> int) option) list \<Rightarrow> adb_transport \<Rightarrow> string list \<times> adb_transport" where
  "prepare_rounds [] t = ([], t)"
| "prepare_rounds ((run_process, paths, os) # rounds) t =
     (let (res, launched, t1) = prepare_session run_process paths os t;
          (more, t2) = prepare_rounds rounds (end_session_sockets t1) in
      (launched @ more, t2))"


definition at_start :: "adb_transport \<Rightarrow> adb_transport" where
  "at_start t = (if at_running t then t else set_state State_WaitingForDevice ''starting'' (t\<lparr>at_running := True\<rparr>))"

definition stop_request :: "adb_transport \<Rightarrow> adb_transport" where
  "stop_request t = t\<lparr>at_running := False\<rparr>"

text \<open>After both threads were joined.\<close>

definition stop_finish :: "adb_transport \<Rightarrow> adb_transport" where
  "stop_finish t = set_state State_Stopped [] (close_listener (close_client t))"

subsection \<open>The threads together\<close>

datatype transport_pc = Tr_Idle | Tr_Waiting string string | Tr_Session string | Tr_Closing string | Tr_Ended
datatype sender_pc = Snd_Waiting | Snd_Writing bytes nat | Snd_Wrote nat | Snd_Failed | Snd_Ended

record world =
  w_t :: adb_transport
  w_tr :: transport_pc
  w_snd :: sender_pc
  w_sockets :: nat

definition world_init :: world where
  "world_init = \<lparr>w_t = at_start transport_init, w_tr = Tr_Idle, w_snd = Snd_Waiting, w_sockets = 0\<rparr>"

text \<open>What can be seen from outside, in order.\<close>

datatype obs =
  Obs_launch string
  | Obs_connect nat
  | Obs_disconnect
  | Obs_received bytes
  | Obs_message frame
  | Obs_queued SendPriority bytes
  | Obs_wrote nat bytes
  | Obs_cleared

inductive at_step :: "world \<Rightarrow> obs list \<Rightarrow> world \<Rightarrow> bool" where
  prepare_fails:
    "w_tr w = Tr_Idle \<Longrightarrow> at_running (w_t w) \<Longrightarrow> prepare_session run_process paths os (w_t w) = (None, launched, t) \<Longrightarrow>
     at_step w (map Obs_launch launched) (w\<lparr>w_t := t\<rparr>)"
| prepare:
    "w_tr w = Tr_Idle \<Longrightarrow> at_running (w_t w) \<Longrightarrow>
     prepare_session run_process paths os (w_t w) = (Some (serial, model), launched, t) \<Longrightarrow>
     at_step w (map Obs_launch launched) (w\<lparr>w_t := t, w_tr := Tr_Waiting serial model\<rparr>)"
| no_client:
    "w_tr w = Tr_Waiting serial model \<Longrightarrow> accept_loop outcome 0 = None \<Longrightarrow>
     at_step w [] (w\<lparr>w_t := give_up (w_t w), w_tr := Tr_Idle\<rparr>)"
| accept:
    "w_tr w = Tr_Waiting serial model \<Longrightarrow> accept_loop outcome 0 = Some s \<Longrightarrow> w_sockets w \<le> s \<Longrightarrow>
     at_step w [Obs_connect s] (w\<lparr>w_t := begin_session s serial model (w_t w), w_tr := Tr_Session serial, w_sockets := Suc s\<rparr>)"
| receive:
    "w_tr w = Tr_Session serial \<Longrightarrow> at_running (w_t w) \<Longrightarrow> got \<noteq> [] \<Longrightarrow> receive_bytes got (w_t w) = (messages, t) \<Longrightarrow>
     at_step w (Obs_received got # map Obs_message messages) (w\<lparr>w_t := t\<rparr>)"
| session_over:
    "w_tr w = Tr_Session serial \<Longrightarrow> at_step w [Obs_disconnect] (w\<lparr>w_tr := Tr_Closing serial\<rparr>)"
| close:
    "w_tr w = Tr_Closing serial \<Longrightarrow> at_step w [] (w\<lparr>w_t := end_session_sockets (w_t w), w_tr := Tr_Idle\<rparr>)"
| transport_ends:
    "w_tr w = Tr_Idle \<Longrightarrow> \<not> at_running (w_t w) \<Longrightarrow> at_step w [] (w\<lparr>w_tr := Tr_Ended\<rparr>)"
| send_refused:
    "at_send bs priority (w_t w) = (False, t) \<Longrightarrow> at_step w [] (w\<lparr>w_t := t\<rparr>)"
| send_queued:
    "at_send bs priority (w_t w) = (True, t) \<Longrightarrow> bs \<noteq> [] \<Longrightarrow> at_step w [Obs_queued priority bs] (w\<lparr>w_t := t\<rparr>)"
| drop:
    "at_step w [] (w\<lparr>w_t := at_drop_session (w_t w)\<rparr>)"
| sender_idle:
    "w_snd w = Snd_Waiting \<Longrightarrow> at_running (w_t w) \<Longrightarrow> at_client (w_t w) = Some s \<Longrightarrow> sender_take (w_t w) = (None, t) \<Longrightarrow>
     at_step w [] (w\<lparr>w_t := t\<rparr>)"
| sender_no_client:
    "w_snd w = Snd_Waiting \<Longrightarrow> at_running (w_t w) \<Longrightarrow> at_client (w_t w) = None \<Longrightarrow> sender_take (w_t w) = (None, t) \<Longrightarrow>
     at_step w [Obs_cleared] (w\<lparr>w_t := t\<rparr>)"
| sender_takes:
    "w_snd w = Snd_Waiting \<Longrightarrow> at_running (w_t w) \<Longrightarrow> sender_take (w_t w) = (Some (chunk, s), t) \<Longrightarrow>
     at_step w [] (w\<lparr>w_t := t, w_snd := Snd_Writing chunk s\<rparr>)"
| sender_writes:
    "w_snd w = Snd_Writing chunk s \<Longrightarrow> at_client (w_t w) = Some s \<Longrightarrow> 0 < n \<Longrightarrow> n \<le> length chunk \<Longrightarrow>
     at_step w [Obs_wrote s (take n chunk)] (w\<lparr>w_snd := Snd_Wrote n\<rparr>)"
| sender_fails:
    "w_snd w = Snd_Writing chunk s \<Longrightarrow> at_step w [] (w\<lparr>w_snd := Snd_Failed\<rparr>)"
| sender_consumes:
    "w_snd w = Snd_Wrote n \<Longrightarrow> at_step w [] (w\<lparr>w_t := sender_consume n (w_t w), w_snd := Snd_Waiting\<rparr>)"
| sender_clears:
    "w_snd w = Snd_Failed \<Longrightarrow> at_step w [Obs_cleared] (w\<lparr>w_t := sender_fail (w_t w), w_snd := Snd_Waiting\<rparr>)"
| sender_ends:
    "w_snd w = Snd_Waiting \<Longrightarrow> \<not> at_running (w_t w) \<Longrightarrow> at_step w [] (w\<lparr>w_snd := Snd_Ended\<rparr>)"
| stop:
    "at_step w [] (w\<lparr>w_t := stop_request (w_t w)\<rparr>)"
| stopped:
    "w_tr w = Tr_Ended \<Longrightarrow> w_snd w = Snd_Ended \<Longrightarrow> at_step w [] (w\<lparr>w_t := stop_finish (w_t w)\<rparr>)"

inductive at_run :: "world \<Rightarrow> obs list \<Rightarrow> world \<Rightarrow> bool" where
  at_run_nil: "at_run w [] w"
| at_run_step: "at_run w tr w1 \<Longrightarrow> at_step w1 os w2 \<Longrightarrow> at_run w (tr @ os) w2"

text \<open>The bytes one socket took, and those all sockets took.\<close>

fun written :: "nat \<Rightarrow> obs list \<Rightarrow> bytes" where
  "written s [] = []"
| "written s (Obs_wrote s' bs # os) = (if s' = s then bs else []) @ written s os"
| "written s (_ # os) = written s os"

fun written_any :: "obs list \<Rightarrow> bytes" where
  "written_any [] = []"
| "written_any (Obs_wrote s bs # os) = bs @ written_any os"
| "written_any (_ # os) = written_any os"

fun queued :: "SendPriority \<Rightarrow> obs list \<Rightarrow> bytes list" where
  "queued p [] = []"
| "queued p (Obs_queued p' bs # os) = (if p' = p then [bs] else []) @ queued p os"
| "queued p (_ # os) = queued p os"

fun received :: "obs list \<Rightarrow> bytes list" where
  "received [] = []"
| "received (Obs_received bs # os) = bs # received os"
| "received (_ # os) = received os"

fun delivered :: "obs list \<Rightarrow> frame list" where
  "delivered [] = []"
| "delivered (Obs_message m # os) = m # delivered os"
| "delivered (_ # os) = delivered os"

fun connected_to :: "obs \<Rightarrow> bool" where
  "connected_to (Obs_connect s) = True"
| "connected_to _ = False"

section \<open>Traces\<close>

lemma written_any_append [simp]: "written_any (xs @ ys) = written_any xs @ written_any ys"
  by (induction xs rule: written_any.induct) auto

lemma written_append [simp]: "written s (xs @ ys) = written s xs @ written s ys"
  by (induction s xs rule: written.induct) auto

lemma queued_append [simp]: "queued p (xs @ ys) = queued p xs @ queued p ys"
  by (induction p xs rule: queued.induct) auto

lemma received_append [simp]: "received (xs @ ys) = received xs @ received ys"
  by (induction xs rule: received.induct) auto

lemma delivered_append [simp]: "delivered (xs @ ys) = delivered xs @ delivered ys"
  by (induction xs rule: delivered.induct) auto

lemma trace_launches [simp]:
  "written_any (map Obs_launch ss) = []" "queued p (map Obs_launch ss) = []" "received (map Obs_launch ss) = []"
  "delivered (map Obs_launch ss) = []"
  by (induction ss) auto

lemma trace_messages [simp]:
  "written_any (map Obs_message ms) = []" "queued p (map Obs_message ms) = []" "received (map Obs_message ms) = []"
  "delivered (map Obs_message ms) = ms"
  by (induction ms) auto

section \<open>What the operations keep\<close>

lemmas transport_defs = set_state_def close_listener_def close_client_def give_up_def begin_session_def end_session_sockets_def
  at_drop_session_def stop_request_def stop_finish_def

lemma launch_guest_keeps:
  assumes "launch_guest r serial t = (l, t')"
  shows "at_queue t' = at_queue t" "at_client t' = at_client t" "at_framer t' = at_framer t" "at_listener t' = at_listener t"
    "at_running t' = at_running t"
  using assms by (auto simp: launch_guest_def split: if_splits)

lemma prepare_session_keeps:
  assumes "prepare_session r paths os t = (res, l, t')"
  shows "at_queue t' = at_queue t \<and> at_client t' = at_client t \<and> at_framer t' = at_framer t \<and> at_running t' = at_running t \<and>
    (res = None \<longrightarrow> at_listener t = None \<longrightarrow> at_listener t' = None) \<and> (res \<noteq> None \<longrightarrow> at_listener t' \<noteq> None)"
  using assms launch_guest_keeps
  by (auto simp: prepare_session_def open_listener_def transport_defs Let_def split: prod.splits option.splits if_splits)

lemma receive_bytes_keeps:
  "receive_bytes got t = (ms, t') \<Longrightarrow> at_queue t' = at_queue t \<and> at_client t' = at_client t \<and> at_listener t' = at_listener t"
  by (auto simp: receive_bytes_def split: prod.splits)

lemma at_send_keeps:
  assumes "at_send bs priority t = (ok, t')"
  shows "at_client t' = at_client t \<and> at_listener t' = at_listener t \<and> at_framer t' = at_framer t"
  using assms by (auto simp: at_send_def split: if_splits)

lemma sender_take_keeps:
  assumes "sender_take t = (r, t')"
  shows "at_client t' = at_client t \<and> at_listener t' = at_listener t \<and> at_framer t' = at_framer t"
  using assms by (auto simp: sender_take_def Let_def split: option.splits prod.splits if_splits)

section \<open>Invariant\<close>

definition sockets_ok :: "transport_pc \<Rightarrow> adb_transport \<Rightarrow> bool" where
  "sockets_ok pc t \<longleftrightarrow>
     (case pc of
        Tr_Idle \<Rightarrow> at_client t = None \<and> at_listener t = None
      | Tr_Waiting _ _ \<Rightarrow> at_client t = None \<and> at_listener t \<noteq> None
      | Tr_Session _ \<Rightarrow> at_client t \<noteq> None
      | Tr_Closing _ \<Rightarrow> at_client t \<noteq> None
      | Tr_Ended \<Rightarrow> at_client t = None \<and> at_listener t = None)"

definition left_in_flight :: "send_queue \<Rightarrow> bytes" where
  "left_in_flight q = drop (q_offset q) (q_current q)"

definition sender_ok :: "sender_pc \<Rightarrow> send_queue \<Rightarrow> bool" where
  "sender_ok pc q \<longleftrightarrow>
     (case pc of
        Snd_Writing chunk s \<Rightarrow> chunk \<noteq> [] \<and> chunk = take kWriteChunk (left_in_flight q)
      | Snd_Wrote n \<Rightarrow> 0 < n \<and> n \<le> length (left_in_flight q)
      | _ \<Rightarrow> True)"

definition world_inv :: "world \<Rightarrow> bool" where
  "world_inv w \<longleftrightarrow> sockets_ok (w_tr w) (w_t w) \<and> sq_inv (at_queue (w_t w)) \<and> sender_ok (w_snd w) (at_queue (w_t w))"

definition pushed :: "SendPriority \<Rightarrow> bytes \<Rightarrow> send_queue \<Rightarrow> send_queue" where
  "pushed priority bs q = (if priority = Priority_Bulk then push_bulk bs q else push_interactive bs q)"

lemma pushed_facts:
  "sq_inv q \<Longrightarrow> sq_inv (pushed p bs q)" "left_in_flight (pushed p bs q) = left_in_flight q"
  "q_current (pushed p bs q) = q_current q" "q_offset (pushed p bs q) = q_offset q"
  by (simp_all add: pushed_def push_bulk_inv push_interactive_inv left_in_flight_def) (simp_all add: push_bulk_def push_interactive_def)

lemma sender_ok_pushed [simp]: "sender_ok pc (pushed p bs q) = sender_ok pc q"
  by (simp add: sender_ok_def pushed_facts split: sender_pc.split)

lemma at_send_queue:
  assumes "at_send bs p t = (ok, t')"
  shows "at_queue t' = at_queue t \<or> at_queue t' = pushed p bs (at_queue t)"
  using assms by (auto simp: at_send_def pushed_def split: if_splits)

lemma sender_take_some:
  assumes "sender_take t = (Some (chunk, s), t')"
  shows "at_client t = Some s \<and> at_queue t' = advance (at_queue t) \<and> chunk \<noteq> [] \<and> chunk = take kWriteChunk (left_in_flight (at_queue t'))"
  using assms by (auto simp: sender_take_def pending_eq left_in_flight_def Let_def split: option.splits if_splits)

lemma sender_take_none:
  assumes "sender_take t = (None, t')"
  shows "at_queue t' = (if at_client t = None then sq_clear (at_queue t) else advance (at_queue t))"
  using assms by (auto simp: sender_take_def pending_eq Let_def split: option.splits if_splits)

lemma sq_inv_clear: "sq_inv (sq_clear q)"
  by (simp add: sq_inv_def sq_clear_def)

lemma world_inv_transport:
  assumes "world_inv w" "at_queue t = at_queue (w_t w)" "sockets_ok pc t"
  shows "world_inv (w\<lparr>w_t := t, w_tr := pc\<rparr>)"
  using assms by (simp add: world_inv_def)

lemma world_inv_sender:
  assumes "world_inv w" "at_client t = at_client (w_t w)" "at_listener t = at_listener (w_t w)" "sq_inv (at_queue t)"
    "sender_ok pc (at_queue t)"
  shows "world_inv (w\<lparr>w_t := t, w_snd := pc\<rparr>)"
  using assms by (simp add: world_inv_def sockets_ok_def split: transport_pc.splits)

lemma world_same [simp]: "w\<lparr>w_t := t, w_tr := w_tr w\<rparr> = w\<lparr>w_t := t\<rparr>" "w\<lparr>w_t := t, w_snd := w_snd w\<rparr> = w\<lparr>w_t := t\<rparr>"
  "w\<lparr>w_t := w_t w, w_tr := pc\<rparr> = w\<lparr>w_tr := pc\<rparr>" "w\<lparr>w_t := w_t w, w_snd := spc\<rparr> = w\<lparr>w_snd := spc\<rparr>"
  by simp_all

lemma world_inv_step:
  assumes "at_step w os w'" "world_inv w"
  shows "world_inv w'"
  using assms
proof (induction rule: at_step.induct)
  case (prepare_fails w run_process paths os launched t)
  from prepare_session_keeps [OF prepare_fails(3)] prepare_fails(1,4) show ?case
    by (simp add: world_inv_def sockets_ok_def)
next
  case (prepare w run_process paths os serial model launched t)
  from prepare_session_keeps [OF prepare(3)] prepare(1,4) show ?case by (simp add: world_inv_def sockets_ok_def)
next
  case (receive w serial got messages t)
  from receive_bytes_keeps [OF receive(4)] receive(1,5) show ?case by (simp add: world_inv_def sockets_ok_def)
next
  case (send_refused bs priority w t)
  then show ?case by (auto simp: at_send_def split: if_splits)
next
  case (send_queued bs priority w t)
  from at_send_keeps [OF send_queued(1)] at_send_queue [OF send_queued(1)] send_queued(3)
  show ?case using world_inv_sender [of w t "w_snd w"] by (auto simp: world_inv_def pushed_facts)
next
  case (sender_idle w s t)
  from sender_take_keeps [OF sender_idle(4)] sender_take_none [OF sender_idle(4)] sender_idle
  show ?case using world_inv_sender [of w t "w_snd w"] by (simp add: world_inv_def advance_inv sender_ok_def)
next
  case (sender_no_client w t)
  from sender_take_keeps [OF sender_no_client(4)] sender_take_none [OF sender_no_client(4)] sender_no_client
  show ?case using world_inv_sender [of w t "w_snd w"] by (simp add: world_inv_def sq_inv_clear sender_ok_def)
next
  case (sender_takes w chunk s t)
  note k = sender_take_keeps [OF sender_takes(3)] and q = sender_take_some [OF sender_takes(3)]
  show ?case
  proof (rule world_inv_sender [OF sender_takes(4)])
    show "sq_inv (at_queue t)" using q sender_takes(4) by (simp add: world_inv_def advance_inv)
    have "chunk \<noteq> []" "chunk = take kWriteChunk (left_in_flight (at_queue t))" using q by blast+
    then show "sender_ok (Snd_Writing chunk s) (at_queue t)" unfolding sender_ok_def sender_pc.case by (rule conjI)
  qed (use k in simp_all)
next
  case (sender_consumes w n)
  then show ?case using world_inv_sender [of w "sender_consume n (w_t w)" Snd_Waiting]
    by (simp add: world_inv_def sender_consume_def consume_inv sender_ok_def)
next
  case (sender_clears w)
  then show ?case using world_inv_sender [of w "sender_fail (w_t w)" Snd_Waiting]
    by (simp add: world_inv_def sender_fail_def sq_inv_clear sender_ok_def)
qed (auto simp: world_inv_def sockets_ok_def sender_ok_def transport_defs split: transport_pc.splits sender_pc.splits)

lemma world_inv_init: "world_inv world_init"
  by (simp add: world_inv_def world_init_def at_start_def transport_init_def sockets_ok_def sender_ok_def set_state_def)

lemma world_inv_run: "at_run w tr w' \<Longrightarrow> world_inv w \<Longrightarrow> world_inv w'"
  by (induction rule: at_run.induct) (auto intro: world_inv_step)

section \<open>The outgoing stream\<close>

text \<open>What the socket took and the queue does not know yet.\<close>

definition unconsumed :: "sender_pc \<Rightarrow> send_queue \<Rightarrow> bytes" where
  "unconsumed pc q = (case pc of Snd_Wrote n \<Rightarrow> take n (left_in_flight q) | _ \<Rightarrow> [])"

lemma unconsumed_simps [simp]:
  "unconsumed Snd_Waiting = (\<lambda>q. [])" "unconsumed (Snd_Writing chunk s) = (\<lambda>q. [])" "unconsumed Snd_Failed = (\<lambda>q. [])"
  "unconsumed Snd_Ended = (\<lambda>q. [])"
  by (simp_all add: unconsumed_def fun_eq_iff)

definition stream_inv :: "world \<Rightarrow> obs list \<Rightarrow> bool" where
  "stream_inv w tr \<longleftrightarrow>
     (\<exists>out si sb. written_any tr = out @ unconsumed (w_snd w) (at_queue (w_t w)) \<and> stream_of out (at_queue (w_t w)) si sb \<and>
        si @ q_interactive (at_queue (w_t w)) = queued Priority_Interactive tr \<and>
        sb @ q_bulk (at_queue (w_t w)) = queued Priority_Bulk tr)"

lemma stream_inv_same:
  assumes "stream_inv w tr" "at_queue (w_t w') = at_queue (w_t w)" "unconsumed (w_snd w') = unconsumed (w_snd w)"
    "written_any os = []" "\<And>p. queued p os = []"
  shows "stream_inv w' (tr @ os)"
  using assms by (simp add: stream_inv_def)

lemma pushed_queues:
  "bs \<noteq> [] \<Longrightarrow> q_interactive (pushed p bs q) = q_interactive q @ (if p = Priority_Interactive then [bs] else [])"
  "bs \<noteq> [] \<Longrightarrow> q_bulk (pushed p bs q) = q_bulk q @ (if p = Priority_Bulk then [bs] else [])"
  by (cases p; simp add: pushed_def push_bulk_def push_interactive_def)+

lemma stream_inv_push:
  assumes "stream_inv w tr" "bs \<noteq> []" "at_queue t = pushed p bs (at_queue (w_t w))"
  shows "stream_inv (w\<lparr>w_t := t\<rparr>) (tr @ [Obs_queued p bs])"
proof -
  from assms(1) obtain out si sb where i: "written_any tr = out @ unconsumed (w_snd w) (at_queue (w_t w))"
    "stream_of out (at_queue (w_t w)) si sb" "si @ q_interactive (at_queue (w_t w)) = queued Priority_Interactive tr"
    "sb @ q_bulk (at_queue (w_t w)) = queued Priority_Bulk tr" by (auto simp: stream_inv_def)
  have "unconsumed (w_snd w) (pushed p bs q) = unconsumed (w_snd w) q" for q
    by (simp add: unconsumed_def pushed_facts split: sender_pc.split)
  moreover have "stream_of out (pushed p bs (at_queue (w_t w))) si sb" using i(2) by (simp add: stream_of_def pushed_facts)
  ultimately show ?thesis using i assms(2,3) unfolding stream_inv_def
    by (intro exI [of _ out] exI [of _ si] exI [of _ sb]) (simp add: pushed_queues)
qed

lemma stream_inv_advance:
  assumes "stream_inv w tr" "w_snd w = Snd_Waiting" "at_queue t = advance (at_queue (w_t w))" "unconsumed pc = (\<lambda>q. [])"
  shows "stream_inv (w\<lparr>w_t := t, w_snd := pc\<rparr>) (tr @ [])"
proof -
  from assms(1,2) obtain out si sb where i: "written_any tr = out" "stream_of out (at_queue (w_t w)) si sb"
    "si @ q_interactive (at_queue (w_t w)) = queued Priority_Interactive tr"
    "sb @ q_bulk (at_queue (w_t w)) = queued Priority_Bulk tr" by (auto simp: stream_inv_def unconsumed_def)
  from stream_of_advance [OF i(2)] obtain si' sb' where "stream_of out (at_queue t) si' sb'"
    "si' @ q_interactive (at_queue t) = queued Priority_Interactive tr" "sb' @ q_bulk (at_queue t) = queued Priority_Bulk tr"
    using i(3,4) assms(3) by auto
  then show ?thesis using i(1) assms(4) by (auto simp: stream_inv_def)
qed

lemma stream_inv_wrote:
  assumes "stream_inv w tr" "world_inv w" "w_snd w = Snd_Writing chunk s" "n \<le> length chunk"
  shows "stream_inv (w\<lparr>w_snd := Snd_Wrote n\<rparr>) (tr @ [Obs_wrote s (take n chunk)])"
proof -
  have c: "chunk = take kWriteChunk (left_in_flight (at_queue (w_t w)))" using assms(2,3) by (simp add: world_inv_def sender_ok_def)
  then have "n \<le> kWriteChunk" using assms(4) by simp
  then have "take n chunk = take n (left_in_flight (at_queue (w_t w)))" by (simp add: c min_def)
  then show ?thesis using assms(1,3) by (auto simp: stream_inv_def unconsumed_def)
qed

lemma stream_inv_consume:
  assumes "stream_inv w tr" "world_inv w" "w_snd w = Snd_Wrote n"
  shows "stream_inv (w\<lparr>w_t := sender_consume n (w_t w), w_snd := Snd_Waiting\<rparr>) (tr @ [])"
proof -
  let ?q = "at_queue (w_t w)"
  from assms(1,3) obtain out si sb where i: "written_any tr = out @ take n (left_in_flight ?q)" "stream_of out ?q si sb"
    "si @ q_interactive ?q = queued Priority_Interactive tr" "sb @ q_bulk ?q = queued Priority_Bulk tr"
    by (auto simp: stream_inv_def unconsumed_def)
  have q: "sq_inv ?q" "n \<le> length (q_current ?q) - q_offset ?q"
    using assms(2,3) by (simp_all add: world_inv_def sender_ok_def left_in_flight_def)
  have "stream_of (out @ take n (left_in_flight ?q)) (consume n ?q) si sb"
    using i(2) consume_current [OF q] consume_inv [OF q(1)] by (auto simp: stream_of_def left_in_flight_def)
  then show ?thesis using i unfolding stream_inv_def
    by (intro exI [of _ "written_any tr"] exI [of _ si] exI [of _ sb]) (simp add: unconsumed_def sender_consume_def)
qed

lemma stream_inv_step:
  assumes "at_step w os w'" "world_inv w" "stream_inv w tr" "Obs_cleared \<notin> set os"
  shows "stream_inv w' (tr @ os)"
  using assms
proof (induction rule: at_step.induct)
  case (prepare_fails w run_process paths os launched t)
  from prepare_session_keeps [OF prepare_fails(3)] show ?case by (intro stream_inv_same [OF prepare_fails(5)]) auto
next
  case (prepare w run_process paths os serial model launched t)
  from prepare_session_keeps [OF prepare(3)] show ?case by (intro stream_inv_same [OF prepare(5)]) auto
next
  case (receive w serial got messages t)
  from receive_bytes_keeps [OF receive(4)] show ?case by (intro stream_inv_same [OF receive(6)]) auto
next
  case (send_refused bs priority w t)
  then show ?case by (auto simp: at_send_def split: if_splits)
next
  case (send_queued bs priority w t)
  from send_queued(1,2) have "at_queue t = pushed priority bs (at_queue (w_t w))"
    by (auto simp: at_send_def pushed_def split: if_splits)
  then show ?case by (rule stream_inv_push [OF send_queued(4,2)])
next
  case (sender_idle w s t)
  from sender_take_none [OF sender_idle(4)] sender_idle(3) have "at_queue t = advance (at_queue (w_t w))" by simp
  moreover have "w\<lparr>w_t := t, w_snd := Snd_Waiting\<rparr> = w\<lparr>w_t := t\<rparr>" using sender_idle(1) by (cases w) simp
  ultimately show ?case using stream_inv_advance [OF sender_idle(6,1), of t Snd_Waiting] by simp
next
  case (sender_takes w chunk s t)
  from sender_take_some [OF sender_takes(3)] have "at_queue t = advance (at_queue (w_t w))" by simp
  from stream_inv_advance [OF sender_takes(5,1) this] show ?case by simp
next
  case (sender_writes w chunk s n)
  then show ?case by (intro stream_inv_wrote)
next
  case (sender_consumes w n)
  then show ?case by (intro stream_inv_consume)
qed (auto simp: transport_defs stream_inv_def)

lemma stream_inv_run:
  assumes "at_run w tr w'" "world_inv w" "stream_inv w []" "Obs_cleared \<notin> set tr"
  shows "world_inv w' \<and> stream_inv w' tr"
  using assms
proof (induction rule: at_run.induct)
  case (at_run_step w tr w1 os w2)
  then show ?case using world_inv_step stream_inv_step by auto
qed simp

text \<open>Until the next guest is accepted, everything goes to one socket.\<close>

lemma client_kept:
  assumes "at_step w os w'" "\<not> list_ex connected_to os"
  shows "at_client (w_t w') = at_client (w_t w) \<or> at_client (w_t w') = None"
  using assms
proof (induction rule: at_step.induct)
  case (prepare_fails w run_process paths os launched t)
  from prepare_session_keeps [OF prepare_fails(3)] show ?case by simp
next
  case (prepare w run_process paths os serial model launched t)
  from prepare_session_keeps [OF prepare(3)] show ?case by simp
next
  case (receive w serial got messages t)
  from receive_bytes_keeps [OF receive(4)] show ?case by simp
next
  case (send_refused bs priority w t)
  from at_send_keeps [OF send_refused(1)] show ?case by simp
next
  case (send_queued bs priority w t)
  from at_send_keeps [OF send_queued(1)] show ?case by simp
next
  case (sender_idle w s t)
  from sender_take_keeps [OF sender_idle(4)] show ?case by simp
next
  case (sender_no_client w t)
  from sender_take_keeps [OF sender_no_client(4)] show ?case by simp
next
  case (sender_takes w chunk s t)
  from sender_take_keeps [OF sender_takes(3)] show ?case by simp
qed (auto simp: transport_defs sender_consume_def sender_fail_def)

lemma wrote_to_client: "at_step w os w' \<Longrightarrow> Obs_wrote s bs \<in> set os \<Longrightarrow> at_client (w_t w) = Some s"
  by (cases rule: at_step.cases) auto

lemma written_one: "\<forall>s' bs. Obs_wrote s' bs \<in> set os \<longrightarrow> s' = s \<Longrightarrow> written s os = written_any os"
proof (induction os)
  case (Cons x os)
  then have "written s os = written_any os" by (metis list.set_intros(2))
  then show ?case using Cons.prems by (cases x) simp_all
qed simp

lemma one_socket:
  assumes "at_run w tr w'" "at_client (w_t w) = Some s" "\<not> list_ex connected_to tr"
  shows "(at_client (w_t w') = Some s \<or> at_client (w_t w') = None) \<and> written s tr = written_any tr"
  using assms
proof (induction rule: at_run.induct)
  case (at_run_step w tr w1 os w2)
  then have ih: "at_client (w_t w1) = Some s \<or> at_client (w_t w1) = None" "written s tr = written_any tr"
    and c: "\<not> list_ex connected_to os" by auto
  have "written s os = written_any os"
    using wrote_to_client [OF at_run_step(2)] ih(1) by (intro written_one) (metis option.distinct(1) option.inject)
  moreover have "at_client (w_t w2) = Some s \<or> at_client (w_t w2) = None" using client_kept [OF at_run_step(2) c] ih(1) by metis
  ultimately show ?case using ih(2) by simp
qed simp

section \<open>The incoming stream\<close>

lemma shuffles_map: "es \<in> shuffles (map f xs) (map f ys) \<Longrightarrow> \<exists>ms \<in> shuffles xs ys. es = map f ms"
proof (induction xs ys arbitrary: es rule: shuffles.induct)
  case (3 x xs y ys)
  from "3.prems" consider es' where "es = f x # es'" "es' \<in> shuffles (map f xs) (map f (y # ys))"
    | es' where "es = f y # es'" "es' \<in> shuffles (map f (x # xs)) (map f ys)" by auto
  then show ?case
  proof cases
    case 1
    then obtain ms where "ms \<in> shuffles xs (y # ys)" "es' = map f ms" using "3.IH"(1) by blast
    then show ?thesis using 1(1) by (intro bexI [of _ "x # ms"]) auto
  next
    case 2
    then obtain ms where "ms \<in> shuffles (x # xs) ys" "es' = map f ms" using "3.IH"(2) by blast
    then show ?thesis using 2(1) by (intro bexI [of _ "y # ms"]) auto
  qed
qed auto

lemma feed_append: "feed (cs @ ds) f = (let (ms, g) = feed cs f; (ms', h) = feed ds g in (ms @ ms', h))"
  by (induction cs arbitrary: f) (auto simp: Let_def split: prod.splits)

lemma drained_queue:
  assumes "sq_inv q" "sq_rest q = []"
  shows "q_interactive q = [] \<and> q_bulk q = [] \<and> drop (q_offset q) (q_current q) = []"
  using assms by (cases "q_interactive q"; cases "q_bulk q") (auto simp: sq_rest_def sq_inv_def)

text \<open>What the framer makes of the bytes written, complete or not.\<close>

lemma prefix_map_inv: "xs @ ys = map f zs \<Longrightarrow> \<exists>us. prefix us zs \<and> xs = map f us \<and> (ys = [] \<longrightarrow> us = zs)"
proof -
  assume "xs @ ys = map f zs"
  then obtain us vs where "zs = us @ vs" "xs = map f us" "ys = map f vs" by (auto simp: append_eq_map_conv)
  then show ?thesis by (intro exI [of _ us]) simp
qed

lemma stream_decoded:
  assumes "stream_inv w tr" and "queued Priority_Interactive tr = map encode_message mi"
    and "queued Priority_Bulk tr = map encode_message mb" and "\<forall>m \<in> set mi \<union> set mb. wf_message m"
    and "concat cs = written_any tr"
  defines "q \<equiv> at_queue (w_t w)" and "got \<equiv> map decode_frame (fst (feed cs framer_init))"
  shows "\<exists>si sb ms. ms \<in> shuffles si sb \<and> prefix si mi \<and> prefix sb mb \<and> prefix got (map Some ms) \<and>
    (unconsumed (w_snd w) q = left_in_flight q \<longrightarrow> got = map Some ms) \<and>
    (q_interactive q = [] \<longrightarrow> si = mi) \<and> (q_bulk q = [] \<longrightarrow> sb = mb)"
proof -
  from assms(1) obtain out ei eb es where o: "written_any tr = out @ unconsumed (w_snd w) q"
      "es \<in> shuffles ei eb" "out @ left_in_flight q = concat es"
      "ei @ q_interactive q = map encode_message mi" "eb @ q_bulk q = map encode_message mb"
    unfolding stream_inv_def stream_of_def q_def left_in_flight_def assms(2,3) by blast
  obtain si where si: "prefix si mi" "ei = map encode_message si" "q_interactive q = [] \<longrightarrow> si = mi"
    using prefix_map_inv [OF o(4)] by blast
  obtain sb where sb: "prefix sb mb" "eb = map encode_message sb" "q_bulk q = [] \<longrightarrow> sb = mb"
    using prefix_map_inv [OF o(5)] by blast
  obtain ms where ms: "ms \<in> shuffles si sb" "es = map encode_message ms"
    using shuffles_map [of es encode_message si sb] o(2) si(2) sb(2) by blast
  have wf: "\<forall>m \<in> set ms. wf_message m"
    using set_shuffles [OF ms(1)] set_mono_prefix [OF si(1)] set_mono_prefix [OF sb(1)] assms(4) by blast
  from parse_stream [OF wf] obtain fs where fs: "map decode_frame fs = map Some ms" "parse (concat es) = (fs, [], 0)"
    unfolding ms(2) by auto
  define rest where "rest = drop (length (unconsumed (w_snd w) q)) (left_in_flight q)"
  have "unconsumed (w_snd w) q @ rest = left_in_flight q"
    unfolding rest_def by (cases "w_snd w") (auto simp: unconsumed_def min_def)
  then have c: "concat (cs @ [rest]) = concat es" using o(1,3) assms(5) by (metis append_assoc concat_append concat.simps append_Nil2)
  have whole: "map decode_frame (fst (feed ds framer_init)) = map Some ms" if "concat ds = concat es" for ds
    using feed_parse [OF framer_idle_init, of ds fs "[]" 0] fs that by auto
  have "prefix (fst (feed cs framer_init)) (fst (feed (cs @ [rest]) framer_init))"
    by (auto simp: feed_append Let_def case_prod_beta)
  then have "prefix got (map Some ms)" unfolding whole [OF c, symmetric] got_def by (rule map_mono_prefix)
  moreover have "got = map Some ms" if "unconsumed (w_snd w) q = left_in_flight q"
    unfolding got_def by (rule whole) (use that o assms(5) in simp)
  ultimately show ?thesis using ms(1) si(1,3) sb(1,3) by blast
qed

lemma framer_kept:
  assumes "at_step w os w'" "\<not> list_ex connected_to os" "received os = []"
  shows "at_framer (w_t w') = at_framer (w_t w) \<and> delivered os = []"
  using assms
proof (induction rule: at_step.induct)
  case (prepare_fails w run_process paths os launched t)
  from prepare_session_keeps [OF prepare_fails(3)] show ?case by simp
next
  case (prepare w run_process paths os serial model launched t)
  from prepare_session_keeps [OF prepare(3)] show ?case by simp
next
  case (send_refused bs priority w t)
  from at_send_keeps [OF send_refused(1)] show ?case by simp
next
  case (send_queued bs priority w t)
  from at_send_keeps [OF send_queued(1)] show ?case by simp
next
  case (sender_idle w s t)
  from sender_take_keeps [OF sender_idle(4)] show ?case by simp
next
  case (sender_no_client w t)
  from sender_take_keeps [OF sender_no_client(4)] show ?case by simp
next
  case (sender_takes w chunk s t)
  from sender_take_keeps [OF sender_takes(3)] show ?case by simp
qed (auto simp: transport_defs sender_consume_def sender_fail_def)

lemma receive_run:
  assumes "at_run w tr w'" "\<not> list_ex connected_to tr"
  shows "feed (received tr) (at_framer (w_t w)) = (delivered tr, at_framer (w_t w'))"
  using assms
proof (induction rule: at_run.induct)
  case (at_run_step w tr w1 os w2)
  then have f: "feed (received tr) (at_framer (w_t w)) = (delivered tr, at_framer (w_t w1))" and c: "\<not> list_ex connected_to os"
    by auto
  show ?case
  proof (cases "received os = []")
    case True
    then show ?thesis using framer_kept [OF at_run_step(2) c] f by simp
  next
    case False
    from at_run_step(2) False obtain got ms where os: "os = Obs_received got # map Obs_message ms"
      "drain (framer_push got (at_framer (w_t w1))) = (ms, at_framer (w_t w2))"
      by (cases rule: at_step.cases) (auto simp: receive_bytes_def split: prod.splits)
    then show ?thesis using f by (simp add: feed_append)
  qed
qed simp

section \<open>Launching the guest\<close>

definition chosen_serial :: "runner \<Rightarrow> adb_client \<Rightarrow> string option" where
  "chosen_serial run_process a = map_option dev_serial (fst (pick_device (adb_devices run_process a) None False))"

lemma try_candidates_ready: "try_candidates r paths a = (True, a') \<Longrightarrow> adb_ready a'"
  by (induction paths) (auto simp: adb_ready_def Let_def split: if_splits)

lemma adb_init_ready: "adb_init r paths a = (True, a') \<Longrightarrow> adb_ready a'"
  using try_candidates_ready by (auto simp: adb_init_def split: if_splits)

lemma launch_guest_cases:
  assumes "launch_guest r serial t = (l, t')"
  shows "at_launched_serial t' = serial \<and> (l = [] \<or> l = [serial]) \<and> (at_launched_serial t = serial \<longrightarrow> l = []) \<and>
    (l \<noteq> [] \<longrightarrow> read_guest_flag r serial kGuestSettingsPath ''auto_launch'' True (at_adb t) \<and>
       \<not> is_app_running r serial kGuestPackage (at_adb t))"
  using assms by (auto simp: launch_guest_def split: if_splits)

lemma prepare_session_launch:
  assumes "prepare_session r paths os t = (res, l, t')" "\<And>a. adb_ready a \<Longrightarrow> chosen_serial r a = Some d"
  shows "length l \<le> 1 \<and> (at_launched_serial t = d \<longrightarrow> l = [] \<and> at_launched_serial t' = d) \<and>
    (l \<noteq> [] \<longrightarrow> l = [d] \<and> at_launched_serial t' = d \<and> (\<exists>a. adb_ready a \<and> read_guest_flag r d kGuestSettingsPath ''auto_launch'' True a))"
proof -
  obtain ready adb where i: "adb_init r paths (at_adb t) = (ready, adb)" by fastforce
  show ?thesis
  proof (cases ready)
    case False
    then show ?thesis using assms(1) i by (auto simp: prepare_session_def Let_def set_state_def)
  next
    case True
    then have a: "adb_ready adb" using adb_init_ready [of r paths "at_adb t" adb] i by simp
    obtain c saw where p: "pick_device (adb_devices r adb) None False = (c, saw)" by fastforce
    then obtain dv where dv: "c = Some dv" "dev_serial dv = d" using assms(2) [OF a] by (auto simp: chosen_serial_def)
    obtain opened t1 where o: "open_listener os (set_state State_Preparing ''setting up the reverse tunnel''
        (t\<lparr>at_adb := adb, at_serial := d, at_model := dev_model dv\<rparr>)) = (opened, t1)" by fastforce
    obtain l1 t2 where g: "launch_guest r d t1 = (l1, t2)" by fastforce
    have t1: "at_launched_serial t1 = at_launched_serial t" "at_adb t1 = adb"
      using o by (auto simp: open_listener_def set_state_def close_listener_def Let_def split: option.splits)
    have e: "prepare_session r paths os t =
        (if \<not> opened then (None, [], t1)
         else if \<not> adb_reverse r d kDevicePort (at_host_port t1) adb then (None, [], close_listener t1)
         else (Some (d, dev_model dv), l1, set_state State_WaitingForClient ''waiting for the guest to connect'' t2))"
      by (simp add: prepare_session_def i True p dv o g)
    show ?thesis using assms(1) launch_guest_cases [OF g] a t1 unfolding e
      by (auto simp: set_state_def close_listener_def split: if_splits)
  qed
qed

lemma prepare_rounds_launch:
  assumes "\<forall>rd \<in> set rounds. \<forall>a. adb_ready a \<longrightarrow> chosen_serial (fst rd) a = Some d"
    "prepare_rounds rounds t = (l, t')"
  shows "length l \<le> 1 \<and> (at_launched_serial t = d \<longrightarrow> l = []) \<and>
    (l \<noteq> [] \<longrightarrow> l = [d] \<and> (\<exists>rd \<in> set rounds. \<exists>a. adb_ready a \<and> read_guest_flag (fst rd) d kGuestSettingsPath ''auto_launch'' True a))"
  using assms
proof (induction rounds arbitrary: t l t')
  case (Cons round rounds)
  obtain r paths os where rd: "round = (r, paths, os)" by (metis prod_cases3)
  obtain res l1 t1 where p: "prepare_session r paths os t = (res, l1, t1)" by (metis prod_cases3)
  obtain l2 t2 where q: "prepare_rounds rounds (end_session_sockets t1) = (l2, t2)" by fastforce
  have l: "l = l1 @ l2" using Cons.prems(2) p q by (simp add: rd)
  have s: "at_launched_serial (end_session_sockets t1) = at_launched_serial t1" by (simp add: transport_defs)
  have c: "\<And>a. adb_ready a \<Longrightarrow> chosen_serial r a = Some d" using Cons.prems(1) by (simp add: rd)
  have ih: "length l2 \<le> 1 \<and> (at_launched_serial t1 = d \<longrightarrow> l2 = []) \<and>
    (l2 \<noteq> [] \<longrightarrow> l2 = [d] \<and> (\<exists>rd \<in> set rounds. \<exists>a. adb_ready a \<and> read_guest_flag (fst rd) d kGuestSettingsPath ''auto_launch'' True a))"
    using Cons.IH [OF _ q] Cons.prems(1) s by simp
  note one = prepare_session_launch [OF p c]
  show ?case
  proof (cases "l1 = []")
    case True
    then show ?thesis using ih one l by auto
  next
    case False
    then have "l2 = []" using ih one by blast
    then show ?thesis using one l False by (auto simp: rd)
  qed
qed simp

section \<open>A phone for the examples\<close>

definition ex_phone :: runner where
  "ex_phone exe args =
     \<lparr>proc_launched = True, proc_timed_out = False, proc_exit_code = 0,
      proc_output = (if args = [''devices'', ''-l''] then shell_output False [''List of devices attached'', ''R58 device'', []] else [])\<rparr>"

lemma ex_phone_devices: "adb_ready a \<Longrightarrow> adb_devices ex_phone a = [\<lparr>dev_serial = ''R58'', dev_state = ''device'', dev_model = []\<rparr>]"
proof -
  assume a: "adb_ready a"
  let ?ls = "[''List of devices attached'', ''R58 device'', []]"
  have "getlines (shell_output False ?ls) = ?ls" unfolding shell_output_def using getlines_concat [of ?ls] by (simp add: LF_def)
  then show ?thesis
    using a by (simp add: adb_devices_def adb_run_def ex_phone_def proc_ok_def trim_def tspace_def parse_device_def stream_words_def
        is_space_def TAB_def LF_def CR_def)
qed

lemma ex_phone_prepare:
  "\<exists>t'. prepare_session ex_phone [''adb''] (Some (9, 5000)) t =
     (Some (''R58'', []), if at_launched_serial t = ''R58'' then [] else [''R58''], t') \<and> at_launched_serial t' = ''R58''"
proof -
  obtain adb where i: "adb_init ex_phone [''adb''] (at_adb t) = (True, adb)"
    by (cases "adb_ready (at_adb t)") (auto simp: adb_init_def ex_phone_def proc_ok_def)
  have a: "adb_ready adb" by (rule adb_init_ready [OF i])
  have f: "\<not> is_app_running ex_phone s p adb" "read_guest_flag ex_phone s p k True adb" "adb_reverse ex_phone s x y adb" for s p k x y
    using a by (simp_all add: is_app_running_def read_guest_flag_def adb_reverse_def adb_run_def ex_phone_def proc_ok_def trim_def
        getlines_def)
  show ?thesis
    by (simp add: prepare_session_def i ex_phone_devices [OF a] usable_def open_listener_def transport_defs f launch_guest_def Let_def)
qed

lemma run_one: "at_step w os w' \<Longrightarrow> at_run w os w'"
  using at_run_step [OF at_run_nil, of w os w'] by simp

lemma run_trans: "at_run w1 tr' w2 \<Longrightarrow> at_run w tr w1 \<Longrightarrow> at_run w (tr @ tr') w2"
proof (induction rule: at_run.induct)
  case (at_run_step w1 tr' w2 os w3)
  then show ?case using at_run.at_run_step [of w "tr @ tr'" w2 os w3] by simp
qed simp

text \<open>A world in which the phone has connected, and the steps of one message.\<close>

definition in_session :: "nat \<Rightarrow> world \<Rightarrow> bool" where
  "in_session s w \<longleftrightarrow> w_tr w = Tr_Session ''R58'' \<and> at_client (w_t w) = Some s \<and> at_running (w_t w) \<and> w_snd w = Snd_Waiting \<and>
     w_sockets w = Suc s \<and> at_launched_serial (w_t w) = ''R58'' \<and> world_inv w"

lemma connect_run:
  assumes "w_tr w = Tr_Idle" "at_running (w_t w)" "w_snd w = Snd_Waiting" "w_sockets w \<le> s" "world_inv w"
  shows "\<exists>w'. at_run w (map Obs_launch (if at_launched_serial (w_t w) = ''R58'' then [] else [''R58'']) @ [Obs_connect s]) w' \<and>
    in_session s w' \<and> at_queue (w_t w') = at_queue (w_t w)"
proof -
  from ex_phone_prepare [of "w_t w"] obtain t1 where p: "prepare_session ex_phone [''adb''] (Some (9, 5000)) (w_t w) =
      (Some (''R58'', []), if at_launched_serial (w_t w) = ''R58'' then [] else [''R58''], t1)"
    "at_launched_serial t1 = ''R58''" by blast
  let ?w1 = "w\<lparr>w_t := t1, w_tr := Tr_Waiting ''R58'' []\<rparr>"
  let ?w2 = "?w1\<lparr>w_t := begin_session s ''R58'' [] (w_t ?w1), w_tr := Tr_Session ''R58'', w_sockets := Suc s\<rparr>"
  have a: "at_step w (map Obs_launch (if at_launched_serial (w_t w) = ''R58'' then [] else [''R58''])) ?w1"
    by (rule prepare [OF assms(1,2) p(1)])
  have "accept_loop (\<lambda>_. Slice_accepted s) 0 = Some s" by (subst accept_loop.simps) (simp add: kAcceptTimeoutMs_def)
  then have b: "at_step ?w1 [Obs_connect s] ?w2" using assms(4) by (intro accept) simp_all
  have r: "at_run w (map Obs_launch (if at_launched_serial (w_t w) = ''R58'' then [] else [''R58'']) @ [Obs_connect s]) ?w2"
    by (rule at_run_step [OF run_one [OF a] b])
  moreover have "in_session s ?w2" "at_queue (w_t ?w2) = at_queue (w_t w)"
    using prepare_session_keeps [OF p(1)] p(2) assms(2,3) world_inv_run [OF r assms(5)]
    by (simp_all add: in_session_def transport_defs)
  ultimately show ?thesis by blast
qed

lemma send_run:
  assumes "in_session s w" "bs \<noteq> []"
  shows "\<exists>w'. at_run w [Obs_queued Priority_Interactive bs] w' \<and> in_session s w' \<and> at_queue (w_t w') = push_interactive bs (at_queue (w_t w))"
proof -
  obtain t where t: "at_send bs Priority_Interactive (w_t w) = (True, t)" "at_queue t = push_interactive bs (at_queue (w_t w))"
    "at_client t = at_client (w_t w)" "at_running t = at_running (w_t w)" "at_launched_serial t = at_launched_serial (w_t w)"
    using assms by (simp add: at_send_def in_session_def)
  have r: "at_run w [Obs_queued Priority_Interactive bs] (w\<lparr>w_t := t\<rparr>)" by (rule run_one [OF send_queued [OF t(1) assms(2)]])
  then show ?thesis using world_inv_run [OF r] assms(1) t by (auto simp: in_session_def)
qed

lemma write_run:
  assumes "in_session s w" "at_queue (w_t w) = push_interactive m q" "sq_inv q" "sq_rest q = []" "m \<noteq> []" "length m \<le> kWriteChunk"
  shows "\<exists>w'. at_run w [Obs_wrote s m] w' \<and> in_session s w' \<and> sq_rest (at_queue (w_t w')) = []"
proof -
  have q: "q_interactive q = []" "q_bulk q = []" "q_current q = []" "q_offset q = 0"
    using assms(3,4) by (cases "q_interactive q"; cases "q_bulk q"; auto simp: sq_rest_def sq_inv_def split: if_splits)+
  let ?q1 = "advance (push_interactive m q)"
  have q1: "q_current ?q1 = m" "q_offset ?q1 = 0" "q_interactive ?q1 = []" "q_bulk ?q1 = []"
    using q assms(5) by (simp_all add: advance_def push_interactive_def in_flight_def take_next_def)
  let ?t1 = "(w_t w)\<lparr>at_queue := ?q1\<rparr>"
  let ?w1 = "w\<lparr>w_t := ?t1, w_snd := Snd_Writing m s\<rparr>"
  let ?w2 = "?w1\<lparr>w_snd := Snd_Wrote (length m)\<rparr>"
  let ?w3 = "?w2\<lparr>w_t := sender_consume (length m) (w_t ?w2), w_snd := Snd_Waiting\<rparr>"
  have "sender_take (w_t w) = (Some (m, s), ?t1)"
    using assms(1,2,5,6) q1 by (simp add: sender_take_def in_session_def pending_eq)
  then have a: "at_step w [] ?w1" using assms(1) by (intro sender_takes) (simp_all add: in_session_def)
  have "at_step ?w1 [Obs_wrote s (take (length m) m)] ?w2"
    using assms(1,5) by (intro sender_writes) (simp_all add: in_session_def)
  then have b: "at_step ?w1 [Obs_wrote s m] ?w2" by simp
  have c: "at_step ?w2 [] ?w3" by (rule sender_consumes) simp
  have r: "at_run w (([] @ [Obs_wrote s m]) @ []) ?w3" by (rule at_run_step [OF at_run_step [OF run_one [OF a] b] c])
  have "in_session s ?w3" using assms(1) world_inv_run [OF r] by (simp add: in_session_def sender_consume_def)
  moreover have "sq_rest (at_queue (w_t ?w3)) = []"
    using q1 assms(5) by (simp add: sender_consume_def consume_def in_flight_def sq_rest_def)
  ultimately show ?thesis using r by auto
qed

lemma close_run:
  assumes "in_session s w"
  shows "\<exists>w'. at_run w [Obs_disconnect] w' \<and> w_tr w' = Tr_Idle \<and> at_running (w_t w') \<and> w_snd w' = Snd_Waiting \<and>
    w_sockets w' = Suc s \<and> world_inv w' \<and> at_launched_serial (w_t w') = ''R58'' \<and> at_queue (w_t w') = at_queue (w_t w)"
proof -
  let ?w1 = "w\<lparr>w_tr := Tr_Closing ''R58''\<rparr>"
  let ?w2 = "?w1\<lparr>w_t := end_session_sockets (w_t ?w1), w_tr := Tr_Idle\<rparr>"
  have a: "at_step w [Obs_disconnect] ?w1" using assms by (intro session_over) (simp add: in_session_def)
  have b: "at_step ?w1 [] ?w2" by (rule close) simp
  have r: "at_run w ([Obs_disconnect] @ []) ?w2" by (rule at_run_step [OF run_one [OF a] b])
  then show ?thesis using world_inv_run [OF r] assms by (auto simp: in_session_def transport_defs)
qed

section \<open>Properties\<close>

text \<open>
  C4: Whatever way the three threads interleave, and however little each write takes, the guest of a
  session gets what was sent. Take any run within one session (no other guest is accepted), from a moment
  when nothing is queued on, in which no write fails and the queue is not thrown away; cut the bytes the
  socket of this guest took in any way. At every moment the messages its framer has given are a first part of
  a merge of first parts of the two sequences of messages queued, each priority in the order in which they
  were queued; and whenever the queue has been drained they are a merge of all messages queued.
\<close>

theorem transport_delivers:
  assumes "at_run w tr w'" and "world_inv w" and "w_snd w = Snd_Waiting" and "sq_rest (at_queue (w_t w)) = []"
    and "at_client (w_t w) = Some s" and "\<not> list_ex connected_to tr" and "Obs_cleared \<notin> set tr"
    and "queued Priority_Interactive tr = map encode_message mi" and "queued Priority_Bulk tr = map encode_message mb"
    and "\<forall>m \<in> set mi \<union> set mb. wf_message m" and "concat cs = written s tr"
  shows "(\<exists>si sb. \<exists>ms \<in> shuffles si sb. prefix si mi \<and> prefix sb mb \<and>
      prefix (map decode_frame (fst (feed cs framer_init))) (map Some ms)) \<and>
    (w_snd w' = Snd_Waiting \<and> sq_rest (at_queue (w_t w')) = [] \<longrightarrow>
      (\<exists>ms \<in> shuffles mi mb. map decode_frame (fst (feed cs framer_init)) = map Some ms))"
proof -
  have q: "sq_inv (at_queue (w_t w))" using assms(2) by (simp add: world_inv_def)
  with drained_queue [OF q assms(4)] have "stream_inv w []" using assms(3) by (simp add: stream_inv_def stream_of_def)
  from stream_inv_run [OF assms(1,2) this assms(7)] have i: "world_inv w'" "stream_inv w' tr" by simp_all
  have any: "concat cs = written_any tr" using one_socket [OF assms(1,5,6)] assms(11) by simp
  let ?q = "at_queue (w_t w')"
  from stream_decoded [OF i(2) assms(8-10) any] obtain si sb ms rest where
    s: "ms \<in> shuffles si sb" "prefix si mi" "prefix sb mb"
      "prefix (map decode_frame (fst (feed cs framer_init))) (map Some ms)"
      "unconsumed (w_snd w') ?q = left_in_flight ?q \<Longrightarrow> map decode_frame (fst (feed cs framer_init)) = map Some ms"
      "q_interactive ?q = [] \<Longrightarrow> si = mi" "q_bulk ?q = [] \<Longrightarrow> sb = mb" by blast
  have "\<exists>ms \<in> shuffles mi mb. map decode_frame (fst (feed cs framer_init)) = map Some ms"
    if "w_snd w' = Snd_Waiting" "sq_rest ?q = []"
    using s drained_queue [OF _ that(2)] i(1) that(1) by (auto simp: world_inv_def left_in_flight_def)
  then show ?thesis using s(1-4) by blast
qed

theorem transport_delivers_witness:
  "\<exists>w tr w'. at_run w tr w' \<and> queued Priority_Interactive tr = [encode_message (M_Ping ex_Ping)] \<and>
    map decode_frame (fst (feed [written 0 tr] framer_init)) = [Some (M_Ping ex_Ping)]"
proof -
  let ?m = "encode_message (M_Ping ex_Ping)"
  have wf: "wf_message (M_Ping ex_Ping)" using wf_examples by simp
  have m: "?m \<noteq> []" "length ?m \<le> kWriteChunk" by code_simp+
  obtain w where w: "in_session 0 w" "at_queue (w_t w) = at_queue (w_t world_init)"
    using connect_run [of world_init 0] world_inv_init by (auto simp: world_init_def at_start_def transport_init_def set_state_def)
  have q: "at_queue (w_t world_init) = sq_init" by (simp add: world_init_def at_start_def transport_init_def set_state_def)
  obtain w1 where w1: "at_run w [Obs_queued Priority_Interactive ?m] w1" "in_session 0 w1" "at_queue (w_t w1) = push_interactive ?m sq_init"
    using send_run [OF w(1) m(1)] w(2) q by auto
  obtain w2 where w2: "at_run w1 [Obs_wrote 0 ?m] w2" "in_session 0 w2" "sq_rest (at_queue (w_t w2)) = []"
    using write_run [OF w1(2,3) _ _ m] by auto
  let ?tr = "[Obs_queued Priority_Interactive ?m, Obs_wrote 0 ?m]"
  have r: "at_run w ?tr w2" using run_trans [OF w2(1) w1(1)] by simp
  have "\<exists>ms \<in> shuffles [M_Ping ex_Ping] []. map decode_frame (fst (feed [written 0 ?tr] framer_init)) = map Some ms"
    using transport_delivers [OF r, of 0 "[M_Ping ex_Ping]" "[]" "[written 0 ?tr]"] w w2 q wf by (simp add: in_session_def)
  then show ?thesis using r by (intro exI [of _ w] exI [of _ ?tr] exI [of _ w2]) simp
qed

text \<open>
  C14: The queue outlives its session. Only the sender empties it, on its next turn without a client, and
  nothing makes it take that turn before the next guest is accepted: there is a run in which a message
  queued for one guest is written to the socket of the next.
\<close>

theorem stale_message_reaches_next_guest:
  "\<exists>w. at_run world_init
     [Obs_launch ''R58'', Obs_connect 0, Obs_queued Priority_Interactive [1, 2, 3], Obs_disconnect, Obs_connect 1,
      Obs_wrote 1 [1, 2, 3]] w"
proof -
  let ?m = "[1, 2, 3] :: bytes"
  have q: "at_queue (w_t world_init) = sq_init" "at_launched_serial (w_t world_init) = []"
    by (simp_all add: world_init_def at_start_def transport_init_def set_state_def)
  obtain w where w: "at_run world_init [Obs_launch ''R58'', Obs_connect 0] w" "in_session 0 w" "at_queue (w_t w) = sq_init"
    using connect_run [of world_init 0] world_inv_init q by (auto simp: world_init_def at_start_def transport_init_def set_state_def)
  obtain w1 where w1: "at_run w [Obs_queued Priority_Interactive ?m] w1" "in_session 0 w1" "at_queue (w_t w1) = push_interactive ?m sq_init"
    using send_run [OF w(2), of ?m] w(3) by auto
  obtain w2 where w2: "at_run w1 [Obs_disconnect] w2" "w_tr w2 = Tr_Idle" "at_running (w_t w2)" "w_snd w2 = Snd_Waiting"
    "w_sockets w2 = Suc 0" "world_inv w2" "at_launched_serial (w_t w2) = ''R58''" "at_queue (w_t w2) = push_interactive ?m sq_init"
    using close_run [OF w1(2)] w1(3) by auto
  obtain w3 where w3: "at_run w2 [Obs_connect 1] w3" "in_session 1 w3" "at_queue (w_t w3) = push_interactive ?m sq_init"
    using connect_run [OF w2(2-4), of 1] w2(5-8) by auto
  obtain w4 where w4: "at_run w3 [Obs_wrote 1 ?m] w4" using write_run [OF w3(2,3)] by (auto simp: kWriteChunk_def)
  from run_trans [OF w4 run_trans [OF w3(1) run_trans [OF w2(1) run_trans [OF w1(1) w(1)]]]] show ?thesis by auto
qed

text \<open>
  What arrives in a session is read from a clean start. From the moment a guest is accepted to the
  moment the next one is, the messages handed to the application are those of the bytes received in
  this session alone, whatever a previous session left behind in the middle of a message.
\<close>

theorem session_reads_afresh:
  assumes "w_tr w = Tr_Waiting serial model" and "at_step w [Obs_connect s] w1" and "at_run w1 tr w2"
    and "\<not> list_ex connected_to tr"
  shows "delivered tr = fst (parse (concat (received tr)))"
proof -
  have "framer_idle (framer_reset f)" for f
    by (simp add: framer_idle_def framer_inv_def undecided_def framer_reset_def pending_bytes_def kCompactThreshold_def)
  moreover have "at_framer (w_t w1) = framer_reset (at_framer (w_t w))"
    using assms(2,1) by (cases rule: at_step.cases) (auto simp: transport_defs)
  ultimately have "framer_idle (at_framer (w_t w1))" "pending_bytes (at_framer (w_t w1)) = []"
    by (simp_all add: pending_bytes_def framer_reset_def)
  moreover obtain ms rest d where "parse (concat (received tr)) = (ms, rest, d)" by (metis prod_cases3)
  ultimately show ?thesis using feed_parse [of "at_framer (w_t w1)" "received tr" ms rest d] receive_run [OF assms(3,4)] by auto
qed

theorem session_reads_afresh_witness:
  "\<exists>w1 tr w2. at_run w1 tr w2 \<and> received tr = [[0x44]] \<and> delivered tr = fst (parse [0x44])"
proof -
  let ?w = "world_init\<lparr>w_tr := Tr_Waiting ''R58'' []\<rparr>"
  let ?w1 = "?w\<lparr>w_t := begin_session 0 ''R58'' [] (w_t ?w), w_tr := Tr_Session ''R58'', w_sockets := Suc 0\<rparr>"
  have "accept_loop (\<lambda>_. Slice_accepted 0) 0 = Some 0" by (subst accept_loop.simps) (simp add: kAcceptTimeoutMs_def)
  then have c: "at_step ?w [Obs_connect 0] ?w1" by (intro accept) (simp_all add: world_init_def)
  obtain ms t where r: "receive_bytes [0x44] (w_t ?w1) = (ms, t)" by fastforce
  have "at_step ?w1 (Obs_received [0x44] # map Obs_message ms) (?w1\<lparr>w_t := t\<rparr>)"
    by (rule receive [OF _ _ _ r]) (simp_all add: transport_defs world_init_def at_start_def)
  note run = run_one [OF this]
  have "\<not> list_ex connected_to (Obs_received [0x44] # map Obs_message ms)" by (simp add: list_ex_iff)
  from session_reads_afresh [OF _ c run this] run show ?thesis
    by (intro exI [of _ ?w1] exI [of _ "Obs_received [0x44] # map Obs_message ms"] exI [of _ "?w1\<lparr>w_t := t\<rparr>"]) simp
qed

text \<open>
  C33: The guest is started at most once while the phone stays attached. However often the retry loop
  comes round, if \<open>adb\<close> keeps listing the same phone first, the activity is started at most once, on that
  phone, and only if the phone's own settings file allowed it.
\<close>

theorem launches_once_per_attachment:
  assumes "\<forall>rd \<in> set rounds. \<forall>a. adb_ready a \<longrightarrow> chosen_serial (fst rd) a = Some d"
  shows "fst (prepare_rounds rounds t) = [] \<or>
    fst (prepare_rounds rounds t) = [d] \<and> at_launched_serial t \<noteq> d \<and>
      (\<exists>rd \<in> set rounds. \<exists>a. adb_ready a \<and> read_guest_flag (fst rd) d kGuestSettingsPath ''auto_launch'' True a)"
  using prepare_rounds_launch [OF assms, of t "fst (prepare_rounds rounds t)" "snd (prepare_rounds rounds t)"] by auto

theorem launches_once_per_attachment_witness:
  "length (fst (prepare_rounds (replicate 50 (ex_phone, [''adb''], Some (9, 5000))) transport_init)) \<le> 1"
proof -
  have "chosen_serial ex_phone a = Some ''R58''" if "adb_ready a" for a
    using ex_phone_devices [OF that] by (simp add: chosen_serial_def usable_def)
  then have "\<forall>rd \<in> set (replicate 50 (ex_phone, [''adb''], Some (9 :: nat, 5000 :: int))).
      \<forall>a. adb_ready a \<longrightarrow> chosen_serial (fst rd) a = Some ''R58''" by simp
  from launches_once_per_attachment [OF this, of transport_init] show ?thesis by auto
qed

text \<open>
  C34: The wait for a guest ends. Of the sixty waits of a quarter of a second, the first that is not a
  timeout decides: a socket is accepted exactly when that wait accepted it, and after sixty timeouts the
  loop gives up.
\<close>

theorem accept_waits_fifteen_seconds:
  "accept_loop outcome 0 = Some s \<longleftrightarrow>
     (\<exists>i < 60. outcome i = Slice_accepted s \<and> (\<forall>j < i. outcome j = Slice_timeout))"
proof -
  have "accept_loop outcome (i * kSelectSliceMs) = Some s \<longleftrightarrow>
     (\<exists>k < 60. i \<le> k \<and> outcome k = Slice_accepted s \<and> (\<forall>j < k. i \<le> j \<longrightarrow> outcome j = Slice_timeout))" if "i \<le> 60" for i
    using that
  proof (induction "60 - i" arbitrary: i)
    case 0
    then show ?case by (subst accept_loop.simps) (simp add: kAcceptTimeoutMs_def kSelectSliceMs_def)
  next
    case (Suc n)
    then have i: "i < 60" by simp
    have ih: "accept_loop outcome (i * kSelectSliceMs + kSelectSliceMs) = Some s \<longleftrightarrow>
        (\<exists>k < 60. i + 1 \<le> k \<and> outcome k = Slice_accepted s \<and> (\<forall>j < k. i + 1 \<le> j \<longrightarrow> outcome j = Slice_timeout))"
      using Suc.hyps(1) [of "i + 1"] Suc.hyps(2) i by (simp add: add.commute)
    have d: "i * kSelectSliceMs div kSelectSliceMs = i" "i * kSelectSliceMs < kAcceptTimeoutMs"
      using i by (simp_all add: kSelectSliceMs_def kAcceptTimeoutMs_def)
    have step: "accept_loop outcome (i * kSelectSliceMs) =
       (case outcome i of Slice_timeout \<Rightarrow> accept_loop outcome (i * kSelectSliceMs + kSelectSliceMs)
        | Slice_accepted s \<Rightarrow> Some s | _ \<Rightarrow> None)"
      by (subst accept_loop.simps) (simp add: d split: accept_slice.split)
    have le: "i \<le> k \<longleftrightarrow> k = i \<or> i + 1 \<le> k" for k by auto
    show ?case
    proof (cases "outcome i")
      case Slice_timeout
      then show ?thesis unfolding step using ih i by (auto simp: le)
    next
      case (Slice_accepted s')
      have "k = i" if "outcome k = Slice_accepted s" "\<forall>j < k. i \<le> j \<longrightarrow> outcome j = Slice_timeout" "i \<le> k" for k
        using that Slice_accepted by (cases "i < k") auto
      then have "(\<exists>k < 60. i \<le> k \<and> outcome k = Slice_accepted s \<and> (\<forall>j < k. i \<le> j \<longrightarrow> outcome j = Slice_timeout)) \<longleftrightarrow> s' = s"
        using i Slice_accepted by (metis accept_slice.inject leD order_refl)
      then show ?thesis unfolding step using Slice_accepted by simp
    qed (auto simp: step le i Suc_le_eq)
  qed
  from this [of 0] show ?thesis by simp
qed

theorem accept_waits_fifteen_seconds_witness:
  "accept_loop (\<lambda>i. if i < 3 then Slice_timeout else Slice_accepted 7) 0 = Some 7"
  unfolding accept_waits_fifteen_seconds by (intro exI [of _ 3]) simp

text \<open>
  The sockets follow the thread. In every state the threads can reach together, a client socket is
  open exactly while a session runs or is being closed, and while nothing is served no socket is left
  open, however preparing, accepting or the session ended.
\<close>

theorem no_socket_left_open:
  assumes "at_run world_init tr w"
  shows "(at_client (w_t w) \<noteq> None \<longleftrightarrow> (\<exists>serial. w_tr w = Tr_Session serial \<or> w_tr w = Tr_Closing serial)) \<and>
    (w_tr w = Tr_Idle \<or> w_tr w = Tr_Ended \<longrightarrow> at_listener (w_t w) = None)"
  using world_inv_run [OF assms world_inv_init] by (cases "w_tr w") (auto simp: world_inv_def sockets_ok_def)

theorem no_socket_left_open_witness: "at_listener (w_t world_init) = None"
  using no_socket_left_open [OF at_run_nil] by (simp add: world_init_def)

end
