(* ===== verification/Telemetry.thy ===== *)
theory Telemetry
  imports Digitiz_Prelude Complex_Main "HOL-Library.Multiset"
begin

text \<open>
  The measurements of \<open>host/src/app/LatencyStats.hpp\<close>: a window of the last 120 latencies in a ring, and
  the estimate of the offset between the phone's clock and the host's. A \<open>double\<close> is a real number.
\<close>

section \<open>Definitions\<close>

subsection \<open>LatencyStats\<close>

definition kWindow :: nat where "kWindow = 120"

record latency_stats =
  ls_samples :: "real list"
  ls_next :: nat
  ls_filled :: nat
  ls_last :: real
  ls_total :: u64

definition ls_init :: latency_stats where
  "ls_init = \<lparr>ls_samples = replicate kWindow 0, ls_next = 0, ls_filled = 0, ls_last = 0, ls_total = 0\<rparr>"

definition ls_add :: "real \<Rightarrow> latency_stats \<Rightarrow> latency_stats" where
  "ls_add ms s =
     s\<lparr>ls_samples := (ls_samples s)[ls_next s := ms], ls_next := (ls_next s + 1) mod kWindow,
       ls_filled := (if ls_filled s < kWindow then ls_filled s + 1 else ls_filled s), ls_last := ms, ls_total := ls_total s + 1\<rparr>"

definition ls_reset :: "latency_stats \<Rightarrow> latency_stats" where
  "ls_reset s = s\<lparr>ls_next := 0, ls_filled := 0, ls_last := 0, ls_total := 0\<rparr>"

definition ls_empty :: "latency_stats \<Rightarrow> bool" where
  "ls_empty s \<longleftrightarrow> ls_filled s = 0"

definition ls_min :: "latency_stats \<Rightarrow> real" where
  "ls_min s = (case take (ls_filled s) (ls_samples s) of [] \<Rightarrow> 0 | x # xs \<Rightarrow> fold min xs x)"

definition ls_max :: "latency_stats \<Rightarrow> real" where
  "ls_max s = (case take (ls_filled s) (ls_samples s) of [] \<Rightarrow> 0 | x # xs \<Rightarrow> fold max xs x)"

definition ls_average :: "latency_stats \<Rightarrow> real" where
  "ls_average s = (if ls_filled s = 0 then 0 else sum_list (take (ls_filled s) (ls_samples s)) / of_nat (ls_filled s))"

subsection \<open>ClockSync\<close>

record clock_sync =
  cs_have :: bool
  cs_best_rtt_us :: u64
  cs_offset_us :: real

definition cs_init :: clock_sync where
  "cs_init = \<lparr>cs_have = False, cs_best_rtt_us = 0, cs_offset_us = 0\<rparr>"

definition u64_real :: "u64 \<Rightarrow> real" where
  "u64_real v = of_nat (unat v)"

definition cs_observe :: "u64 \<Rightarrow> u64 \<Rightarrow> u64 \<Rightarrow> clock_sync \<Rightarrow> clock_sync" where
  "cs_observe host_send_us guest_reply_us host_recv_us c =
     (if host_recv_us < host_send_us then c
      else
        let rtt = host_recv_us - host_send_us in
        if cs_have c \<and> cs_best_rtt_us c < rtt then c
        else
          c\<lparr>cs_best_rtt_us := rtt,
            cs_offset_us := u64_real guest_reply_us - (u64_real host_send_us + u64_real rtt / 2), cs_have := True\<rparr>)"

definition cs_reset :: "clock_sync \<Rightarrow> clock_sync" where
  "cs_reset c = c\<lparr>cs_have := False, cs_best_rtt_us := 0, cs_offset_us := 0\<rparr>"

definition to_host_us :: "u64 \<Rightarrow> clock_sync \<Rightarrow> real" where
  "to_host_us guest_us c = u64_real guest_us - cs_offset_us c"

section \<open>The ring holds the last samples\<close>

definition window_of :: "real list \<Rightarrow> real list" where
  "window_of xs = drop (length xs - kWindow) xs"

text \<open>After \<open>xs\<close> were added, the ring read from its oldest entry is the end of \<open>xs\<close>.\<close>

definition ring_inv :: "real list \<Rightarrow> latency_stats \<Rightarrow> bool" where
  "ring_inv xs s \<longleftrightarrow>
     length (ls_samples s) = kWindow \<and> ls_next s = length xs mod kWindow \<and> ls_filled s = min (length xs) kWindow \<and>
     ls_total s = of_nat (length xs) \<and>
     (if length xs < kWindow then take (length xs) (ls_samples s) = xs
      else drop (ls_next s) (ls_samples s) @ take (ls_next s) (ls_samples s) = window_of xs)"

lemma kWindow_pos [simp]: "0 < kWindow"
  by (simp add: kWindow_def)

lemma ring_inv_reset: "length (ls_samples s) = kWindow \<Longrightarrow> ring_inv [] (ls_reset s)"
  by (simp add: ring_inv_def ls_reset_def)

lemma window_snoc:
  assumes "kWindow \<le> length xs"
  shows "window_of (xs @ [x]) = tl (window_of xs) @ [x]"
proof -
  have "length (xs @ [x]) - kWindow = Suc (length xs - kWindow)" "length xs - kWindow < length xs"
    using assms by (simp_all add: kWindow_def)
  then show ?thesis by (simp add: window_of_def drop_Suc tl_drop)
qed

lemma ring_inv_add:
  assumes "ring_inv xs s"
  shows "ring_inv (xs @ [x]) (ls_add x s)"
proof (cases "length xs < kWindow")
  case True
  let ?n = "length xs"
  have i: "length (ls_samples s) = kWindow" "ls_next s = ?n" "take ?n (ls_samples s) = xs"
    using assms True by (auto simp: ring_inv_def)
  have t: "take (Suc ?n) ((ls_samples s)[?n := x]) = xs @ [x]"
    using i True by (simp add: take_Suc_conv_app_nth)
  show ?thesis
  proof (cases "Suc ?n = kWindow")
    case True
    then have "(ls_samples s)[?n := x] = xs @ [x]" using t i(1) by simp
    moreover have "window_of (xs @ [x]) = xs @ [x]" "Suc ?n mod kWindow = 0" "\<not> Suc ?n < kWindow" "min (Suc ?n) kWindow = Suc ?n"
      using True by (simp_all add: window_of_def)
    ultimately show ?thesis using assms i \<open>length xs < kWindow\<close> by (simp add: ring_inv_def ls_add_def)
  next
    case False
    then show ?thesis using assms \<open>length xs < kWindow\<close> i t by (simp add: ring_inv_def ls_add_def min_def)
  qed
next
  case False
  let ?k = "ls_next s" and ?ys = "ls_samples s"
  have i: "length ?ys = kWindow" "?k = length xs mod kWindow" "drop ?k ?ys @ take ?k ?ys = window_of xs"
    using assms False by (auto simp: ring_inv_def)
  have k: "?k < kWindow" using i(2) by simp
  have "drop ?k ?ys = ?ys ! ?k # drop (Suc ?k) ?ys" using k i(1) by (simp add: Cons_nth_drop_Suc)
  then have "tl (window_of xs) = drop (Suc ?k) ?ys @ take ?k ?ys" unfolding i(3) [symmetric] by simp
  then have w: "window_of (xs @ [x]) = drop (Suc ?k) ?ys @ take ?k ?ys @ [x]"
    using window_snoc [of xs x] False by simp
  have t: "take (Suc ?k) (?ys[?k := x]) = take ?k ?ys @ [x]" using k i(1) by (simp add: take_Suc_conv_app_nth)
  have next': "length (xs @ [x]) mod kWindow = Suc ?k mod kWindow" using i(2) by (simp add: mod_Suc_eq)
  show ?thesis
  proof (cases "Suc ?k = kWindow")
    case True
    then have "?ys[?k := x] = take ?k ?ys @ [x]" using t i(1) by simp
    moreover have "drop (Suc ?k) ?ys = []" using True i(1) by simp
    ultimately show ?thesis using assms False w True next' i(1) by (simp add: ring_inv_def ls_add_def min_def)
  next
    case F: False
    then have "Suc ?k mod kWindow = Suc ?k" using k by simp
    then show ?thesis using assms False w t next' i(1) by (simp add: ring_inv_def ls_add_def min_def drop_update_cancel)
  qed
qed

lemma ring_inv_fold: "ring_inv xs s \<Longrightarrow> ring_inv (xs @ ys) (fold ls_add ys s)"
  using ring_inv_add by (induction ys arbitrary: xs s) fastforce+

lemma ring_mset: "ring_inv xs s \<Longrightarrow> mset (take (ls_filled s) (ls_samples s)) = mset (window_of xs)"
proof (cases "length xs < kWindow")
  case False
  assume r: "ring_inv xs s"
  then have t: "take (ls_filled s) (ls_samples s) = ls_samples s" using False by (simp add: ring_inv_def min_def)
  have m: "mset (ls_samples s) = mset (drop (ls_next s) (ls_samples s) @ take (ls_next s) (ls_samples s))"
    by (metis append_take_drop_id mset_append union_commute)
  have "drop (ls_next s) (ls_samples s) @ take (ls_next s) (ls_samples s) = window_of xs"
    using r False unfolding ring_inv_def by argo
  then show ?thesis unfolding t m by (rule arg_cong)
qed (simp add: ring_inv_def window_of_def)

lemma sum_list_mset: "mset xs = mset ys \<Longrightarrow> sum_list xs = sum_list (ys :: real list)"
  by (metis sum_mset_sum_list)

lemma fold_max_list: "fold max xs (x :: real) = Max (set (x # xs))" "fold min xs (x :: real) = Min (set (x # xs))"
  by (simp_all only: Max.set_eq_fold Min.set_eq_fold)

section \<open>The clock estimate\<close>

text \<open>
  An exchange: the ping left at \<open>send\<close>, the guest answered when the host's clock stood at \<open>moment\<close> and its
  own at \<open>moment + offset\<close>, the pong arrived at \<open>recv\<close>.
\<close>

definition exchange_ok :: "real \<Rightarrow> u64 \<times> u64 \<times> u64 \<Rightarrow> bool" where
  "exchange_ok offset = (\<lambda>(send, reply, recv). \<exists>moment. u64_real send \<le> moment \<and> moment \<le> u64_real recv \<and> u64_real reply = moment + offset)"

definition observe_all :: "(u64 \<times> u64 \<times> u64) list \<Rightarrow> clock_sync \<Rightarrow> clock_sync" where
  "observe_all es c = fold (\<lambda>(send, reply, recv). cs_observe send reply recv) es c"

definition clock_good :: "real \<Rightarrow> clock_sync \<Rightarrow> bool" where
  "clock_good offset c \<longleftrightarrow> (cs_have c \<longrightarrow> \<bar>cs_offset_us c - offset\<bar> \<le> u64_real (cs_best_rtt_us c) / 2)"

lemma u64_real_diff: "b \<le> a \<Longrightarrow> u64_real (a - b) = u64_real a - u64_real b"
  by (simp add: u64_real_def unat_sub word_le_nat_alt of_nat_diff)

lemma observe_good:
  assumes "clock_good offset c" "exchange_ok offset (send, reply, recv)"
  shows "clock_good offset (cs_observe send reply recv c)"
proof (cases "recv < send \<or> cs_have c \<and> cs_best_rtt_us c < recv - send")
  case True
  then show ?thesis using assms(1) by (auto simp: cs_observe_def Let_def)
next
  case False
  then have "u64_real (recv - send) = u64_real recv - u64_real send" by (intro u64_real_diff) (simp add: not_less)
  moreover obtain moment where "u64_real send \<le> moment" "moment \<le> u64_real recv" "u64_real reply = moment + offset"
    using assms(2) by (auto simp: exchange_ok_def)
  ultimately have "\<bar>u64_real reply - (u64_real send + u64_real (recv - send) / 2) - offset\<bar> \<le> u64_real (recv - send) / 2"
    unfolding abs_le_iff by (simp add: field_simps)
  then show ?thesis using False by (auto simp: cs_observe_def clock_good_def Let_def)
qed

lemma observe_rtt:
  assumes "send \<le> recv"
  shows "cs_have (cs_observe send reply recv c) \<and> cs_best_rtt_us (cs_observe send reply recv c) \<le> recv - send \<and>
    (cs_have c \<longrightarrow> cs_best_rtt_us (cs_observe send reply recv c) \<le> cs_best_rtt_us c)"
  using assms by (auto simp: cs_observe_def Let_def)

section \<open>Properties\<close>

text \<open>
  What is shown is about the last 120 samples. After a reset and any number of samples, the average,
  the smallest and the largest latency are those of the last 120 samples, or of all of them while there
  are fewer: an old spike ages out and no sample is counted twice.
\<close>

theorem latency_window:
  assumes "length (ls_samples s0) = kWindow" and "xs \<noteq> []"
  shows "(let s = fold ls_add xs (ls_reset s0); w = drop (length xs - 120) xs in
    ls_average s = sum_list w / of_nat (length w) \<and> ls_min s = Min (set w) \<and> ls_max s = Max (set w) \<and>
    ls_total s = of_nat (length xs))"
proof -
  let ?s = "fold ls_add xs (ls_reset s0)" and ?w = "drop (length xs - 120) xs"
  have r: "ring_inv xs ?s" using ring_inv_fold [OF ring_inv_reset [OF assms(1)], of xs] by simp
  have m: "mset (take (ls_filled ?s) (ls_samples ?s)) = mset ?w" using ring_mset [OF r] by (simp add: window_of_def kWindow_def)
  let ?t = "take (ls_filled ?s) (ls_samples ?s)"
  have l: "length ?t = length ?w" "set ?t = set ?w" "sum_list ?t = sum_list ?w"
    using m mset_eq_length mset_eq_setD sum_list_mset by blast+
  have f: "ls_filled ?s = length ?w" using l(1) r by (simp add: ring_inv_def kWindow_def min_def split: if_splits)
  have "0 < length ?w" using assms(2) by simp
  then have "?t \<noteq> []" unfolding l(1) [symmetric] by (rule length_greater_0_conv [THEN iffD1])
  then obtain y ys where t: "?t = y # ys" by (meson neq_Nil_conv)
  have "ls_average ?s = sum_list ?w / of_nat (length ?w)" 
    using f l(3) \<open>0 < length ?w\<close> unfolding ls_average_def by (simp only: neq0_conv [symmetric] if_False)
  moreover have "ls_min ?s = Min (set ?w)" "ls_max ?s = Max (set ?w)"
    unfolding l(2) [symmetric] ls_min_def ls_max_def t by (simp_all only: list.case fold_max_list)
  moreover have "ls_total ?s = of_nat (length xs)" using r by (simp add: ring_inv_def)
  ultimately show ?thesis by (simp add: Let_def)
qed

theorem latency_window_witness:
  "ls_max (fold ls_add (900 # replicate 120 2) (ls_reset ls_init)) = 2"
  using latency_window [of ls_init "900 # replicate 120 2"] by (simp add: ls_init_def kWindow_def Let_def)

text \<open>
  The clock offset is known to half the fastest round trip. Whatever the delays on each leg were, if
  the guest's clock runs at a constant offset from the host's, the estimate after any exchanges is off
  by at most half of the shortest round trip seen, so a timestamp from the phone is placed on the host's
  clock with that accuracy.
\<close>

theorem clock_error_bound:
  assumes "\<forall>e \<in> set es. exchange_ok offset e" and "(send, reply, recv) \<in> set es" and "send \<le> recv"
  shows "(let c = observe_all es cs_init in
    cs_have c \<and> \<bar>cs_offset_us c - offset\<bar> \<le> u64_real (recv - send) / 2 \<and>
    \<bar>to_host_us t c - (u64_real t - offset)\<bar> \<le> u64_real (recv - send) / 2)"
proof -
  have good: "clock_good offset (observe_all es' c)" if "clock_good offset c" "\<forall>e \<in> set es'. exchange_ok offset e" for es' c
    using that by (induction es' arbitrary: c) (auto simp: observe_all_def intro!: observe_good)
  have keep: "cs_have (observe_all es' c) \<and> cs_best_rtt_us (observe_all es' c) \<le> k"
    if "cs_have c" "cs_best_rtt_us c \<le> k" for es' c k
    using that
  proof (induction es' arbitrary: c)
    case (Cons e es')
    obtain a b d where e: "e = (a, b, d)" by (metis prod_cases3)
    have "cs_have (cs_observe a b d c) \<and> cs_best_rtt_us (cs_observe a b d c) \<le> k"
      using Cons.prems observe_rtt [of a d b c] by (cases "a \<le> d") (auto simp: cs_observe_def)
    then show ?case using Cons.IH [of "cs_observe a b d c"] by (simp add: observe_all_def e)
  qed (simp add: observe_all_def)
  obtain as bs where es: "es = as @ (send, reply, recv) # bs" using assms(2) by (meson split_list)
  let ?c = "observe_all es cs_init"
  have "observe_all es cs_init = observe_all bs (cs_observe send reply recv (observe_all as cs_init))"
    by (simp add: observe_all_def es)
  then have k: "cs_have ?c" "cs_best_rtt_us ?c \<le> recv - send"
    using keep [of "cs_observe send reply recv (observe_all as cs_init)" "recv - send" bs]
      observe_rtt [OF assms(3), of reply "observe_all as cs_init"] by auto
  have "clock_good offset ?c" by (rule good [OF _ assms(1)]) (simp add: clock_good_def cs_init_def)
  then have "\<bar>cs_offset_us ?c - offset\<bar> \<le> u64_real (cs_best_rtt_us ?c) / 2" using k(1) by (simp add: clock_good_def)
  moreover have "u64_real (cs_best_rtt_us ?c) \<le> u64_real (recv - send)"
    unfolding u64_real_def using k(2) by (simp only: word_le_nat_alt of_nat_le_iff)
  ultimately have e: "\<bar>cs_offset_us ?c - offset\<bar> \<le> u64_real (recv - send) / 2" by linarith
  moreover have "to_host_us t ?c - (u64_real t - offset) = - (cs_offset_us ?c - offset)" by (simp add: to_host_us_def)
  ultimately show ?thesis using k(1) unfolding Let_def by (metis abs_minus_cancel)
qed

theorem clock_error_bound_witness:
  "\<bar>cs_offset_us (observe_all [(1000, 5400, 1900), (3000, 7110, 3200)] cs_init) - 4000\<bar> \<le> 100"
proof -
  have "\<forall>e \<in> set [(1000, 5400, 1900), (3000, 7110, 3200)]. exchange_ok 4000 e"
    by (auto simp: exchange_ok_def u64_real_def intro: exI [of _ 1400] exI [of _ 3110])
  from clock_error_bound [OF this, of 3000 7110 3200] show ?thesis by (simp add: Let_def u64_real_def)
qed

end
