(* ===== verification/ForegroundWatcher.thy ===== *)
theory ForegroundWatcher
  imports Geometry
begin

text \<open>
  Which program has the focus, \<open>host/src/platform/Win32ForegroundWatcher.cpp\<close>: \<open>poll\<close> as a function of the
  window that has the focus (or none) and the time. Naming the program of a window is an argument.
\<close>

section \<open>Definitions\<close>

definition kSettleDelay :: int where "kSettleDelay = 200"

record ForegroundWindow =
  fg_pid :: u32
  fg_process :: string

definition no_window :: ForegroundWindow where
  "no_window = \<lparr>fg_pid = 0, fg_process = []\<rparr>"

text \<open>
  \<open>process_name_of\<close>, with the path the system has for the process (none, if it refuses), and \<open>focused_window_bounds\<close>
  with the frame (left, top, right, bottom) of the focused window.
\<close>

fun file_name :: "string \<Rightarrow> string \<Rightarrow> string" where
  "file_name begin [] = begin"
| "file_name begin (c # path) = file_name (if c = CHR 0x5C \<or> c = CHR ''/'' then path else begin) path"

definition process_name_of :: "(u32 \<Rightarrow> string option) \<Rightarrow> u32 \<Rightarrow> string" where
  "process_name_of image_name pid =
     (if pid = 0 then [] else case image_name pid of None \<Rightarrow> [] | Some path \<Rightarrow> if path = [] then [] else file_name path path)"

definition focused_window_bounds :: "(int \<times> int \<times> int \<times> int) option \<Rightarrow> Recti option" where
  "focused_window_bounds visible_frame =
     (case visible_frame of
        None \<Rightarrow> None
      | Some (r_left, r_top, r_right, r_bottom) \<Rightarrow>
          let out = recti r_left r_top (r_right - r_left) (r_bottom - r_top) in if 0 < rect_w out \<and> 0 < rect_h out then Some out else None)"

record watcher =
  wt_last_hwnd :: "nat option"
  wt_pending :: ForegroundWindow
  wt_current :: ForegroundWindow
  wt_pending_since :: int
  wt_settling :: bool
  wt_seen :: bool

definition watcher_init :: watcher where
  "watcher_init =
     \<lparr>wt_last_hwnd = None, wt_pending = no_window, wt_current = no_window, wt_pending_since = 0, wt_settling = False,
      wt_seen = False\<rparr>"

text \<open>The end of \<open>poll\<close>: a change that has settled is reported.\<close>

definition poll_settled :: "int \<Rightarrow> watcher \<Rightarrow> ForegroundWindow option \<times> watcher" where
  "poll_settled now w =
     (if \<not> wt_settling w \<or> now - wt_pending_since w < kSettleDelay then (None, w)
      else (Some (wt_pending w), w\<lparr>wt_settling := False, wt_seen := True, wt_current := wt_pending w\<rparr>))"

definition fg_poll :: "(nat \<Rightarrow> ForegroundWindow) \<Rightarrow> nat option \<Rightarrow> int \<Rightarrow> watcher \<Rightarrow> ForegroundWindow option \<times> watcher" where
  "fg_poll program hwnd now w =
     (case hwnd of
        None \<Rightarrow> (None, w)
      | Some h \<Rightarrow>
          if wt_last_hwnd w \<noteq> Some h then
            let w1 = w\<lparr>wt_last_hwnd := Some h\<rparr>; fresh = program h in
            if wt_seen w1 \<and> fresh = wt_pending w1 then (None, w1)
            else
              poll_settled now
                (w1\<lparr>wt_pending := fresh, wt_pending_since := now, wt_settling := (fresh \<noteq> wt_current w1 \<or> \<not> wt_seen w1)\<rparr>)
          else poll_settled now w)"

text \<open>Polls at given times, and what they report.\<close>

fun fg_polls :: "(nat \<Rightarrow> ForegroundWindow) \<Rightarrow> (nat option \<times> int) list \<Rightarrow> watcher \<Rightarrow> (ForegroundWindow option) list \<times> watcher" where
  "fg_polls program [] w = ([], w)"
| "fg_polls program ((hwnd, now) # ps) w =
     (let (r, w1) = fg_poll program hwnd now w; (rs, w2) = fg_polls program ps w1 in (r # rs, w2))"

section \<open>Names\<close>

lemma file_name_plain:
  "file_name (b @ path) path =
     (if \<exists>c \<in> set path. c = CHR 0x5C \<or> c = CHR ''/'' then rev (takeWhile (\<lambda>c. c \<noteq> CHR 0x5C \<and> c \<noteq> CHR ''/'') (rev path))
      else b @ path)"
proof (induction path arbitrary: b)
  case (Cons c path)
  have "file_name (b @ c # path) path = file_name ((b @ [c]) @ path) path" by simp
  then show ?case using Cons.IH [of "[]"] Cons.IH [of "b @ [c]"]
    by (auto simp: takeWhile_append takeWhile_tail)
qed simp

text \<open>The name reported is what follows the last separator of the path.\<close>

lemma file_name_last:
  "file_name path path = rev (takeWhile (\<lambda>c. c \<noteq> CHR 0x5C \<and> c \<noteq> CHR ''/'') (rev path))"
  using file_name_plain [of "[]" path] by (auto simp: takeWhile_eq_all_conv [THEN iffD2])

section \<open>Invariant\<close>

text \<open>
  After the polls \<open>ps\<close> (latest last): a settling change is one, and the pending program has had the
  focus at every poll since it became pending.
\<close>

definition watch_inv :: "(nat \<Rightarrow> ForegroundWindow) \<Rightarrow> (nat option \<times> int) list \<Rightarrow> watcher \<Rightarrow> bool" where
  "watch_inv program ps w \<longleftrightarrow>
     (wt_settling w \<longrightarrow> wt_seen w \<longrightarrow> wt_pending w \<noteq> wt_current w) \<and>
     (\<forall>h. wt_last_hwnd w = Some h \<longrightarrow> program h = wt_pending w) \<and>
     (wt_settling w \<longrightarrow>
       (\<exists>before h since. ps = before @ (Some h, wt_pending_since w) # since \<and> program h = wt_pending w \<and>
          (\<forall>h' t. (Some h', t) \<in> set since \<longrightarrow> program h' = wt_pending w)))"

lemma watch_inv_init: "watch_inv program [] watcher_init"
  by (simp add: watch_inv_def watcher_init_def)

lemma watch_extend:
  assumes "watch_inv program ps w" "\<And>h. hwnd = Some h \<Longrightarrow> program h = wt_pending w"
  shows "watch_inv program (ps @ [(hwnd, now)]) w"
proof -
  { assume "wt_settling w"
    then obtain before h since where *: "ps = before @ (Some h, wt_pending_since w) # since" "program h = wt_pending w"
      "\<forall>h' t. (Some h', t) \<in> set since \<longrightarrow> program h' = wt_pending w" using assms(1) by (auto simp: watch_inv_def)
    then have "ps @ [(hwnd, now)] = before @ (Some h, wt_pending_since w) # since @ [(hwnd, now)]"
      "\<forall>h' t. (Some h', t) \<in> set (since @ [(hwnd, now)]) \<longrightarrow> program h' = wt_pending w" using assms(2) by auto
    with *(2) have "\<exists>before h since. ps @ [(hwnd, now)] = before @ (Some h, wt_pending_since w) # since \<and> program h = wt_pending w \<and>
        (\<forall>h' t. (Some h', t) \<in> set since \<longrightarrow> program h' = wt_pending w)" by blast }
  then show ?thesis using assms(1) by (simp add: watch_inv_def)
qed

lemma watch_settled:
  assumes "watch_inv program ps w" "poll_settled now w = (r, w')"
  shows "watch_inv program ps w'"
  using assms by (auto simp: poll_settled_def watch_inv_def split: if_splits)

lemma watch_poll:
  assumes "watch_inv program ps w" "fg_poll program hwnd now w = (r, w')"
  shows "watch_inv program (ps @ [(hwnd, now)]) w'"
proof (cases hwnd)
  case None
  then show ?thesis using watch_extend [OF assms(1), of hwnd now] assms(2) by (simp add: fg_poll_def)
next
  case (Some h)
  consider (same) "wt_last_hwnd w = Some h" | (known) "wt_last_hwnd w \<noteq> Some h" "wt_seen w" "program h = wt_pending w"
    | (fresh) "wt_last_hwnd w \<noteq> Some h" "\<not> (wt_seen w \<and> program h = wt_pending w)" by blast
  then show ?thesis
  proof cases
    case same
    then have "program h = wt_pending w" using assms(1) by (simp add: watch_inv_def)
    from watch_settled [OF watch_extend [OF assms(1), of hwnd now]] this same assms(2) Some show ?thesis by (simp add: fg_poll_def)
  next
    case known
    have "watch_inv program (ps @ [(hwnd, now)]) w" by (rule watch_extend [OF assms(1)]) (use known Some in auto)
    moreover have "w' = w\<lparr>wt_last_hwnd := Some h\<rparr>" using known assms(2) Some by (simp add: fg_poll_def)
    ultimately show ?thesis using known(3) by (simp add: watch_inv_def)
  next
    case fresh
    let ?w1 = "w\<lparr>wt_last_hwnd := Some h, wt_pending := program h, wt_pending_since := now,
        wt_settling := (program h \<noteq> wt_current w \<or> \<not> wt_seen w)\<rparr>"
    have "\<exists>before h' since. ps @ [(Some h, now)] = before @ (Some h', now) # since \<and> program h' = program h \<and>
        (\<forall>h'' t. (Some h'', t) \<in> set since \<longrightarrow> program h'' = program h)"
      by (rule exI [of _ ps], rule exI [of _ h], rule exI [of _ "[]"]) simp
    then have "watch_inv program (ps @ [(hwnd, now)]) ?w1" by (auto simp: watch_inv_def Some)
    moreover have "poll_settled now ?w1 = (r, w')"
      using fresh assms(2) unfolding fg_poll_def Some by (simp only: option.case if_True if_False Let_def) (auto split: if_splits)
    ultimately show ?thesis by (rule watch_settled)
  qed
qed

lemma fg_polls_append:
  "fg_polls program (ps @ qs) w = (let (rs, w1) = fg_polls program ps w; (ss, w2) = fg_polls program qs w1 in (rs @ ss, w2))"
  by (induction ps arbitrary: w) (auto simp: Let_def split: prod.splits)

lemma watch_polls: "watch_inv program ps w \<Longrightarrow> fg_polls program qs w = (rs, w') \<Longrightarrow> watch_inv program (ps @ qs) w'"
proof (induction qs arbitrary: ps w rs)
  case (Cons q qs)
  obtain hwnd now where q: "q = (hwnd, now)" by fastforce
  obtain r w1 where p: "fg_poll program hwnd now w = (r, w1)" by fastforce
  obtain rs' where "fg_polls program qs w1 = (rs', w')" using Cons.prems(2) p by (auto simp: q split: prod.splits)
  from Cons.IH [OF watch_poll [OF Cons.prems(1) p] this] show ?case by (simp add: q)
qed simp

lemma fg_poll_report:
  assumes "fg_poll program hwnd now w = (Some g, w')" "watch_inv program ps w"
  shows "g = wt_pending w' \<and> wt_current w' = g \<and> wt_seen w' \<and> (wt_seen w \<longrightarrow> g \<noteq> wt_current w) \<and>
    kSettleDelay \<le> now - wt_pending_since w' \<and>
    (\<exists>before h since. ps @ [(hwnd, now)] = before @ (Some h, wt_pending_since w') # since \<and> program h = g \<and>
          (\<forall>h' t. (Some h', t) \<in> set since \<longrightarrow> program h' = g))"
proof -
  have k: "0 < kSettleDelay" by (simp add: kSettleDelay_def)
  obtain h where h: "hwnd = Some h" "wt_last_hwnd w = Some h" "poll_settled now w = (Some g, w')"
    using assms(1) k by (auto simp: fg_poll_def poll_settled_def Let_def split: option.splits if_splits)
  have s: "wt_settling w" "g = wt_pending w" "kSettleDelay \<le> now - wt_pending_since w" "w' = w\<lparr>wt_settling := False, wt_seen := True, wt_current := wt_pending w\<rparr>"
    using h(3) by (auto simp: poll_settled_def split: if_splits)
  have "program h = wt_pending w" using assms(2) h(2) by (simp add: watch_inv_def)
  then have "watch_inv program (ps @ [(hwnd, now)]) w" by (intro watch_extend [OF assms(2)]) (use h(1) in auto)
  then show ?thesis using s assms(2) by (auto simp: watch_inv_def)
qed

section \<open>Properties\<close>

text \<open>
  Only a program the focus came to rest on is reported, and only when it is news. Whenever a poll
  reports a program, every poll of at least the last 200 milliseconds that found a window found one of
  that program, and the program differs from the one reported before.
\<close>

theorem reports_settled_programs:
  assumes "fg_polls program ps watcher_init = (rs, w)" and "fg_poll program hwnd now w = (Some g, w')"
  shows "(\<exists>before h t0 since. ps @ [(hwnd, now)] = before @ (Some h, t0) # since \<and> t0 + 200 \<le> now \<and> program h = g \<and>
      (\<forall>h' t. (Some h', t) \<in> set since \<longrightarrow> program h' = g)) \<and>
    (wt_seen w \<longrightarrow> g \<noteq> wt_current w) \<and> wt_seen w' \<and> wt_current w' = g"
proof -
  have "watch_inv program ps w" using watch_polls [OF watch_inv_init assms(1)] by simp
  from fg_poll_report [OF assms(2) this] obtain before h since where
    "ps @ [(hwnd, now)] = before @ (Some h, wt_pending_since w') # since" "program h = g"
    "\<forall>h' t. (Some h', t) \<in> set since \<longrightarrow> program h' = g" "wt_pending_since w' + 200 \<le> now"
    "wt_seen w \<longrightarrow> g \<noteq> wt_current w" "wt_seen w'" "wt_current w' = g" by (auto simp: kSettleDelay_def)
  then show ?thesis by blast
qed

definition ex_program :: "nat \<Rightarrow> ForegroundWindow" where
  "ex_program h = \<lparr>fg_pid = of_nat h, fg_process = ''krita.exe''\<rparr>"

theorem reports_settled_programs_witness:
  "\<exists>w w'. fg_polls ex_program [(Some 7, 10), (None, 90)] watcher_init = ([None, None], w) \<and>
     fg_poll ex_program (Some 7) 250 w = (Some (ex_program 7), w') \<and> wt_seen w'"
proof -
  obtain rs w where p: "fg_polls ex_program [(Some 7, 10), (None, 90)] watcher_init = (rs, w)" "rs = [None, None]"
    "wt_last_hwnd w = Some 7" "wt_pending w = ex_program 7" "wt_pending_since w = 10" "wt_settling w"
    by (simp add: fg_poll_def poll_settled_def watcher_init_def Let_def kSettleDelay_def)
  obtain w' where q: "fg_poll ex_program (Some 7) 250 w = (Some (ex_program 7), w')"
    using p by (simp add: fg_poll_def poll_settled_def kSettleDelay_def)
  from reports_settled_programs [OF p(1) q] p(1,2) q show ?thesis by blast
qed

end
