(* ===== verification/HostApp.thy ===== *)
theory HostApp
  imports AdbTransport PointerPipeline FrameSender Telemetry ForegroundWatcher
begin

text \<open>
  The host application, \<open>host/src/app/HostApp.cpp\<close>, without its drawing: the handlers of the transport
  thread (\<open>on_transport_connect\<close>, \<open>on_transport_disconnect\<close>, \<open>on_transport_message\<close>) and the work of the user
  interface thread (\<open>tick\<close> and what the panels change), composed of the pointer pipeline, the frame
  sender, the settings and the measurements; and the display layout of \<open>host/src/display/DisplayInfo.hpp\<close>.

  What a handler asks of the transport is its output. Times, the display layout, the focused window and
  the frame of the focused window are arguments. The pipeline is kept with the injector it drives, the
  frame sender with the capture it drives. Steady clock times are microseconds.
\<close>

section \<open>Definitions\<close>

subsection \<open>Display layout\<close>

record MonitorInfo =
  mi_bounds :: Recti
  mi_dpi :: u32
  mi_primary :: bool
  mi_name :: string

record DisplayLayout =
  dl_virtual_bounds :: Recti
  dl_monitors :: "MonitorInfo list"

definition on_a_screen :: "DisplayLayout \<Rightarrow> int \<Rightarrow> int \<Rightarrow> bool" where
  "on_a_screen l x y =
     (if dl_monitors l = [] then contains (dl_virtual_bounds l) x y
      else list_ex (\<lambda>m. contains (mi_bounds m) x y) (dl_monitors l))"

subsection \<open>State\<close>

definition kLayoutRefreshInterval :: int where "kLayoutRefreshInterval = 1000000"
definition kPingInterval :: int where "kPingInterval = 1000000"
definition kMaxUnansweredPings :: int where "kMaxUnansweredPings = 3"

record AccuracyResult =
  ac_samples :: int
  ac_failures :: int
  ac_max_error_px :: real
  ac_mean_error_px :: real
  ac_worst_x :: int
  ac_worst_y :: int
  ac_ran :: bool

definition accuracy_init :: AccuracyResult where
  "accuracy_init = \<lparr>ac_samples = 0, ac_failures = 0, ac_max_error_px = 0, ac_mean_error_px = 0, ac_worst_x = 0, ac_worst_y = 0,
     ac_ran = False\<rparr>"

record ('i, 'w) host_app =
  app_pipeline :: "pipeline \<times> 'i"
  app_frames :: "frame_sender \<times> 'w"
  app_guest :: Hello
  app_guest_known :: bool
  app_hello_ack_pending :: bool
  app_rtt_ms :: real
  app_unanswered_pings :: int
  app_pending_viewport :: ViewportReq
  app_viewport_pending :: bool
  app_pen_down :: bool
  app_stroke_samples :: int
  app_smoothed_before_stroke :: u64
  app_clock :: clock_sync
  app_link_latency :: latency_stats
  app_inject_latency :: latency_stats
  app_sample_interval :: latency_stats
  app_last_sample_us :: u64
  app_session_active :: bool
  app_last_ping :: int
  app_layout :: DisplayLayout
  app_last_layout_query :: int
  app_active_window :: ActiveWindow
  app_active_window_known :: bool
  app_settings :: host_settings
  app_enabled :: bool
  app_accuracy :: AccuracyResult

definition hello_init :: Hello where
  "hello_init = \<lparr>h_proto_ver = 0, h_screen_w = 0, h_screen_h = 0, h_density = 0, h_device = []\<rparr>"

definition app_new :: "'i \<Rightarrow> 'w \<Rightarrow> ('i, 'w) host_app" where
  "app_new i w =
     \<lparr>app_pipeline = (pipeline_init, i), app_frames = (sender_init, w), app_guest = hello_init, app_guest_known = False,
      app_hello_ack_pending = False, app_rtt_ms = -1, app_unanswered_pings = 0, app_pending_viewport = viewport_req_init,
      app_viewport_pending = False, app_pen_down = False, app_stroke_samples = 0, app_smoothed_before_stroke = 0,
      app_clock = cs_init, app_link_latency = ls_init, app_inject_latency = ls_init, app_sample_interval = ls_init,
      app_last_sample_us = 0, app_session_active = False, app_last_ping = 0,
      app_layout = \<lparr>dl_virtual_bounds = recti 0 0 0 0, dl_monitors = []\<rparr>, app_last_layout_query = 0,
      app_active_window = \<lparr>aw_pid = 0, aw_process = []\<rparr>, app_active_window_known = False, app_settings = host_settings_init,
      app_enabled = False, app_accuracy = accuracy_init\<rparr>"

datatype host_out = Out_send bytes | Out_bulk bytes | Out_drop | Out_log LogLevel string

subsection \<open>Transport thread\<close>

text \<open>
  The handlers of a new and of a lost connection, in the parts that another thread may come between: what is
  done under one lock, or to one atomic member, is one part.
\<close>

definition connect_reset :: "('i, 'w) host_app \<Rightarrow> ('i, 'w) host_app" where
  "connect_reset a =
     a\<lparr>app_guest_known := False, app_hello_ack_pending := False, app_rtt_ms := -1, app_unanswered_pings := 0,
       app_clock := cs_reset (app_clock a), app_link_latency := ls_reset (app_link_latency a),
       app_inject_latency := ls_reset (app_inject_latency a), app_sample_interval := ls_reset (app_sample_interval a),
       app_last_sample_us := 0\<rparr>"

definition session_opened :: "('i, 'w) host_app \<Rightarrow> ('i, 'w) host_app" where
  "session_opened a = a\<lparr>app_session_active := True\<rparr>"

definition ping_timed :: "int \<Rightarrow> ('i, 'w) host_app \<Rightarrow> ('i, 'w) host_app" where
  "ping_timed now a = a\<lparr>app_last_ping := now\<rparr>"

definition on_transport_connect :: "int \<Rightarrow> ('i, 'w) host_app \<Rightarrow> ('i, 'w) host_app" where
  "on_transport_connect now a = ping_timed now (session_opened (connect_reset a))"

definition session_closed :: "('i, 'w) host_app \<Rightarrow> ('i, 'w) host_app" where
  "session_closed a = a\<lparr>app_session_active := False\<rparr>"

definition frames_stopped :: "'w frame_source \<Rightarrow> ('i, 'w) host_app \<Rightarrow> ('i, 'w) host_app" where
  "frames_stopped io a = a\<lparr>app_frames := sender_stop io (app_frames a)\<rparr>"

definition strokes_ended :: "'i injector_ops \<Rightarrow> ('i, 'w) host_app \<Rightarrow> ('i, 'w) host_app" where
  "strokes_ended ops a = a\<lparr>app_pipeline := end_session ops (app_pipeline a)\<rparr>"

definition guest_forgotten :: "('i, 'w) host_app \<Rightarrow> ('i, 'w) host_app" where
  "guest_forgotten a = a\<lparr>app_guest_known := False, app_rtt_ms := -1, app_pen_down := False\<rparr>"

definition on_transport_disconnect :: "'i injector_ops \<Rightarrow> 'w frame_source \<Rightarrow> ('i, 'w) host_app \<Rightarrow> ('i, 'w) host_app" where
  "on_transport_disconnect ops io a = guest_forgotten (strokes_ended ops (frames_stopped io (session_closed a)))"

definition on_viewport_req :: "bytes \<Rightarrow> ('i, 'w) host_app \<Rightarrow> host_out list \<times> ('i, 'w) host_app" where
  "on_viewport_req payload a =
     (case decode_ViewportReq payload of
        None \<Rightarrow> ([], a)
      | Some request \<Rightarrow> ([], a\<lparr>app_pending_viewport := request, app_viewport_pending := True\<rparr>))"

definition on_key :: "'i injector_ops \<Rightarrow> bytes \<Rightarrow> ('i, 'w) host_app \<Rightarrow> host_out list \<times> ('i, 'w) host_app" where
  "on_key ops payload a =
     (case decode_Key payload of
        None \<Rightarrow> ([], a)
      | Some key \<Rightarrow> ([], a\<lparr>app_pipeline := handle_key ops key (app_pipeline a)\<rparr>))"

text \<open>
  A pointer message, in its parts: the stroke begun or counted, the pen and the interval noted, the link measured,
  the injection, the injection measured. \<open>arrived_us\<close>, \<open>before_inject\<close> and \<open>after_inject\<close> are the three readings of the
  clock, \<open>window\<close> the frame of the focused window.
\<close>

definition pointer_counted :: "Pointer \<Rightarrow> ('i, 'w) host_app \<Rightarrow> ('i, 'w) host_app" where
  "pointer_counted p a =
     (let a1 = (if p_action p = Action_Down
            then a\<lparr>app_stroke_samples := 0, app_last_sample_us := 0,
                   app_smoothed_before_stroke := st_smoothed_points (pp_stats (fst (app_pipeline a)))\<rparr> else a) in
      a1\<lparr>app_stroke_samples := app_stroke_samples a1 + 1\<rparr>)"

definition pointer_noted :: "u64 \<Rightarrow> Pointer \<Rightarrow> ('i, 'w) host_app \<Rightarrow> ('i, 'w) host_app" where
  "pointer_noted arrived_us p a =
     a\<lparr>app_pen_down := (p_action p \<noteq> Action_Up \<and> p_action p \<noteq> Action_Cancel),
       app_sample_interval :=
         (if app_last_sample_us a \<noteq> 0 \<and> app_last_sample_us a < arrived_us
          then ls_add (u64_real (arrived_us - app_last_sample_us a) / 1000) (app_sample_interval a)
          else app_sample_interval a),
       app_last_sample_us := arrived_us\<rparr>"

definition pointer_measured :: "u64 \<Rightarrow> Pointer \<Rightarrow> ('i, 'w) host_app \<Rightarrow> ('i, 'w) host_app" where
  "pointer_measured arrived_us p a =
     (let link_ms = (u64_real arrived_us - to_host_us (p_t_us p) (app_clock a)) / 1000 in
      if cs_have (app_clock a) \<and> 0 \<le> link_ms \<and> link_ms < 1000
      then a\<lparr>app_link_latency := ls_add link_ms (app_link_latency a)\<rparr> else a)"

definition pointer_injected :: "'i injector_ops \<Rightarrow> Recti option \<Rightarrow> Pointer \<Rightarrow> ('i, 'w) host_app \<Rightarrow> ('i, 'w) host_app" where
  "pointer_injected ops window p a =
     a\<lparr>app_pipeline := handle_pointer ops (Some (on_a_screen (app_layout a))) window p (app_pipeline a)\<rparr>"

definition injection_timed :: "u64 \<Rightarrow> u64 \<Rightarrow> ('i, 'w) host_app \<Rightarrow> ('i, 'w) host_app" where
  "injection_timed before_inject after_inject a =
     a\<lparr>app_inject_latency := ls_add (u64_real (after_inject - before_inject) / 1000) (app_inject_latency a)\<rparr>"

definition on_pointer ::
  "'i injector_ops \<Rightarrow> Recti option \<Rightarrow> u64 \<Rightarrow> u64 \<Rightarrow> u64 \<Rightarrow> bytes \<Rightarrow> ('i, 'w) host_app \<Rightarrow> host_out list \<times> ('i, 'w) host_app" where
  "on_pointer ops window arrived_us before_inject after_inject payload a =
     (case decode_Pointer payload of
        None \<Rightarrow> ([], a)
      | Some p \<Rightarrow>
          ([], injection_timed before_inject after_inject (pointer_injected ops window p
                 (pointer_measured arrived_us p (pointer_noted arrived_us p (pointer_counted p a))))))"

definition on_hello :: "bytes \<Rightarrow> ('i, 'w) host_app \<Rightarrow> host_out list \<times> ('i, 'w) host_app" where
  "on_hello payload a =
     (case decode_Hello payload of
        None \<Rightarrow> ([], a)
      | Some hello \<Rightarrow>
          if h_proto_ver hello \<noteq> kProtocolVersion then ([Out_drop], a)
          else ([], a\<lparr>app_guest := hello, app_guest_known := True, app_hello_ack_pending := True\<rparr>))"

definition on_pong :: "u64 \<Rightarrow> bytes \<Rightarrow> ('i, 'w) host_app \<Rightarrow> host_out list \<times> ('i, 'w) host_app" where
  "on_pong recv_us payload a =
     (case decode_Pong payload of
        None \<Rightarrow> ([], a)
      | Some pong \<Rightarrow>
          ([], a\<lparr>app_rtt_ms := u64_real (recv_us - pong_t_send_us pong) / 1000, app_unanswered_pings := 0,
                 app_clock := cs_observe (pong_t_send_us pong) (pong_t_reply_us pong) recv_us (app_clock a)\<rparr>))"

definition on_ping :: "u64 \<Rightarrow> bytes \<Rightarrow> ('i, 'w) host_app \<Rightarrow> host_out list \<times> ('i, 'w) host_app" where
  "on_ping now_us payload a =
     (case decode_Ping payload of
        None \<Rightarrow> ([], a)
      | Some ping \<Rightarrow> ([Out_send (encode_Pong \<lparr>pong_t_send_us = ping_t_send_us ping, pong_t_reply_us = now_us\<rparr>)], a))"

definition on_log :: "bytes \<Rightarrow> ('i, 'w) host_app \<Rightarrow> host_out list \<times> ('i, 'w) host_app" where
  "on_log payload a =
     (case decode_LogMessage payload of
        None \<Rightarrow> ([], a)
      | Some msg \<Rightarrow> ([Out_log (lm_level msg) (''[guest] '' @ lm_text msg)], a))"

definition on_transport_message ::
  "'i injector_ops \<Rightarrow> Recti option \<Rightarrow> u64 \<Rightarrow> u64 \<Rightarrow> u64 \<Rightarrow> MsgType \<Rightarrow> bytes \<Rightarrow> ('i, 'w) host_app \<Rightarrow>
    host_out list \<times> ('i, 'w) host_app" where
  "on_transport_message ops window now1 now2 now3 type payload a =
     (case type of
        Msg_ViewportReq \<Rightarrow> on_viewport_req payload a
      | Msg_Key \<Rightarrow> on_key ops payload a
      | Msg_Pointer \<Rightarrow> on_pointer ops window now1 now2 now3 payload a
      | Msg_Hello \<Rightarrow> on_hello payload a
      | Msg_Pong \<Rightarrow> on_pong now1 payload a
      | Msg_Ping \<Rightarrow> on_ping now1 payload a
      | Msg_Log \<Rightarrow> on_log payload a
      | _ \<Rightarrow> ([], a))"

subsection \<open>User interface thread\<close>

definition hello_ack_of :: "DisplayLayout \<Rightarrow> HelloAck" where
  "hello_ack_of l =
     \<lparr>ha_proto_ver = kProtocolVersion, ha_host_os = Os_Windows, ha_vx = word_of_int (rect_x (dl_virtual_bounds l)),
      ha_vy = word_of_int (rect_y (dl_virtual_bounds l)), ha_vw = word_of_int (rect_w (dl_virtual_bounds l)),
      ha_vh = word_of_int (rect_h (dl_virtual_bounds l)),
      ha_monitors =
        map (\<lambda>m. \<lparr>mon_x = word_of_int (rect_x (mi_bounds m)), mon_y = word_of_int (rect_y (mi_bounds m)),
                  mon_w = word_of_int (rect_w (mi_bounds m)), mon_h = word_of_int (rect_h (mi_bounds m)),
                  mon_dpi = mi_dpi m, mon_primary = mi_primary m\<rparr>) (dl_monitors l)\<rparr>"

definition send_hello_ack :: "('i, 'w) host_app \<Rightarrow> host_out list" where
  "send_hello_ack a = [Out_send (encode_HelloAck (hello_ack_of (app_layout a)))]"

definition send_host_state :: "('i, 'w) host_app \<Rightarrow> host_out list" where
  "send_host_state a =
     [Out_send (encode_HostState \<lparr>hs_enabled = app_enabled a, hs_injecting = pp_down (fst (app_pipeline a))\<rparr>)]"

definition send_active_window :: "('i, 'w) host_app \<Rightarrow> host_out list" where
  "send_active_window a =
     (if \<not> app_active_window_known a \<or> \<not> app_session_active a then [] else [Out_send (encode_ActiveWindow (app_active_window a))])"

definition pump_session :: "int \<Rightarrow> u64 \<Rightarrow> ('i, 'w) host_app \<Rightarrow> host_out list \<times> ('i, 'w) host_app" where
  "pump_session now now_us a =
     (if \<not> app_session_active a then ([], a)
      else
        let acks = (if app_hello_ack_pending a then send_hello_ack a @ send_host_state a @ send_active_window a else []);
            a1 = a\<lparr>app_hello_ack_pending := False\<rparr> in
        if now - app_last_ping a1 < kPingInterval then (acks, a1)
        else
          let unanswered = app_unanswered_pings a1 + 1;
              a2 = a1\<lparr>app_last_ping := now, app_unanswered_pings := unanswered\<rparr> in
          if kMaxUnansweredPings < unanswered then (acks @ [Out_drop], a2)
          else (acks @ [Out_send (encode_Ping \<lparr>ping_t_send_us = now_us\<rparr>)], a2))"

definition poll_foreground :: "ForegroundWindow option \<Rightarrow> ('i, 'w) host_app \<Rightarrow> host_out list \<times> ('i, 'w) host_app" where
  "poll_foreground fresh a =
     (case fresh of
        None \<Rightarrow> ([], a)
      | Some f \<Rightarrow>
          let a1 = a\<lparr>app_active_window := \<lparr>aw_pid = fg_pid f, aw_process = fg_process f\<rparr>, app_active_window_known := True\<rparr> in
          (send_active_window a1, a1))"

text \<open>\<open>set_bounds\<close> is \<open>IInputInjector::set_virtual_bounds\<close>; \<open>fresh\<close> what the display reports.\<close>

definition refresh_layout ::
  "(Recti \<Rightarrow> 'i \<Rightarrow> 'i) \<Rightarrow> bool \<Rightarrow> int \<Rightarrow> DisplayLayout \<Rightarrow> ('i, 'w) host_app \<Rightarrow> ('i, 'w) host_app" where
  "refresh_layout set_bounds force now fresh a =
     (if \<not> force \<and> now - app_last_layout_query a < kLayoutRefreshInterval then a
      else
        let a1 = a\<lparr>app_last_layout_query := now\<rparr> in
        if \<not> force \<and> fresh = app_layout a1 then a1
        else
          a1\<lparr>app_layout := fresh,
             app_pipeline := (fst (app_pipeline a1), set_bounds (dl_virtual_bounds fresh) (snd (app_pipeline a1)))\<rparr>)"

definition apply_viewport :: "('i, 'w) host_app \<Rightarrow> ('i, 'w) host_app" where
  "apply_viewport a =
     (if app_viewport_pending a
      then a\<lparr>app_viewport_pending := False,
             app_frames := (set_viewport (app_pending_viewport a) (fst (app_frames a)), snd (app_frames a))\<rparr>
      else a)"

definition apply_pen :: "('i, 'w) host_app \<Rightarrow> ('i, 'w) host_app" where
  "apply_pen a =
     (let p = fst (app_pipeline a); have_pen = app_pen_down a \<and> pp_enabled p in
      a\<lparr>app_frames :=
          (set_pen have_pen (if have_pen then pp_last_x p else 0) (if have_pen then pp_last_y p else 0) (fst (app_frames a)),
           snd (app_frames a))\<rparr>)"

definition app_tick ::
  "(Recti \<Rightarrow> 'i \<Rightarrow> 'i) \<Rightarrow> 'w frame_source \<Rightarrow> int \<Rightarrow> u64 \<Rightarrow> DisplayLayout \<Rightarrow> ForegroundWindow option \<Rightarrow> ('i, 'w) host_app \<Rightarrow>
    host_out list \<times> ('i, 'w) host_app" where
  "app_tick set_bounds io now now_us layout fresh a =
     (let a1 = refresh_layout set_bounds False now layout a;
          (outs1, a2) = poll_foreground fresh a1;
          (outs2, a3) = pump_session now now_us a2;
          a4 = apply_pen (apply_viewport a3);
          (messages, s, w) = sender_tick io (app_frames a4) in
      (outs1 @ outs2 @ map Out_bulk messages, a4\<lparr>app_frames := (s, w)\<rparr>))"

text \<open>
  What happens during a session: ticks, each with its two clock readings, the display layout and the focus change,
  and messages of the guest.
\<close>

datatype session_event =
    Ev_tick int u64 DisplayLayout "ForegroundWindow option"
  | Ev_message "Recti option" u64 u64 u64 MsgType bytes

fun session_step ::
  "(Recti \<Rightarrow> 'i \<Rightarrow> 'i) \<Rightarrow> 'i injector_ops \<Rightarrow> 'w frame_source \<Rightarrow> session_event \<Rightarrow> ('i, 'w) host_app \<Rightarrow>
    host_out list \<times> ('i, 'w) host_app" where
  "session_step set_bounds ops io (Ev_tick now now_us layout fresh) a = app_tick set_bounds io now now_us layout fresh a"
| "session_step set_bounds ops io (Ev_message window t1 t2 t3 type payload) a =
     on_transport_message ops window t1 t2 t3 type payload a"

fun session_run ::
  "(Recti \<Rightarrow> 'i \<Rightarrow> 'i) \<Rightarrow> 'i injector_ops \<Rightarrow> 'w frame_source \<Rightarrow> session_event list \<Rightarrow> ('i, 'w) host_app \<Rightarrow>
    host_out list \<times> ('i, 'w) host_app" where
  "session_run set_bounds ops io [] a = ([], a)"
| "session_run set_bounds ops io (e # es) a =
     (let (outs, a1) = session_step set_bounds ops io e a; (more, a2) = session_run set_bounds ops io es a1 in
      (outs @ more, a2))"

definition app_shutdown :: "'i injector_ops \<Rightarrow> ('i, 'w) host_app \<Rightarrow> ('i, 'w) host_app" where
  "app_shutdown ops a = a\<lparr>app_pipeline := end_session ops (app_pipeline a)\<rparr>"

subsection \<open>Settings and switches\<close>

definition set_smoother :: "bool \<Rightarrow> rat \<Rightarrow> rat \<Rightarrow> ('i, 'w) host_app \<Rightarrow> ('i, 'w) host_app" where
  "set_smoother on step alpha a =
     (let (p, i) = app_pipeline a in
      a\<lparr>app_pipeline := (p\<lparr>pp_smoother := set_alpha (of_rat alpha) (set_step_px (of_rat step) (sm_set_enabled on (pp_smoother p)))\<rparr>, i)\<rparr>)"

text \<open>
  \<open>init\<close>: the settings are seeded with the values of the new objects, then read, then applied. The second
  component is what is written to the settings file.
\<close>

definition app_init ::
  "(Recti \<Rightarrow> 'i \<Rightarrow> 'i) \<Rightarrow> 'i injector_ops \<Rightarrow> string \<Rightarrow> string option \<Rightarrow> int \<Rightarrow> DisplayLayout \<Rightarrow> ('i, 'w) host_app \<Rightarrow>
    ('i, 'w) host_app \<times> string option" where
  "app_init set_bounds ops settings_dir file now layout a =
     (let a1 = a\<lparr>app_frames := (set_sink True True (fst (app_frames a)), snd (app_frames a)),
                app_settings := hs_seed (app_enabled a) (sd_budget_tiles (fst (app_frames a))) False 3 (1 / 2) (app_settings a)\<rparr>;
          (settings, written) = hs_load settings_dir file (app_settings a1);
          a2 = a1\<lparr>app_settings := settings, app_enabled := hs_injection settings,
                  app_frames := (set_budget_tiles (hs_sweep_tiles settings) (fst (app_frames a1)), snd (app_frames a1)),
                  app_pipeline := set_enabled ops (hs_injection settings) (app_pipeline a1)\<rparr>;
          a3 = set_smoother (hs_smoothing settings) (hs_smoothing_step_px settings) (hs_smoothing_alpha settings) a2 in
      (refresh_layout set_bounds True now layout a3, written))"

text \<open>The big switch.\<close>

definition toggle_injection :: "'i injector_ops \<Rightarrow> ('i, 'w) host_app \<Rightarrow> host_out list \<times> ('i, 'w) host_app \<times> string option" where
  "toggle_injection ops a =
     (let on = (\<not> app_enabled a); (settings, written) = hs_set_injection on (app_settings a);
          a1 = a\<lparr>app_enabled := on, app_pipeline := set_enabled ops on (app_pipeline a), app_settings := settings\<rparr> in
      (if app_session_active a1 then send_host_state a1 else [], a1, written))"

definition change_budget :: "int \<Rightarrow> ('i, 'w) host_app \<Rightarrow> ('i, 'w) host_app \<times> string option" where
  "change_budget tiles a =
     (let (settings, written) = hs_set_sweep_tiles tiles (app_settings a) in
      (a\<lparr>app_frames := (set_budget_tiles tiles (fst (app_frames a)), snd (app_frames a)), app_settings := settings\<rparr>, written))"

definition change_smoothing :: "bool \<Rightarrow> rat \<Rightarrow> int \<Rightarrow> ('i, 'w) host_app \<Rightarrow> ('i, 'w) host_app \<times> string option" where
  "change_smoothing on step alpha_choice a =
     (let alpha = (if alpha_choice = 0 then 0 else if alpha_choice = 2 then 1 else 1 / 2);
          (settings, written) = hs_set_smoothing on step alpha (app_settings a) in
      (set_smoother on step alpha (a\<lparr>app_settings := settings\<rparr>), written))"

subsection \<open>Self test\<close>

fun first_primary :: "MonitorInfo list \<Rightarrow> Recti option" where
  "first_primary [] = None"
| "first_primary (m # ms) = (if mi_primary m then Some (mi_bounds m) else first_primary ms)"

definition primary_bounds :: "('i, 'w) host_app \<Rightarrow> Recti" where
  "primary_bounds a =
     (case first_primary (dl_monitors (app_layout a)) of Some b \<Rightarrow> b | None \<Rightarrow> dl_virtual_bounds (app_layout a))"

definition center_of :: "Recti \<Rightarrow> int \<times> int" where
  "center_of b = (rect_x b + cdiv (rect_w b) 2, rect_y b + cdiv (rect_h b) 2)"

definition cursor_moved :: "'i injector_ops \<Rightarrow> int \<times> int \<Rightarrow> ('i, 'w) host_app \<Rightarrow> ('i, 'w) host_app" where
  "cursor_moved ops at_p a = (let (p, i) = app_pipeline a in a\<lparr>app_pipeline := (p, snd (io_move_to ops (fst at_p) (snd at_p) i))\<rparr>)"

definition move_cursor_to_center :: "'i injector_ops \<Rightarrow> ('i, 'w) host_app \<Rightarrow> ('i, 'w) host_app" where
  "move_cursor_to_center ops a =
     cursor_moved ops (center_of (primary_bounds a)) a"

text \<open>The click presses and, 20 ms later, releases; the pipeline lock is not taken.\<close>

definition left_button :: "'i injector_ops \<Rightarrow> bool \<Rightarrow> int \<times> int \<Rightarrow> ('i, 'w) host_app \<Rightarrow> bool \<times> ('i, 'w) host_app" where
  "left_button ops down at_p a =
     (let (p, i) = app_pipeline a; (ok, i') = io_button ops Button_Left down (fst at_p) (snd at_p) i in
      (ok, a\<lparr>app_pipeline := (p, i')\<rparr>))"

definition click_at_center :: "'i injector_ops \<Rightarrow> ('i, 'w) host_app \<Rightarrow> ('i, 'w) host_app" where
  "click_at_center ops a =
     (let c = center_of (primary_bounds a) in snd (left_button ops False c (snd (left_button ops True c a))))"

definition accuracy_ok :: "('i, 'w) host_app \<Rightarrow> bool" where
  "accuracy_ok a \<longleftrightarrow> ac_ran (app_accuracy a) \<and> ac_failures (app_accuracy a) = 0 \<and> ac_max_error_px (app_accuracy a) \<le> 1"

definition accuracy_target :: "Recti \<Rightarrow> nat \<times> nat \<Rightarrow> int \<times> int" where
  "accuracy_target b = (\<lambda>(ix, iy).
     (rect_x b + lround ((of_int (rect_w b) - 1) * of_nat ix / 4), rect_y b + lround ((of_int (rect_h b) - 1) * of_nat iy / 4)))"

definition accuracy_sample ::
  "'i injector_ops \<Rightarrow> int \<times> int \<Rightarrow> AccuracyResult \<times> real \<times> 'i \<Rightarrow> AccuracyResult \<times> real \<times> 'i" where
  "accuracy_sample ops target ri =
     (let (target_x, target_y) = target; (r, error_sum, i) = ri; (ok, i1) = io_move_to ops target_x target_y i in
      if \<not> ok then (r\<lparr>ac_failures := ac_failures r + 1\<rparr>, error_sum, i1)
      else
        case io_cursor_pos ops i1 of
          None \<Rightarrow> (r\<lparr>ac_failures := ac_failures r + 1\<rparr>, error_sum, i1)
        | Some (got_x, got_y) \<Rightarrow>
            let dx = of_int (got_x - target_x); dy = of_int (got_y - target_y); err = sqrt (dx * dx + dy * dy);
                r1 = r\<lparr>ac_samples := ac_samples r + 1\<rparr> in
            (if ac_max_error_px r1 < err then r1\<lparr>ac_max_error_px := err, ac_worst_x := target_x, ac_worst_y := target_y\<rparr> else r1,
             error_sum + err, i1))"

definition run_accuracy_selftest :: "'i injector_ops \<Rightarrow> ('i, 'w) host_app \<Rightarrow> ('i, 'w) host_app" where
  "run_accuracy_selftest ops a =
     (let b = dl_virtual_bounds (app_layout a) in
      if rect_w b < 2 \<or> rect_h b < 2 then a
      else
        let (p, i) = app_pipeline a; restore = io_cursor_pos ops i;
            targets = concat (map (\<lambda>iy. map (\<lambda>ix. accuracy_target b (ix, iy)) [0..<5]) [0..<5]);
            (r, error_sum, i1) = fold (accuracy_sample ops) targets (accuracy_init, 0, i);
            r1 = (if 0 < ac_samples r then r\<lparr>ac_mean_error_px := error_sum / of_int (ac_samples r)\<rparr> else r);
            i2 = (case restore of None \<Rightarrow> i1 | Some (x, y) \<Rightarrow> snd (io_move_to ops x y i1)) in
        a\<lparr>app_accuracy := r1\<lparr>ac_ran := True\<rparr>, app_pipeline := (p, i2)\<rparr>)"


subsection \<open>The two threads\<close>

text \<open>
  The transport thread and the user interface thread run at the same time. A step is what one of them does under
  one lock, to one member, or in one call of the injector, which the self tests call without a lock; between two
  steps of a handler the other thread may do any number of its own.

  The transport thread waits, connects, serves a session message by message, and closes it, in this order; its
  stage says how far it is in the handler. A pointer message is five steps, a connection three, a disconnection four.
\<close>

datatype transport_stage =
    Tr_waiting
  | Tr_connecting nat
  | Tr_session
  | Tr_pointer nat u64 Pointer
  | Tr_closing nat

text \<open>
  The user interface thread, unless it is between the press and the release of a click, does the parts of a tick
  and what the panels ask for. The parts are not tied to an order or to the values the tick read before, so that every
  interleaving of a tick with the transport thread is among the runs.
\<close>

datatype ui_stage = Ui_free | Ui_clicking "int \<times> int"

inductive ui_part :: "'v win32 \<Rightarrow> 'w frame_source \<Rightarrow> ('v injector, 'w) host_app \<Rightarrow> ('v injector, 'w) host_app \<Rightarrow> bool"
  for os :: "'v win32" and io :: "'w frame_source" where
  up_query: "ui_part os io a (a\<lparr>app_last_layout_query := now\<rparr>)"
| up_layout: "ui_part os io a (a\<lparr>app_layout := layout\<rparr>)"
| up_bounds: "ui_part os io a (a\<lparr>app_pipeline := (fst (app_pipeline a), set_virtual_bounds bounds (snd (app_pipeline a)))\<rparr>)"
| up_foreground: "ui_part os io a (snd (poll_foreground fresh a))"
| up_ack: "ui_part os io a (a\<lparr>app_hello_ack_pending := False\<rparr>)"
| up_ping: "ui_part os io a (ping_timed now a)"
| up_count: "ui_part os io a (a\<lparr>app_unanswered_pings := app_unanswered_pings a + 1\<rparr>)"
| up_take_viewport: "ui_part os io a (a\<lparr>app_viewport_pending := False\<rparr>)"
| up_viewport: "ui_part os io a (a\<lparr>app_frames := (set_viewport request (fst (app_frames a)), snd (app_frames a))\<rparr>)"
| up_pen: "ui_part os io a (a\<lparr>app_frames := (set_pen down x y (fst (app_frames a)), snd (app_frames a))\<rparr>)"
| up_frames: "ui_part os io a (a\<lparr>app_frames := snd (sender_tick io (app_frames a))\<rparr>)"
| up_toggle: "ui_part os io a (fst (snd (toggle_injection (win32_ops os) a)))"
| up_budget: "ui_part os io a (fst (change_budget tiles a))"
| up_smoothing: "ui_part os io a (fst (change_smoothing on step alpha a))"
| up_stats: "ui_part os io a (a\<lparr>app_pipeline := (reset_stats (fst (app_pipeline a)), snd (app_pipeline a))\<rparr>)"
| up_move: "ui_part os io a (cursor_moved (win32_ops os) at_p a)"
| up_accuracy: "ui_part os io a (a\<lparr>app_accuracy := result\<rparr>)"

text \<open>
  The program: the application, how far each thread is, and whether the release of the last click of the self
  test was refused.
\<close>

record ('v, 'w) host_world =
  hw_app :: "('v injector, 'w) host_app"
  hw_transport :: transport_stage
  hw_ui :: ui_stage
  hw_click_refused :: bool

inductive host_step ::
  "'v win32 \<Rightarrow> 'w frame_source \<Rightarrow> ('v, 'w) host_world \<Rightarrow> ('v, 'w) host_world \<Rightarrow> bool"
  for os :: "'v win32" and io :: "'w frame_source" where
  hs_connect: "hw_transport h = Tr_waiting \<Longrightarrow>
    host_step os io h (h\<lparr>hw_app := connect_reset (hw_app h), hw_transport := Tr_connecting 1\<rparr>)"
| hs_open: "hw_transport h = Tr_connecting 1 \<Longrightarrow>
    host_step os io h (h\<lparr>hw_app := session_opened (hw_app h), hw_transport := Tr_connecting 2\<rparr>)"
| hs_opened: "hw_transport h = Tr_connecting 2 \<Longrightarrow>
    host_step os io h (h\<lparr>hw_app := ping_timed now (hw_app h), hw_transport := Tr_session\<rparr>)"
| hs_message: "hw_transport h = Tr_session \<Longrightarrow> type \<noteq> Msg_Pointer \<Longrightarrow>
    host_step os io h (h\<lparr>hw_app := snd (on_transport_message (win32_ops os) window t1 t2 t3 type payload (hw_app h))\<rparr>)"
| hs_pointer: "hw_transport h = Tr_session \<Longrightarrow> decode_Pointer payload = Some p \<Longrightarrow>
    host_step os io h (h\<lparr>hw_app := pointer_counted p (hw_app h), hw_transport := Tr_pointer 1 arrived p\<rparr>)"
| hs_note: "hw_transport h = Tr_pointer 1 arrived p \<Longrightarrow>
    host_step os io h (h\<lparr>hw_app := pointer_noted arrived p (hw_app h), hw_transport := Tr_pointer 2 arrived p\<rparr>)"
| hs_measure: "hw_transport h = Tr_pointer 2 arrived p \<Longrightarrow>
    host_step os io h (h\<lparr>hw_app := pointer_measured arrived p (hw_app h), hw_transport := Tr_pointer 3 arrived p\<rparr>)"
| hs_inject: "hw_transport h = Tr_pointer 3 arrived p \<Longrightarrow>
    host_step os io h (h\<lparr>hw_app := pointer_injected (win32_ops os) window p (hw_app h), hw_transport := Tr_pointer 4 arrived p\<rparr>)"
| hs_timed: "hw_transport h = Tr_pointer 4 arrived p \<Longrightarrow>
    host_step os io h (h\<lparr>hw_app := injection_timed before_inject after_inject (hw_app h), hw_transport := Tr_session\<rparr>)"
| hs_close: "hw_transport h = Tr_session \<Longrightarrow>
    host_step os io h (h\<lparr>hw_app := session_closed (hw_app h), hw_transport := Tr_closing 1\<rparr>)"
| hs_stop: "hw_transport h = Tr_closing 1 \<Longrightarrow>
    host_step os io h (h\<lparr>hw_app := frames_stopped io (hw_app h), hw_transport := Tr_closing 2\<rparr>)"
| hs_end: "hw_transport h = Tr_closing 2 \<Longrightarrow>
    host_step os io h (h\<lparr>hw_app := strokes_ended (win32_ops os) (hw_app h), hw_transport := Tr_closing 3\<rparr>)"
| hs_forget: "hw_transport h = Tr_closing 3 \<Longrightarrow>
    host_step os io h (h\<lparr>hw_app := guest_forgotten (hw_app h), hw_transport := Tr_waiting\<rparr>)"
| hs_ui: "hw_ui h = Ui_free \<Longrightarrow> ui_part os io (hw_app h) b \<Longrightarrow> host_step os io h (h\<lparr>hw_app := b\<rparr>)"
| hs_press: "hw_ui h = Ui_free \<Longrightarrow> c = center_of (primary_bounds (hw_app h)) \<Longrightarrow>
    host_step os io h (h\<lparr>hw_app := snd (left_button (win32_ops os) True c (hw_app h)), hw_ui := Ui_clicking c\<rparr>)"
| hs_release: "hw_ui h = Ui_clicking c \<Longrightarrow> left_button (win32_ops os) False c (hw_app h) = (ok, b) \<Longrightarrow>
    host_step os io h (h\<lparr>hw_app := b, hw_ui := Ui_free, hw_click_refused := \<not> ok\<rparr>)"
| hs_shutdown: "hw_transport h = Tr_waiting \<Longrightarrow> hw_ui h = Ui_free \<Longrightarrow>
    host_step os io h (h\<lparr>hw_app := app_shutdown (win32_ops os) (hw_app h)\<rparr>)"

definition host_started :: "'v win32 \<Rightarrow> string \<Rightarrow> string option \<Rightarrow> int \<Rightarrow> DisplayLayout \<Rightarrow> 'v \<Rightarrow> 'w \<Rightarrow> ('v, 'w) host_world" where
  "host_started os dir file now layout v w =
     \<lparr>hw_app = fst (app_init set_virtual_bounds (win32_ops os) dir file now layout (app_new (injector_init v) w)),
      hw_transport = Tr_waiting, hw_ui = Ui_free, hw_click_refused = False\<rparr>"

inductive host_reachable ::
  "'v win32 \<Rightarrow> 'w frame_source \<Rightarrow> 'v \<Rightarrow> 'w \<Rightarrow> ('v, 'w) host_world \<Rightarrow> bool"
  for os :: "'v win32" and io :: "'w frame_source" and v :: 'v and w :: 'w where
  hr_init: "host_reachable os io v w (host_started os dir file now layout v w)"
| hr_step: "host_reachable os io v w h \<Longrightarrow> host_step os io h h' \<Longrightarrow> host_reachable os io v w h'"

lemmas connect_defs = on_transport_connect_def connect_reset_def session_opened_def ping_timed_def
lemmas disconnect_defs = on_transport_disconnect_def session_closed_def frames_stopped_def strokes_ended_def guest_forgotten_def

section \<open>Idle host\<close>

text \<open>The Windows injector's own bookkeeping, under everything the pipeline does.\<close>

interpretation win32i: injector_invariant "win32_ops os" inj_inv UNIV for os
  by unfold_locales (simp_all add: win32.move_inv win32.button_inv win32.key_inv)

lemma inj_keeps: "win32i.keeps ps = inj_inv (snd ps)"
  by (simp add: win32i.keeps_def)

lemmas inj_pipeline =
  win32i.keeps_pointer [unfolded inj_keeps, OF _ UNIV_I]
  win32i.keeps_step [where e = "Pe_key k" for k, simplified, unfolded inj_keeps]
  win32i.keeps_step [where e = "Pe_enable b" for b, simplified, unfolded inj_keeps]
  win32i.keeps_release_stroke [unfolded inj_keeps]

lemma inj_end_session: "inj_inv (snd ps) \<Longrightarrow> inj_inv (snd (end_session (win32_ops os) ps))"
  using inj_pipeline(4) [of "((fst ps)\<lparr>pp_rel_seeded := False\<rparr>, snd ps)" os]
  by (simp add: end_session_def case_prod_beta win32.release_inv)

text \<open>No stroke is open, and no button is held but by a click of the self test.\<close>

definition released :: "('v, 'w) host_world \<Rightarrow> bool" where
  "released h \<longleftrightarrow>
     \<not> pp_down (fst (app_pipeline (hw_app h))) \<and>
     held_buttons (snd (app_pipeline (hw_app h))) \<subseteq> {button_index Button_Left} \<and>
     (hw_ui h = Ui_free \<and> \<not> hw_click_refused h \<longrightarrow> held_buttons (snd (app_pipeline (hw_app h))) = {})"

definition host_safe :: "('v, 'w) host_world \<Rightarrow> bool" where
  "host_safe h \<longleftrightarrow>
     inj_inv (snd (app_pipeline (hw_app h))) \<and>
     (case hw_transport h of
        Tr_waiting \<Rightarrow> \<not> app_session_active (hw_app h) \<and> \<not> app_pen_down (hw_app h) \<and> released h
      | Tr_connecting n \<Rightarrow> (n = 2 \<longrightarrow> app_session_active (hw_app h)) \<and> \<not> app_pen_down (hw_app h) \<and> released h
      | Tr_session \<Rightarrow> app_session_active (hw_app h)
      | Tr_pointer n t p \<Rightarrow> app_session_active (hw_app h)
      | Tr_closing n \<Rightarrow> \<not> app_session_active (hw_app h) \<and> (n = 3 \<longrightarrow> released h))"

lemma held_set_bounds [simp]:
  "held_buttons (set_virtual_bounds b i) = held_buttons i" "inj_inv (set_virtual_bounds b i) = inj_inv i"
  by (simp_all add: set_virtual_bounds_def held_buttons_def inj_inv_def)

subsubsection \<open>Messages\<close>

lemma message_session [simp]:
  "app_session_active (snd (on_transport_message ops win t1 t2 t3 ty payload a)) = app_session_active a"
  by (simp add: on_transport_message_def on_viewport_req_def on_key_def on_pointer_def on_hello_def on_pong_def on_ping_def
      on_log_def pointer_counted_def pointer_noted_def pointer_measured_def pointer_injected_def injection_timed_def Let_def
      split: MsgType.split option.split)

lemma message_inv:
  assumes "inj_inv (snd (app_pipeline a))" "ty \<noteq> Msg_Pointer"
  shows "inj_inv (snd (app_pipeline (snd (on_transport_message (win32_ops os) win t1 t2 t3 ty payload a))))"
proof (cases "ty = Msg_Key")
  case True
  then show ?thesis using assms inj_pipeline(2) [OF assms(1)]
    by (auto simp: on_transport_message_def on_key_def split: option.split)
next
  case False
  then show ?thesis using assms
    by (auto simp: on_transport_message_def on_viewport_req_def on_hello_def on_pong_def on_ping_def on_log_def
        split: MsgType.split option.split)
qed

lemma pointer_parts [simp]:
  "app_session_active (pointer_counted p a) = app_session_active a" "app_pipeline (pointer_counted p a) = app_pipeline a"
  "app_session_active (pointer_noted t p a) = app_session_active a" "app_pipeline (pointer_noted t p a) = app_pipeline a"
  "app_session_active (pointer_measured t p a) = app_session_active a" "app_pipeline (pointer_measured t p a) = app_pipeline a"
  "app_session_active (pointer_injected ops w p a) = app_session_active a"
  "app_session_active (injection_timed b e a) = app_session_active a" "app_pipeline (injection_timed b e a) = app_pipeline a"
  by (simp_all add: pointer_counted_def pointer_noted_def pointer_measured_def pointer_injected_def injection_timed_def Let_def)

subsubsection \<open>User interface\<close>

lemma refresh_layout_fields [simp]:
  "app_session_active (refresh_layout sb f now l a) = app_session_active a"
  "app_pen_down (refresh_layout sb f now l a) = app_pen_down a"
  "fst (app_pipeline (refresh_layout sb f now l a)) = fst (app_pipeline a)"
  "app_last_ping (refresh_layout sb f now l a) = app_last_ping a"
  "app_unanswered_pings (refresh_layout sb f now l a) = app_unanswered_pings a"
  by (simp_all add: refresh_layout_def Let_def)

lemma refresh_layout_injector:
  "snd (app_pipeline (refresh_layout sb f now l a)) = snd (app_pipeline a) \<or>
   snd (app_pipeline (refresh_layout sb f now l a)) = sb (dl_virtual_bounds l) (snd (app_pipeline a))"
  by (simp add: refresh_layout_def Let_def)

lemma poll_foreground_fields [simp]:
  "app_session_active (snd (poll_foreground f a)) = app_session_active a"
  "app_pen_down (snd (poll_foreground f a)) = app_pen_down a"
  "app_pipeline (snd (poll_foreground f a)) = app_pipeline a"
  "app_last_ping (snd (poll_foreground f a)) = app_last_ping a"
  "app_unanswered_pings (snd (poll_foreground f a)) = app_unanswered_pings a"
  by (simp_all add: poll_foreground_def Let_def split: option.split)

lemma pump_session_fields [simp]:
  "app_session_active (snd (pump_session now u a)) = app_session_active a"
  "app_pen_down (snd (pump_session now u a)) = app_pen_down a"
  "app_pipeline (snd (pump_session now u a)) = app_pipeline a"
  by (simp_all add: pump_session_def Let_def)

lemma apply_fields [simp]:
  "app_session_active (apply_pen (apply_viewport a)) = app_session_active a"
  "app_pen_down (apply_pen (apply_viewport a)) = app_pen_down a"
  "app_pipeline (apply_pen (apply_viewport a)) = app_pipeline a"
  "app_last_ping (apply_pen (apply_viewport a)) = app_last_ping a"
  "app_unanswered_pings (apply_pen (apply_viewport a)) = app_unanswered_pings a"
  by (simp_all add: apply_pen_def apply_viewport_def Let_def)

text \<open>A tick, cut into the session's part and the rest.\<close>

abbreviation tick_session ::
  "(Recti \<Rightarrow> 'i \<Rightarrow> 'i) \<Rightarrow> int \<Rightarrow> u64 \<Rightarrow> DisplayLayout \<Rightarrow> ForegroundWindow option \<Rightarrow> ('i, 'w) host_app \<Rightarrow>
    host_out list \<times> ('i, 'w) host_app" where
  "tick_session sb now u l f a \<equiv> pump_session now u (snd (poll_foreground f (refresh_layout sb False now l a)))"

lemma app_tick_state:
  "snd (app_tick sb io now u l f a) =
     (let b = apply_pen (apply_viewport (snd (tick_session sb now u l f a))) in b\<lparr>app_frames := snd (sender_tick io (app_frames b))\<rparr>)"
  by (simp add: app_tick_def Let_def case_prod_beta)

lemma app_tick_outs:
  "\<exists>messages. fst (app_tick sb io now u l f a) =
     fst (poll_foreground f (refresh_layout sb False now l a)) @ fst (tick_session sb now u l f a) @ map Out_bulk messages"
  by (simp add: app_tick_def Let_def case_prod_beta) blast

lemma app_tick_fields [simp]:
  "app_session_active (snd (app_tick sb io now u l f a)) = app_session_active a"
  "app_pen_down (snd (app_tick sb io now u l f a)) = app_pen_down a"
  "app_pipeline (snd (app_tick sb io now u l f a)) = app_pipeline (refresh_layout sb False now l a)"
  "app_last_ping (snd (app_tick sb io now u l f a)) = app_last_ping (snd (tick_session sb now u l f a))"
  "app_unanswered_pings (snd (app_tick sb io now u l f a)) = app_unanswered_pings (snd (tick_session sb now u l f a))"
  by (simp_all add: app_tick_state Let_def)

lemma idle_set_enabled:
  "\<not> pp_down (fst ps) \<Longrightarrow> \<not> pp_down (fst (set_enabled ops on ps)) \<and> snd (set_enabled ops on ps) = snd ps"
  by (simp add: set_enabled_def release_stroke_def Let_def case_prod_beta)

lemma set_smoother_fields [simp]:
  "app_session_active (set_smoother on st al a) = app_session_active a" "app_pen_down (set_smoother on st al a) = app_pen_down a"
  "pp_down (fst (app_pipeline (set_smoother on st al a))) = pp_down (fst (app_pipeline a))"
  "snd (app_pipeline (set_smoother on st al a)) = snd (app_pipeline a)"
  by (simp_all add: set_smoother_def case_prod_beta)

lemma ui_part_keeps:
  "ui_part os io a b \<Longrightarrow> inj_inv (snd (app_pipeline a)) \<Longrightarrow>
   app_session_active b = app_session_active a \<and> app_pen_down b = app_pen_down a \<and> inj_inv (snd (app_pipeline b)) \<and>
   (\<not> pp_down (fst (app_pipeline a)) \<longrightarrow> \<not> pp_down (fst (app_pipeline b)) \<and>
      held_buttons (snd (app_pipeline b)) = held_buttons (snd (app_pipeline a)))"
proof (induction rule: ui_part.induct)
  case (up_toggle a)
  then show ?case
    using inj_pipeline(3) [of "app_pipeline a" os "\<not> app_enabled a"] idle_set_enabled [of "app_pipeline a" "win32_ops os" "\<not> app_enabled a"]
    by (auto simp: toggle_injection_def Let_def case_prod_beta)
qed (simp_all add: ping_timed_def change_budget_def change_smoothing_def reset_stats_def cursor_moved_def Let_def case_prod_beta
    win32.move_inv win32.move_held)

lemma left_button_keeps:
  assumes "left_button (win32_ops os) d c a = (ok, b)" "inj_inv (snd (app_pipeline a))"
  shows "app_session_active b = app_session_active a" "app_pen_down b = app_pen_down a" "inj_inv (snd (app_pipeline b))"
    "fst (app_pipeline b) = fst (app_pipeline a)"
    "held_buttons (snd (app_pipeline b)) =
      (if \<not> ok then held_buttons (snd (app_pipeline a)) else if d then insert (button_index Button_Left) (held_buttons (snd (app_pipeline a)))
       else held_buttons (snd (app_pipeline a)) - {button_index Button_Left})"
proof -
  have b: "ok = fst (io_button (win32_ops os) Button_Left d (fst c) (snd c) (snd (app_pipeline a)))"
    "b = a\<lparr>app_pipeline := (fst (app_pipeline a), snd (io_button (win32_ops os) Button_Left d (fst c) (snd c) (snd (app_pipeline a))))\<rparr>"
    using assms(1) by (simp_all add: left_button_def Let_def case_prod_beta)
  show "app_session_active b = app_session_active a" "app_pen_down b = app_pen_down a" "inj_inv (snd (app_pipeline b))"
    "fst (app_pipeline b) = fst (app_pipeline a)"
    using win32.button_inv [OF assms(2)] by (simp_all add: b(2))
  show "held_buttons (snd (app_pipeline b)) =
      (if \<not> ok then held_buttons (snd (app_pipeline a)) else if d then insert (button_index Button_Left) (held_buttons (snd (app_pipeline a)))
       else held_buttons (snd (app_pipeline a)) - {button_index Button_Left})"
  proof (cases ok)
    case True
    with win32.button_ok [OF assms(2), of os Button_Left d "fst c" "snd c"] show ?thesis unfolding b by (simp add: b(1))
  next
    case False
    with win32.button_fail [OF assms(2), of os Button_Left d "fst c" "snd c"] show ?thesis unfolding b by (simp add: b(1))
  qed
qed

lemma end_session_released:
  "inj_inv (snd (app_pipeline a)) \<Longrightarrow> inj_inv (snd (app_pipeline (strokes_ended (win32_ops os) a))) \<and>
   \<not> pp_down (fst (app_pipeline (strokes_ended (win32_ops os) a))) \<and> held_buttons (snd (app_pipeline (strokes_ended (win32_ops os) a))) = {}"
  using win32.end_session_held [of "app_pipeline a" os] inj_end_session [of "app_pipeline a" os] by (simp add: strokes_ended_def)

lemma step_safe: "host_step os io h h' \<Longrightarrow> host_safe h \<Longrightarrow> host_safe h'"
proof (induction rule: host_step.induct)
  case (hs_ui h b)
  then show ?case using ui_part_keeps [OF hs_ui(2)] by (auto simp: host_safe_def released_def split: transport_stage.splits)
next
  case (hs_press h c)
  obtain ok b where "left_button (win32_ops os) True c (hw_app h) = (ok, b)" by fastforce
  with left_button_keeps [OF this] hs_press show ?case by (auto simp: host_safe_def released_def split: transport_stage.splits if_splits)
next
  case (hs_release h c ok b)
  with left_button_keeps [OF hs_release(2)] show ?case
    by (auto simp: host_safe_def released_def split: transport_stage.splits if_splits)
next
  case (hs_end h)
  then show ?case using end_session_released [of "hw_app h" os] by (simp add: host_safe_def released_def) (simp add: strokes_ended_def)
next
  case (hs_shutdown h)
  then show ?case using end_session_released [of "hw_app h" os]
    by (simp add: host_safe_def released_def app_shutdown_def strokes_ended_def)
next
  case (hs_inject h arrived p window)
  then show ?case using inj_pipeline(1) [of "app_pipeline (hw_app h)" os] by (simp add: host_safe_def) (simp add: pointer_injected_def)
qed (simp_all add: host_safe_def message_inv released_def connect_reset_def session_opened_def ping_timed_def session_closed_def
    frames_stopped_def guest_forgotten_def)

lemma init_safe: "host_safe (host_started os dir file now layout v w)"
proof -
  have h: "held_buttons (injector_init v) = {}" "inj_inv (injector_init v)"
    by (auto simp: held_buttons_def injector_init_def nth_Cons' less_Suc_eq numeral_3_eq_3 inj_inv_def)
  define a where "a = fst (app_init set_virtual_bounds (win32_ops os) dir file now layout (app_new (injector_init v) w))"
  have "\<not> app_session_active a \<and> \<not> app_pen_down a \<and> \<not> pp_down (fst (app_pipeline a)) \<and> inj_inv (snd (app_pipeline a)) \<and>
      held_buttons (snd (app_pipeline a)) = {}"
    using idle_set_enabled [of "(pipeline_init, injector_init v)" "win32_ops os"] h
    by (simp add: a_def app_init_def Let_def case_prod_beta refresh_layout_def) (simp add: app_new_def pipeline_init_def)
  then show ?thesis by (simp add: host_safe_def released_def host_started_def a_def)
qed

lemma reachable_safe: "host_reachable os io v w h \<Longrightarrow> host_safe h"
  by (induction rule: host_reachable.induct) (auto intro: init_safe step_safe)

subsubsection \<open>Uninterrupted handlers\<close>

text \<open>
  The steps are those of the handlers: a handler that no other thread interrupts, as the code composes it, is a
  run of them.
\<close>

lemma ui_then: "(ui_part os io)\<^sup>*\<^sup>* a b \<Longrightarrow> ui_part os io b c \<Longrightarrow> (ui_part os io)\<^sup>*\<^sup>* a c"
  by (rule rtranclp.rtrancl_into_rtrancl)

lemma step_then: "(host_step os io)\<^sup>*\<^sup>* h h1 \<Longrightarrow> host_step os io h1 h2 \<Longrightarrow> (host_step os io)\<^sup>*\<^sup>* h h2"
  by (rule rtranclp.rtrancl_into_rtrancl)

lemma ui_refresh: "(ui_part os io)\<^sup>*\<^sup>* a (refresh_layout set_virtual_bounds force now layout a)"
proof -
  let ?a1 = "a\<lparr>app_last_layout_query := now\<rparr>"
  let ?a2 = "?a1\<lparr>app_layout := layout\<rparr>"
  have 1: "(ui_part os io)\<^sup>*\<^sup>* a ?a1" by (rule ui_then [OF rtranclp.rtrancl_refl up_query])
  have "(ui_part os io)\<^sup>*\<^sup>* a ?a2" by (rule ui_then [OF 1 up_layout])
  then have "(ui_part os io)\<^sup>*\<^sup>* a (?a2\<lparr>app_pipeline :=
      (fst (app_pipeline ?a2), set_virtual_bounds (dl_virtual_bounds layout) (snd (app_pipeline ?a2)))\<rparr>)"
    by (rule ui_then [OF _ up_bounds])
  with 1 show ?thesis by (auto simp: refresh_layout_def Let_def)
qed

lemma ui_pump: "(ui_part os io)\<^sup>*\<^sup>* a (snd (pump_session now u a))"
proof -
  let ?a1 = "a\<lparr>app_hello_ack_pending := False\<rparr>"
  have 1: "(ui_part os io)\<^sup>*\<^sup>* a ?a1" by (rule ui_then [OF rtranclp.rtrancl_refl up_ack])
  from ui_then [OF ui_then [OF 1 up_ping] up_count]
  have "(ui_part os io)\<^sup>*\<^sup>* a (?a1\<lparr>app_last_ping := now, app_unanswered_pings := app_unanswered_pings a + 1\<rparr>)"
    by (simp add: ping_timed_def)
  with 1 show ?thesis by (auto simp: pump_session_def Let_def)
qed

lemma ui_frames_parts: "(ui_part os io)\<^sup>*\<^sup>* a (apply_pen (apply_viewport a))"
proof -
  have "(ui_part os io)\<^sup>*\<^sup>* a (apply_viewport a)"
    using ui_then [OF ui_then [OF rtranclp.rtrancl_refl up_take_viewport] up_viewport, of os io a "app_pending_viewport a"]
    by (simp add: apply_viewport_def)
  then show ?thesis unfolding apply_pen_def Let_def by (rule ui_then [OF _ up_pen])
qed

lemma tick_is_a_run: "(ui_part os io)\<^sup>*\<^sup>* a (snd (app_tick set_virtual_bounds io now u layout fresh a))"
proof -
  let ?b = "refresh_layout set_virtual_bounds False now layout a"
  let ?c = "snd (poll_foreground fresh ?b)"
  have "(ui_part os io)\<^sup>*\<^sup>* a ?c" by (rule ui_then [OF ui_refresh up_foreground])
  also have "(ui_part os io)\<^sup>*\<^sup>* ?c (snd (pump_session now u ?c))" by (rule ui_pump)
  also have "(ui_part os io)\<^sup>*\<^sup>* (snd (pump_session now u ?c)) (apply_pen (apply_viewport (snd (pump_session now u ?c))))"
    by (rule ui_frames_parts)
  finally show ?thesis unfolding app_tick_state Let_def by (rule ui_then [OF _ up_frames])
qed

lemma selftest_moves:
  "(ui_part os io)\<^sup>*\<^sup>* (a\<lparr>app_pipeline := (p, snd (snd ri))\<rparr>)
     (a\<lparr>app_pipeline := (p, snd (snd (fold (accuracy_sample (win32_ops os)) ts ri)))\<rparr>)"
proof (induction ts arbitrary: ri)
  case (Cons c ts)
  have "snd (snd (accuracy_sample (win32_ops os) c ri)) = snd (io_move_to (win32_ops os) (fst c) (snd c) (snd (snd ri)))"
    by (simp add: accuracy_sample_def Let_def case_prod_beta split: option.split)
  then have "ui_part os io (a\<lparr>app_pipeline := (p, snd (snd ri))\<rparr>)
      (a\<lparr>app_pipeline := (p, snd (snd (accuracy_sample (win32_ops os) c ri)))\<rparr>)"
    using up_move [of os io "a\<lparr>app_pipeline := (p, snd (snd ri))\<rparr>" c] by (simp add: cursor_moved_def)
  with Cons.IH [of "accuracy_sample (win32_ops os) c ri"] show ?case by (simp add: converse_rtranclp_into_rtranclp)
qed simp

lemma selftest_is_a_run: "(ui_part os io)\<^sup>*\<^sup>* a (run_accuracy_selftest (win32_ops os) a)"
proof (cases "rect_w (dl_virtual_bounds (app_layout a)) < 2 \<or> rect_h (dl_virtual_bounds (app_layout a)) < 2")
  case False
  let ?ts = "concat (map (\<lambda>iy. map (\<lambda>ix. accuracy_target (dl_virtual_bounds (app_layout a)) (ix, iy)) [0..<5]) [0..<5])"
  obtain p and i :: "'a injector" where pi: "app_pipeline a = (p, i)" by fastforce
  obtain r e i1 where f: "fold (accuracy_sample (win32_ops os)) ?ts (accuracy_init, 0, i) = (r, e, i1)" by (metis prod_cases3)
  let ?r = "(if 0 < ac_samples r then r\<lparr>ac_mean_error_px := e / of_int (ac_samples r)\<rparr> else r)\<lparr>ac_ran := True\<rparr>"
  let ?b = "a\<lparr>app_pipeline := (p, i1)\<rparr>\<lparr>app_accuracy := ?r\<rparr>"
  have a: "a\<lparr>app_pipeline := (p, i)\<rparr> = a" by (simp add: pi [symmetric])
  have "(ui_part os io)\<^sup>*\<^sup>* a (a\<lparr>app_pipeline := (p, i1)\<rparr>)"
    using selftest_moves [of os io p "(accuracy_init, 0, i)" a ?ts] unfolding f by (simp only: snd_conv a)
  then have ab: "(ui_part os io)\<^sup>*\<^sup>* a ?b" by (rule ui_then [OF _ up_accuracy])
  have mv: "(ui_part os io)\<^sup>*\<^sup>* a (?b\<lparr>app_pipeline := (p, snd (io_move_to (win32_ops os) x y i1))\<rparr>)" for x y
    using ui_then [OF ab up_move [of os io ?b "(x, y)"]] by (simp add: cursor_moved_def)
  have "run_accuracy_selftest (win32_ops os) a = a\<lparr>app_accuracy := ?r,
      app_pipeline := (p, case io_cursor_pos (win32_ops os) i of None \<Rightarrow> i1 | Some (x, y) \<Rightarrow> snd (io_move_to (win32_ops os) x y i1))\<rparr>"
    unfolding run_accuracy_selftest_def Let_def if_not_P [OF False] pi prod.case f ..
  moreover have comm: "?b = a\<lparr>app_accuracy := ?r, app_pipeline := (p, i1)\<rparr>" by simp
  have "(ui_part os io)\<^sup>*\<^sup>* a (a\<lparr>app_accuracy := ?r, app_pipeline := (p, i1)\<rparr>)" using ab unfolding comm .
  ultimately show ?thesis using mv by (auto split: option.split)
qed (simp add: run_accuracy_selftest_def)

lemma ui_run_lifts:
  "(ui_part os io)\<^sup>*\<^sup>* a b \<Longrightarrow> hw_ui h = Ui_free \<Longrightarrow> hw_app h = a \<Longrightarrow> (host_step os io)\<^sup>*\<^sup>* h (h\<lparr>hw_app := b\<rparr>)"
proof (induction rule: rtranclp_induct)
  case (step b c)
  then have "host_step os io (h\<lparr>hw_app := b\<rparr>) (h\<lparr>hw_app := c\<rparr>)"
    using hs_ui [of "h\<lparr>hw_app := b\<rparr>" os io c] by simp
  with step show ?case by simp
next
  case base
  then have "h\<lparr>hw_app := a\<rparr> = h" by (cases h) simp
  then show ?case by simp
qed

lemma connect_is_a_run:
  assumes "hw_transport h = Tr_waiting"
  shows "(host_step os io)\<^sup>*\<^sup>* h (h\<lparr>hw_app := on_transport_connect now (hw_app h), hw_transport := Tr_session\<rparr>)"
  using step_then [OF step_then [OF step_then [OF rtranclp.rtrancl_refl hs_connect [OF assms]] hs_open] hs_opened, of os io now]
  by (simp add: on_transport_connect_def)

lemma disconnect_is_a_run:
  assumes "hw_transport h = Tr_session"
  shows "(host_step os io)\<^sup>*\<^sup>* h
    (h\<lparr>hw_app := on_transport_disconnect (win32_ops os) io (hw_app h), hw_transport := Tr_waiting\<rparr>)"
proof -
  let ?h1 = "h\<lparr>hw_app := session_closed (hw_app h), hw_transport := Tr_closing 1\<rparr>"
  let ?h2 = "?h1\<lparr>hw_app := frames_stopped io (hw_app ?h1), hw_transport := Tr_closing 2\<rparr>"
  let ?h3 = "?h2\<lparr>hw_app := strokes_ended (win32_ops os) (hw_app ?h2), hw_transport := Tr_closing 3\<rparr>"
  have "(host_step os io)\<^sup>*\<^sup>* h ?h1" by (rule step_then [OF rtranclp.rtrancl_refl hs_close [OF assms]])
  then have "(host_step os io)\<^sup>*\<^sup>* h ?h2" by (rule step_then [OF _ hs_stop]) simp
  then have "(host_step os io)\<^sup>*\<^sup>* h ?h3" by (rule step_then [OF _ hs_end]) simp
  then have "(host_step os io)\<^sup>*\<^sup>* h (?h3\<lparr>hw_app := guest_forgotten (hw_app ?h3), hw_transport := Tr_waiting\<rparr>)"
    by (rule step_then [OF _ hs_forget]) simp
  then show ?thesis by (simp add: on_transport_disconnect_def)
qed

lemma message_is_a_run:
  assumes "hw_transport h = Tr_session"
  shows "(host_step os io)\<^sup>*\<^sup>* h
    (h\<lparr>hw_app := snd (on_transport_message (win32_ops os) window t1 t2 t3 type payload (hw_app h))\<rparr>)"
proof (cases "type = Msg_Pointer")
  case True
  show ?thesis
  proof (cases "decode_Pointer payload")
    case None
    then show ?thesis using True by (simp add: on_transport_message_def on_pointer_def)
  next
    case (Some p)
    let ?h1 = "h\<lparr>hw_app := pointer_counted p (hw_app h), hw_transport := Tr_pointer 1 t1 p\<rparr>"
    let ?h2 = "?h1\<lparr>hw_app := pointer_noted t1 p (hw_app ?h1), hw_transport := Tr_pointer 2 t1 p\<rparr>"
    let ?h3 = "?h2\<lparr>hw_app := pointer_measured t1 p (hw_app ?h2), hw_transport := Tr_pointer 3 t1 p\<rparr>"
    let ?h4 = "?h3\<lparr>hw_app := pointer_injected (win32_ops os) window p (hw_app ?h3), hw_transport := Tr_pointer 4 t1 p\<rparr>"
    have "(host_step os io)\<^sup>*\<^sup>* h ?h1" by (rule step_then [OF rtranclp.rtrancl_refl hs_pointer [OF assms Some]])
    then have "(host_step os io)\<^sup>*\<^sup>* h ?h2" by (rule step_then [OF _ hs_note]) simp
    then have "(host_step os io)\<^sup>*\<^sup>* h ?h3" by (rule step_then [OF _ hs_measure]) simp
    then have "(host_step os io)\<^sup>*\<^sup>* h ?h4" by (rule step_then [OF _ hs_inject]) simp
    then have "(host_step os io)\<^sup>*\<^sup>* h (?h4\<lparr>hw_app := injection_timed t2 t3 (hw_app ?h4), hw_transport := Tr_session\<rparr>)"
      by (rule step_then [OF _ hs_timed]) simp
    moreover have "h\<lparr>hw_app := a, hw_transport := Tr_session\<rparr> = h\<lparr>hw_app := a\<rparr>" for a
      using assms by (cases h) simp
    ultimately show ?thesis using True Some by (simp add: on_transport_message_def on_pointer_def)
  qed
next
  case False
  show ?thesis by (rule step_then [OF rtranclp.rtrancl_refl hs_message [OF assms False]])
qed

lemma click_is_a_run:
  assumes "hw_ui h = Ui_free"
  shows "\<exists>refused. (host_step os io)\<^sup>*\<^sup>* h (h\<lparr>hw_app := click_at_center (win32_ops os) (hw_app h), hw_click_refused := refused\<rparr>)"
proof -
  let ?c = "center_of (primary_bounds (hw_app h))"
  let ?h1 = "h\<lparr>hw_app := snd (left_button (win32_ops os) True ?c (hw_app h)), hw_ui := Ui_clicking ?c\<rparr>"
  obtain ok b where b: "left_button (win32_ops os) False ?c (hw_app ?h1) = (ok, b)" by fastforce
  have "(host_step os io)\<^sup>*\<^sup>* h ?h1" by (rule step_then [OF rtranclp.rtrancl_refl hs_press [OF assms refl]])
  then have "(host_step os io)\<^sup>*\<^sup>* h (?h1\<lparr>hw_app := b, hw_ui := Ui_free, hw_click_refused := \<not> ok\<rparr>)"
    by (rule step_then [OF _ hs_release [OF _ b]]) simp
  moreover have "h\<lparr>hw_app := a, hw_ui := Ui_free, hw_click_refused := r\<rparr> = h\<lparr>hw_app := a, hw_click_refused := r\<rparr>" for a r
    using assms by (cases h) simp
  moreover have "b = click_at_center (win32_ops os) (hw_app h)" using b by (simp add: click_at_center_def Let_def)
  ultimately show ?thesis by auto
qed

section \<open>Heartbeat\<close>

lemma hello_acks_no_drop [simp]:
  "Out_drop \<notin> set (send_hello_ack a)" "Out_drop \<notin> set (send_host_state a)" "Out_drop \<notin> set (send_active_window a)"
  by (simp_all add: send_hello_ack_def send_host_state_def send_active_window_def)

lemma poll_no_drop [simp]: "Out_drop \<notin> set (fst (poll_foreground f a))"
  by (simp add: poll_foreground_def Let_def split: option.split)

lemma pump_session_cases:
  assumes "app_session_active a"
  shows "now - app_last_ping a < kPingInterval \<and> app_last_ping (snd (pump_session now u a)) = app_last_ping a \<and>
      app_unanswered_pings (snd (pump_session now u a)) = app_unanswered_pings a \<and> Out_drop \<notin> set (fst (pump_session now u a)) \<or>
    kPingInterval \<le> now - app_last_ping a \<and> app_last_ping (snd (pump_session now u a)) = now \<and>
      app_unanswered_pings (snd (pump_session now u a)) = app_unanswered_pings a + 1 \<and>
      (Out_drop \<in> set (fst (pump_session now u a)) \<longleftrightarrow> kMaxUnansweredPings \<le> app_unanswered_pings a)"
  using assms by (auto simp: pump_session_def Let_def)

lemma tick_heartbeat:
  assumes "app_session_active a"
  shows "now - app_last_ping a < kPingInterval \<and> app_last_ping (snd (app_tick sb io now u l f a)) = app_last_ping a \<and>
      app_unanswered_pings (snd (app_tick sb io now u l f a)) = app_unanswered_pings a \<and>
      Out_drop \<notin> set (fst (app_tick sb io now u l f a)) \<or>
    kPingInterval \<le> now - app_last_ping a \<and> app_last_ping (snd (app_tick sb io now u l f a)) = now \<and>
      app_unanswered_pings (snd (app_tick sb io now u l f a)) = app_unanswered_pings a + 1 \<and>
      (Out_drop \<in> set (fst (app_tick sb io now u l f a)) \<longleftrightarrow> kMaxUnansweredPings \<le> app_unanswered_pings a)"
  using pump_session_cases [of "snd (poll_foreground f (refresh_layout sb False now l a))" now u] assms
    app_tick_outs [of sb io now u l f a] by auto

text \<open>
  A message that neither answers a ping nor ends the session by itself: no PONG that decodes, no HELLO of another
  version. All others, the greeting included, leave the heartbeat alone.
\<close>

definition no_answer :: "MsgType \<Rightarrow> bytes \<Rightarrow> bool" where
  "no_answer type payload \<longleftrightarrow>
     (type = Msg_Pong \<longrightarrow> decode_Pong payload = None) \<and>
     (type = Msg_Hello \<longrightarrow> (case decode_Hello payload of None \<Rightarrow> True | Some hello \<Rightarrow> h_proto_ver hello = kProtocolVersion))"

lemma message_heartbeat:
  assumes "no_answer type payload"
  shows "app_last_ping (snd (on_transport_message ops win t1 t2 t3 type payload a)) = app_last_ping a \<and>
    app_unanswered_pings (snd (on_transport_message ops win t1 t2 t3 type payload a)) = app_unanswered_pings a \<and>
    Out_drop \<notin> set (fst (on_transport_message ops win t1 t2 t3 type payload a))"
proof (cases type)
  case Msg_Hello
  then show ?thesis using assms by (auto simp: no_answer_def on_transport_message_def on_hello_def split: option.splits)
next
  case Msg_Pong
  then show ?thesis using assms by (simp add: no_answer_def on_transport_message_def on_pong_def)
next
  case Msg_Pointer
  then show ?thesis
    by (simp add: on_transport_message_def on_pointer_def pointer_counted_def pointer_noted_def pointer_measured_def
        pointer_injected_def injection_timed_def Let_def split: option.split)
qed (simp_all add: on_transport_message_def on_viewport_req_def on_key_def on_ping_def on_log_def split: option.split)

text \<open>The times of the ticks of a run, and that they are at most \<open>d\<close> apart.\<close>

fun tick_times :: "session_event list \<Rightarrow> int list" where
  "tick_times [] = []"
| "tick_times (Ev_tick now u l f # es) = now # tick_times es"
| "tick_times (Ev_message win t1 t2 t3 type payload # es) = tick_times es"

fun silent :: "session_event \<Rightarrow> bool" where
  "silent (Ev_tick now u l f) \<longleftrightarrow> True"
| "silent (Ev_message win t1 t2 t3 type payload) \<longleftrightarrow> no_answer type payload"

fun paced :: "int \<Rightarrow> int \<Rightarrow> int list \<Rightarrow> bool" where
  "paced d t [] \<longleftrightarrow> True"
| "paced d t (t' # ts) \<longleftrightarrow> t \<le> t' \<and> t' \<le> t + d \<and> paced d t' ts"

lemma paced_last: "paced d t ts \<Longrightarrow> t \<le> last (t # ts)"
  by (induction d t ts rule: paced.induct) auto

lemma run_drop:
  "Out_drop \<in> set (fst (session_run sb ops io (e # es) a)) \<longleftrightarrow>
     Out_drop \<in> set (fst (session_step sb ops io e a)) \<or>
     Out_drop \<in> set (fst (session_run sb ops io es (snd (session_step sb ops io e a))))"
  by (simp add: Let_def case_prod_beta)

lemma step_session [simp]: "app_session_active (snd (session_step sb ops io e a)) = app_session_active a"
  by (cases e) simp_all

lemma drop_not_early:
  assumes "app_session_active a" "app_unanswered_pings a = k" "0 \<le> k" "k \<le> 3" "t0 + k * kPingInterval \<le> app_last_ping a"
    and "\<forall>e \<in> set es. silent e" "paced d t (tick_times es)" "Out_drop \<in> set (fst (session_run sb ops io es a))"
  shows "t0 + 4 * kPingInterval \<le> last (t # tick_times es)"
  using assms
proof (induction es arbitrary: a k t)
  case (Cons e es)
  let ?b = "snd (session_step sb ops io e a)"
  note outs = Cons.prems(8) [unfolded run_drop]
  show ?case
  proof (cases e)
    case (Ev_message win t1 t2 t3 type payload)
    then show ?thesis using Cons.IH [of ?b k t] Cons.prems(1-7) outs message_heartbeat [of type payload ops win t1 t2 t3 a] by simp
  next
    case (Ev_tick now u l f)
    have le: "now \<le> last (now # tick_times es)" and p: "paced d now (tick_times es)"
      using Cons.prems(7) paced_last [of d now "tick_times es"] by (simp_all add: Ev_tick)
    from tick_heartbeat [OF Cons.prems(1), of now sb io u l f] show ?thesis
    proof (elim disjE conjE)
      assume "app_last_ping (snd (app_tick sb io now u l f a)) = app_last_ping a"
        "app_unanswered_pings (snd (app_tick sb io now u l f a)) = app_unanswered_pings a"
        "Out_drop \<notin> set (fst (app_tick sb io now u l f a))"
      then show ?thesis using Cons.IH [of ?b k now] Cons.prems outs p by (simp add: Ev_tick)
    next
      assume h: "kPingInterval \<le> now - app_last_ping a" "app_last_ping (snd (app_tick sb io now u l f a)) = now"
        "app_unanswered_pings (snd (app_tick sb io now u l f a)) = app_unanswered_pings a + 1"
        "Out_drop \<in> set (fst (app_tick sb io now u l f a)) \<longleftrightarrow> kMaxUnansweredPings \<le> app_unanswered_pings a"
      have t: "t0 + (k + 1) * kPingInterval \<le> now" using h(1) Cons.prems(5) by (simp add: distrib_right)
      show ?thesis
      proof (cases "k = 3")
        case True
        then show ?thesis using t le by (simp add: Ev_tick)
      next
        case False
        then have "Out_drop \<notin> set (fst (app_tick sb io now u l f a))"
          using h(4) Cons.prems(2,4) by (simp add: kMaxUnansweredPings_def)
        then show ?thesis using Cons.IH [of ?b "k + 1" now] Cons.prems False outs p h(2,3) t by (simp add: Ev_tick)
      qed
    qed
  qed
qed simp

lemma drop_not_late:
  assumes "app_session_active a" "app_unanswered_pings a = k" "0 \<le> k" "k \<le> 3" "app_last_ping a \<le> t0 + k * (kPingInterval + d)"
    and "t < app_last_ping a + kPingInterval" "\<forall>e \<in> set es. silent e" "paced d t (tick_times es)"
    and "t0 + 4 * (kPingInterval + d) \<le> last (t # tick_times es)" "0 \<le> d"
  shows "Out_drop \<in> set (fst (session_run sb ops io es a))"
  using assms
proof (induction es arbitrary: a k t)
  case Nil
  have "k * (kPingInterval + d) \<le> 3 * (kPingInterval + d)"
    using Nil.prems by (intro mult_right_mono) (simp_all add: kPingInterval_def)
  then show ?case using Nil.prems by (simp add: distrib_left distrib_right)
next
  case (Cons e es)
  let ?b = "snd (session_step sb ops io e a)"
  show ?case
  proof (cases e)
    case (Ev_message win t1 t2 t3 type payload)
    then have "Out_drop \<in> set (fst (session_run sb ops io es ?b))"
      using Cons.prems message_heartbeat [of type payload ops win t1 t2 t3 a] by (intro Cons.IH [of ?b k t]) simp_all
    then show ?thesis unfolding run_drop by simp
  next
    case (Ev_tick now u l f)
    have p: "paced d now (tick_times es)" "now \<le> t + d" using Cons.prems(8) by (simp_all add: Ev_tick)
    from tick_heartbeat [OF Cons.prems(1), of now sb io u l f] show ?thesis
    proof (elim disjE conjE)
      assume "now - app_last_ping a < kPingInterval" "app_last_ping (snd (app_tick sb io now u l f a)) = app_last_ping a"
        "app_unanswered_pings (snd (app_tick sb io now u l f a)) = app_unanswered_pings a"
      then show ?thesis using Cons.IH [of ?b k now] Cons.prems p unfolding run_drop by (simp add: Ev_tick)
    next
      assume h: "app_last_ping (snd (app_tick sb io now u l f a)) = now"
        "app_unanswered_pings (snd (app_tick sb io now u l f a)) = app_unanswered_pings a + 1"
        "Out_drop \<in> set (fst (app_tick sb io now u l f a)) \<longleftrightarrow> kMaxUnansweredPings \<le> app_unanswered_pings a"
      have "now \<le> t0 + (k + 1) * (kPingInterval + d)" using Cons.prems(5,6) p by (simp add: distrib_right)
      then show ?thesis
        using Cons.IH [of ?b "k + 1" now] Cons.prems p h unfolding run_drop
        by (cases "k = 3") (simp_all add: Ev_tick kMaxUnansweredPings_def kPingInterval_def)
    qed
  qed
qed

section \<open>Handshake\<close>

lemma os_windows_named: "enum_HostOs Os_Windows"
  by code_simp

text \<open>What a display layout and its acknowledgement say about the screens: the desktop, and per monitor its place, density and role.\<close>

definition layout_screens :: "DisplayLayout \<Rightarrow> Recti \<times> (Recti \<times> u32 \<times> bool) list" where
  "layout_screens l = (dl_virtual_bounds l, map (\<lambda>m. (mi_bounds m, mi_dpi m, mi_primary m)) (dl_monitors l))"

definition ack_screens :: "HelloAck \<Rightarrow> Recti \<times> (Recti \<times> u32 \<times> bool) list" where
  "ack_screens k =
     (recti (sint (ha_vx k)) (sint (ha_vy k)) (sint (ha_vw k)) (sint (ha_vh k)),
      map (\<lambda>m. (recti (sint (mon_x m)) (sint (mon_y m)) (sint (mon_w m)) (sint (mon_h m)), mon_dpi m, mon_primary m)) (ha_monitors k))"

definition rect_i32 :: "Recti \<Rightarrow> bool" where
  "rect_i32 r \<longleftrightarrow> is_i32 (rect_x r) \<and> is_i32 (rect_y r) \<and> is_i32 (rect_w r) \<and> is_i32 (rect_h r)"

lemma rect_through_words:
  "rect_i32 r \<Longrightarrow> recti (sint (word_of_int (rect_x r) :: i32)) (sint (word_of_int (rect_y r) :: i32))
     (sint (word_of_int (rect_w r) :: i32)) (sint (word_of_int (rect_h r) :: i32)) = r"
  by (simp add: rect_i32_def recti_def flip: to_i32_def)

lemma ack_screens_of:
  "rect_i32 (dl_virtual_bounds l) \<Longrightarrow> list_all (\<lambda>m. rect_i32 (mi_bounds m)) (dl_monitors l) \<Longrightarrow>
   ack_screens (hello_ack_of l) = layout_screens l"
  by (auto simp: ack_screens_def hello_ack_of_def layout_screens_def rect_through_words list_all_iff)

section \<open>Properties\<close>

definition ex_layout :: DisplayLayout where
  "ex_layout =
     \<lparr>dl_virtual_bounds = recti (- 1920) 0 3840 1080,
      dl_monitors = [\<lparr>mi_bounds = recti 0 0 1920 1080, mi_dpi = 96, mi_primary = True, mi_name = ''D1''\<rparr>,
        \<lparr>mi_bounds = recti (- 1920) 0 1920 1080, mi_dpi = 96, mi_primary = False, mi_name = ''D2''\<rparr>]\<rparr>"

definition ex_app :: "(desk injector, nat) host_app" where
  "ex_app = fst (app_init set_virtual_bounds (win32_ops sim_os) ''C:'' None 0 ex_layout
     (app_new (injector_init \<lparr>d_keys = {}, d_buttons = {}\<rparr>) 0))"

lemma ex_app_sel [simp]: "app_layout ex_app = ex_layout" "\<not> app_session_active ex_app"
  by (simp_all add: ex_app_def app_init_def Let_def case_prod_beta refresh_layout_def) (simp add: set_smoother_def case_prod_beta app_new_def)

text \<open>
  C6: a host without a session holds nothing. In every state the two threads can reach, in any interleaving of
  their steps, whatever was connected, drawn, typed, switched, clicked or tested before and whatever calls the
  operating system refused: if no session is active and no disconnection is under way, then the pen is up, the
  pipeline has no open stroke, and the injector holds at most the left button, and that only while the self test
  is between the press and the release of its click, or after the operating system refused that release. (While a
  disconnection is under way, the flag is already cleared and the button not yet released.)
\<close>

theorem idle_host_holds_nothing:
  assumes "host_reachable os io v w h" and "\<not> app_session_active (hw_app h)" and "\<forall>n. hw_transport h \<noteq> Tr_closing n"
  shows "\<not> app_pen_down (hw_app h) \<and> \<not> pp_down (fst (app_pipeline (hw_app h))) \<and>
    held_buttons (snd (app_pipeline (hw_app h))) \<subseteq> {button_index Button_Left} \<and>
    (hw_ui h = Ui_free \<and> \<not> hw_click_refused h \<longrightarrow> held_buttons (snd (app_pipeline (hw_app h))) = {})"
  using reachable_safe [OF assms(1)] assms(2,3) by (simp add: host_safe_def released_def split: transport_stage.splits)

text \<open>Injection switched on, a stroke, a click that comes between two steps of the disconnection, and its release.\<close>

definition ex_world :: "(desk, nat) host_world" where
  "ex_world =
     (let h = host_started sim_os ''C:'' None 0 ex_layout \<lparr>d_keys = {}, d_buttons = {}\<rparr> 0 in
      h\<lparr>hw_app := fst (snd (toggle_injection (win32_ops sim_os) (hw_app h)))\<rparr>)"

definition ex_stroke :: "(desk, nat) host_world" where
  "ex_stroke =
     ex_world\<lparr>hw_app := pointer_injected (win32_ops sim_os) None ex_Pointer (pointer_measured 1 ex_Pointer
         (pointer_noted 1 ex_Pointer (pointer_counted ex_Pointer (on_transport_connect 0 (hw_app ex_world))))),
       hw_transport := Tr_pointer 4 1 ex_Pointer\<rparr>"

definition ex_click :: "int \<times> int" where "ex_click = center_of (primary_bounds (hw_app ex_world))"

definition ex_closed :: "(desk, nat) host_world" where
  "ex_closed =
     (let a = session_closed (injection_timed 2 3 (hw_app ex_stroke)); b = snd (left_button (win32_ops sim_os) True ex_click a);
          c = guest_forgotten (strokes_ended (win32_ops sim_os) (frames_stopped ex_source b));
          (ok, d) = left_button (win32_ops sim_os) False ex_click c in
      ex_world\<lparr>hw_app := d, hw_click_refused := \<not> ok\<rparr>)"

lemma ex_stroke_reachable: "host_reachable sim_os ex_source \<lparr>d_keys = {}, d_buttons = {}\<rparr> 0 ex_stroke"
proof -
  let ?r = "host_reachable sim_os ex_source \<lparr>d_keys = {}, d_buttons = {}\<rparr> 0"
  have d: "decode_Pointer (payload_Pointer ex_Pointer) = Some ex_Pointer"
    by (intro Pointer_codec.dec_payload) code_simp
  have w: "hw_transport ex_world = Tr_waiting" "hw_ui ex_world = Ui_free" by (simp_all add: ex_world_def host_started_def Let_def)
  have "?r ex_world" unfolding ex_world_def Let_def
    by (rule hr_step [OF hr_init hs_ui [OF _ up_toggle]]) (simp add: host_started_def)
  note w = w this
  note r1 = hr_step [OF w(3) hs_connect [OF w(1)]]
  note r2 = hr_step [OF hr_step [OF r1 hs_open] hs_opened, of 0, simplified]
  note r3 = hr_step [OF r2 hs_pointer [OF _ d], of 1, simplified]
  note r4 = hr_step [OF hr_step [OF hr_step [OF r3 hs_note] hs_measure] hs_inject, of 1 ex_Pointer 1 ex_Pointer 1 ex_Pointer None, simplified]
  show ?thesis using r4 by (simp add: ex_stroke_def connect_defs)
qed

lemma sim_left_button: "fst (left_button (win32_ops sim_os) d c a)"
  by (auto simp: left_button_def win32_ops_def inj_button_def inj_emit_def send_input_def sim_os_def Let_def split: prod.splits)

lemma ex_closed_reachable: "host_reachable sim_os ex_source \<lparr>d_keys = {}, d_buttons = {}\<rparr> 0 ex_closed"
proof -
  let ?a = "session_closed (injection_timed 2 3 (hw_app ex_stroke))"
  have s: "hw_transport ex_stroke = Tr_pointer 4 1 ex_Pointer" "hw_ui ex_stroke = Ui_free" by (simp_all add: ex_stroke_def ex_world_def host_started_def Let_def)
  have "app_layout ?a = app_layout (hw_app ex_world)"
    by (simp add: ex_stroke_def session_closed_def injection_timed_def pointer_injected_def pointer_measured_def pointer_noted_def
        pointer_counted_def connect_defs Let_def)
  then have c: "center_of (primary_bounds ?a) = ex_click" unfolding ex_click_def primary_bounds_def by metis
  note r1 = hr_step [OF hr_step [OF ex_stroke_reachable hs_timed [OF s(1), of _ _ 2 3]] hs_close, simplified]
  note r2 = hr_step [OF r1 hs_press [OF _ refl], simplified, OF s(2), unfolded c]
  note r3 = hr_step [OF hr_step [OF hr_step [OF r2 hs_stop] hs_end] hs_forget, simplified]
  note r4 = hr_step [OF r3 hs_release [OF _ prod.collapse [symmetric]], simplified]
  show ?thesis using r4 by (simp add: ex_closed_def Let_def case_prod_beta ex_stroke_def ex_world_def host_started_def)
qed

theorem idle_host_holds_nothing_witness:
  "\<not> app_pen_down (hw_app ex_closed) \<and> \<not> pp_down (fst (app_pipeline (hw_app ex_closed))) \<and>
   held_buttons (snd (app_pipeline (hw_app ex_closed))) = {}"
proof -
  have "hw_transport ex_closed = Tr_waiting" "hw_ui ex_closed = Ui_free" "\<not> hw_click_refused ex_closed"
    "\<not> app_session_active (hw_app ex_closed)"
    by (simp_all add: ex_closed_def Let_def case_prod_beta ex_world_def host_started_def sim_left_button)
      (simp add: left_button_def case_prod_beta disconnect_defs)
  then show ?thesis using idle_host_holds_nothing [OF ex_closed_reachable] by simp
qed

text \<open>
  C36: the heartbeat drops a guest that answers no ping in time and never before. From a moment of a session at which no
  ping is unanswered and \<open>t0\<close> is the time of the connection or of the last ping, whatever the guest sends other than
  a PONG (its greeting, pointers, keys, requests, even malformed messages), and with ticks at most \<open>d\<close> apart from the
  last one at \<open>t\<close> on: the session is not dropped before four intervals have passed since \<open>t0\<close>, and it is dropped once four
  intervals, each late by at most \<open>d\<close>, have. A HELLO of another version is left out: it drops the session at once.
\<close>

theorem heartbeat_deadline:
  assumes "app_session_active a" and "app_unanswered_pings a = 0" and "app_last_ping a = t0"
    and "\<forall>e \<in> set es. silent e" and "paced d t (tick_times es)" and "0 \<le> d" and "t < t0 + kPingInterval"
  shows "(Out_drop \<in> set (fst (session_run sb ops io es a)) \<longrightarrow> t0 + 4 * kPingInterval \<le> last (t # tick_times es)) \<and>
    (t0 + 4 * (kPingInterval + d) \<le> last (t # tick_times es) \<longrightarrow> Out_drop \<in> set (fst (session_run sb ops io es a)))"
proof (intro conjI impI)
  assume "Out_drop \<in> set (fst (session_run sb ops io es a))"
  with assms(3-5) show "t0 + 4 * kPingInterval \<le> last (t # tick_times es)"
    by (intro drop_not_early [OF assms(1,2), of t0 es d t]) simp_all
next
  assume "t0 + 4 * (kPingInterval + d) \<le> last (t # tick_times es)"
  with assms(3-7) show "Out_drop \<in> set (fst (session_run sb ops io es a))"
    by (intro drop_not_late [OF assms(1,2), of t0 d t es]) simp_all
qed

text \<open>A guest that greets and then says nothing more.\<close>

definition ex_silence :: "session_event list" where
  "ex_silence = Ev_message None 1 2 3 Msg_Hello (payload_Hello ex_Hello) #
     map (\<lambda>k. Ev_tick (int k * 500000) 7 ex_layout None) [1, 2, 3, 4, 5, 6, 7, 8, 9, 10, 11, 12]"

theorem heartbeat_deadline_witness:
  "Out_drop \<in> set (fst (session_run set_virtual_bounds (win32_ops sim_os) ex_source ex_silence (on_transport_connect 0 ex_app)))"
proof -
  have h: "decode_Hello (payload_Hello ex_Hello) = Some ex_Hello" by (intro Hello_codec.dec_payload) code_simp
  have v: "h_proto_ver ex_Hello = kProtocolVersion" by code_simp
  have "app_session_active (on_transport_connect 0 ex_app)" "app_unanswered_pings (on_transport_connect 0 ex_app) = 0"
    "app_last_ping (on_transport_connect 0 ex_app) = 0"
    by (simp_all add: connect_defs)
  from heartbeat_deadline [OF this, of ex_silence 500000 0] show ?thesis
    by (simp add: ex_silence_def no_answer_def h v kPingInterval_def del: session_run.simps)
qed

text \<open>
  C37: a greeting is answered once, and with the screens as they are. A HELLO of the host's version is
  remembered, and the next turn of the session sends the acknowledgement, the host's state and the focused
  program, if it is known; the turn after that sends none of them. The acknowledgement decodes to the desktop and
  the monitors of the layout, if there are less than 256 of them. A HELLO of another version drops the session and changes nothing.
\<close>

theorem hello_answered:
  assumes "wf_Hello h" and "app_session_active a"
    and "length (dl_monitors (app_layout a)) < 256" and "rect_i32 (dl_virtual_bounds (app_layout a))"
    and "list_all (\<lambda>m. rect_i32 (mi_bounds m)) (dl_monitors (app_layout a))"
  shows "let (outs, a1) = on_transport_message ops win t1 t2 t3 Msg_Hello (payload_Hello h) a;
             (outs1, a2) = pump_session now u a1; (outs2, a3) = pump_session now' u' a2 in
    if h_proto_ver h \<noteq> kProtocolVersion then outs = [Out_drop] \<and> a1 = a
    else outs = [] \<and> app_guest a2 = h \<and> app_guest_known a2 \<and>
      (\<exists>k. take (if app_active_window_known a then 3 else 2) outs1 =
             Out_send (encode_HelloAck k) #
             Out_send (encode_HostState \<lparr>hs_enabled = app_enabled a, hs_injecting = pp_down (fst (app_pipeline a))\<rparr>) #
             (if app_active_window_known a then [Out_send (encode_ActiveWindow (app_active_window a))] else []) \<and>
           (\<exists>k'. decode_HelloAck (drop kHeaderSize (encode_HelloAck k)) = Some k' \<and>
             ack_screens k' = layout_screens (app_layout a))) \<and>
      set outs2 \<subseteq> {Out_drop, Out_send (encode_Ping \<lparr>ping_t_send_us = u'\<rparr>)}"
proof -
  let ?k = "hello_ack_of (app_layout a)"
  have k: "decode_HelloAck (drop kHeaderSize (encode_HelloAck ?k)) = Some ?k"
    using assms(3) by (intro HelloAck_codec.dec_enc) (simp add: wf_HelloAck_def hello_ack_of_def os_windows_named)
  have s: "ack_screens ?k = layout_screens (app_layout a)" using assms(4,5) by (rule ack_screens_of)
  have m: "on_transport_message ops win t1 t2 t3 Msg_Hello (payload_Hello h) a =
      (if h_proto_ver h \<noteq> kProtocolVersion then ([Out_drop], a)
       else ([], a\<lparr>app_guest := h, app_guest_known := True, app_hello_ack_pending := True\<rparr>))"
    using assms(1) by (simp add: on_transport_message_def on_hello_def Hello_codec.dec_payload)
  show ?thesis
  proof (cases "h_proto_ver h = kProtocolVersion")
    case True
    then show ?thesis using k s assms(2) unfolding m
      by (auto simp: pump_session_def Let_def send_hello_ack_def send_host_state_def send_active_window_def intro!: exI [of _ ?k])
  qed (simp add: m case_prod_beta)
qed

theorem hello_answered_witness:
  "\<exists>k. take 2 (fst (pump_session 10 11 (snd (on_transport_message (win32_ops sim_os) None 1 2 3 Msg_Hello (payload_Hello ex_Hello)
        (on_transport_connect 0 ex_app))))) =
        [Out_send (encode_HelloAck k), Out_send (encode_HostState \<lparr>hs_enabled = app_enabled (on_transport_connect 0 ex_app),
           hs_injecting = pp_down (fst (app_pipeline (on_transport_connect 0 ex_app)))\<rparr>)] \<and>
      (\<exists>k'. decode_HelloAck (drop kHeaderSize (encode_HelloAck k)) = Some k' \<and> ack_screens k' = layout_screens ex_layout)"
proof -
  let ?a = "on_transport_connect 0 ex_app"
  have w: "wf_Hello ex_Hello" "h_proto_ver ex_Hello = kProtocolVersion" by code_simp+
  have l: "app_layout ?a = ex_layout" "app_session_active ?a" by (simp_all add: connect_defs)
  have n: "\<not> app_active_window_known ?a"
    by (simp add: connect_defs ex_app_def app_init_def Let_def case_prod_beta refresh_layout_def set_smoother_def)
      (simp add: app_new_def)
  have "length (dl_monitors ex_layout) < 256" "rect_i32 (dl_virtual_bounds ex_layout)"
      "list_all (\<lambda>m. rect_i32 (mi_bounds m)) (dl_monitors ex_layout)"
    by (simp_all add: ex_layout_def rect_i32_def is_i32_def recti_def)
  then show ?thesis
    using hello_answered [OF w(1) l(2), unfolded l(1), of "win32_ops sim_os" None 1 2 3 10 11 20 21] w(2) n l(1)
    by (auto simp: Let_def case_prod_beta)
qed

text \<open>
  C38: a viewport request outlives its session. A VIEWPORT_REQ that arrives just before the guest goes away is
  not forgotten with the session: the next tick applies it, and the sender streams with nobody connected.
\<close>

theorem viewport_outlives_session:
  assumes "app_session_active a" and "decode_ViewportReq payload = Some r"
    and "0 < vr_fps r" and "vr_format r = Format_Etc2Rgb8" and "vg_valid (request_geometry r)"
  shows "let b = on_transport_disconnect ops io (snd (on_transport_message ops win t1 t2 t3 Msg_ViewportReq payload a)) in
    \<not> app_session_active b \<and> \<not> sd_streaming (fst (app_frames b)) \<and>
    \<not> app_session_active (apply_viewport b) \<and> sd_streaming (fst (app_frames (apply_viewport b)))"
  using assms(2-5)
  by (simp add: on_transport_message_def on_viewport_req_def disconnect_defs apply_viewport_def set_viewport_def
      sender_stop_def Let_def case_prod_beta)

theorem viewport_outlives_session_witness:
  "sd_streaming (fst (app_frames (apply_viewport (on_transport_disconnect (win32_ops sim_os) ex_source
     (snd (on_transport_message (win32_ops sim_os) None 1 2 3 Msg_ViewportReq (payload_ViewportReq ex_request) (on_transport_connect 0 ex_app)))))))"
proof -
  have "decode_ViewportReq (payload_ViewportReq ex_request) = Some ex_request"
    by (intro ViewportReq_codec.dec_payload) code_simp
  moreover have "vg_valid (request_geometry ex_request)" by code_simp
  ultimately show ?thesis
    using viewport_outlives_session [of "on_transport_connect 0 ex_app" "payload_ViewportReq ex_request" ex_request
        "win32_ops sim_os" ex_source None 1 2 3]
    by (simp add: Let_def ex_request_def connect_defs)
qed

end
