(* ===== verification/GuestLink.thy ===== *)
theory GuestLink
  imports Framer "HOL-Library.Sublist"
begin

text \<open>
  The guest's end of the tunnel, \<open>guest/.../net/TcpTransport.cpp\<close>: dialling with a growing delay, reading a
  session until it fails or goes quiet, and writing whole messages under a lock.

  What the system calls return is an argument: the answers of \<open>send\<close>, of \<open>select\<close> and \<open>recv\<close> with the time at
  which they come (milliseconds), and whether \<open>connect\<close> succeeded. A list of answers that ends stands for a call
  that has not returned yet.
\<close>

section \<open>Definitions\<close>

definition kRecvBufferBytes :: nat where "kRecvBufferBytes = 16 * 1024"
definition kMinBackoffMs :: int where "kMinBackoffMs = 250"
definition kMaxBackoffMs :: int where "kMaxBackoffMs = 4000"
definition kReceiveTimeoutMs :: int where "kReceiveTimeoutMs = 5000"

datatype LinkState = Link_Stopped | Link_Connecting | Link_Connected

record tcp_link =
  lk_running :: bool
  lk_state :: LinkState
  lk_rx_messages :: u64
  lk_tx_messages :: u64
  lk_attempts :: u32
  lk_socket :: "nat option"
  lk_framer :: framer
  lk_reported_unreachable :: bool
  lk_session_saw_data :: bool

definition link_init :: tcp_link where
  "link_init =
     \<lparr>lk_running = False, lk_state = Link_Stopped, lk_rx_messages = 0, lk_tx_messages = 0, lk_attempts = 0, lk_socket = None,
      lk_framer = framer_init, lk_reported_unreachable = False, lk_session_saw_data = False\<rparr>"

definition link_start :: "tcp_link \<Rightarrow> tcp_link" where
  "link_start l = (if lk_running l then l else l\<lparr>lk_running := True, lk_state := Link_Connecting\<rparr>)"

subsection \<open>Writing\<close>

datatype write_answer = Wrote nat | Write_interrupted | Write_failed

text \<open>The loop of \<open>send\<close>: what reaches the socket, and the result once there is one.\<close>

fun send_bytes :: "write_answer list \<Rightarrow> bytes \<Rightarrow> bytes \<times> bool option" where
  "send_bytes ws [] = ([], Some True)"
| "send_bytes [] (b # bs) = ([], None)"
| "send_bytes (Write_interrupted # ws) (b # bs) = send_bytes ws (b # bs)"
| "send_bytes (Write_failed # ws) (b # bs) = ([], Some False)"
| "send_bytes (Wrote n # ws) (b # bs) =
     (if n = 0 then ([], Some False)
      else let (out, r) = send_bytes ws (drop n (b # bs)) in (take n (b # bs) @ out, r))"

definition link_send :: "write_answer list \<Rightarrow> bytes \<Rightarrow> tcp_link \<Rightarrow> bytes \<times> bool option \<times> tcp_link" where
  "link_send ws bs l =
     (if lk_socket l = None then ([], Some False, l)
      else
        let (out, r) = send_bytes ws bs in
        (out, r, if r = Some True then l\<lparr>lk_tx_messages := lk_tx_messages l + 1\<rparr> else l))"

text \<open>Calls of \<open>send\<close> one after the other, as the lock has them: what the socket gets, and each result.\<close>

fun send_each :: "(write_answer list \<times> bytes) list \<Rightarrow> tcp_link \<Rightarrow> bytes \<times> bool option list \<times> tcp_link" where
  "send_each [] l = ([], [], l)"
| "send_each ((ws, bs) # calls) l =
     (let (out, r, l1) = link_send ws bs l; (more, rs, l2) = send_each calls l1 in (out @ more, r # rs, l2))"

definition close_socket :: "tcp_link \<Rightarrow> tcp_link" where
  "close_socket l = l\<lparr>lk_socket := None\<rparr>"

subsection \<open>A session\<close>

datatype read_answer = Select_failed | Select_interrupted | Select_quiet int | Received int bytes | Recv_ended

definition link_receive :: "bytes \<Rightarrow> tcp_link \<Rightarrow> frame list \<times> tcp_link" where
  "link_receive got l =
     (let (messages, f) = drain (framer_push got (lk_framer l)) in
      (messages,
       l\<lparr>lk_session_saw_data := True, lk_framer := f, lk_rx_messages := lk_rx_messages l + of_nat (length messages)\<rparr>))"

text \<open>The messages handed over, the link, and whether the loop has returned.\<close>

fun link_session :: "read_answer list \<Rightarrow> int \<Rightarrow> tcp_link \<Rightarrow> frame list \<times> tcp_link \<times> bool" where
  "link_session [] last_rx l = ([], l, \<not> lk_running l \<or> lk_socket l = None)"
| "link_session (r # rs) last_rx l =
     (if \<not> lk_running l \<or> lk_socket l = None then ([], l, True)
      else
        case r of
          Select_failed \<Rightarrow> ([], l, True)
        | Select_interrupted \<Rightarrow> link_session rs last_rx l
        | Select_quiet now \<Rightarrow> if kReceiveTimeoutMs \<le> now - last_rx then ([], l, True) else link_session rs last_rx l
        | Recv_ended \<Rightarrow> ([], l, True)
        | Received now got \<Rightarrow>
            let (messages, l1) = link_receive got l; (more, l2, ended) = link_session rs now l1 in
            (messages @ more, l2, ended))"

subsection \<open>Connecting again and again\<close>

text \<open>
  What the network thread does, for the observer: it sleeps, opens a session, hands over a message, ends a
  session. A round of \<open>run\<close> is a failed dial, or a socket with the answers of its session.
\<close>

datatype link_obs = Slept int | Link_up | Link_message frame | Link_down_seen

datatype dial_round = Dial_failed | Dialled nat int "read_answer list"

definition next_backoff :: "int \<Rightarrow> int" where
  "next_backoff backoff = (if backoff * 2 < kMaxBackoffMs then backoff * 2 else kMaxBackoffMs)"

definition link_round :: "dial_round \<Rightarrow> int \<times> tcp_link \<Rightarrow> link_obs list \<times> int \<times> tcp_link" where
  "link_round round bl =
     (let (backoff, l0) = bl; l1 = l0\<lparr>lk_state := Link_Connecting, lk_attempts := lk_attempts l0 + 1\<rparr> in
      case round of
        Dial_failed \<Rightarrow> ([Slept backoff], next_backoff backoff, l1)
      | Dialled fd started answers \<Rightarrow>
          let l2 = l1\<lparr>lk_socket := Some fd, lk_framer := framer_reset (lk_framer l1), lk_state := Link_Connected,
                     lk_session_saw_data := False\<rparr>;
              (messages, l3, _) = link_session answers started l2;
              l4 = close_socket l3; obs = Link_up # map Link_message messages @ [Link_down_seen] in
          if lk_session_saw_data l4 then (obs, kMinBackoffMs, l4\<lparr>lk_reported_unreachable := False\<rparr>)
          else (obs @ [Slept backoff], next_backoff backoff, l4\<lparr>lk_reported_unreachable := True\<rparr>))"

fun link_rounds :: "dial_round list \<Rightarrow> int \<times> tcp_link \<Rightarrow> link_obs list \<times> int \<times> tcp_link" where
  "link_rounds [] bl = ([], bl)"
| "link_rounds (r # rs) bl =
     (let (obs, bl1) = link_round r bl; (more, bl2) = link_rounds rs bl1 in (obs @ more, bl2))"

definition link_run :: "dial_round list \<Rightarrow> tcp_link \<Rightarrow> link_obs list \<times> int \<times> tcp_link" where
  "link_run rounds l = link_rounds rounds (kMinBackoffMs, l)"

definition link_stop :: "tcp_link \<Rightarrow> tcp_link" where
  "link_stop l = (if \<not> lk_running l then l else (close_socket (l\<lparr>lk_running := False\<rparr>))\<lparr>lk_state := Link_Stopped\<rparr>)"

section \<open>Writing\<close>

lemma send_bytes_prefix: "prefix (fst (send_bytes ws bs)) bs"
proof (induction ws bs rule: send_bytes.induct)
  case (5 n ws b bs)
  then show ?case
    by (simp add: case_prod_beta Let_def del: drop_Suc_Cons take_Suc_Cons)
      (metis append_take_drop_id same_prefix_prefix)
qed auto

lemma send_bytes_done: "snd (send_bytes ws bs) = Some True \<Longrightarrow> fst (send_bytes ws bs) = bs"
  by (induction ws bs rule: send_bytes.induct) (auto simp: Let_def case_prod_beta split: if_splits)

lemma send_bytes_failed: "snd (send_bytes ws bs) = Some False \<Longrightarrow> length (fst (send_bytes ws bs)) < length bs"
  by (induction ws bs rule: send_bytes.induct) (auto simp: Let_def case_prod_beta min_def split: if_splits)

lemma send_bytes_enough:
  "list_all (\<lambda>w. \<exists>n. w = Wrote (Suc n)) ws \<Longrightarrow> length bs \<le> length ws \<Longrightarrow> snd (send_bytes ws bs) = Some True"
  by (induction ws bs rule: send_bytes.induct) (auto simp: Let_def case_prod_beta)

lemma link_send_open:
  "lk_socket l = Some fd \<Longrightarrow>
   link_send ws bs l =
     (fst (send_bytes ws bs), snd (send_bytes ws bs),
      if snd (send_bytes ws bs) = Some True then l\<lparr>lk_tx_messages := lk_tx_messages l + 1\<rparr> else l)"
  by (simp add: link_send_def Let_def case_prod_beta)

lemma send_each_bytes:
  "lk_socket l = Some fd \<Longrightarrow> list_all (\<lambda>r. r = Some True) (fst (snd (send_each calls l))) \<Longrightarrow>
   fst (send_each calls l) = concat (map snd calls)"
proof (induction calls arbitrary: l)
  case (Cons c calls)
  obtain ws bs where c: "c = (ws, bs)" by fastforce
  from Cons.prems have w: "snd (send_bytes ws bs) = Some True" by (simp add: c link_send_open Let_def case_prod_beta)
  from Cons w send_bytes_done [OF w] show ?case by (simp add: c link_send_open Let_def case_prod_beta)
qed simp

section \<open>A session\<close>

lemma link_receive_fields [simp]:
  "lk_running (snd (link_receive got l)) = lk_running l" "lk_socket (snd (link_receive got l)) = lk_socket l"
  by (simp_all add: link_receive_def Let_def case_prod_beta)

lemma link_session_fields [simp]: "lk_running (fst (snd (link_session rs t l))) = lk_running l"
  by (induction rs arbitrary: t l) (auto simp: Let_def case_prod_beta split: read_answer.split)

text \<open>The bytes the session loop takes before it returns.\<close>

fun taken :: "read_answer list \<Rightarrow> int \<Rightarrow> bytes list" where
  "taken [] last_rx = []"
| "taken (Select_interrupted # rs) last_rx = taken rs last_rx"
| "taken (Select_quiet now # rs) last_rx = (if kReceiveTimeoutMs \<le> now - last_rx then [] else taken rs last_rx)"
| "taken (Received now got # rs) last_rx = got # taken rs now"
| "taken (_ # rs) last_rx = []"

lemma link_session_feed:
  "lk_running l \<Longrightarrow> lk_socket l = Some fd \<Longrightarrow> fst (link_session rs t l) = fst (feed (taken rs t) (lk_framer l))"
proof (induction rs t arbitrary: l rule: taken.induct)
  case (4 now got rs t)
  then show ?case by (simp add: link_receive_def Let_def case_prod_beta)
qed simp_all

lemma link_session_saw:
  "lk_running l \<Longrightarrow> lk_socket l = Some fd \<Longrightarrow>
   lk_session_saw_data (fst (snd (link_session rs t l))) \<longleftrightarrow> lk_session_saw_data l \<or> taken rs t \<noteq> []"
proof (induction rs t arbitrary: l rule: taken.induct)
  case (4 now got rs t)
  then show ?case by (simp add: Let_def case_prod_beta) (simp add: link_receive_def Let_def case_prod_beta)
qed simp_all

lemma framer_reset_idle: "framer_idle (framer_reset f)" "pending_bytes (framer_reset f) = []"
  by (simp_all add: framer_idle_def framer_inv_def undecided_def framer_reset_def pending_bytes_def kCompactThreshold_def)

lemma fresh_session_parse:
  assumes "lk_running l" "lk_socket l = Some fd" "lk_framer l = framer_reset f"
  shows "fst (link_session rs t l) = fst (parse (concat (taken rs t)))"
proof -
  obtain ms rest d where "parse (concat (taken rs t)) = (ms, rest, d)" by (metis prod_cases3)
  then show ?thesis
    using feed_parse [OF framer_reset_idle(1) [of f], of "taken rs t" ms rest d] framer_reset_idle(2) [of f]
      link_session_feed [OF assms(1,2), of rs t] assms(3) by auto
qed

text \<open>
  A host that has gone: after \<open>rs\<close>, whose last bytes came at \<open>heard rs t\<close>, \<open>select\<close> only times out.
\<close>

fun heard :: "read_answer list \<Rightarrow> int \<Rightarrow> int" where
  "heard [] last_rx = last_rx"
| "heard (Received now got # rs) last_rx = heard rs now"
| "heard (_ # rs) last_rx = heard rs last_rx"

lemma quiet_session:
  "lk_running l \<Longrightarrow> lk_socket l = Some fd \<Longrightarrow>
   snd (snd (link_session (map Select_quiet ts) last_rx l)) \<longleftrightarrow> (\<exists>t \<in> set ts. kReceiveTimeoutMs \<le> t - last_rx)"
  by (induction ts arbitrary: l) auto

lemma silence_ends_session:
  assumes "lk_running l" "lk_socket l = Some fd" "\<not> snd (snd (link_session rs t l))"
  shows "snd (snd (link_session (rs @ map Select_quiet ts) t l)) \<longleftrightarrow> (\<exists>now \<in> set ts. kReceiveTimeoutMs \<le> now - heard rs t)"
  using assms
proof (induction rs t arbitrary: l rule: heard.induct)
  case (1 t)
  then show ?case by (simp add: quiet_session)
qed (auto simp: Let_def case_prod_beta split: if_splits)

section \<open>Connecting again\<close>

definition idle_round :: "dial_round \<Rightarrow> bool" where
  "idle_round r \<longleftrightarrow> (case r of Dial_failed \<Rightarrow> True | Dialled fd started answers \<Rightarrow> taken answers started = [])"

fun sleeps :: "link_obs list \<Rightarrow> int list" where
  "sleeps [] = []"
| "sleeps (Slept n # os) = n # sleeps os"
| "sleeps (_ # os) = sleeps os"

lemma sleeps_append [simp]: "sleeps (xs @ ys) = sleeps xs @ sleeps ys"
  by (induction xs rule: sleeps.induct) simp_all

lemma sleeps_messages [simp]: "sleeps (map Link_message ms) = []"
  by (induction ms) simp_all

lemma link_round_effect:
  assumes "lk_running l"
  shows "lk_running (snd (snd (link_round r (b, l))))"
    and "sleeps (fst (link_round r (b, l))) = (if idle_round r then [b] else [])"
    and "fst (snd (link_round r (b, l))) = (if idle_round r then next_backoff b else kMinBackoffMs)"
proof -
  have "lk_running (snd (snd (link_round r (b, l)))) \<and>
    sleeps (fst (link_round r (b, l))) = (if idle_round r then [b] else []) \<and>
    fst (snd (link_round r (b, l))) = (if idle_round r then next_backoff b else kMinBackoffMs)"
  proof (cases r)
    case (Dialled fd started answers)
    define l2 where "l2 = l\<lparr>lk_attempts := lk_attempts l + 1, lk_socket := Some fd, lk_framer := framer_reset (lk_framer l),
        lk_state := Link_Connected, lk_session_saw_data := False\<rparr>"
    have "lk_running l2" "lk_socket l2 = Some fd" "\<not> lk_session_saw_data l2" by (simp_all add: l2_def assms)
    from this link_session_saw [OF this(1,2), of answers started]
    show ?thesis
      by (simp add: link_round_def Dialled Let_def case_prod_beta close_socket_def idle_round_def)
        (simp add: l2_def assms)
  qed (simp add: link_round_def idle_round_def assms)
  then show "lk_running (snd (snd (link_round r (b, l))))"
    "sleeps (fst (link_round r (b, l))) = (if idle_round r then [b] else [])"
    "fst (snd (link_round r (b, l))) = (if idle_round r then next_backoff b else kMinBackoffMs)" by auto
qed

lemma link_rounds_append:
  "link_rounds (xs @ ys) bl =
     (fst (link_rounds xs bl) @ fst (link_rounds ys (snd (link_rounds xs bl))), snd (link_rounds ys (snd (link_rounds xs bl))))"
  by (induction xs arbitrary: bl) (simp_all add: Let_def case_prod_beta)

lemma rounds_running: "lk_running l \<Longrightarrow> lk_running (snd (snd (link_rounds rs (b, l))))"
proof (induction rs arbitrary: b l)
  case (Cons r rs)
  obtain obs b1 l1 where "link_round r (b, l) = (obs, b1, l1)" by (metis prod_cases3)
  with Cons link_round_effect(1) [of l r b] show ?case by (simp add: Let_def case_prod_beta)
qed simp

text \<open>The delay before try \<open>i\<close> since the host was last heard.\<close>

definition delay :: "nat \<Rightarrow> int" where
  "delay i = min (kMinBackoffMs * 2 ^ i) kMaxBackoffMs"

lemma delay_0: "delay 0 = kMinBackoffMs"
  by (simp add: delay_def kMinBackoffMs_def kMaxBackoffMs_def)

lemma delay_next: "next_backoff (delay i) = delay (Suc i)"
  by (simp add: delay_def next_backoff_def kMinBackoffMs_def kMaxBackoffMs_def min_def)

lemma delay_range: "kMinBackoffMs \<le> delay i" "delay i \<le> kMaxBackoffMs"
  using one_le_power [of "2 :: int" i] by (simp_all add: delay_def kMinBackoffMs_def kMaxBackoffMs_def)

lemma idle_rounds:
  "lk_running l \<Longrightarrow> list_all idle_round rs \<Longrightarrow>
   sleeps (fst (link_rounds rs (delay i, l))) = map (\<lambda>k. delay (i + k)) [0..<length rs]"
proof (induction rs arbitrary: i l)
  case (Cons r rs)
  obtain obs b1 l1 where e: "link_round r (delay i, l) = (obs, b1, l1)" by (metis prod_cases3)
  with link_round_effect [OF Cons.prems(1), of r "delay i"] Cons.prems
  have "lk_running l1" "sleeps obs = [delay i]" "b1 = delay (Suc i)" by (simp_all add: delay_next)
  with Cons.IH [of l1 "Suc i"] Cons.prems(2) e show ?case
    by (simp add: Let_def case_prod_beta map_Suc_upt [symmetric] upt_conv_Cons comp_def del: upt_Suc)
qed simp

lemma rounds_delays:
  "lk_running l \<Longrightarrow> \<exists>j. fst (snd (link_rounds rs (delay i, l))) = delay j \<and>
     set (sleeps (fst (link_rounds rs (delay i, l)))) \<subseteq> range delay"
proof (induction rs arbitrary: i l)
  case (Cons r rs)
  obtain obs b1 l1 where e: "link_round r (delay i, l) = (obs, b1, l1)" by (metis prod_cases3)
  with link_round_effect [OF Cons.prems(1), of r "delay i"]
  have r: "lk_running l1" "set (sleeps obs) \<subseteq> range delay" and "\<exists>k. b1 = delay k"
    by (auto simp: delay_next split: if_splits) (metis delay_0)
  then obtain k where "b1 = delay k" by blast
  with Cons.IH [OF r(1), of k] r(2) e show ?case by (auto simp: Let_def case_prod_beta)
qed auto

lemma rounds_heard:
  assumes "lk_running l" "pre = [] \<or> \<not> idle_round (last pre)"
  shows "fst (snd (link_rounds pre (delay 0, l))) = delay 0"
proof (cases "pre = []")
  case False
  then obtain xs r where pre: "pre = xs @ [r]" by (metis rev_exhaust)
  obtain obs b1 l1 where e: "link_rounds xs (delay 0, l) = (obs, b1, l1)" by (metis prod_cases3)
  with rounds_running [OF assms(1), of xs "delay 0"] have "lk_running l1" by simp
  from link_round_effect(3) [OF this, of r b1] e assms(2) False show ?thesis
    by (simp add: pre link_rounds_append Let_def case_prod_beta delay_0)
qed simp

section \<open>Properties\<close>

text \<open>
  C39: what the guest sends arrives whole and in order. However the kernel cuts the writes and however often it
  interrupts them, if every call reported success then the host's framer, fed with any cut of those bytes,
  delivers exactly the messages sent. A call that reports failure has put a proper prefix of its message on the wire.
\<close>

theorem guest_messages_arrive:
  assumes "lk_socket l = Some fd" and "\<forall>m \<in> set ms. wf_message m" and "length ws = length ms"
    and "list_all (\<lambda>r. r = Some True) (fst (snd (send_each (zip ws (map encode_message ms)) l)))"
    and "concat cs = fst (send_each (zip ws (map encode_message ms)) l)"
  shows "map decode_frame (fst (feed cs framer_init)) = map Some ms \<and>
    (\<forall>w bs. snd (send_bytes w bs) = Some False \<longrightarrow> strict_prefix (fst (send_bytes w bs)) bs)"
proof -
  have "concat cs = concat (map encode_message ms)"
    using send_each_bytes [OF assms(1,4)] assms(3,5) by simp
  with parse_stream [OF assms(2)] obtain fs where fs: "map decode_frame fs = map Some ms" "parse (concat cs) = (fs, [], 0)"
    by auto
  with feed_parse [OF framer_idle_init, of cs fs "[]" 0] have "map decode_frame (fst (feed cs framer_init)) = map Some ms"
    by auto
  moreover have "strict_prefix (fst (send_bytes w bs)) bs" if "snd (send_bytes w bs) = Some False" for w bs
    using send_bytes_prefix [of w bs] send_bytes_failed [OF that] by (auto simp: strict_prefix_def)
  ultimately show ?thesis by blast
qed

theorem guest_messages_arrive_witness:
  "map decode_frame (fst (feed [fst (send_each (zip [[Wrote 3, Write_interrupted, Wrote 100]] (map encode_message [M_Ping ex_Ping]))
      (link_init\<lparr>lk_socket := Some 5\<rparr>))] framer_init)) = [Some (M_Ping ex_Ping)]"
proof -
  have "length (encode_message (M_Ping ex_Ping)) = 16" by code_simp
  then obtain b0 b1 b2 b3 bs where "encode_message (M_Ping ex_Ping) = b0 # b1 # b2 # b3 # bs" "length bs = 12"
    by (auto simp: numeral_eq_Suc length_Suc_conv)
  then have "list_all (\<lambda>r. r = Some True) (fst (snd (send_each (zip [[Wrote 3, Write_interrupted, Wrote 100]]
      (map encode_message [M_Ping ex_Ping])) (link_init\<lparr>lk_socket := Some 5\<rparr>))))"
    by (simp add: link_send_def Let_def)
  from guest_messages_arrive [OF _ _ _ this, of 5 "[fst (send_each (zip [[Wrote 3, Write_interrupted, Wrote 100]]
      (map encode_message [M_Ping ex_Ping])) (link_init\<lparr>lk_socket := Some 5\<rparr>))]"]
  show ?thesis by (simp add: wf_examples del: feed.simps send_each.simps)
qed

text \<open>
  C40: a host that has gone is noticed after five seconds and not before. A session that is still open after the
  answers \<open>rs\<close> and then only times out ends at the first timeout five seconds after the last bytes, whatever was
  received before, and not at an earlier one; and what it handed over are the messages of the bytes of this session.
\<close>

theorem silent_host_noticed:
  assumes "lk_running l" and "lk_socket l = Some fd" and "lk_framer l = framer_reset f"
    and "\<not> snd (snd (link_session rs started l))"
  shows "(snd (snd (link_session (rs @ map Select_quiet ts) started l)) \<longleftrightarrow>
      (\<exists>now \<in> set ts. 5000 \<le> now - heard rs started)) \<and>
    fst (link_session rs started l) = fst (parse (concat (taken rs started)))"
  using silence_ends_session [OF assms(1,2,4), of ts] fresh_session_parse [OF assms(1-3), of rs started]
  by (simp add: kReceiveTimeoutMs_def)

theorem silent_host_noticed_witness:
  "snd (snd (link_session ([Received 100 [1, 2]] @ map Select_quiet [350, 5100]) 0 ((link_start link_init)\<lparr>lk_socket := Some 5\<rparr>)))"
proof -
  let ?l = "(link_start link_init)\<lparr>lk_socket := Some 5\<rparr>"
  have "lk_running ?l" "lk_socket ?l = Some 5" "lk_framer ?l = framer_reset framer_init"
    by (simp_all add: link_start_def link_init_def framer_reset_def framer_init_def)
  from silent_host_noticed [OF this, of "[Received 100 [1, 2]]" 0 "[350, 5100]"] show ?thesis
    by (simp add: Let_def case_prod_beta link_start_def link_init_def)
qed

text \<open>
  the guest keeps dialling, ever more patiently. The delays before the tries since the host was last heard are
  250 ms doubled each time up to 4 s; a session in which the host said anything starts them anew, without a delay of its own.
\<close>

theorem dial_delays:
  assumes "lk_running l" and "list_all idle_round rs" and "pre = [] \<or> \<not> idle_round (last pre)"
  shows "sleeps (fst (link_run (pre @ rs) l)) =
      sleeps (fst (link_run pre l)) @ map (\<lambda>i. min (250 * 2 ^ i) 4000) [0..<length rs] \<and>
    set (sleeps (fst (link_run pre l))) \<subseteq> {250..4000}"
proof -
  obtain obs b1 l1 where e: "link_rounds pre (delay 0, l) = (obs, b1, l1)" by (metis prod_cases3)
  with rounds_heard [OF assms(1,3)] rounds_running [OF assms(1), of pre "delay 0"] have l1: "b1 = delay 0" "lk_running l1"
    by simp_all
  from idle_rounds [OF l1(2) assms(2), of 0] e l1(1)
  have "sleeps (fst (link_run (pre @ rs) l)) = sleeps (fst (link_run pre l)) @ map delay [0..<length rs]"
    by (simp add: link_run_def link_rounds_append flip: delay_0)
  moreover have "set (sleeps (fst (link_run pre l))) \<subseteq> {250..4000}"
    using rounds_delays [OF assms(1), of pre 0] delay_range [unfolded kMinBackoffMs_def kMaxBackoffMs_def]
    by (auto simp: link_run_def simp flip: delay_0)
  ultimately show ?thesis by (simp add: delay_def kMinBackoffMs_def kMaxBackoffMs_def)
qed

theorem dial_delays_witness:
  "sleeps (fst (link_run ([Dialled 4 0 [Received 10 [1]]] @ [Dial_failed, Dialled 5 20 [Recv_ended]]) (link_start link_init))) = [250, 500]"
proof -
  have "sleeps (fst (link_run [Dialled 4 0 [Received 10 [1]]] (link_start link_init))) = []"
    using link_round_effect(2) [of "link_start link_init" "Dialled 4 0 [Received 10 [1]]" kMinBackoffMs]
    by (simp add: link_run_def Let_def case_prod_beta idle_round_def link_start_def link_init_def)
  with dial_delays [of "link_start link_init" "[Dial_failed, Dialled 5 20 [Recv_ended]]" "[Dialled 4 0 [Received 10 [1]]]"] show ?thesis
    by (simp add: idle_round_def link_start_def link_init_def upt_rec)
qed

end
