(* ===== verification/ViewportRequest.thy ===== *)
theory ViewportRequest
  imports FrameSender
begin

text \<open>
  The part of the desktop the guest asks for, \<open>wanted_viewport\<close> of \<open>guest/app/src/main/cpp/App.cpp\<close>: the region on the
  surface, snapped outwards and cut to the desktop, and the size it is encoded at. Doubles are real numbers; the
  casts to \<open>int\<close> are of values that fit.
\<close>

section \<open>Definitions\<close>

definition kRegionSnap :: int where "kRegionSnap = 32"
definition kSizeSnap :: int where "kSizeSnap = 64"
definition kMaxEncoded :: int where "kMaxEncoded = 2048"

definition floor_to :: "real \<Rightarrow> int \<Rightarrow> int" where
  "floor_to v step = \<lfloor>v / of_int step\<rfloor> * step"

definition ceil_to :: "real \<Rightarrow> int \<Rightarrow> int" where
  "ceil_to v step = \<lceil>v / of_int step\<rceil> * step"

definition same_request :: "ViewportReq \<Rightarrow> ViewportReq \<Rightarrow> bool" where
  "same_request a b \<longleftrightarrow>
     vr_x a = vr_x b \<and> vr_y a = vr_y b \<and> vr_w a = vr_w b \<and> vr_h a = vr_h b \<and> vr_out_w a = vr_out_w b \<and>
     vr_out_h a = vr_out_h b \<and> vr_fps a = vr_fps b \<and> vr_format a = vr_format b \<and> vr_tile a = vr_tile b \<and>
     vr_flags a = vr_flags b"

definition encoded :: "real \<Rightarrow> int \<Rightarrow> int" where
  "encoded ratio px =
     (let want = lround (of_int px * ratio); snapped = cdiv (want + cdiv kSizeSnap 2) kSizeSnap * kSizeSnap in
      clamp (max snapped kSizeSnap) 4 (min px kMaxEncoded))"

text \<open>\<open>gw\<close> and \<open>gh\<close> are the size of the surface.\<close>

definition wanted_viewport :: "int \<Rightarrow> int \<Rightarrow> ViewTransform \<Rightarrow> Recti \<Rightarrow> ViewportReq" where
  "wanted_viewport gw gh view desktop =
     (if rect_w desktop \<le> 0 \<or> rect_h desktop \<le> 0 \<or> gw \<le> 0 \<or> gh \<le> 0 then viewport_req_init
      else
        let top_left = to_pc view (vec2 0 0); bottom_right = to_pc view (vec2 (of_int gw) (of_int gh));
            x0 = max (floor_to (v_x top_left) kRegionSnap) (rect_x desktop);
            y0 = max (floor_to (v_y top_left) kRegionSnap) (rect_y desktop);
            x1 = min (ceil_to (v_x bottom_right) kRegionSnap) (rect_x desktop + rect_w desktop);
            y1 = min (ceil_to (v_y bottom_right) kRegionSnap) (rect_y desktop + rect_h desktop) in
        if x1 \<le> x0 \<or> y1 \<le> y0 then viewport_req_init
        else
          let ratio = min (vt_scale view) 1 in
          viewport_req_init
            \<lparr>vr_x := word_of_int x0, vr_y := word_of_int y0, vr_w := word_of_int (x1 - x0), vr_h := word_of_int (y1 - y0),
             vr_out_w := word_of_int (encoded ratio (x1 - x0)), vr_out_h := word_of_int (encoded ratio (y1 - y0)),
             vr_fps := 30, vr_format := Format_Etc2Rgb8, vr_tile := 64\<rparr>)"

section \<open>Snapping\<close>

lemma floor_to_le:
  assumes "0 < s" shows "of_int (floor_to v s) \<le> v"
proof -
  have "of_int \<lfloor>v / of_int s\<rfloor> \<le> v / of_int s" by simp
  then have "of_int \<lfloor>v / of_int s\<rfloor> * of_int s \<le> v / of_int s * of_int s" using assms by (intro mult_right_mono) simp_all
  then show ?thesis using assms by (simp add: floor_to_def)
qed

lemma ceil_to_ge:
  assumes "0 < s" shows "v \<le> of_int (ceil_to v s)"
proof -
  have "v / of_int s \<le> of_int \<lceil>v / of_int s\<rceil>" by simp
  then have "v / of_int s * of_int s \<le> of_int \<lceil>v / of_int s\<rceil> * of_int s" using assms by (intro mult_right_mono) simp_all
  then show ?thesis using assms by (simp add: ceil_to_def)
qed

lemma same_request_eq: "same_request a b \<longleftrightarrow> a = b"
  by (cases a; cases b) (auto simp: same_request_def)

text \<open>A span of at least four pixels is encoded at no more than its size, between 4 and 2048.\<close>

lemma encoded_range:
  assumes "4 \<le> px"
  shows "4 \<le> encoded ratio px" "encoded ratio px \<le> px" "encoded ratio px \<le> 2048"
  using assms by (auto simp: encoded_def Let_def kSizeSnap_def kMaxEncoded_def clamp_def)

lemma encoded_small:
  assumes "1 \<le> px" "px < 4" shows "encoded ratio px = px"
  using assms by (auto simp: encoded_def Let_def kSizeSnap_def kMaxEncoded_def clamp_def)

lemma encoded_bounds:
  assumes "1 \<le> px" shows "1 \<le> encoded ratio px \<and> encoded ratio px \<le> px \<and> encoded ratio px \<le> 2048"
  using assms encoded_range [of px ratio] encoded_small [of px ratio] by (cases "px < 4") auto

section \<open>The request\<close>

text \<open>The rectangle of a request, and whether a pixel of the desktop shows on the surface.\<close>

definition req_rect :: "ViewportReq \<Rightarrow> Recti" where
  "req_rect r = recti (sint (vr_x r)) (sint (vr_y r)) (sint (vr_w r)) (sint (vr_h r))"

definition pixel_shown :: "int \<Rightarrow> int \<Rightarrow> ViewTransform \<Rightarrow> int \<Rightarrow> int \<Rightarrow> bool" where
  "pixel_shown gw gh view x y \<longleftrightarrow>
     v_x (to_pc view (vec2 0 0)) < of_int (x + 1) \<and> of_int x < v_x (to_pc view (vec2 (of_int gw) (of_int gh))) \<and>
     v_y (to_pc view (vec2 0 0)) < of_int (y + 1) \<and> of_int y < v_y (to_pc view (vec2 (of_int gw) (of_int gh)))"

definition desktop_ok :: "Recti \<Rightarrow> bool" where
  "desktop_ok d \<longleftrightarrow> is_i32 (rect_x d) \<and> is_i32 (rect_y d) \<and> 0 < rect_w d \<and> 0 < rect_h d \<and>
     is_i32 (rect_x d + rect_w d) \<and> is_i32 (rect_y d + rect_h d) \<and> is_i32 (rect_w d) \<and> is_i32 (rect_h d)"

lemma wanted_cases:
  assumes d: "desktop_ok desktop" and g: "0 < gw" "0 < gh"
  obtains (off) "wanted_viewport gw gh view desktop = viewport_req_init"
      "\<And>x y. contains desktop x y \<Longrightarrow> \<not> pixel_shown gw gh view x y"
  | (on) x0 y0 x1 y1 where "req_rect (wanted_viewport gw gh view desktop) = recti x0 y0 (x1 - x0) (y1 - y0)"
      "x0 < x1" "y0 < y1" "rect_x desktop \<le> x0" "rect_y desktop \<le> y0"
      "x1 \<le> rect_x desktop + rect_w desktop" "y1 \<le> rect_y desktop + rect_h desktop"
      "\<And>x y. contains desktop x y \<Longrightarrow> pixel_shown gw gh view x y \<Longrightarrow> x0 \<le> x \<and> x < x1 \<and> y0 \<le> y \<and> y < y1"
      "uint (vr_out_w (wanted_viewport gw gh view desktop)) = encoded (min (vt_scale view) 1) (x1 - x0)"
      "uint (vr_out_h (wanted_viewport gw gh view desktop)) = encoded (min (vt_scale view) 1) (y1 - y0)"
      "vr_fps (wanted_viewport gw gh view desktop) = 30" "vr_format (wanted_viewport gw gh view desktop) = Format_Etc2Rgb8"
      "vr_tile (wanted_viewport gw gh view desktop) = 64"
proof -
  define tl where "tl = to_pc view (vec2 0 0)"
  define br where "br = to_pc view (vec2 (of_int gw) (of_int gh))"
  define x0 where "x0 = max (floor_to (v_x tl) kRegionSnap) (rect_x desktop)"
  define y0 where "y0 = max (floor_to (v_y tl) kRegionSnap) (rect_y desktop)"
  define x1 where "x1 = min (ceil_to (v_x br) kRegionSnap) (rect_x desktop + rect_w desktop)"
  define y1 where "y1 = min (ceil_to (v_y br) kRegionSnap) (rect_y desktop + rect_h desktop)"
  have s: "0 < kRegionSnap" by (simp add: kRegionSnap_def)
  have cover: "x0 \<le> x \<and> x < x1 \<and> y0 \<le> y \<and> y < y1" if "contains desktop x y" "pixel_shown gw gh view x y" for x y
  proof -
    have "of_int (floor_to (v_x tl) kRegionSnap) < (of_int (x + 1) :: real)"
      "of_int (floor_to (v_y tl) kRegionSnap) < (of_int (y + 1) :: real)"
      "of_int x < (of_int (ceil_to (v_x br) kRegionSnap) :: real)" "of_int y < (of_int (ceil_to (v_y br) kRegionSnap) :: real)"
      using that(2) floor_to_le [OF s, of "v_x tl"] floor_to_le [OF s, of "v_y tl"] ceil_to_ge [OF s, of "v_x br"]
        ceil_to_ge [OF s, of "v_y br"] unfolding pixel_shown_def tl_def [symmetric] br_def [symmetric] by linarith+
    then show ?thesis using that(1) unfolding of_int_less_iff by (auto simp: contains_def x0_def x1_def y0_def y1_def)
  qed
  let ?ratio = "min (vt_scale view) 1"
  have w: "wanted_viewport gw gh view desktop =
      (if x1 \<le> x0 \<or> y1 \<le> y0 then viewport_req_init
       else viewport_req_init
            \<lparr>vr_x := word_of_int x0, vr_y := word_of_int y0, vr_w := word_of_int (x1 - x0), vr_h := word_of_int (y1 - y0),
             vr_out_w := word_of_int (encoded ?ratio (x1 - x0)), vr_out_h := word_of_int (encoded ?ratio (y1 - y0)),
             vr_fps := 30, vr_format := Format_Etc2Rgb8, vr_tile := 64\<rparr>)"
    using d g by (simp add: wanted_viewport_def desktop_ok_def Let_def tl_def br_def x0_def x1_def y0_def y1_def)
  show ?thesis
  proof (cases "x1 \<le> x0 \<or> y1 \<le> y0")
    case True
    then show ?thesis using off w cover by fastforce
  next
    case False
    have r: "rect_x desktop \<le> x0" "rect_y desktop \<le> y0" "x1 \<le> rect_x desktop + rect_w desktop"
      "y1 \<le> rect_y desktop + rect_h desktop" by (simp_all add: x0_def y0_def x1_def y1_def)
    have i: "is_i32 x0" "is_i32 y0" "is_i32 (x1 - x0)" "is_i32 (y1 - y0)"
      using d r False by (auto simp: desktop_ok_def is_i32_def)
    have e: "0 \<le> encoded ?ratio (x1 - x0) \<and> encoded ?ratio (x1 - x0) < 65536"
      "0 \<le> encoded ?ratio (y1 - y0) \<and> encoded ?ratio (y1 - y0) < 65536"
      using False encoded_bounds [of "x1 - x0" ?ratio] encoded_bounds [of "y1 - y0" ?ratio] by auto
    show ?thesis
      by (rule on [of x0 y0 x1 y1])
        (use False r i e cover in \<open>simp_all add: w req_rect_def uint_word_of_int_eq take_bit_int_eq_self
          del: wi_hom_sub of_int_diff flip: to_i32_def\<close>)
  qed
qed

lemma tiles_per_axis:
  assumes "1 \<le> out" "out \<le> 2048"
  shows "0 < round_up_to (clamp out 4 8192) 4" "round_up_to (clamp out 4 8192) 4 \<le> 2048"
    "round_up_to (clamp out 4 8192) 4 mod 4 = 0"
    "cdiv (round_up_to (clamp out 4 8192) 4 + 63) 64 \<le> 32" "0 \<le> cdiv (round_up_to (clamp out 4 8192) 4 + 63) 64"
proof -
  define c where "c = clamp out 4 8192"
  have c: "4 \<le> c" "c \<le> 2048" using assms by (auto simp: c_def clamp_def)
  then have r: "round_up_to c 4 = (c + 3) div 4 * 4" by (simp add: round_up_to_def add.commute)
  have "0 < round_up_to c 4 \<and> round_up_to c 4 \<le> 2048 \<and> round_up_to c 4 mod 4 = 0 \<and>
      cdiv (round_up_to c 4 + 63) 64 \<le> 32 \<and> 0 \<le> cdiv (round_up_to c 4 + 63) 64"
  proof -
    define n where "n = (c + 3) div 4"
    have n: "1 \<le> n" "n \<le> 512" using c unfolding n_def by linarith+
    then have "cdiv (n * 4 + 63) 64 = (n * 4 + 63) div 64" "0 \<le> (n * 4 + 63) div 64" by simp_all
    moreover have "(n * 4 + 63) div 64 \<le> 32" using n by linarith
    ultimately show ?thesis using n unfolding r n_def [symmetric] by simp
  qed
  then show "0 < round_up_to (clamp out 4 8192) 4" "round_up_to (clamp out 4 8192) 4 \<le> 2048"
    "round_up_to (clamp out 4 8192) 4 mod 4 = 0"
    "cdiv (round_up_to (clamp out 4 8192) 4 + 63) 64 \<le> 32" "0 \<le> cdiv (round_up_to (clamp out 4 8192) 4 + 63) 64"
    unfolding c_def by blast+
qed

section \<open>Properties\<close>

text \<open>
  the guest asks for what it shows. The region of the request lies on the desktop and holds every desktop pixel
  that shows on the surface, at any pan and zoom; if nothing is asked for, no pixel of the desktop shows.
\<close>

theorem request_covers_view:
  assumes "desktop_ok desktop" and "0 < gw" and "0 < gh"
  shows "let r = wanted_viewport gw gh view desktop; q = req_rect r in
    (vr_fps r = 0 \<longrightarrow> (\<forall>x y. contains desktop x y \<longrightarrow> \<not> pixel_shown gw gh view x y)) \<and>
    (vr_fps r \<noteq> 0 \<longrightarrow>
       rect_x desktop \<le> rect_x q \<and> rect_y desktop \<le> rect_y q \<and> 0 < rect_w q \<and> 0 < rect_h q \<and>
       rect_x q + rect_w q \<le> rect_x desktop + rect_w desktop \<and> rect_y q + rect_h q \<le> rect_y desktop + rect_h desktop \<and>
       (\<forall>x y. contains desktop x y \<and> pixel_shown gw gh view x y \<longrightarrow> contains q x y))"
  using assms
proof (cases rule: wanted_cases [of desktop gw gh view])
  case off
  then show ?thesis by (simp add: Let_def viewport_req_init_def)
next
  case (on x0 y0 x1 y1)
  have "contains (recti x0 y0 (x1 - x0) (y1 - y0)) x y" if "contains desktop x y" "pixel_shown gw gh view x y" for x y
    using on(8) [OF that] by (simp add: contains_def)
  with on(2-7) on(11) show ?thesis unfolding Let_def on(1) by simp
qed

theorem request_covers_view_witness:
  "contains (req_rect (wanted_viewport 1000 500 view_init (recti 0 0 1920 1080))) 900 400"
proof -
  have "desktop_ok (recti 0 0 1920 1080)" by (simp add: desktop_ok_def is_i32_def)
  moreover have "pixel_shown 1000 500 view_init 900 400"
    by (simp add: pixel_shown_def to_pc_def view_init_def vec2_defs)
  moreover have "contains (recti 0 0 1920 1080) 900 400" by (simp add: contains_def)
  ultimately show ?thesis using request_covers_view [of "recti 0 0 1920 1080" 1000 500 view_init] by (auto simp: Let_def)
qed

text \<open>
  what the guest asks for, the host streams. Every request with a frame rate makes the host's sender stream the
  region asked for, at no more pixels than the region has (rounded up to blocks of four), as at most 1024 tiles, so that
  each tile has its own 16-bit number.
\<close>

theorem request_streams:
  assumes "desktop_ok desktop" and "0 < gw" and "0 < gh" and "vr_fps (wanted_viewport gw gh view desktop) \<noteq> 0"
  shows "let r = wanted_viewport gw gh view desktop; g = request_geometry r in
    sd_streaming (set_viewport r s) \<and> sd_geometry (set_viewport r s) = g \<and> vg_valid g \<and> vg_region g = req_rect r \<and>
    vg_out_w g < rect_w (req_rect r) + 4 \<and> vg_out_h g < rect_h (req_rect r) + 4 \<and> tile_count g \<le> 1024"
  using assms(1-3)
proof (cases rule: wanted_cases [of desktop gw gh view])
  case off
  then show ?thesis using assms(4) by (simp add: viewport_req_init_def)
next
  case (on x0 y0 x1 y1)
  define r where "r = wanted_viewport gw gh view desktop"
  define ow where "ow = encoded (min (vt_scale view) 1) (x1 - x0)"
  define oh where "oh = encoded (min (vt_scale view) 1) (y1 - y0)"
  have e: "1 \<le> ow" "ow \<le> x1 - x0" "ow \<le> 2048" "1 \<le> oh" "oh \<le> y1 - y0" "oh \<le> 2048"
    using on(2,3) encoded_bounds [of "x1 - x0"] encoded_bounds [of "y1 - y0"] by (simp_all add: ow_def oh_def)
  have q: "recti (sint (vr_x r)) (sint (vr_y r)) (sint (vr_w r)) (sint (vr_h r)) = recti x0 y0 (x1 - x0) (y1 - y0)"
    using on(1) by (simp add: req_rect_def r_def)
  have rr: "round_up_to 64 4 = 64" "clamp 64 8 (256 :: int) = 64" by (simp_all add: round_up_to_def clamp_def)
  have g: "request_geometry r = \<lparr>vg_region = recti x0 y0 (x1 - x0) (y1 - y0), vg_out_w = round_up_to (clamp ow 4 8192) 4,
      vg_out_h = round_up_to (clamp oh 4 8192) 4, vg_tile = 64\<rparr>"
    using on(2,3) e(1,4) unfolding request_geometry_def q
    by (simp add: make_geometry_def r_def on(9,10,13) rr flip: ow_def oh_def)
  note w = tiles_per_axis [OF e(1,3)] and h = tiles_per_axis [OF e(4,6)]
  have "tile_count (request_geometry r) \<le> 32 * 32"
    unfolding tile_count_def vg_cols_def vg_rows_def g using mult_mono [OF w(4) h(4) _ h(5)] by (simp add: algebra_simps)
  moreover have valid: "vg_valid (request_geometry r)"
    unfolding g vg_valid_def using on(2,3) w(1,3) h(1,3) by (simp add: cmod_nonneg)
  moreover have small: "round_up_to (clamp out 4 8192) 4 < px + 4" if "out \<le> px" "1 \<le> px" "out \<le> 2048" for out px
    using that round_up_to_spec(2) [of 4 "clamp out 4 8192"] by (cases "4 \<le> out") (auto simp: clamp_def round_up_to_def)
  moreover have "sd_streaming (set_viewport r s) \<and> sd_geometry (set_viewport r s) = request_geometry r"
    using valid by (simp add: set_viewport_def Let_def r_def on(11,12))
  ultimately show ?thesis
    using small [OF e(2) _ e(3)] small [OF e(5) _ e(6)] on(1,2,3) unfolding Let_def by (simp add: g flip: r_def)
qed

theorem request_streams_witness:
  "sd_streaming (set_viewport (wanted_viewport 1024 512 view_init (recti 0 0 1920 1080)) sender_init)"
proof -
  have "vr_fps (wanted_viewport 1024 512 view_init (recti 0 0 1920 1080)) = 30"
    by (simp add: wanted_viewport_def Let_def to_pc_def view_init_def vec2_defs floor_to_def ceil_to_def kRegionSnap_def)
  with request_streams [of "recti 0 0 1920 1080" 1024 512 view_init sender_init] show ?thesis
    by (simp add: Let_def desktop_ok_def is_i32_def)
qed

end
