(* ===== verification/ButtonStrip.thy ===== *)
theory ButtonStrip
  imports ButtonStore Geometry Messages
begin

text \<open>
  The strip of custom buttons on the guest's surface, \<open>guest/app/src/main/cpp/ui/ButtonStrip.hpp\<close> and \<open>ButtonStrip.cpp\<close>,
  without its drawing: layout, scrolling, and what a press, a drag, a hold and a release do. Floats and doubles are real
  numbers. The buttons of the current preset, which the code reads through the store at every use, are an argument.
  What the two sinks are called with is the output.
\<close>

section \<open>Definitions\<close>

record Rect =
  rf_x :: real
  rf_y :: real
  rf_w :: real
  rf_h :: real

definition rectf :: "real \<Rightarrow> real \<Rightarrow> real \<Rightarrow> real \<Rightarrow> Rect" where
  "rectf x y w h = \<lparr>rf_x = x, rf_y = y, rf_w = w, rf_h = h\<rparr>"

definition rf_contains :: "Rect \<Rightarrow> Vec2 \<Rightarrow> bool" where
  "rf_contains r p \<longleftrightarrow> rf_x r \<le> v_x p \<and> rf_y r \<le> v_y p \<and> v_x p < rf_x r + rf_w r \<and> v_y p < rf_y r + rf_h r"

datatype StripOrientation = Strip_Horizontal | Strip_Vertical

definition kLongPressSeconds :: real where "kLongPressSeconds = 55 / 100"
definition kMoveSlopDp :: real where "kMoveSlopDp = 10"
definition kSnapSeconds :: real where "kSnapSeconds = 14 / 100"

definition fmod :: "real \<Rightarrow> real \<Rightarrow> real" where
  "fmod a b = a - b * of_int (if 0 \<le> a / b then \<lfloor>a / b\<rfloor> else \<lceil>a / b\<rceil>)"

definition v_distance :: "Vec2 \<Rightarrow> Vec2 \<Rightarrow> real" where
  "v_distance a b = (let d = v_sub a b in sqrt (v_x d * v_x d + v_y d * v_y d))"

definition wrap :: "real \<Rightarrow> real \<Rightarrow> real" where
  "wrap value extent = (if extent \<le> 0 then 0 else let r = fmod value extent in if r < 0 then r + extent else r)"

datatype Press = Press_None | Press_Toggle | Press_Prev | Press_Next | Press_Add | Press_Slot | Press_Accept | Press_Decline

record Metrics =
  mt_margin :: real
  mt_thickness :: real
  mt_toggle :: real
  mt_arrow :: real
  mt_add :: real
  mt_slot :: real
  mt_visible :: int
  mt_arrows :: bool
  mt_run :: real
  mt_start :: real
  mt_cross :: real

record strip =
  sp_orientation :: StripOrientation
  sp_expanded :: bool
  sp_surface_w :: int
  sp_surface_h :: int
  sp_density :: real
  sp_m :: Metrics
  sp_slot_limit :: int
  sp_effective_limit :: int
  sp_max_slots :: int
  sp_scroll :: real
  sp_scroll_target :: real
  sp_scroll_at_press :: real
  sp_press :: Press
  sp_press_slot :: int
  sp_press_pos :: Vec2
  sp_press_seconds :: real
  sp_press_moved :: bool
  sp_scrolling :: bool
  sp_add_requested :: bool
  sp_state_changed :: bool
  sp_long_press :: int
  sp_preset_menu_requested :: bool
  sp_suggestion_accepted :: bool
  sp_suggestion_declined :: bool
  sp_active_process :: string
  sp_preset_name :: string
  sp_suggested_name :: string

definition strip_init :: strip where
  "strip_init =
     \<lparr>sp_orientation = Strip_Horizontal, sp_expanded = False, sp_surface_w = 0, sp_surface_h = 0, sp_density = 1,
      sp_m = \<lparr>mt_margin = 0, mt_thickness = 0, mt_toggle = 0, mt_arrow = 0, mt_add = 0, mt_slot = 0, mt_visible = 0,
        mt_arrows = False, mt_run = 0, mt_start = 0, mt_cross = 0\<rparr>,
      sp_slot_limit = 0, sp_effective_limit = 1, sp_max_slots = 1, sp_scroll = 0, sp_scroll_target = 0, sp_scroll_at_press = 0,
      sp_press = Press_None, sp_press_slot = -1, sp_press_pos = vec2 0 0, sp_press_seconds = 0, sp_press_moved = False,
      sp_scrolling = False, sp_add_requested = False, sp_state_changed = False, sp_long_press = -1,
      sp_preset_menu_requested = False, sp_suggestion_accepted = False, sp_suggestion_declined = False,
      sp_active_process = [], sp_preset_name = [], sp_suggested_name = []\<rparr>"

datatype strip_out = Sink_pointer PointerAction Vec2 | Sink_shortcut CustomButton

subsection \<open>Layout and time\<close>

definition horizontal :: "strip \<Rightarrow> bool" where
  "horizontal s \<longleftrightarrow> sp_orientation s = Strip_Horizontal"

definition fit_in :: "Metrics \<Rightarrow> real \<Rightarrow> int" where
  "fit_in m budget =
     (let room = budget - mt_toggle m - mt_add m - mt_arrow m * 2 in if room \<le> 0 then 0 else \<lfloor>room / mt_slot m\<rfloor>)"

text \<open>The sizes, the limits on the slots, and the run of an expanded strip; \<open>s\<close> knows its surface and density already.\<close>

definition base_metrics :: "strip \<Rightarrow> Metrics" where
  "base_metrics s =
     (let d = sp_density s in
      \<lparr>mt_margin = 8 * d, mt_thickness = 76 * d, mt_toggle = 26 * d, mt_arrow = 34 * d, mt_add = 48 * d,
       mt_slot = (if horizontal s then 84 else 68) * d, mt_visible = 0, mt_arrows = False, mt_run = 0,
       mt_start = 8 * d, mt_cross = (if horizontal s then of_int (sp_surface_h s) - 8 * d - 76 * d else 8 * d)\<rparr>)"

definition axis_length :: "strip \<Rightarrow> real" where
  "axis_length s = of_int (if horizontal s then sp_surface_w s else sp_surface_h s)"

definition layout_max_slots :: "strip \<Rightarrow> int" where
  "layout_max_slots s = (let m = base_metrics s in max (fit_in m (axis_length s - mt_margin m * 2)) 1)"

definition layout_limit :: "strip \<Rightarrow> int" where
  "layout_limit s =
     clamp (if 0 < sp_slot_limit s then sp_slot_limit s else max (fit_in (base_metrics s) (axis_length s * (1 / 2))) 1) 1 (layout_max_slots s)"

definition strip_metrics :: "nat \<Rightarrow> strip \<Rightarrow> Metrics" where
  "strip_metrics count s =
     (let m = base_metrics s; visible = min (int count) (layout_limit s) in
      if sp_expanded s
      then m\<lparr>mt_visible := visible, mt_arrows := (visible < int count), mt_run := of_int visible * mt_slot m\<rparr> else m)"

definition strip_layout :: "CustomButton list \<Rightarrow> int \<Rightarrow> int \<Rightarrow> real \<Rightarrow> strip \<Rightarrow> strip" where
  "strip_layout btns surface_w surface_h density s0 =
     (let s = s0\<lparr>sp_surface_w := surface_w, sp_surface_h := surface_h, sp_density := (if 0 < density then density else 1)\<rparr>;
          s1 = s\<lparr>sp_max_slots := layout_max_slots s, sp_effective_limit := layout_limit s, sp_m := strip_metrics (length btns) s\<rparr> in
      if \<not> mt_arrows (sp_m s1) then s1\<lparr>sp_scroll := 0, sp_scroll_target := 0\<rparr> else s1)"

definition settle_scroll :: "real \<Rightarrow> strip \<Rightarrow> strip" where
  "settle_scroll dt s =
     (if \<not> sp_scrolling s \<and> sp_scroll s \<noteq> sp_scroll_target s then
        let t = clamp (dt / kSnapSeconds) 0 1; scroll = sp_scroll s + (sp_scroll_target s - sp_scroll s) * t in
        s\<lparr>sp_scroll := (if \<bar>sp_scroll_target s - scroll\<bar> < 1 / 2 then sp_scroll_target s else scroll)\<rparr>
      else s)"

definition strip_advance :: "real \<Rightarrow> strip \<Rightarrow> strip" where
  "strip_advance dt s0 =
     (let s = settle_scroll dt s0; holdable = (sp_press s = Press_Slot \<or> sp_press s = Press_Toggle) in
      if \<not> holdable \<or> sp_press_moved s then s
      else
        let s1 = s\<lparr>sp_press_seconds := sp_press_seconds s + dt\<rparr> in
        if sp_press_seconds s1 < kLongPressSeconds then s1
        else
          (if sp_press s1 = Press_Toggle then s1\<lparr>sp_preset_menu_requested := True\<rparr> else s1\<lparr>sp_long_press := sp_press_slot s1\<rparr>)
            \<lparr>sp_press := Press_None, sp_press_slot := -1\<rparr>)"

subsection \<open>Geometry\<close>

definition cell :: "strip \<Rightarrow> real \<Rightarrow> real \<Rightarrow> Rect" where
  "cell s offset len =
     (let m = sp_m s in
      if horizontal s then rectf (mt_start m + offset) (mt_cross m) len (mt_thickness m)
      else rectf (mt_cross m) (mt_start m + offset) (mt_thickness m) len)"

definition toggle_rect :: "strip \<Rightarrow> Rect" where "toggle_rect s = cell s 0 (mt_toggle (sp_m s))"
definition prev_rect :: "strip \<Rightarrow> Rect" where "prev_rect s = cell s (mt_toggle (sp_m s)) (mt_arrow (sp_m s))"

definition run_start :: "strip \<Rightarrow> real" where
  "run_start s = mt_toggle (sp_m s) + (if mt_arrows (sp_m s) then mt_arrow (sp_m s) else 0)"

definition run_rect :: "strip \<Rightarrow> Rect" where "run_rect s = cell s (run_start s) (mt_run (sp_m s))"

definition content_length :: "CustomButton list \<Rightarrow> strip \<Rightarrow> real" where
  "content_length btns s = of_nat (length btns) * mt_slot (sp_m s)"

definition wrapped_scroll :: "CustomButton list \<Rightarrow> strip \<Rightarrow> real" where
  "wrapped_scroll btns s = wrap (sp_scroll s) (content_length btns s)"

definition slot_rect :: "CustomButton list \<Rightarrow> strip \<Rightarrow> int \<Rightarrow> Rect" where
  "slot_rect btns s k =
     (let phase = (if mt_arrows (sp_m s) then fmod (wrapped_scroll btns s) (mt_slot (sp_m s)) else 0) in
      cell s (run_start s + of_int k * mt_slot (sp_m s) - phase) (mt_slot (sp_m s)))"

definition next_rect :: "strip \<Rightarrow> Rect" where
  "next_rect s = cell s (run_start s + mt_run (sp_m s)) (mt_arrow (sp_m s))"

definition add_rect :: "strip \<Rightarrow> Rect" where
  "add_rect s =
     cell s (run_start s + mt_run (sp_m s) + (if mt_arrows (sp_m s) then mt_arrow (sp_m s) else 0)) (mt_add (sp_m s))"

definition occupied :: "strip \<Rightarrow> Rect" where
  "occupied s =
     (if \<not> sp_expanded s then toggle_rect s
      else
        let add = add_rect s; m = sp_m s in
        if horizontal s then rectf (mt_start m) (mt_cross m) (rf_x add + rf_w add - mt_start m) (mt_thickness m)
        else rectf (mt_cross m) (mt_start m) (mt_thickness m) (rf_y add + rf_h add - mt_start m))"

definition caption_origin :: "strip \<Rightarrow> Vec2" where
  "caption_origin s =
     (let st = occupied s in
      if horizontal s then vec2 (rf_x st) (rf_y st - 17 * sp_density s) else vec2 (rf_x st) (rf_y st + rf_h st + 8 * sp_density s))"

definition suggestion_bar :: "strip \<Rightarrow> Rect" where
  "suggestion_bar s =
     (let c = caption_origin s in rectf (v_x c) (v_y c - 9 * sp_density s) (230 * sp_density s) (30 * sp_density s))"

definition accept_rect :: "strip \<Rightarrow> Rect" where
  "accept_rect s =
     (let bar = suggestion_bar s; d = 24 * sp_density s in rectf (rf_x bar + 3 * sp_density s) (rf_y bar + 3 * sp_density s) d d)"

definition decline_rect :: "strip \<Rightarrow> Rect" where
  "decline_rect s = (let a = accept_rect s in rectf (rf_x a + rf_w a + 6 * sp_density s) (rf_y a) (rf_w a) (rf_h a))"

definition region_pad :: "strip \<Rightarrow> Rect \<Rightarrow> CustomButton \<Rightarrow> Rect" where
  "region_pad s slot b =
     (let pad = 6 * sp_density s; label = 15 * sp_density s;
          box = rectf (rf_x slot + pad) (rf_y slot + pad) (rf_w slot - pad * 2) (rf_h slot - pad * 2 - label) in
      if rf_w box \<le> 0 \<or> rf_h box \<le> 0 \<or> rect_w (cb_target b) \<le> 0 \<or> rect_h (cb_target b) \<le> 0 then box
      else
        let aspect = of_int (rect_w (cb_target b)) / of_int (rect_h (cb_target b)); w0 = rf_w box; h0 = w0 / aspect;
            (w, h) = (if rf_h box < h0 then (rf_h box * aspect, rf_h box) else (w0, h0)) in
        rectf (rf_x box + (rf_w box - w) * (1 / 2)) (rf_y box + (rf_h box - h) * (1 / 2)) w h)"

definition along :: "strip \<Rightarrow> Vec2 \<Rightarrow> Vec2 \<Rightarrow> real" where
  "along s a b = (if horizontal s then v_x a - v_x b else v_y a - v_y b)"

definition button_at :: "CustomButton list \<Rightarrow> strip \<Rightarrow> int \<Rightarrow> int" where
  "button_at btns s k =
     (let n = int (length btns); m = sp_m s in
      if n = 0 \<or> k < 0 then -1
      else if \<not> mt_arrows m then (if k < mt_visible m then k else -1)
      else if mt_visible m < k then -1
      else cmod (\<lfloor>wrapped_scroll btns s / mt_slot m\<rfloor> + k) n)"

definition pressed_button :: "CustomButton list \<Rightarrow> strip \<Rightarrow> CustomButton option" where
  "pressed_button btns s =
     (if sp_press_slot s < 0 \<or> int (length btns) \<le> sp_press_slot s then None else Some (btns ! nat (sp_press_slot s)))"

definition nudge :: "int \<Rightarrow> strip \<Rightarrow> strip" where
  "nudge slots s =
     (let m = sp_m s in
      if \<not> mt_arrows m then s
      else s\<lparr>sp_scroll_target := of_int (lround (sp_scroll s / mt_slot m)) * mt_slot m + of_int slots * mt_slot m\<rparr>)"

definition snap_to_slot :: "strip \<Rightarrow> strip" where
  "snap_to_slot s =
     (let m = sp_m s in
      if \<not> mt_arrows m then s\<lparr>sp_scroll_target := sp_scroll s\<rparr>
      else s\<lparr>sp_scroll_target := of_int (lround (sp_scroll s / mt_slot m)) * mt_slot m\<rparr>)"

definition map_into_region :: "CustomButton \<Rightarrow> Rect \<Rightarrow> Vec2 \<Rightarrow> Vec2" where
  "map_into_region b pad p =
     (let t = cb_target b in
      if rf_w pad \<le> 0 \<or> rf_h pad \<le> 0 then vec2 (of_int (rect_x t)) (of_int (rect_y t))
      else
        let tx = clamp ((v_x p - rf_x pad) / rf_w pad) 0 1; ty = clamp ((v_y p - rf_y pad) / rf_h pad) 0 1 in
        vec2 (of_int (rect_x t) + tx * of_int (max (rect_w t - 1) 0)) (of_int (rect_y t) + ty * of_int (max (rect_h t - 1) 0)))"

subsection \<open>Input\<close>

text \<open>The loop over the drawn slots: the first that holds the point names the button.\<close>

fun slot_under :: "CustomButton list \<Rightarrow> strip \<Rightarrow> Vec2 \<Rightarrow> int list \<Rightarrow> int" where
  "slot_under btns s p [] = -1"
| "slot_under btns s p (k # ks) = (if rf_contains (slot_rect btns s k) p then button_at btns s k else slot_under btns s p ks)"

definition strip_hit_test :: "CustomButton list \<Rightarrow> Vec2 \<Rightarrow> strip \<Rightarrow> bool \<times> strip" where
  "strip_hit_test btns p s0 =
     (let s = s0\<lparr>sp_press := Press_None, sp_press_slot := -1, sp_press_pos := p, sp_press_seconds := 0, sp_press_moved := False,
                sp_scrolling := False, sp_scroll_at_press := sp_scroll s0\<rparr>;
          m = sp_m s; offer = (sp_expanded s \<and> sp_suggested_name s \<noteq> []) in
      if offer \<and> rf_contains (accept_rect s) p then (True, s\<lparr>sp_press := Press_Accept\<rparr>)
      else if offer \<and> rf_contains (decline_rect s) p then (True, s\<lparr>sp_press := Press_Decline\<rparr>)
      else if rf_contains (toggle_rect s) p then (True, s\<lparr>sp_press := Press_Toggle\<rparr>)
      else if \<not> sp_expanded s then (False, s)
      else if mt_arrows m \<and> rf_contains (prev_rect s) p then (True, s\<lparr>sp_press := Press_Prev\<rparr>)
      else if mt_arrows m \<and> rf_contains (next_rect s) p then (True, s\<lparr>sp_press := Press_Next\<rparr>)
      else if rf_contains (add_rect s) p then (True, s\<lparr>sp_press := Press_Add\<rparr>)
      else if rf_contains (run_rect s) p then
        (True, s\<lparr>sp_press := Press_Slot, sp_press_slot := slot_under btns s p [0..mt_visible m]\<rparr>)
      else (rf_contains (occupied s) p, s))"

definition strip_drag :: "Vec2 \<Rightarrow> strip \<Rightarrow> strip" where
  "strip_drag p s =
     (if sp_press s \<noteq> Press_Slot then s
      else
        let s1 = (if \<not> sp_press_moved s \<and> kMoveSlopDp * sp_density s < v_distance p (sp_press_pos s) then
              let across = (if horizontal s then v_y p - v_y (sp_press_pos s) else v_x p - v_x (sp_press_pos s)) in
              s\<lparr>sp_press_moved := True,
                sp_scrolling := (mt_arrows (sp_m s) \<and> \<bar>across\<bar> < \<bar>along s p (sp_press_pos s)\<bar>)\<rparr>
            else s) in
        if \<not> sp_scrolling s1 then s1
        else
          let scroll = sp_scroll_at_press s1 - along s1 p (sp_press_pos s1) in
          s1\<lparr>sp_scroll := scroll, sp_scroll_target := scroll\<rparr>)"

text \<open>The loop of a region button: the first drawn slot that shows it.\<close>

fun region_target :: "CustomButton list \<Rightarrow> strip \<Rightarrow> CustomButton \<Rightarrow> Vec2 \<Rightarrow> int list \<Rightarrow> Vec2 option" where
  "region_target btns s b at_p [] = None"
| "region_target btns s b at_p (k # ks) =
     (if button_at btns s k \<noteq> sp_press_slot s then region_target btns s b at_p ks
      else Some (map_into_region b (region_pad s (slot_rect btns s k) b) at_p))"

definition activate :: "CustomButton list \<Rightarrow> CustomButton \<Rightarrow> Vec2 \<Rightarrow> strip \<Rightarrow> strip_out list" where
  "activate btns b at_p s =
     (case cb_kind b of
        Kind_Point \<Rightarrow>
          let target = vec2 (of_int (rect_x (cb_target b))) (of_int (rect_y (cb_target b))) in
          [Sink_pointer Action_Down target, Sink_pointer Action_Up target]
      | Kind_Region \<Rightarrow>
          (case region_target btns s b at_p [0..mt_visible (sp_m s)] of
             None \<Rightarrow> []
           | Some target \<Rightarrow> [Sink_pointer Action_Down target, Sink_pointer Action_Up target])
      | Kind_Shortcut \<Rightarrow> [Sink_shortcut b])"

definition strip_release :: "CustomButton list \<Rightarrow> strip \<Rightarrow> strip_out list \<times> strip" where
  "strip_release btns s =
     (let (outs, s1) =
        (case sp_press s of
           Press_Toggle \<Rightarrow>
             ([], strip_layout btns (sp_surface_w s) (sp_surface_h s) (sp_density s)
                (s\<lparr>sp_expanded := \<not> sp_expanded s, sp_state_changed := True\<rparr>))
         | Press_Prev \<Rightarrow> ([], nudge (-1) s)
         | Press_Next \<Rightarrow> ([], nudge 1 s)
         | Press_Add \<Rightarrow> ([], s\<lparr>sp_add_requested := True\<rparr>)
         | Press_Accept \<Rightarrow> ([], s\<lparr>sp_suggestion_accepted := True, sp_suggested_name := []\<rparr>)
         | Press_Decline \<Rightarrow> ([], s\<lparr>sp_suggestion_declined := True, sp_suggested_name := []\<rparr>)
         | Press_Slot \<Rightarrow>
             if sp_scrolling s then ([], snap_to_slot (s\<lparr>sp_scrolling := False\<rparr>))
             else
               (case pressed_button btns s of
                  Some b \<Rightarrow> (if \<not> sp_press_moved s then activate btns b (sp_press_pos s) s else [], s)
                | None \<Rightarrow> ([], s))
         | Press_None \<Rightarrow> ([], s)) in
      (outs, s1\<lparr>sp_press := Press_None, sp_press_slot := -1, sp_scrolling := False\<rparr>))"

definition strip_cancel_press :: "strip \<Rightarrow> strip" where
  "strip_cancel_press s =
     (if sp_scrolling s then snap_to_slot (s\<lparr>sp_scrolling := False\<rparr>) else s)
       \<lparr>sp_press := Press_None, sp_press_slot := -1, sp_press_moved := False\<rparr>"

subsection \<open>What the application sets and takes\<close>

definition set_slot_limit :: "int \<Rightarrow> strip \<Rightarrow> strip" where "set_slot_limit n s = s\<lparr>sp_slot_limit := n\<rparr>"
definition set_orientation :: "StripOrientation \<Rightarrow> strip \<Rightarrow> strip" where "set_orientation r s = s\<lparr>sp_orientation := r\<rparr>"
definition set_expanded :: "bool \<Rightarrow> strip \<Rightarrow> strip" where "set_expanded on s = s\<lparr>sp_expanded := on\<rparr>"
definition set_active_window :: "string \<Rightarrow> strip \<Rightarrow> strip" where "set_active_window p s = s\<lparr>sp_active_process := p\<rparr>"
definition set_preset_name :: "string \<Rightarrow> strip \<Rightarrow> strip" where "set_preset_name n s = s\<lparr>sp_preset_name := n\<rparr>"
definition set_suggestion :: "string \<Rightarrow> strip \<Rightarrow> strip" where "set_suggestion n s = s\<lparr>sp_suggested_name := n\<rparr>"

definition take_add_request :: "strip \<Rightarrow> bool \<times> strip" where
  "take_add_request s = (sp_add_requested s, s\<lparr>sp_add_requested := False\<rparr>)"
definition take_state_change :: "strip \<Rightarrow> bool \<times> strip" where
  "take_state_change s = (sp_state_changed s, s\<lparr>sp_state_changed := False\<rparr>)"
definition take_long_press :: "strip \<Rightarrow> int \<times> strip" where
  "take_long_press s = (sp_long_press s, s\<lparr>sp_long_press := -1\<rparr>)"
definition take_preset_menu_request :: "strip \<Rightarrow> bool \<times> strip" where
  "take_preset_menu_request s = (sp_preset_menu_requested s, s\<lparr>sp_preset_menu_requested := False\<rparr>)"
definition take_suggestion_accepted :: "strip \<Rightarrow> bool \<times> strip" where
  "take_suggestion_accepted s = (sp_suggestion_accepted s, s\<lparr>sp_suggestion_accepted := False\<rparr>)"
definition take_suggestion_declined :: "strip \<Rightarrow> bool \<times> strip" where
  "take_suggestion_declined s = (sp_suggestion_declined s, s\<lparr>sp_suggestion_declined := False\<rparr>)"

section \<open>Layout\<close>

lemma rectf_sel [simp]: "rf_x (rectf x y w h) = x" "rf_y (rectf x y w h) = y" "rf_w (rectf x y w h) = w" "rf_h (rectf x y w h) = h"
  by (simp_all add: rectf_def)

text \<open>Where a point is along the strip, and whether it is on it across.\<close>

definition pos :: "strip \<Rightarrow> Vec2 \<Rightarrow> real" where
  "pos s p = (if horizontal s then v_x p else v_y p) - mt_start (sp_m s)"

definition abreast :: "strip \<Rightarrow> Vec2 \<Rightarrow> bool" where
  "abreast s p \<longleftrightarrow>
     (let c = (if horizontal s then v_y p else v_x p) in mt_cross (sp_m s) \<le> c \<and> c < mt_cross (sp_m s) + mt_thickness (sp_m s))"

lemma contains_cell:
  "rf_contains (cell s off len) p \<longleftrightarrow> abreast s p \<and> off \<le> pos s p \<and> pos s p < off + len"
  by (auto simp: cell_def Let_def rf_contains_def abreast_def pos_def)

text \<open>What a layout leaves behind, and nothing but the next layout changes.\<close>

definition laid_out :: "CustomButton list \<Rightarrow> strip \<Rightarrow> bool" where
  "laid_out btns s \<longleftrightarrow>
     (let m = sp_m s in
      0 < mt_slot m \<and> 0 < mt_toggle m \<and> 0 < mt_arrow m \<and> 0 < mt_add m \<and>
      (sp_expanded s \<longrightarrow>
         0 \<le> mt_visible m \<and> mt_visible m \<le> int (length btns) \<and> (btns \<noteq> [] \<longrightarrow> 0 < mt_visible m) \<and>
         mt_arrows m = (mt_visible m < int (length btns)) \<and> mt_run m = of_int (mt_visible m) * mt_slot m))"

lemma layout_limit_pos: "1 \<le> layout_limit s" "layout_limit s \<le> layout_max_slots s"
  by (auto simp: layout_limit_def layout_max_slots_def clamp_def Let_def)

lemma strip_metrics_laid_out:
  assumes "0 < sp_density s" "sp_m t = strip_metrics (length btns) s" "sp_expanded t = sp_expanded s"
  shows "laid_out btns t"
  using assms layout_limit_pos(1) [of s]
  by (auto simp: laid_out_def strip_metrics_def base_metrics_def Let_def min_def)

lemma strip_layout_eq:
  fixes s0 w h d
  defines "s \<equiv> s0\<lparr>sp_surface_w := w, sp_surface_h := h, sp_density := (if 0 < d then d else 1)\<rparr>"
  shows "sp_m (strip_layout btns w h d s0) = strip_metrics (length btns) s"
    "sp_expanded (strip_layout btns w h d s0) = sp_expanded s" "horizontal (strip_layout btns w h d s0) = horizontal s"
    "0 < sp_density s"
  by (simp_all add: strip_layout_def Let_def s_def horizontal_def)

lemma strip_layout_laid_out: "laid_out btns (strip_layout btns w h d s)"
  by (rule strip_metrics_laid_out [OF strip_layout_eq(4,1,2)])

lemma floor_cell: "0 < n \<Longrightarrow> of_int \<lfloor>x / n\<rfloor> * n \<le> x \<and> x < (of_int \<lfloor>x / n\<rfloor> + 1) * n" for n x :: real
proof -
  assume n: "0 < n"
  have "of_int \<lfloor>x / n\<rfloor> * n \<le> x / n * n" using n by (intro mult_right_mono) simp_all
  moreover have "x / n * n < (of_int \<lfloor>x / n\<rfloor> + 1) * n" using n by (intro mult_strict_right_mono) linarith+
  ultimately show ?thesis using n by simp
qed

lemma wrap_range: "0 < e \<Longrightarrow> 0 \<le> wrap v e \<and> wrap v e < e"
proof -
  assume e: "0 < e"
  have f: "v = e * (v / e)" using e by simp
  show ?thesis
  proof (cases "0 \<le> v / e")
    case True
    have "e * of_int \<lfloor>v / e\<rfloor> \<le> e * (v / e)" "e * (v / e) < e * (of_int \<lfloor>v / e\<rfloor> + 1)"
      using e by (intro mult_left_mono mult_strict_left_mono; linarith)+
    then show ?thesis using True e f by (simp add: wrap_def fmod_def Let_def distrib_left)
  next
    case False
    have "e * (v / e) \<le> e * of_int \<lceil>v / e\<rceil>" "e * (of_int \<lceil>v / e\<rceil> - 1) < e * (v / e)"
      using e by (intro mult_left_mono mult_strict_left_mono; linarith)+
    then show ?thesis using False e f by (simp add: wrap_def fmod_def Let_def right_diff_distrib)
  qed
qed

lemma fmod_nonneg:
  assumes "0 \<le> a" "0 < b"
  shows "fmod a b = a - b * of_int \<lfloor>a / b\<rfloor>" "0 \<le> fmod a b" "fmod a b < b"
proof -
  show e: "fmod a b = a - b * of_int \<lfloor>a / b\<rfloor>" using assms by (simp add: fmod_def)
  have "b * of_int \<lfloor>a / b\<rfloor> \<le> b * (a / b)" "b * (a / b) < b * (of_int \<lfloor>a / b\<rfloor> + 1)"
    using assms by (intro mult_left_mono mult_strict_left_mono; linarith)+
  then show "0 \<le> fmod a b" "fmod a b < b" using assms unfolding e by (simp_all add: distrib_left)
qed

section \<open>Slots and buttons\<close>

lemma wrapped_scroll_range:
  "btns \<noteq> [] \<Longrightarrow> 0 < mt_slot (sp_m s) \<Longrightarrow> 0 \<le> wrapped_scroll btns s \<and> wrapped_scroll btns s < of_nat (length btns) * mt_slot (sp_m s)"
  unfolding wrapped_scroll_def content_length_def by (rule wrap_range) simp

lemma first_button_range:
  assumes "btns \<noteq> []" "0 < mt_slot (sp_m s)"
  shows "0 \<le> \<lfloor>wrapped_scroll btns s / mt_slot (sp_m s)\<rfloor>" "\<lfloor>wrapped_scroll btns s / mt_slot (sp_m s)\<rfloor> < int (length btns)"
  using wrapped_scroll_range [OF assms] assms by (simp_all add: floor_less_iff pos_divide_less_eq)

lemma button_at_range:
  assumes "laid_out btns s" "sp_expanded s" "0 \<le> k" "k < mt_visible (sp_m s) \<or> mt_arrows (sp_m s) \<and> k \<le> mt_visible (sp_m s)"
  shows "0 \<le> button_at btns s k \<and> button_at btns s k < int (length btns)"
proof -
  have b: "btns \<noteq> []" using assms by (auto simp: laid_out_def Let_def)
  have n: "0 < mt_slot (sp_m s)" using assms(1) by (simp add: laid_out_def Let_def)
  show ?thesis
    using assms b first_button_range(1) [OF b n]
    by (auto simp: button_at_def Let_def laid_out_def pos_mod_sign pos_mod_bound)
qed

lemma button_at_distinct:
  assumes "laid_out btns s" "sp_expanded s" "mt_arrows (sp_m s)"
    and "0 \<le> j" "j < k" "k \<le> mt_visible (sp_m s)"
  shows "button_at btns s j \<noteq> button_at btns s k"
proof -
  have b: "btns \<noteq> []" "mt_visible (sp_m s) < int (length btns)" "0 < mt_slot (sp_m s)"
    using assms by (auto simp: laid_out_def Let_def)
  define f where "f = \<lfloor>wrapped_scroll btns s / mt_slot (sp_m s)\<rfloor>"
  have f: "0 \<le> f" unfolding f_def by (rule first_button_range(1) [OF b(1,3)])
  have "(f + j) mod int (length btns) \<noteq> (f + k) mod int (length btns)"
  proof
    assume "(f + j) mod int (length btns) = (f + k) mod int (length btns)"
    then have "int (length btns) dvd k - j" by (metis mod_eq_dvd_iff add_diff_cancel_left)
    then show False using assms(4-6) b(2) zdvd_imp_le [of "int (length btns)" "k - j"] by linarith
  qed
  then show ?thesis using assms b f by (simp add: button_at_def Let_def f_def)
qed

definition phase :: "CustomButton list \<Rightarrow> strip \<Rightarrow> real" where
  "phase btns s = (if mt_arrows (sp_m s) then fmod (wrapped_scroll btns s) (mt_slot (sp_m s)) else 0)"

lemma phase_range:
  assumes "laid_out btns s" "sp_expanded s"
  shows "0 \<le> phase btns s" "phase btns s < mt_slot (sp_m s)"
proof -
  have n: "0 < mt_slot (sp_m s)" using assms(1) by (simp add: laid_out_def Let_def)
  have "btns \<noteq> []" if "mt_arrows (sp_m s)" using assms that by (auto simp: laid_out_def Let_def)
  then have "0 \<le> phase btns s \<and> phase btns s < mt_slot (sp_m s)"
    using n fmod_nonneg(2,3) [OF _ n, of "wrapped_scroll btns s"] wrapped_scroll_range [of btns s] by (auto simp: phase_def)
  then show "0 \<le> phase btns s" "phase btns s < mt_slot (sp_m s)" by auto
qed

lemma contains_slot:
  "rf_contains (slot_rect btns s k) p \<longleftrightarrow>
     abreast s p \<and> of_int k * mt_slot (sp_m s) \<le> pos s p - run_start s + phase btns s \<and>
     pos s p - run_start s + phase btns s < (of_int k + 1) * mt_slot (sp_m s)"
  unfolding slot_rect_def Let_def contains_cell phase_def [symmetric] by (auto simp: algebra_simps)

text \<open>The drawn slots cover the run: every point of it is in one of them, and in one that shows a button.\<close>

lemma slots_cover_run:
  assumes l: "laid_out btns s" and e: "sp_expanded s" and r: "rf_contains (run_rect s) p"
  obtains k where "0 \<le> k" "k < mt_visible (sp_m s) \<or> mt_arrows (sp_m s) \<and> k \<le> mt_visible (sp_m s)"
    "rf_contains (slot_rect btns s k) p"
proof -
  define n where "n = mt_slot (sp_m s)"
  define x where "x = pos s p - run_start s + phase btns s"
  have n: "0 < n" using l by (simp add: laid_out_def Let_def n_def)
  have run: "abreast s p" "0 \<le> pos s p - run_start s" "pos s p - run_start s < of_int (mt_visible (sp_m s)) * n"
    using r l e by (auto simp: run_rect_def contains_cell laid_out_def Let_def n_def)
  note ph = phase_range [OF l e, folded n_def]
  have x0: "0 \<le> x" "x < of_int (mt_visible (sp_m s)) * n + n" using run ph by (auto simp: x_def)
  have f: "of_int \<lfloor>x / n\<rfloor> * n \<le> x" "x < (of_int \<lfloor>x / n\<rfloor> + 1) * n" using floor_cell [OF n, of x] by simp_all
  have k: "0 \<le> \<lfloor>x / n\<rfloor>" "\<lfloor>x / n\<rfloor> \<le> mt_visible (sp_m s)"
    using x0 n by (simp_all add: floor_le_iff pos_divide_less_eq distrib_right)
  have "\<lfloor>x / n\<rfloor> < mt_visible (sp_m s)" if "\<not> mt_arrows (sp_m s)"
    using that run(3) n by (simp add: floor_less_iff pos_divide_less_eq x_def phase_def)
  with k f run(1) show ?thesis
    by (intro that [of "\<lfloor>x / n\<rfloor>"]) (auto simp: contains_slot n_def x_def)
qed

lemma slot_under_in:
  "\<exists>k \<in> set ks. rf_contains (slot_rect btns s k) p \<Longrightarrow>
   \<exists>k \<in> set ks. rf_contains (slot_rect btns s k) p \<and> slot_under btns s p ks = button_at btns s k"
  by (induction ks) auto

text \<open>Slots do not overlap, so the point names its slot.\<close>

lemma contains_slot_unique:
  assumes "0 < mt_slot (sp_m s)" "rf_contains (slot_rect btns s j) p" "rf_contains (slot_rect btns s k) p"
  shows "j = k"
proof -
  define n where "n = mt_slot (sp_m s)"
  define x where "x = pos s p - run_start s + phase btns s"
  have c: "of_int j * n \<le> x" "x < (of_int j + 1) * n" "of_int k * n \<le> x" "x < (of_int k + 1) * n"
    using assms(2,3) by (auto simp: contains_slot n_def x_def)
  have n: "0 < n" using assms(1) by (simp add: n_def)
  have "of_int j * n < (of_int k + 1) * n" "of_int k * n < (of_int j + 1) * n" using c by linarith+
  then have "(of_int j :: real) < of_int k + 1" "(of_int k :: real) < of_int j + 1"
    using n by (metis mult_less_cancel_right_pos)+
  then show ?thesis by linarith
qed

lemma slot_under_run:
  assumes l: "laid_out btns s" and e: "sp_expanded s" and r: "rf_contains (run_rect s) p"
  obtains k where "rf_contains (slot_rect btns s k) p" "slot_under btns s p [0..mt_visible (sp_m s)] = button_at btns s k"
    "0 \<le> button_at btns s k" "button_at btns s k < int (length btns)"
proof -
  obtain k where k: "0 \<le> k" "k < mt_visible (sp_m s) \<or> mt_arrows (sp_m s) \<and> k \<le> mt_visible (sp_m s)"
    "rf_contains (slot_rect btns s k) p" by (rule slots_cover_run [OF assms])
  have n: "0 < mt_slot (sp_m s)" using l by (simp add: laid_out_def Let_def)
  from k have "\<exists>k \<in> set [0..mt_visible (sp_m s)]. rf_contains (slot_rect btns s k) p" by auto
  from slot_under_in [OF this] obtain j where "rf_contains (slot_rect btns s j) p"
    "slot_under btns s p [0..mt_visible (sp_m s)] = button_at btns s j" by blast
  with contains_slot_unique [OF n this(1) k(3)] k(3) button_at_range [OF l e k(1,2)] show ?thesis using that by blast
qed

text \<open>Where things are depends on the layout and the scroll position only.\<close>

lemma view_cong:
  assumes "sp_m t = sp_m s" "sp_orientation t = sp_orientation s" "sp_scroll t = sp_scroll s"
  shows "cell t = cell s" "run_rect t = run_rect s" "slot_rect btns t = slot_rect btns s" "button_at btns t = button_at btns s"
    "toggle_rect t = toggle_rect s" "prev_rect t = prev_rect s" "next_rect t = next_rect s" "add_rect t = add_rect s"
proof -
  show c: "cell t = cell s" using assms by (auto simp: cell_def horizontal_def fun_eq_iff)
  have w: "wrapped_scroll btns t = wrapped_scroll btns s" "run_start t = run_start s"
    using assms by (simp_all add: wrapped_scroll_def content_length_def run_start_def)
  show "run_rect t = run_rect s" "slot_rect btns t = slot_rect btns s" "button_at btns t = button_at btns s"
    "toggle_rect t = toggle_rect s" "prev_rect t = prev_rect s" "next_rect t = next_rect s" "add_rect t = add_rect s"
    using assms c w
    by (simp_all add: run_rect_def slot_rect_def button_at_def toggle_rect_def prev_rect_def next_rect_def add_rect_def fun_eq_iff
        Let_def)
qed

lemma run_apart:
  assumes "laid_out btns s" "sp_expanded s" "rf_contains (run_rect s) p"
  shows "\<not> rf_contains (toggle_rect s) p" "mt_arrows (sp_m s) \<Longrightarrow> \<not> rf_contains (prev_rect s) p"
    "mt_arrows (sp_m s) \<Longrightarrow> \<not> rf_contains (next_rect s) p" "\<not> rf_contains (add_rect s) p"
  using assms
  by (auto simp: run_rect_def toggle_rect_def prev_rect_def next_rect_def add_rect_def contains_cell run_start_def laid_out_def Let_def)

text \<open>The press is on one of the two circles of an offer that is shown.\<close>

definition on_offer :: "strip \<Rightarrow> Vec2 \<Rightarrow> bool" where
  "on_offer s p \<longleftrightarrow> sp_expanded s \<and> sp_suggested_name s \<noteq> [] \<and> (rf_contains (accept_rect s) p \<or> rf_contains (decline_rect s) p)"

lemma offer_cong:
  assumes "sp_m t = sp_m s" "sp_orientation t = sp_orientation s" "sp_expanded t = sp_expanded s" "sp_density t = sp_density s"
  shows "accept_rect t = accept_rect s" "decline_rect t = decline_rect s"
  using assms
  by (simp_all add: accept_rect_def decline_rect_def suggestion_bar_def caption_origin_def occupied_def toggle_rect_def add_rect_def
      cell_def horizontal_def run_start_def Let_def)

abbreviation pressed_at :: "Vec2 \<Rightarrow> strip \<Rightarrow> strip" where
  "pressed_at p s \<equiv> s\<lparr>sp_press := Press_None, sp_press_slot := -1, sp_press_pos := p, sp_press_seconds := 0, sp_press_moved := False,
     sp_scrolling := False, sp_scroll_at_press := sp_scroll s\<rparr>"

lemma offer_pressed: "accept_rect (pressed_at p s) = accept_rect s" "decline_rect (pressed_at p s) = decline_rect s"
  by (rule offer_cong; simp)+

lemma hit_offer:
  assumes "on_offer s p"
  shows "\<exists>k t. strip_hit_test btns p s = (True, t) \<and> sp_press t = k \<and> k \<in> {Press_Accept, Press_Decline}"
  using assms unfolding strip_hit_test_def Let_def offer_pressed by (auto simp: on_offer_def)

lemma hit_run:
  assumes "laid_out btns s" "sp_expanded s" "rf_contains (run_rect s) p" "\<not> on_offer s p"
  shows "strip_hit_test btns p s =
    (True, s\<lparr>sp_press := Press_Slot, sp_press_slot := slot_under btns s p [0..mt_visible (sp_m s)], sp_press_pos := p,
       sp_press_seconds := 0, sp_press_moved := False, sp_scrolling := False, sp_scroll_at_press := sp_scroll s\<rparr>)"
proof -
  let ?t = "pressed_at p s"
  have v: "sp_m ?t = sp_m s" "sp_orientation ?t = sp_orientation s" "sp_scroll ?t = sp_scroll s" by simp_all
  have u: "slot_under btns ?t p ks = slot_under btns s p ks" for ks
    by (induction ks) (simp_all add: view_cong(3,4) [OF v])
  have no: "\<not> ((sp_expanded ?t \<and> sp_suggested_name ?t \<noteq> []) \<and> rf_contains (accept_rect s) p)"
    "\<not> ((sp_expanded ?t \<and> sp_suggested_name ?t \<noteq> []) \<and> rf_contains (decline_rect s) p)"
    using assms(4) by (auto simp: on_offer_def)
  from run_apart [OF assms(1-3)] assms(2,3) show ?thesis
    unfolding strip_hit_test_def Let_def view_cong [OF v] offer_pressed u if_not_P [OF no(1)] if_not_P [OF no(2)]
    by (cases "mt_arrows (sp_m s)") simp_all
qed

lemma region_target_at:
  "\<exists>k \<in> set ks. button_at btns s k = sp_press_slot s \<Longrightarrow>
   \<exists>k. region_target btns s b p ks = Some (map_into_region b (region_pad s (slot_rect btns s k) b) p)"
  by (induction ks) auto

lemma map_into_region_inside:
  "of_int (rect_x (cb_target b)) \<le> v_x (map_into_region b pad p)"
  "v_x (map_into_region b pad p) \<le> of_int (rect_x (cb_target b) + max (rect_w (cb_target b) - 1) 0)"
  "of_int (rect_y (cb_target b)) \<le> v_y (map_into_region b pad p)"
  "v_y (map_into_region b pad p) \<le> of_int (rect_y (cb_target b) + max (rect_h (cb_target b) - 1) 0)"
proof -
  have c: "0 \<le> clamp x 0 1 * n" "clamp x 0 1 * n \<le> n" if "0 \<le> n" for x n :: real
    using that mult_right_mono [of "clamp x 0 1" 1 n] by (auto simp: clamp_def)
  show "of_int (rect_x (cb_target b)) \<le> v_x (map_into_region b pad p)"
    "v_x (map_into_region b pad p) \<le> of_int (rect_x (cb_target b) + max (rect_w (cb_target b) - 1) 0)"
    using c [of "of_int (max (rect_w (cb_target b) - 1) 0)" "(v_x p - rf_x pad) / rf_w pad"]
    by (auto simp: map_into_region_def Let_def simp del: of_int_max)
  show "of_int (rect_y (cb_target b)) \<le> v_y (map_into_region b pad p)"
    "v_y (map_into_region b pad p) \<le> of_int (rect_y (cb_target b) + max (rect_h (cb_target b) - 1) 0)"
    using c [of "of_int (max (rect_h (cb_target b) - 1) 0)" "(v_y p - rf_y pad) / rf_h pad"]
    by (auto simp: map_into_region_def Let_def simp del: of_int_max)
qed

lemma tap_run:
  assumes l: "laid_out btns s" and e: "sp_expanded s" and r: "rf_contains (run_rect s) p" and n: "\<not> on_offer s p"
  obtains k where "rf_contains (slot_rect btns s k) p" "0 \<le> button_at btns s k" "button_at btns s k < int (length btns)"
    "sp_press (snd (strip_hit_test btns p s)) = Press_Slot" "sp_press_slot (snd (strip_hit_test btns p s)) = button_at btns s k"
    "fst (strip_hit_test btns p s)" "\<not> sp_press_moved (snd (strip_hit_test btns p s))"
    "fst (strip_release btns (snd (strip_hit_test btns p s))) =
       activate btns (btns ! nat (button_at btns s k)) p (snd (strip_hit_test btns p s))"
    "\<exists>j \<in> set [0..mt_visible (sp_m s)]. button_at btns s j = button_at btns s k"
proof -
  obtain k where k: "rf_contains (slot_rect btns s k) p" "slot_under btns s p [0..mt_visible (sp_m s)] = button_at btns s k"
    "0 \<le> button_at btns s k" "button_at btns s k < int (length btns)" by (rule slot_under_run [OF l e r])
  have "k \<le> mt_visible (sp_m s)" "0 \<le> k" using k(3) l e by (auto simp: button_at_def Let_def laid_out_def split: if_splits)
  then have "\<exists>j \<in> set [0..mt_visible (sp_m s)]. button_at btns s j = button_at btns s k" by auto
  with k show ?thesis
    by (intro that [of k]) (simp_all add: hit_run [OF l e r n] strip_release_def pressed_button_def)
qed

section \<open>Properties\<close>

text \<open>The offsets a button may be sent at: its point, or inside its region.\<close>

definition target_ok :: "CustomButton \<Rightarrow> Vec2 \<Rightarrow> bool" where
  "target_ok b v \<longleftrightarrow>
     (let t = cb_target b in
      if cb_kind b = Kind_Point then v = vec2 (of_int (rect_x t)) (of_int (rect_y t))
      else cb_kind b = Kind_Region \<longrightarrow> of_int (rect_x t) \<le> v_x v \<and> v_x v \<le> of_int (rect_x t + max (rect_w t - 1) 0) \<and>
           of_int (rect_y t) \<le> v_y v \<and> v_y v \<le> of_int (rect_y t + max (rect_h t - 1) 0))"

lemma tap_fires:
  assumes "laid_out btns s" and "sp_expanded s" and "rf_contains (run_rect s) p" and "\<not> on_offer s p"
  shows "\<exists>k b v. rf_contains (slot_rect btns s k) p \<and> b = btns ! nat (button_at btns s k) \<and> b \<in> set btns \<and>
    fst (strip_hit_test btns p s) \<and>
    fst (strip_release btns (snd (strip_hit_test btns p s))) =
      (if cb_kind b = Kind_Shortcut then [Sink_shortcut b] else [Sink_pointer Action_Down v, Sink_pointer Action_Up v]) \<and>
    target_ok b v"
  using assms
proof (rule tap_run)
  fix k
  let ?t = "snd (strip_hit_test btns p s)"
  assume k: "rf_contains (slot_rect btns s k) p" "0 \<le> button_at btns s k" "button_at btns s k < int (length btns)"
    "sp_press ?t = Press_Slot" "sp_press_slot ?t = button_at btns s k" "fst (strip_hit_test btns p s)"
    "\<not> sp_press_moved ?t"
    "fst (strip_release btns ?t) = activate btns (btns ! nat (button_at btns s k)) p ?t"
    "\<exists>j \<in> set [0..mt_visible (sp_m s)]. button_at btns s j = button_at btns s k"
  define b where "b = btns ! nat (button_at btns s k)"
  have b: "b \<in> set btns" using k(2,3) by (auto simp: b_def)
  have v: "sp_m ?t = sp_m s" "sp_orientation ?t = sp_orientation s" "sp_scroll ?t = sp_scroll s"
    by (simp_all add: hit_run [OF assms])
  have "\<exists>j \<in> set [0..mt_visible (sp_m ?t)]. button_at btns ?t j = sp_press_slot ?t"
    using k(9) unfolding v k(5) view_cong(4) [OF v] by simp
  from region_target_at [OF this, of b p] obtain j where
    r: "region_target btns ?t b p [0..mt_visible (sp_m ?t)] = Some (map_into_region b (region_pad ?t (slot_rect btns ?t j) b) p)"
    by blast
  have "\<exists>w. activate btns b p ?t =
      (if cb_kind b = Kind_Shortcut then [Sink_shortcut b] else [Sink_pointer Action_Down w, Sink_pointer Action_Up w]) \<and> target_ok b w"
  proof (cases "cb_kind b")
    case Kind_Region
    then show ?thesis using r map_into_region_inside
      by (intro exI [of _ "map_into_region b (region_pad ?t (slot_rect btns ?t j) b) p"]) (simp add: activate_def target_ok_def Let_def)
  qed (auto simp: activate_def target_ok_def Let_def)
  then obtain w where w: "activate btns b p ?t =
      (if cb_kind b = Kind_Shortcut then [Sink_shortcut b] else [Sink_pointer Action_Down w, Sink_pointer Action_Up w])" "target_ok b w"
    by blast
  show ?thesis
    by (intro exI [of _ k] exI [of _ b] exI [of _ w] conjI) (use k(1,6) b w k(8) in \<open>simp_all add: b_def\<close>)
qed

text \<open>
  C20: a tap fires the button under the finger. In a strip that is laid out and expanded, at any scroll position, a
  press in the run that is not on the accept or the decline circle of an offer lands in a drawn slot, and letting go
  sends what the button shown there stands for: its shortcut, or a press and a release at one place of its target. A
  press on one of the circles belongs to the offer, even where a circle lies over the run, and fires no button.
\<close>

theorem tap_fires_button_shown:
  assumes "laid_out btns s" and "sp_expanded s" and "rf_contains (run_rect s) p"
  shows "(\<not> on_offer s p \<longrightarrow> (\<exists>k b v. rf_contains (slot_rect btns s k) p \<and> b = btns ! nat (button_at btns s k) \<and> b \<in> set btns \<and>
    fst (strip_hit_test btns p s) \<and>
    fst (strip_release btns (snd (strip_hit_test btns p s))) =
      (if cb_kind b = Kind_Shortcut then [Sink_shortcut b] else [Sink_pointer Action_Down v, Sink_pointer Action_Up v]) \<and>
    target_ok b v)) \<and>
   (on_offer s p \<longrightarrow> fst (strip_hit_test btns p s) \<and> fst (strip_release btns (snd (strip_hit_test btns p s))) = [])"
proof (intro conjI impI)
  assume "on_offer s p"
  then show "fst (strip_hit_test btns p s)" "fst (strip_release btns (snd (strip_hit_test btns p s))) = []"
    using hit_offer [of s p btns] by (auto simp: strip_release_def)
next
  assume off: "\<not> on_offer s p"
  show "\<exists>k b v. rf_contains (slot_rect btns s k) p \<and> b = btns ! nat (button_at btns s k) \<and> b \<in> set btns \<and>
    fst (strip_hit_test btns p s) \<and>
    fst (strip_release btns (snd (strip_hit_test btns p s))) =
      (if cb_kind b = Kind_Shortcut then [Sink_shortcut b] else [Sink_pointer Action_Down v, Sink_pointer Action_Up v]) \<and>
    target_ok b v"
    by (rule tap_fires [OF assms off])
qed

definition ex_strip :: strip where
  "ex_strip = strip_layout [ex_button] 1000 500 1 (strip_init\<lparr>sp_expanded := True\<rparr>)"

lemma ex_strip_sel:
  "sp_expanded ex_strip" "sp_suggested_name ex_strip = []" "horizontal ex_strip" "mt_visible (sp_m ex_strip) = 1"
  "sp_m ex_strip = \<lparr>mt_margin = 8, mt_thickness = 76, mt_toggle = 26, mt_arrow = 34, mt_add = 48, mt_slot = 84, mt_visible = 1,
     mt_arrows = False, mt_run = 84, mt_start = 8, mt_cross = 416\<rparr>"
  "sp_density ex_strip = 1"
  by (simp_all add: ex_strip_def strip_layout_def strip_init_def horizontal_def strip_metrics_def base_metrics_def layout_limit_def
      layout_max_slots_def axis_length_def fit_in_def Let_def clamp_def)

lemma ex_strip_run: "rf_contains (run_rect ex_strip) (vec2 50 450)" "laid_out [ex_button] ex_strip" "\<not> on_offer ex_strip p"
  by (simp_all add: run_rect_def run_start_def cell_def rf_contains_def ex_strip_sel on_offer_def)
    (simp add: ex_strip_def strip_layout_laid_out)

theorem tap_fires_button_shown_witness:
  "fst (strip_hit_test [ex_button] (vec2 50 450) ex_strip) \<and>
   fst (strip_release [ex_button] (snd (strip_hit_test [ex_button] (vec2 50 450) ex_strip))) = [Sink_shortcut ex_button]"
  using tap_fires_button_shown [OF ex_strip_run(2) ex_strip_sel(1) ex_strip_run(1)] ex_strip_run(3)
  by (auto simp: ex_button_def)

text \<open>
  holding, sliding and losing the finger fire nothing. A press of a button that is held for the long-press time
  opens that button's menu instead, one that slides away from where it began, and one that is cancelled, do nothing on release.
\<close>

theorem held_or_moved_fires_nothing:
  assumes "sp_press s = Press_Slot"
  shows "(\<not> sp_press_moved s \<and> kLongPressSeconds \<le> sp_press_seconds s + dt \<longrightarrow>
      sp_long_press (strip_advance dt s) = sp_press_slot s \<and> fst (strip_release btns (strip_advance dt s)) = []) \<and>
    (kMoveSlopDp * sp_density s < v_distance p (sp_press_pos s) \<longrightarrow>
      fst (strip_release btns (strip_drag p s)) = [] \<and> fst (strip_release btns (strip_drag q (strip_drag p s))) = []) \<and>
    fst (strip_release btns (strip_cancel_press s)) = []"
proof (intro conjI impI)
  have settle: "sp_press (settle_scroll dt s) = sp_press s" "sp_press_moved (settle_scroll dt s) = sp_press_moved s"
    "sp_press_seconds (settle_scroll dt s) = sp_press_seconds s" "sp_press_slot (settle_scroll dt s) = sp_press_slot s"
    by (simp_all add: settle_scroll_def Let_def)
  assume "\<not> sp_press_moved s \<and> kLongPressSeconds \<le> sp_press_seconds s + dt"
  then show "sp_long_press (strip_advance dt s) = sp_press_slot s" "fst (strip_release btns (strip_advance dt s)) = []"
    using assms settle by (simp_all add: strip_advance_def Let_def strip_release_def)
next
  have moved: "sp_press (strip_drag x t) = Press_Slot \<and> sp_press_moved (strip_drag x t)"
    if "sp_press t = Press_Slot" "sp_press_moved t \<or> kMoveSlopDp * sp_density t < v_distance x (sp_press_pos t)" for x t
    using that by (auto simp: strip_drag_def Let_def)
  have quiet: "fst (strip_release btns t) = []" if "sp_press t = Press_Slot" "sp_press_moved t" for t
    using that by (auto simp: strip_release_def Let_def split: option.split)
  assume "kMoveSlopDp * sp_density s < v_distance p (sp_press_pos s)"
  with moved [of s p] assms have m: "sp_press (strip_drag p s) = Press_Slot" "sp_press_moved (strip_drag p s)" by auto
  show "fst (strip_release btns (strip_drag p s)) = []" by (rule quiet [OF m])
  show "fst (strip_release btns (strip_drag q (strip_drag p s))) = []" using moved [of "strip_drag p s" q] m by (intro quiet) auto
qed (simp add: strip_cancel_press_def strip_release_def)

theorem held_or_moved_fires_nothing_witness:
  "fst (strip_release [ex_button] (strip_cancel_press (snd (strip_hit_test [ex_button] (vec2 50 450) ex_strip)))) = []"
proof -
  have "sp_press (snd (strip_hit_test [ex_button] (vec2 50 450) ex_strip)) = Press_Slot"
    using hit_run [OF ex_strip_run(2) ex_strip_sel(1) ex_strip_run(1,3)] by simp
  from held_or_moved_fires_nothing [OF this] show ?thesis by blast
qed

text \<open>
  The decline circle of an offer lies over the run. On a horizontal strip without arrows the circle reaches 1 dp below
  the upper edge of the strip, over the first slot: a press there declines the offer, and the button shown under the
  finger does not fire.
\<close>

theorem decline_covers_run:
  "let s = set_suggestion ''Krita'' ex_strip; p = vec2 50 (833 / 2) in
   rf_contains (run_rect s) p \<and> rf_contains (slot_rect [ex_button] s 0) p \<and>
   sp_press (snd (strip_hit_test [ex_button] p s)) = Press_Decline"
  by (simp add: set_suggestion_def run_rect_def slot_rect_def run_start_def cell_def rf_contains_def ex_strip_sel
      ex_strip_sel(3) [unfolded horizontal_def] horizontal_def strip_hit_test_def Let_def
      accept_rect_def decline_rect_def suggestion_bar_def caption_origin_def occupied_def add_rect_def toggle_rect_def)

text \<open>
  the strip stays on the surface and shows no button twice. On a surface long enough for one slot beside the tab,
  the arrows and the plus, the expanded strip ends a margin before the edge however many buttons there are and whatever
  limit was set; and the slots drawn, the one sliding in included, show different buttons.
\<close>

theorem strip_fits_surface:
  assumes "0 < d" and "sp_expanded s"
    and "(158 + (if horizontal s then 84 else 68)) * d \<le> of_int (if horizontal s then w else h)"
  shows "let t = strip_layout btns w h d s; q = occupied t in
    (if horizontal s then rf_x q + rf_w q \<le> of_int w - 8 * d else rf_y q + rf_h q \<le> of_int h - 8 * d) \<and>
    (\<forall>i j. 0 \<le> i \<and> i < j \<and> (if mt_arrows (sp_m t) then j \<le> mt_visible (sp_m t) else j < mt_visible (sp_m t)) \<longrightarrow>
       button_at btns t i \<noteq> button_at btns t j)"
proof -
  define t where "t = strip_layout btns w h d s"
  define u where "u = s\<lparr>sp_surface_w := w, sp_surface_h := h, sp_density := (if 0 < d then d else 1)\<rparr>"
  define n where "n = (if horizontal s then 84 else 68) * d"
  define axis where "axis = (of_int (if horizontal s then w else h) :: real)"
  have eq: "sp_m t = strip_metrics (length btns) u" "sp_expanded t" "horizontal t = horizontal s"
    unfolding t_def strip_layout_eq by (simp_all add: u_def assms(2) horizontal_def)
  have l: "laid_out btns t" unfolding t_def by (rule strip_layout_laid_out)
  have u: "sp_expanded u" "horizontal u = horizontal s" "sp_density u = d" "axis_length u = axis"
    using assms by (simp_all add: u_def horizontal_def axis_length_def axis_def)
  have n: "0 < n" using assms(1) by (simp add: n_def)
  have b: "mt_slot (base_metrics u) = n" "mt_margin (base_metrics u) = 8 * d" "mt_toggle (base_metrics u) = 26 * d"
    "mt_arrow (base_metrics u) = 34 * d" "mt_add (base_metrics u) = 48 * d" "mt_start (base_metrics u) = 8 * d"
    by (simp_all add: base_metrics_def Let_def u n_def)
  have room: "n \<le> axis - 158 * d" using assms(3) by (simp add: n_def axis_def distrib_right)
  then have "1 \<le> \<lfloor>(axis - 158 * d) / n\<rfloor>" using n by (simp add: le_floor_iff pos_le_divide_eq)
  moreover have "axis - 8 * d * 2 - 26 * d - 48 * d - 34 * d * 2 = axis - 158 * d" by (simp add: algebra_simps)
  ultimately have "layout_max_slots u = \<lfloor>(axis - 158 * d) / n\<rfloor>"
    using room n unfolding layout_max_slots_def Let_def fit_in_def b u by simp
  then have "layout_limit u \<le> \<lfloor>(axis - 158 * d) / n\<rfloor>" using layout_limit_pos(2) [of u] by simp
  then have "mt_visible (sp_m t) \<le> \<lfloor>(axis - 158 * d) / n\<rfloor>" unfolding eq strip_metrics_def Let_def by (simp add: u)
  then have run: "of_int (mt_visible (sp_m t)) * n \<le> axis - 158 * d"
    using n by (simp add: le_floor_iff pos_le_divide_eq)
  have m: "mt_slot (sp_m t) = n" "mt_toggle (sp_m t) = 26 * d" "mt_arrow (sp_m t) = 34 * d" "mt_add (sp_m t) = 48 * d"
    "mt_start (sp_m t) = 8 * d" "mt_run (sp_m t) = of_int (mt_visible (sp_m t)) * n"
    unfolding eq strip_metrics_def Let_def by (simp_all add: u b)
  have "8 * d + (run_start t + mt_run (sp_m t) + (if mt_arrows (sp_m t) then mt_arrow (sp_m t) else 0)) + mt_add (sp_m t) \<le> axis - 8 * d"
    using run assms(1) by (simp add: run_start_def m)
  then have "if horizontal s then rf_x (occupied t) + rf_w (occupied t) \<le> of_int w - 8 * d
      else rf_y (occupied t) + rf_h (occupied t) \<le> of_int h - 8 * d"
    using eq(2,3)
    by (cases "mt_arrows (sp_m t)"; cases "horizontal s") (simp_all add: occupied_def Let_def add_rect_def cell_def m axis_def)
  moreover have "button_at btns t i \<noteq> button_at btns t j"
    if "0 \<le> i" "i < j" "if mt_arrows (sp_m t) then j \<le> mt_visible (sp_m t) else j < mt_visible (sp_m t)" for i j
    using button_at_distinct [OF l eq(2) _ that(1,2)] that l eq(2)
    by (cases "mt_arrows (sp_m t)") (auto simp: button_at_def Let_def laid_out_def)
  ultimately show ?thesis unfolding Let_def t_def [symmetric] by blast
qed

theorem strip_fits_surface_witness:
  "rf_x (occupied ex_strip) + rf_w (occupied ex_strip) \<le> 992"
  using strip_fits_surface [of 1 "strip_init\<lparr>sp_expanded := True\<rparr>" 1000 500 "[ex_button]"]
  by (simp add: strip_init_def horizontal_def Let_def flip: ex_strip_def) (simp add: ex_strip_def strip_init_def)

end
