(* ===== verification/SideMenu.thy ===== *)
theory SideMenu
  imports ButtonStrip TouchRouter
begin

text \<open>
  The drawer of the guest, \<open>guest/app/src/main/cpp/ui/SideMenu.hpp\<close> and \<open>SideMenu.cpp\<close>, without its drawing: where the
  handle, the rows, the buttons and the sliders are, what a press does, and how a slider follows the finger. Floats are
  real numbers; the distance threshold, which the settings file keeps, is a rational one.
\<close>

section \<open>Definitions\<close>

definition kSlideSeconds :: real where "kSlideSeconds = 16 / 100"
definition kMaxIntervalMs :: int where "kMaxIntervalMs = 40"
definition kMaxDistanceDp :: rat where "kMaxDistanceDp = 16"
definition kSliderCount :: int where "kSliderCount = 3"

definition ease_out :: "real \<Rightarrow> real" where
  "ease_out t = 1 - (1 - t) * (1 - t)"

record side_menu =
  mn_surface_w :: int
  mn_surface_h :: int
  mn_density :: real
  mn_panel_w :: real
  mn_handle_w :: real
  mn_handle_h :: real
  mn_target :: real
  mn_progress :: real
  mn_mode :: InputMode
  mn_mode_changed :: bool
  mn_auto_launch :: bool
  mn_auto_launch_changed :: bool
  mn_rotate_requested :: bool
  mn_about_requested :: bool
  mn_strip_vertical :: bool
  mn_strip_changed :: bool
  mn_screen_enabled :: bool
  mn_screen_changed :: bool
  mn_stylus_only :: bool
  mn_stylus_changed :: bool
  mn_min_interval_ms :: int
  mn_min_distance_dp :: rat
  mn_throttle_changed :: bool
  mn_strip_slots :: int
  mn_strip_slots_max :: int
  mn_strip_slots_changed :: bool
  mn_dragging_slider :: int

definition menu_init :: side_menu where
  "menu_init =
     \<lparr>mn_surface_w = 0, mn_surface_h = 0, mn_density = 1, mn_panel_w = 0, mn_handle_w = 0, mn_handle_h = 0, mn_target = 0,
      mn_progress = 0, mn_mode = Mode_Draw, mn_mode_changed = False, mn_auto_launch = True, mn_auto_launch_changed = False,
      mn_rotate_requested = False, mn_about_requested = False, mn_strip_vertical = False, mn_strip_changed = False,
      mn_screen_enabled = False, mn_screen_changed = False, mn_stylus_only = False, mn_stylus_changed = False,
      mn_min_interval_ms = 0, mn_min_distance_dp = 0, mn_throttle_changed = False, mn_strip_slots = 1, mn_strip_slots_max = 1,
      mn_strip_slots_changed = False, mn_dragging_slider = -1\<rparr>"

definition menu_layout :: "int \<Rightarrow> int \<Rightarrow> real \<Rightarrow> side_menu \<Rightarrow> side_menu" where
  "menu_layout surface_w surface_h density m =
     (let d = (if 0 < density then density else 1) in
      m\<lparr>mn_surface_w := surface_w, mn_surface_h := surface_h, mn_density := d, mn_handle_w := 22 * d, mn_handle_h := 110 * d,
        mn_panel_w := min (of_int surface_w * (62 / 100)) (300 * d)\<rparr>)"

definition menu_advance :: "real \<Rightarrow> side_menu \<Rightarrow> side_menu" where
  "menu_advance dt m =
     (let step = dt / kSlideSeconds in
      if mn_progress m < mn_target m then m\<lparr>mn_progress := min (mn_target m) (mn_progress m + step)\<rparr>
      else if mn_target m < mn_progress m then m\<lparr>mn_progress := max (mn_target m) (mn_progress m - step)\<rparr>
      else m)"

definition menu_open :: "side_menu \<Rightarrow> bool" where
  "menu_open m \<longleftrightarrow> 1 / 2 < mn_target m"

subsection \<open>Geometry\<close>

definition handle_rect :: "side_menu \<Rightarrow> Rect" where
  "handle_rect m =
     (let slide = ease_out (mn_progress m) * mn_panel_w m in
      rectf (of_int (mn_surface_w m) - mn_handle_w m - slide) ((of_int (mn_surface_h m) - mn_handle_h m) * (1 / 2))
        (mn_handle_w m) (mn_handle_h m))"

definition panel_rect :: "side_menu \<Rightarrow> Rect" where
  "panel_rect m =
     (let slide = ease_out (mn_progress m) * mn_panel_w m in
      rectf (of_int (mn_surface_w m) - slide) 0 (mn_panel_w m) (of_int (mn_surface_h m)))"

definition title_rect :: "side_menu \<Rightarrow> Rect" where
  "title_rect m = (let d = mn_density m; panel = panel_rect m in rectf (rf_x panel + 16 * d) (8 * d) (90 * d) (40 * d))"

definition rotate_button :: "side_menu \<Rightarrow> Rect" where
  "rotate_button m =
     (let d = mn_density m; panel = panel_rect m in rectf (rf_x panel + rf_w panel - 16 * d - 92 * d) (12 * d) (92 * d) (34 * d))"

definition strip_button :: "side_menu \<Rightarrow> Rect" where
  "strip_button m =
     (let d = mn_density m; r = rotate_button m in rectf (rf_x r - 6 * d - 42 * d) (rf_y r) (42 * d) (rf_h r))"

definition screen_button :: "side_menu \<Rightarrow> Rect" where
  "screen_button m =
     (let d = mn_density m; r = strip_button m in rectf (rf_x r - 6 * d - 42 * d) (rf_y r) (42 * d) (rf_h r))"

definition mode_row :: "side_menu \<Rightarrow> Rect" where
  "mode_row m =
     (let d = mn_density m; panel = panel_rect m in rectf (rf_x panel + 16 * d) (56 * d) (rf_w panel - 16 * d * 2) (54 * d))"

definition mode_value_pill :: "side_menu \<Rightarrow> Rect" where
  "mode_value_pill m =
     (let d = mn_density m; row = mode_row m in
      rectf (rf_x row + rf_w row - 118 * d - 10 * d) (rf_y row + (rf_h row - 36 * d) * (1 / 2)) (118 * d) (36 * d))"

definition stylus_button :: "side_menu \<Rightarrow> Rect" where
  "stylus_button m =
     (let d = mn_density m; pill = mode_value_pill m in
      rectf (rf_x pill - 8 * d - 40 * d) (rf_y pill + (rf_h pill - 30 * d) * (1 / 2)) (40 * d) (30 * d))"

definition auto_launch_row :: "side_menu \<Rightarrow> Rect" where
  "auto_launch_row m =
     (let d = mn_density m; above = mode_row m in rectf (rf_x above) (rf_y above + rf_h above + 12 * d) (rf_w above) (rf_h above))"

definition slider_row :: "side_menu \<Rightarrow> int \<Rightarrow> Rect" where
  "slider_row m index =
     (let d = mn_density m; above = auto_launch_row m; h = 58 * d; gap = 8 * d in
      rectf (rf_x above) (rf_y above + rf_h above + 12 * d + of_int index * (h + gap)) (rf_w above) h)"

definition slider_track :: "side_menu \<Rightarrow> int \<Rightarrow> Rect" where
  "slider_track m index =
     (let d = mn_density m; row = slider_row m index; pad = 16 * d in
      rectf (rf_x row + pad) (rf_y row + rf_h row - 20 * d) (rf_w row - pad * 2) (6 * d))"

definition slider_fraction :: "side_menu \<Rightarrow> int \<Rightarrow> real" where
  "slider_fraction m index =
     (if index = 0 then of_int (mn_min_interval_ms m) / of_int kMaxIntervalMs
      else if index = 1 then of_rat (mn_min_distance_dp m) / of_rat kMaxDistanceDp
      else if mn_strip_slots_max m \<le> 1 then 1
      else of_int (mn_strip_slots m - 1) / of_int (mn_strip_slots_max m - 1))"

subsection \<open>Input\<close>

definition set_slider_from_x :: "int \<Rightarrow> real \<Rightarrow> side_menu \<Rightarrow> side_menu" where
  "set_slider_from_x index x m =
     (let track = slider_track m index; t = clamp ((x - rf_x track) / rf_w track) 0 1 in
      if index = 2 then
        let slots = 1 + lround (t * of_int (mn_strip_slots_max m - 1)) in
        if slots \<noteq> mn_strip_slots m then m\<lparr>mn_strip_slots := slots, mn_strip_slots_changed := True\<rparr> else m
      else if index = 0 then
        let ms = lround (t * of_int kMaxIntervalMs) in
        if ms \<noteq> mn_min_interval_ms m then m\<lparr>mn_min_interval_ms := ms, mn_throttle_changed := True\<rparr> else m
      else
        let dp = of_int (lround (t * of_rat kMaxDistanceDp * 2)) * (1 / 2) in
        if dp \<noteq> mn_min_distance_dp m then m\<lparr>mn_min_distance_dp := dp, mn_throttle_changed := True\<rparr> else m)"

text \<open>The loop over the sliders: the first row that holds the point starts to follow the finger.\<close>

fun grab_slider :: "Vec2 \<Rightarrow> int list \<Rightarrow> side_menu \<Rightarrow> side_menu" where
  "grab_slider p [] m = m"
| "grab_slider p (i # rest) m =
     (if \<not> rf_contains (slider_row m i) p then grab_slider p rest m
      else set_slider_from_x i (v_x p) (m\<lparr>mn_dragging_slider := i\<rparr>))"

definition press_in_panel :: "Vec2 \<Rightarrow> side_menu \<Rightarrow> side_menu" where
  "press_in_panel p m =
     (if rf_contains (title_rect m) p then m\<lparr>mn_about_requested := True\<rparr>
      else if rf_contains (rotate_button m) p then m\<lparr>mn_rotate_requested := True\<rparr>
      else if rf_contains (strip_button m) p then m\<lparr>mn_strip_vertical := \<not> mn_strip_vertical m, mn_strip_changed := True\<rparr>
      else if rf_contains (screen_button m) p then m\<lparr>mn_screen_enabled := \<not> mn_screen_enabled m, mn_screen_changed := True\<rparr>
      else if rf_contains (stylus_button m) p then m\<lparr>mn_stylus_only := \<not> mn_stylus_only m, mn_stylus_changed := True\<rparr>
      else if rf_contains (mode_row m) p then m\<lparr>mn_mode := next_mode (mn_mode m), mn_mode_changed := True\<rparr>
      else if rf_contains (auto_launch_row m) p then m\<lparr>mn_auto_launch := \<not> mn_auto_launch m, mn_auto_launch_changed := True\<rparr>
      else grab_slider p [0, 1, 2] m)"

definition menu_hit_test :: "Vec2 \<Rightarrow> side_menu \<Rightarrow> bool \<times> side_menu" where
  "menu_hit_test p m =
     (let h = handle_rect m; slop = 12 * mn_density m;
          handle = rectf (rf_x h - slop) (rf_y h - slop) (rf_w h + slop * 2) (rf_h h + slop * 2) in
      if rf_contains handle p then (True, m\<lparr>mn_target := (if 1 / 2 < mn_target m then 0 else 1)\<rparr>)
      else if 1 / 100 < mn_progress m \<and> rf_contains (panel_rect m) p then
        (True, if 9 / 10 < mn_progress m then press_in_panel p m else m)
      else if 1 / 2 < mn_target m then (True, m\<lparr>mn_target := 0\<rparr>)
      else (False, m))"

definition menu_drag :: "Vec2 \<Rightarrow> side_menu \<Rightarrow> side_menu" where
  "menu_drag p m = (if 0 \<le> mn_dragging_slider m then set_slider_from_x (mn_dragging_slider m) (v_x p) m else m)"

definition menu_release :: "Vec2 \<Rightarrow> side_menu \<Rightarrow> side_menu" where
  "menu_release p m =
     (if 0 \<le> mn_dragging_slider m then (set_slider_from_x (mn_dragging_slider m) (v_x p) m)\<lparr>mn_dragging_slider := -1\<rparr> else m)"

definition menu_cancel_press :: "side_menu \<Rightarrow> side_menu" where
  "menu_cancel_press m = m\<lparr>mn_dragging_slider := -1\<rparr>"

subsection \<open>What the application sets and takes\<close>

definition menu_set_throttle :: "int \<Rightarrow> rat \<Rightarrow> side_menu \<Rightarrow> side_menu" where
  "menu_set_throttle interval_ms distance_dp m =
     m\<lparr>mn_min_interval_ms := clamp interval_ms 0 kMaxIntervalMs, mn_min_distance_dp := clamp distance_dp 0 kMaxDistanceDp\<rparr>"

definition menu_set_strip_slots :: "int \<Rightarrow> int \<Rightarrow> side_menu \<Rightarrow> side_menu" where
  "menu_set_strip_slots slots mx m =
     (let top = (if 0 < mx then mx else 1) in m\<lparr>mn_strip_slots_max := top, mn_strip_slots := clamp slots 1 top\<rparr>)"

definition take_mode_change :: "side_menu \<Rightarrow> bool \<times> side_menu" where
  "take_mode_change m = (mn_mode_changed m, m\<lparr>mn_mode_changed := False\<rparr>)"
definition take_auto_launch_change :: "side_menu \<Rightarrow> bool \<times> side_menu" where
  "take_auto_launch_change m = (mn_auto_launch_changed m, m\<lparr>mn_auto_launch_changed := False\<rparr>)"
definition take_strip_change :: "side_menu \<Rightarrow> bool \<times> side_menu" where
  "take_strip_change m = (mn_strip_changed m, m\<lparr>mn_strip_changed := False\<rparr>)"
definition take_screen_change :: "side_menu \<Rightarrow> bool \<times> side_menu" where
  "take_screen_change m = (mn_screen_changed m, m\<lparr>mn_screen_changed := False\<rparr>)"
definition take_stylus_change :: "side_menu \<Rightarrow> bool \<times> side_menu" where
  "take_stylus_change m = (mn_stylus_changed m, m\<lparr>mn_stylus_changed := False\<rparr>)"
definition take_about_request :: "side_menu \<Rightarrow> bool \<times> side_menu" where
  "take_about_request m = (mn_about_requested m, m\<lparr>mn_about_requested := False\<rparr>)"
definition take_rotate_request :: "side_menu \<Rightarrow> bool \<times> side_menu" where
  "take_rotate_request m = (mn_rotate_requested m, m\<lparr>mn_rotate_requested := False\<rparr>)"
definition take_throttle_change :: "side_menu \<Rightarrow> bool \<times> side_menu" where
  "take_throttle_change m = (mn_throttle_changed m, m\<lparr>mn_throttle_changed := False\<rparr>)"
definition take_strip_slots_change :: "side_menu \<Rightarrow> bool \<times> side_menu" where
  "take_strip_slots_change m = (mn_strip_slots_changed m, m\<lparr>mn_strip_slots_changed := False\<rparr>)"

text \<open>Everything that is done to the menu.\<close>

datatype menu_op =
    Menu_layout int int real
  | Menu_advance real
  | Menu_press Vec2
  | Menu_drag Vec2
  | Menu_release Vec2
  | Menu_cancel
  | Menu_throttle int rat
  | Menu_slots int int

fun menu_step :: "menu_op \<Rightarrow> side_menu \<Rightarrow> side_menu" where
  "menu_step (Menu_layout w h d) m = menu_layout w h d m"
| "menu_step (Menu_advance dt) m = menu_advance dt m"
| "menu_step (Menu_press p) m = snd (menu_hit_test p m)"
| "menu_step (Menu_drag p) m = menu_drag p m"
| "menu_step (Menu_release p) m = menu_release p m"
| "menu_step Menu_cancel m = menu_cancel_press m"
| "menu_step (Menu_throttle ms dp) m = menu_set_throttle ms dp m"
| "menu_step (Menu_slots n mx) m = menu_set_strip_slots n mx m"

section \<open>Invariant\<close>

definition menu_ok :: "side_menu \<Rightarrow> bool" where
  "menu_ok m \<longleftrightarrow>
     (mn_target m = 0 \<or> mn_target m = 1) \<and> 0 \<le> mn_progress m \<and> mn_progress m \<le> 1 \<and>
     0 \<le> mn_min_interval_ms m \<and> mn_min_interval_ms m \<le> 40 \<and> 0 \<le> mn_min_distance_dp m \<and> mn_min_distance_dp m \<le> 16 \<and>
     1 \<le> mn_strip_slots m \<and> mn_strip_slots m \<le> mn_strip_slots_max m \<and> mn_dragging_slider m \<in> {-1, 0, 1, 2}"

lemma lround_range:
  assumes "0 \<le> x" "x \<le> of_int n" shows "0 \<le> lround x" "lround x \<le> n"
proof -
  show "0 \<le> lround x" using assms(1) by (simp add: lround_def)
  have "\<lfloor>x + 1 / 2\<rfloor> \<le> \<lfloor>of_int n + 1 / 2 :: real\<rfloor>" using assms(2) by (intro floor_mono) simp
  also have "\<dots> = n" by (simp add: floor_eq_iff)
  finally show "lround x \<le> n" using assms(1) by (simp add: lround_def)
qed

lemma lround_of_int [simp]: "lround (of_int n) = n"
  by (auto simp: lround_def floor_eq_iff)

lemma clamp01: "0 \<le> clamp x 0 (1 :: real)" "clamp x 0 (1 :: real) \<le> 1"
  by (auto simp: clamp_def)

lemma set_slider_ok:
  assumes "menu_ok m" shows "menu_ok (set_slider_from_x i x m)"
proof -
  define t where "t = clamp ((x - rf_x (slider_track m i)) / rf_w (slider_track m i)) 0 1"
  have t: "0 \<le> t" "t \<le> 1" by (simp_all add: t_def clamp01)
  have scaled: "0 \<le> lround (t * of_int n)" "lround (t * of_int n) \<le> n" if "0 \<le> n" for n
    using that t mult_right_mono [of t 1 "of_int n"] lround_range [of "t * of_int n" n] by simp_all
  have "set_slider_from_x i x m =
      (if i = 2 then
         let slots = 1 + lround (t * of_int (mn_strip_slots_max m - 1)) in
         if slots \<noteq> mn_strip_slots m then m\<lparr>mn_strip_slots := slots, mn_strip_slots_changed := True\<rparr> else m
       else if i = 0 then
         let ms = lround (t * of_int 40) in
         if ms \<noteq> mn_min_interval_ms m then m\<lparr>mn_min_interval_ms := ms, mn_throttle_changed := True\<rparr> else m
       else
         let dp = of_int (lround (t * of_int 32)) * (1 / 2) in
         if dp \<noteq> mn_min_distance_dp m then m\<lparr>mn_min_distance_dp := dp, mn_throttle_changed := True\<rparr> else m)"
  proof -
    have e: "t * of_rat kMaxDistanceDp * 2 = t * of_int 32" by (simp add: kMaxDistanceDp_def)
    show ?thesis unfolding set_slider_from_x_def Let_def t_def [symmetric] kMaxIntervalMs_def e ..
  qed
  then show ?thesis
    using assms scaled [of "mn_strip_slots_max m - 1"] scaled [of 40] scaled [of 32] by (auto simp: menu_ok_def Let_def)
qed

lemma grab_slider_ok: "menu_ok m \<Longrightarrow> set is \<subseteq> {0, 1, 2} \<Longrightarrow> menu_ok (grab_slider p is m)"
proof (induction "is")
  case (Cons i rest)
  then have "menu_ok (m\<lparr>mn_dragging_slider := i\<rparr>)" by (auto simp: menu_ok_def)
  from set_slider_ok [OF this] Cons show ?case by simp
qed simp

lemma press_in_panel_ok: "menu_ok m \<Longrightarrow> menu_ok (press_in_panel p m)"
  using grab_slider_ok [of m "[0, 1, 2]" p] by (simp add: press_in_panel_def) (simp add: menu_ok_def)

lemma menu_step_ok:
  assumes "menu_ok m" "\<And>dt. e = Menu_advance dt \<Longrightarrow> 0 \<le> dt" shows "menu_ok (menu_step e m)"
proof (cases e)
  case (Menu_advance dt)
  then have "0 \<le> dt / kSlideSeconds" using assms(2) [of dt] by (simp add: kSlideSeconds_def)
  then show ?thesis using assms(1) Menu_advance by (auto simp: menu_advance_def menu_ok_def Let_def)
next
  case (Menu_press p)
  have "menu_ok (m\<lparr>mn_target := x\<rparr>)" if "x = 0 \<or> x = 1" for x using assms(1) that by (auto simp: menu_ok_def)
  then show ?thesis using assms(1) Menu_press press_in_panel_ok [OF assms(1), of p] by (simp add: menu_hit_test_def Let_def)
next
  case (Menu_release p)
  have "menu_ok (x\<lparr>mn_dragging_slider := -1\<rparr>)" if "menu_ok x" for x using that by (simp add: menu_ok_def)
  then show ?thesis using assms(1) Menu_release set_slider_ok [OF assms(1)] by (simp add: menu_release_def)
next
  case (Menu_throttle ms dp)
  then show ?thesis using assms(1) by (auto simp: menu_set_throttle_def menu_ok_def clamp_def kMaxIntervalMs_def kMaxDistanceDp_def)
next
  case (Menu_slots n mx)
  then show ?thesis using assms(1) by (auto simp: menu_set_strip_slots_def menu_ok_def clamp_def Let_def)
qed (use assms(1) set_slider_ok [OF assms(1)] in \<open>auto simp: menu_layout_def menu_drag_def menu_cancel_press_def menu_ok_def Let_def\<close>)

section \<open>Properties\<close>

text \<open>
  C21: the menu keeps its settings in range. Whatever is pressed, dragged, laid out and loaded from a settings file, in any
  order, the drawer stays between closed and open, the sliders hold 0 to 40 ms, 0 to 16 dp and at least one slot of those that
  fit, and the finger follows one of the three sliders or none.
\<close>

theorem menu_stays_in_range:
  assumes "\<forall>dt. Menu_advance dt \<in> set ops \<longrightarrow> 0 \<le> dt"
  shows "menu_ok (fold menu_step ops menu_init)"
proof -
  have "menu_ok m \<Longrightarrow> \<forall>dt. Menu_advance dt \<in> set ops \<longrightarrow> 0 \<le> dt \<Longrightarrow> menu_ok (fold menu_step ops m)" for m
    by (induction ops arbitrary: m) (auto simp: menu_step_ok)
  moreover have "menu_ok menu_init" by (simp add: menu_ok_def menu_init_def)
  ultimately show ?thesis using assms by blast
qed

theorem menu_stays_in_range_witness:
  "menu_ok (fold menu_step [Menu_layout 2000 1000 2, Menu_throttle 99 3, Menu_press (vec2 1990 500), Menu_advance 1, Menu_press (vec2 1700 400)] menu_init)"
  by (rule menu_stays_in_range) auto

text \<open>
  a slider shows what it holds. Touching a slider exactly at its knob changes nothing, for every interval, every
  distance in half steps and every number of slots.
\<close>

theorem knob_keeps_value:
  assumes "menu_ok m" and "0 < rf_w (slider_track m i)" and "i \<in> {0, 1, 2}"
    and "i = 1 \<longrightarrow> (\<exists>n. mn_min_distance_dp m = of_int n / 2)"
  shows "set_slider_from_x i (rf_x (slider_track m i) + rf_w (slider_track m i) * slider_fraction m i) m = m"
proof -
  have f: "0 \<le> slider_fraction m i" "slider_fraction m i \<le> 1"
    using assms(1) of_rat_less_eq [of "mn_min_distance_dp m" 16, where ?'a = real]
    by (auto simp: slider_fraction_def menu_ok_def kMaxIntervalMs_def kMaxDistanceDp_def)
  then have t: "clamp ((rf_x (slider_track m i) + rf_w (slider_track m i) * slider_fraction m i - rf_x (slider_track m i))
      / rf_w (slider_track m i)) 0 1 = slider_fraction m i"
    using assms(2) by (simp add: clamp_def)
  consider "i = 0" | "i = 1" | "i = 2" using assms(3) by auto
  then show ?thesis
  proof cases
    case 1
    then show ?thesis unfolding set_slider_from_x_def Let_def t by (simp add: slider_fraction_def kMaxIntervalMs_def)
  next
    case 2
    then obtain n where n: "mn_min_distance_dp m = of_int n / 2" using assms(4) by auto
    then have "slider_fraction m 1 * of_rat kMaxDistanceDp * 2 = of_int n"
      by (simp only: slider_fraction_def n) (simp add: kMaxDistanceDp_def of_rat_divide)
    then have "lround (slider_fraction m 1 * of_rat kMaxDistanceDp * 2) = n" by (simp only: lround_of_int)
    with 2 show ?thesis unfolding set_slider_from_x_def Let_def t by (simp add: n)
  next
    case 3
    have "lround (slider_fraction m 2 * of_int (mn_strip_slots_max m - 1)) = mn_strip_slots m - 1"
    proof (cases "mn_strip_slots_max m = 1")
      case True
      then show ?thesis using assms(1) by (simp add: slider_fraction_def menu_ok_def lround_def)
    next
      case False
      then have "slider_fraction m 2 * of_int (mn_strip_slots_max m - 1) = of_int (mn_strip_slots m - 1)"
        using assms(1) by (auto simp: slider_fraction_def menu_ok_def)
      then show ?thesis by (simp only: lround_of_int)
    qed
    with 3 show ?thesis unfolding set_slider_from_x_def Let_def t by simp
  qed
qed

theorem knob_keeps_value_witness:
  "(let m = menu_layout 2000 1000 2 (menu_set_throttle 25 3 menu_init) in
    set_slider_from_x 0 (rf_x (slider_track m 0) + rf_w (slider_track m 0) * slider_fraction m 0) m = m)"
proof -
  let ?m = "menu_layout 2000 1000 2 (menu_set_throttle 25 3 menu_init)"
  have "menu_ok ?m"
    using menu_step_ok [of "menu_step (Menu_throttle 25 3) menu_init" "Menu_layout 2000 1000 2"]
      menu_step_ok [of menu_init "Menu_throttle 25 3"] by (simp add: menu_ok_def menu_init_def)
  moreover have "0 < rf_w (slider_track ?m 0)"
    by (simp add: slider_track_def slider_row_def auto_launch_row_def mode_row_def panel_rect_def menu_layout_def Let_def menu_init_def
        menu_set_throttle_def)
  ultimately show ?thesis using knob_keeps_value [of ?m 0] by (simp add: Let_def)
qed

text \<open>
  the title covers a part of the screen button. In an open drawer of the full width of 300 dp, a press on the left ten dp
  of the button that switches the PC's picture, where the title's area of 90 dp reaches over it, opens the licences instead.
\<close>

theorem title_covers_screen_button:
  assumes "mn_progress m = 1" and "0 < mn_density m" and "mn_panel_w m = 300 * mn_density m"
    and "rf_contains (screen_button m) p" and "v_x p < rf_x (screen_button m) + 10 * mn_density m"
  shows "mn_about_requested (press_in_panel p m) \<and> \<not> mn_screen_changed (press_in_panel p (m\<lparr>mn_screen_changed := False\<rparr>))"
proof -
  have "rf_contains (title_rect m) p"
    using assms by (auto simp: rf_contains_def title_rect_def screen_button_def strip_button_def rotate_button_def panel_rect_def
        ease_out_def Let_def)
  moreover from this have "rf_contains (title_rect (m\<lparr>mn_screen_changed := False\<rparr>)) p"
    by (simp add: title_rect_def panel_rect_def)
  ultimately show ?thesis by (simp add: press_in_panel_def)
qed

theorem title_covers_screen_button_witness:
  "mn_about_requested (press_in_panel (vec2 1600 40) ((menu_layout 2000 1000 2 menu_init)\<lparr>mn_progress := 1\<rparr>))"
  using title_covers_screen_button [of "(menu_layout 2000 1000 2 menu_init)\<lparr>mn_progress := 1\<rparr>" "vec2 1600 40"]
  by (simp add: rf_contains_def screen_button_def strip_button_def rotate_button_def panel_rect_def ease_out_def menu_layout_def Let_def)

end
