(* ===== verification/ScreenRenderer.thy ===== *)
theory ScreenRenderer
  imports FrameReceiver
begin

text \<open>
  The guest's picture of the desktop, \<open>guest/app/src/main/cpp/render/ScreenRenderer.cpp\<close>: one ETC2 texture that batches
  of tiles are patched into. The texture is the list of patches handed to the GPU since it was allocated; whether an
  allocation of a size succeeds is the driver's answer \<open>alloc\<close>. The shader, the vertex array and the uniforms are not state
  of the model.
\<close>

section \<open>Definitions\<close>

type_synonym patch = "Recti \<times> bytes"

record screen_renderer =
  sr_program :: bool
  sr_texture :: "patch list option"
  sr_tex_w :: int
  sr_tex_h :: int
  sr_region :: Recti
  sr_painted :: bool

definition screen_renderer_new :: screen_renderer where
  "screen_renderer_new =
     \<lparr>sr_program = False, sr_texture = None, sr_tex_w = 0, sr_tex_h = 0, sr_region = recti 0 0 0 0, sr_painted = False\<rparr>"

text \<open>\<open>compiled\<close> is whether the shaders compile.\<close>

definition sr_init :: "bool \<Rightarrow> screen_renderer \<Rightarrow> bool \<times> screen_renderer" where
  "sr_init compiled s = (compiled, s\<lparr>sr_program := compiled\<rparr>)"

definition sr_release :: "screen_renderer \<Rightarrow> screen_renderer" where
  "sr_release s = s\<lparr>sr_texture := None, sr_program := False, sr_tex_w := 0, sr_tex_h := 0, sr_painted := False\<rparr>"

definition sr_ready :: "screen_renderer \<Rightarrow> bool" where
  "sr_ready s = sr_program s"

definition sr_has_image :: "screen_renderer \<Rightarrow> bool" where
  "sr_has_image s \<longleftrightarrow> sr_texture s \<noteq> None \<and> sr_painted s"

definition sr_clear :: "screen_renderer \<Rightarrow> screen_renderer" where
  "sr_clear s = s\<lparr>sr_painted := False\<rparr>"

definition ensure_texture :: "(int \<Rightarrow> int \<Rightarrow> bool) \<Rightarrow> int \<Rightarrow> int \<Rightarrow> screen_renderer \<Rightarrow> bool \<times> screen_renderer" where
  "ensure_texture alloc w h s =
     (if sr_texture s \<noteq> None \<and> sr_tex_w s = w \<and> sr_tex_h s = h then (True, s)
      else if \<not> alloc w h then (False, s\<lparr>sr_texture := None, sr_tex_w := 0, sr_tex_h := 0\<rparr>)
      else (True, s\<lparr>sr_texture := Some [], sr_tex_w := w, sr_tex_h := h, sr_painted := False\<rparr>))"

text \<open>The loop over the tiles: the patches it hands over from \<open>offset\<close> on, and whether it reached the end.\<close>

fun tile_patches :: "FrameBatch \<Rightarrow> u16 list \<Rightarrow> nat \<Rightarrow> patch list \<times> bool" where
  "tile_patches batch [] offset = ([], True)"
| "tile_patches batch (index # rest) offset =
     (let rect = tile_output_rect (fb_geometry batch) (uint index); size = etc2_size (rect_w rect) (rect_h rect) in
      if size = 0 \<or> length (fb_blocks batch) < offset + size then ([], False)
      else
        let (ps, done) = tile_patches batch rest (offset + size) in
        ((rect, take size (drop offset (fb_blocks batch))) # ps, done))"

definition add_patches :: "patch list \<Rightarrow> screen_renderer \<Rightarrow> screen_renderer" where
  "add_patches ps s = s\<lparr>sr_texture := map_option (\<lambda>old. old @ ps) (sr_texture s)\<rparr>"

definition sr_upload :: "(int \<Rightarrow> int \<Rightarrow> bool) \<Rightarrow> FrameBatch \<Rightarrow> screen_renderer \<Rightarrow> bool \<times> screen_renderer" where
  "sr_upload alloc batch s =
     (if \<not> sr_program s \<or> \<not> vg_valid (fb_geometry batch) then (False, s)
      else
        let (ok, s1) = ensure_texture alloc (vg_out_w (fb_geometry batch)) (vg_out_h (fb_geometry batch)) s in
        if \<not> ok then (False, s1)
        else
          let (ps, done) = tile_patches batch (fb_tiles batch) 0; s2 = add_patches ps s1 in
          if \<not> done then (False, s2) else (True, s2\<lparr>sr_region := vg_region (fb_geometry batch), sr_painted := True\<rparr>))"

text \<open>Where the picture is drawn: the surface corners of the region, as \<open>draw\<close> puts them into \<open>uRect\<close>.\<close>

definition draw_rect :: "ViewTransform \<Rightarrow> int \<Rightarrow> int \<Rightarrow> screen_renderer \<Rightarrow> (Vec2 \<times> Vec2) option" where
  "draw_rect view surface_w surface_h s =
     (if \<not> sr_has_image s \<or> surface_w \<le> 0 \<or> surface_h \<le> 0 then None
      else
        let r = sr_region s; tl = to_surface view (vec2 (of_int (rect_x r)) (of_int (rect_y r)));
            br = to_surface view (vec2 (of_int (rect_x r + rect_w r)) (of_int (rect_y r + rect_h r))) in
        Some (tl, vec2 (v_x br - v_x tl) (v_y br - v_y tl)))"

section \<open>Patches of a well-formed batch\<close>

definition tile_size :: "ViewportGeometry \<Rightarrow> u16 \<Rightarrow> nat" where
  "tile_size g t = (let r = tile_output_rect g (uint t) in etc2_size (rect_w r) (rect_h r))"

lemma multiple_of_four:
  fixes a b :: int
  assumes "a mod 4 = 0" "b mod 4 = 0" shows "min a (b - c * a) mod 4 = 0"
  using assms by (auto simp: min_def simp flip: dvd_eq_mod_eq_0)

lemma tile_size_pos:
  assumes "vg_valid g" "uint t < tile_count g" shows "0 < tile_size g t"
proof -
  let ?r = "tile_output_rect g (uint t)"
  have "0 < rect_w ?r" "0 < rect_h ?r" using tile_in_grid [of g "uint t"] assms by simp_all
  moreover have "rect_w ?r mod 4 = 0" "rect_h ?r mod 4 = 0"
    using tile_output_rect_eq [of g "uint t"] assms vg_validD(6,7,8) [of g] by (simp_all add: recti_def multiple_of_four)
  ultimately have "4 \<le> rect_w ?r" "4 \<le> rect_h ?r" by presburger+
  then show ?thesis
    by (simp add: tile_size_def Let_def etc2_size_def kEtc2BlockSize_def kEtc2BlockBytes_def pos_imp_zdiv_pos_iff)
qed

lemma tile_rect_inside:
  assumes "vg_valid g" "uint t < tile_count g"
  shows "let r = tile_output_rect g (uint t) in
    0 \<le> rect_x r \<and> 0 \<le> rect_y r \<and> rect_x r + rect_w r \<le> vg_out_w g \<and> rect_y r + rect_h r \<le> vg_out_h g"
proof -
  note s = tile_split [of g "uint t", OF assms(1) _ assms(2)]
  have "p + min m (n - p) \<le> n" for m n p :: int by simp
  then show ?thesis
    unfolding Let_def tile_output_rect_eq [of g "uint t", OF assms(1) _ assms(2), simplified]
    using s vg_validD(5) [OF assms(1)] by (simp add: recti_def)
qed

lemma tile_patches_fit:
  assumes "vg_valid (fb_geometry b)" and "\<forall>t \<in> set ts. uint t < tile_count (fb_geometry b)"
    and "length (fb_blocks b) = offset + sum_list (map (tile_size (fb_geometry b)) ts)"
  shows "\<exists>ps. tile_patches b ts offset = (ps, True) \<and> concat (map snd ps) = drop offset (fb_blocks b) \<and>
    map fst ps = map (\<lambda>t. tile_output_rect (fb_geometry b) (uint t)) ts \<and>
    map (\<lambda>p. length (snd p)) ps = map (tile_size (fb_geometry b)) ts"
  using assms(2,3)
proof (induction ts arbitrary: offset)
  case (Cons t ts)
  let ?n = "tile_size (fb_geometry b) t"
  from Cons.IH [of "offset + ?n"] Cons.prems obtain ps where
    ps: "tile_patches b ts (offset + ?n) = (ps, True)" "concat (map snd ps) = drop (offset + ?n) (fb_blocks b)"
      "map fst ps = map (\<lambda>t. tile_output_rect (fb_geometry b) (uint t)) ts"
      "map (\<lambda>p. length (snd p)) ps = map (tile_size (fb_geometry b)) ts" by auto
  moreover have "take ?n (drop offset (fb_blocks b)) @ drop (offset + ?n) (fb_blocks b) = drop offset (fb_blocks b)"
    by (metis append_take_drop_id drop_drop add.commute)
  moreover have "0 < ?n" using tile_size_pos [of _ t] assms(1) Cons.prems(1) by simp
  ultimately show ?case using Cons.prems(2) by (simp add: Let_def flip: tile_size_def) (simp add: tile_size_def Let_def)
qed simp

section \<open>Properties\<close>

definition patch_ok :: "ViewportGeometry \<Rightarrow> patch \<Rightarrow> bool" where
  "patch_ok g p \<longleftrightarrow>
     (let r = fst p in
      length (snd p) = etc2_size (rect_w r) (rect_h r) \<and> 0 \<le> rect_x r \<and> 0 \<le> rect_y r \<and>
      rect_x r + rect_w r \<le> vg_out_w g \<and> rect_y r + rect_h r \<le> vg_out_h g)"

definition kept_patches :: "ViewportGeometry \<Rightarrow> screen_renderer \<Rightarrow> patch list" where
  "kept_patches g s =
     (if sr_tex_w s = vg_out_w g \<and> sr_tex_h s = vg_out_h g then (case sr_texture s of None \<Rightarrow> [] | Some ps \<Rightarrow> ps) else [])"

lemma ensure_texture_ok:
  assumes "alloc (vg_out_w g) (vg_out_h g)"
  shows "\<exists>s1. ensure_texture alloc (vg_out_w g) (vg_out_h g) s = (True, s1) \<and> sr_texture s1 = Some (kept_patches g s) \<and>
    sr_tex_w s1 = vg_out_w g \<and> sr_tex_h s1 = vg_out_h g"
  using assms by (auto simp: ensure_texture_def kept_patches_def split: option.split)

text \<open>
  C19: what the receiver hands over, the renderer paints whole. Every batch taken from the receiver's queue is uploaded
  completely (the renderer's check that a tile does not fit the batch never fires) provided that the shaders compiled and
  the texture can be allocated: the patches are the rectangles of the batch's tiles in order, each inside the texture with
  as many bytes as its blocks take, together the batch's blocks; a texture of another size is replaced, one of the same
  size keeps what was painted on it.
\<close>

theorem received_batch_painted:
  assumes "fr_inv r" and "b \<in> set (fst (fr_take r))" and "sr_program s"
    and "alloc (vg_out_w (fb_geometry b)) (vg_out_h (fb_geometry b))"
  shows "let g = fb_geometry b; (ok, s1) = sr_upload alloc b s in
    ok \<and> sr_has_image s1 \<and> sr_region s1 = vg_region g \<and> sr_tex_w s1 = vg_out_w g \<and> sr_tex_h s1 = vg_out_h g \<and>
    (\<exists>ps. sr_texture s1 = Some (kept_patches g s @ ps) \<and> map fst ps = map (\<lambda>t. tile_output_rect g (uint t)) (fb_tiles b) \<and>
       concat (map snd ps) = fb_blocks b \<and> list_all (patch_ok g) ps)"
proof -
  let ?g = "fb_geometry b"
  have "batch_ok b" using assms(1,2) by (simp add: fr_inv_def fr_take_def)
  then have g: "vg_valid ?g" and t: "\<forall>t \<in> set (fb_tiles b). uint t < tile_count ?g"
    and n: "length (fb_blocks b) = 0 + sum_list (map (tile_size ?g) (fb_tiles b))"
    by (simp_all add: batch_ok_def tile_size_def [abs_def] Let_def)
  from tile_patches_fit [OF g t n] obtain ps where
    ps: "tile_patches b (fb_tiles b) 0 = (ps, True)" "concat (map snd ps) = fb_blocks b"
      and r: "map fst ps = map (\<lambda>t. tile_output_rect ?g (uint t)) (fb_tiles b)"
      and l: "map (\<lambda>p. length (snd p)) ps = map (tile_size ?g) (fb_tiles b)" by auto
  have "patch_ok ?g p" if "p \<in> set ps" for p
  proof -
    from that obtain i where i: "i < length ps" "p = ps ! i" by (auto simp: in_set_conv_nth)
    have len: "length ps = length (fb_tiles b)" using arg_cong [OF r, of length] by simp
    have "fst p = tile_output_rect ?g (uint (fb_tiles b ! i))" "length (snd p) = tile_size ?g (fb_tiles b ! i)"
      using i len arg_cong [OF r, of "\<lambda>xs. xs ! i"] arg_cong [OF l, of "\<lambda>xs. xs ! i"] by simp_all
    moreover have "uint (fb_tiles b ! i) < tile_count ?g" using t i len by simp
    ultimately show ?thesis using tile_rect_inside [OF g] by (simp add: patch_ok_def tile_size_def Let_def)
  qed
  moreover from ensure_texture_ok [of alloc ?g s, OF assms(4)] obtain s1 where
    "ensure_texture alloc (vg_out_w ?g) (vg_out_h ?g) s = (True, s1)" "sr_texture s1 = Some (kept_patches ?g s)"
    "sr_tex_w s1 = vg_out_w ?g" "sr_tex_h s1 = vg_out_h ?g" by auto
  ultimately show ?thesis
    using ps r assms(3) g by (simp add: sr_upload_def Let_def add_patches_def sr_has_image_def list_all_iff)
qed

definition ex_batch :: FrameBatch where
  "ex_batch = \<lparr>fb_geometry = \<lparr>vg_region = recti 0 0 16 8, vg_out_w = 8, vg_out_h = 4, vg_tile = 8\<rparr>, fb_tiles = [0],
     fb_blocks = replicate 16 7\<rparr>"

theorem received_batch_painted_witness:
  "fst (sr_upload (\<lambda>w h. w \<le> 2048 \<and> h \<le> 2048) ex_batch (snd (sr_init True screen_renderer_new)))"
proof -
  have "batch_ok ex_batch" by code_simp
  then have "fr_inv (receiver_init\<lparr>fr_ready := [ex_batch]\<rparr>)" by (simp add: fr_inv_def receiver_init_def kMaxQueued_def)
  then show ?thesis
    using received_batch_painted [of "receiver_init\<lparr>fr_ready := [ex_batch]\<rparr>" ex_batch "snd (sr_init True screen_renderer_new)"
        "\<lambda>w h. w \<le> 2048 \<and> h \<le> 2048"]
    by (simp add: fr_take_def sr_init_def ex_batch_def case_prod_beta Let_def)
qed

end
