(* ===== verification/GuestApp.thy ===== *)
theory GuestApp
  imports GuestLink ViewportRequest SideMenu ScreenRenderer Settings
begin

text \<open>
  The guest application, \<open>guest/app/src/main/cpp/App.cpp\<close>, with the inbox of \<open>platform/ActivityBridge.cpp\<close>: the frame
  loop, the window commands, the handlers of the network thread and the stream request. The router of the model holds the
  view, which the code shares by reference. Handlers run one at a time: the network thread's handlers touch the state that
  \<open>pending_mutex_\<close> guards and the receiver, which has its own lock. What leaves the application is a list of outputs; a send
  is an attempt, and whether it went out is an argument where the code asks. The drawing, the labels and the log lines are
  not modelled.
\<close>

section \<open>Definitions\<close>

datatype UiOwner = Owner_None | Owner_Menu | Owner_Strip

text \<open>The kind of an edit is one of the three the store knows, as the editor sends it.\<close>

record ButtonEdit =
  be_index :: int
  be_kind :: ButtonKind
  be_label :: string
  be_target :: Recti
  be_modifiers :: int
  be_key :: string

datatype ButtonCommandKind = Button_edit | Button_delete | Button_earlier | Button_later

record ButtonCommand =
  bc_index :: int
  bc_kind :: ButtonCommandKind

datatype PresetCommandKind = Preset_select | Preset_create | Preset_rename | Preset_bind | Preset_unbind | Preset_delete

record PresetCommand =
  pc_kind :: PresetCommandKind
  pc_index :: int
  pc_text :: string

datatype guest_out =
    Send bytes
  | Write_settings string
  | Write_buttons string
  | Show_button_editor int ButtonKind string Recti u8 string
  | Show_button_menu int string
  | Show_preset_menu "string list" int string
  | Show_licenses
  | Flip_orientation
  | Start_link

record guest_app =
  ga_gl_ready :: bool
  ga_gl_w :: int
  ga_gl_h :: int
  ga_screen :: screen_renderer
  ga_menu :: side_menu
  ga_buttons :: button_store
  ga_strip :: strip
  ga_settings :: settings
  ga_frames :: frame_receiver
  ga_router :: touch_router
  ga_ui_owner :: UiOwner
  ga_screen_enabled :: bool
  ga_wanted_viewport :: ViewportReq
  ga_sent_viewport :: ViewportReq
  ga_wanted_since :: int
  ga_image_logged :: bool
  ga_bad_batches_logged :: u64
  ga_has_focus :: bool
  ga_renderers_ready :: bool
  ga_density :: real
  ga_last_frame :: "int option"
  ga_desktop :: Recti
  ga_monitors :: "Recti list"
  ga_host_enabled :: bool
  ga_active_process :: string
  ga_active_window_dirty :: bool
  ga_link_up :: bool
  ga_view_needs_fit :: bool
  ga_heartbeat_seen :: bool
  ga_stroke_cancel_pending :: bool
  ga_focused_process :: string
  ga_offer_declined_for :: string
  ga_offered_preset :: int
  ga_default_preset_name :: string
  ga_view_fitted :: bool
  ga_edits :: "ButtonEdit list"
  ga_commands :: "ButtonCommand list"
  ga_preset_commands :: "PresetCommand list"

type_synonym guest_step = "guest_app \<Rightarrow> guest_out list \<times> guest_app"

text \<open>Steps in order, their outputs in order.\<close>

fun run_steps :: "guest_step list \<Rightarrow> guest_step" where
  "run_steps [] a = ([], a)"
| "run_steps (f # fs) a = (let (o1, a1) = f a; (o2, a2) = run_steps fs a1 in (o1 @ o2, a2))"

definition with_settings :: "settings \<times> string option \<Rightarrow> guest_step" where
  "with_settings sw a = ((case snd sw of None \<Rightarrow> [] | Some t \<Rightarrow> [Write_settings t]), a\<lparr>ga_settings := fst sw\<rparr>)"

definition with_buttons :: "button_store \<times> string option \<Rightarrow> guest_step" where
  "with_buttons bw a = ((case snd bw of None \<Rightarrow> [] | Some t \<Rightarrow> [Write_buttons t]), a\<lparr>ga_buttons := fst bw\<rparr>)"

definition send_pointers :: "Pointer list \<Rightarrow> guest_out list" where
  "send_pointers ms = map (\<lambda>m. Send (encode_Pointer m)) ms"

definition with_router :: "Pointer list \<times> touch_router \<Rightarrow> guest_step" where
  "with_router mr a = (send_pointers (fst mr), a\<lparr>ga_router := snd mr\<rparr>)"

subsection \<open>Construction\<close>

definition desktop_default :: Recti where "desktop_default = recti 0 0 1920 1080"

definition orientation_of :: "bool \<Rightarrow> StripOrientation" where
  "orientation_of vertical = (if vertical then Strip_Vertical else Strip_Horizontal)"

definition apply_throttle :: "guest_app \<Rightarrow> guest_app" where
  "apply_throttle a =
     a\<lparr>ga_router := set_min_distance_px (of_rat (se_min_distance_dp (ga_settings a)) * ga_density a)
        (set_min_interval_us (word_of_int (se_min_interval_ms (ga_settings a)) * 1000) (ga_router a))\<rparr>"

definition guest_members :: guest_app where
  "guest_members =
     \<lparr>ga_gl_ready = False, ga_gl_w = 0, ga_gl_h = 0, ga_screen = screen_renderer_new, ga_menu = menu_init, ga_buttons = store_init,
      ga_strip = strip_init, ga_settings = settings_init, ga_frames = receiver_init, ga_router = router_init view_init,
      ga_ui_owner = Owner_None, ga_screen_enabled = False, ga_wanted_viewport = viewport_req_init,
      ga_sent_viewport = viewport_req_init, ga_wanted_since = 0, ga_image_logged = False, ga_bad_batches_logged = 0,
      ga_has_focus = False, ga_renderers_ready = False, ga_density = 1, ga_last_frame = None, ga_desktop = desktop_default,
      ga_monitors = [desktop_default], ga_host_enabled = False, ga_active_process = [], ga_active_window_dirty = False,
      ga_link_up = False, ga_view_needs_fit = False, ga_heartbeat_seen = False, ga_stroke_cancel_pending = False,
      ga_focused_process = [], ga_offer_declined_for = [], ga_offered_preset = -1, ga_default_preset_name = [],
      ga_view_fitted = False, ga_edits = [], ga_commands = [], ga_preset_commands = []\<rparr>"

definition menu_of_settings :: "settings \<Rightarrow> side_menu \<Rightarrow> side_menu" where
  "menu_of_settings s m =
     (menu_set_throttle (se_min_interval_ms s) (se_min_distance_dp s) (m\<lparr>mn_auto_launch := se_auto_launch s\<rparr>))
       \<lparr>mn_strip_vertical := se_strip_vertical s, mn_screen_enabled := se_screen_enabled s, mn_stylus_only := se_stylus_only s\<rparr>"

text \<open>\<open>dir\<close> is the external data path (empty for none), \<open>sfile\<close> and \<open>bfile\<close> what the two files hold.\<close>

definition guest_new :: "string \<Rightarrow> string option \<Rightarrow> string option \<Rightarrow> guest_out list \<times> guest_app" where
  "guest_new dir sfile bfile =
     (let (outs, a) = with_settings (settings_load dir sfile settings_init) guest_members;
          s = ga_settings a;
          a1 = a\<lparr>ga_buttons := store_load dir bfile (ga_buttons a), ga_menu := menu_of_settings s (ga_menu a),
                 ga_screen_enabled := se_screen_enabled s, ga_router := set_stylus_only (se_stylus_only s) (ga_router a)\<rparr>;
          a2 = apply_throttle a1 in
      (outs,
       a2\<lparr>ga_strip := set_slot_limit (se_strip_slots s)
            (set_expanded (se_strip_expanded s) (set_orientation (orientation_of (se_strip_vertical s)) (ga_strip a2)))\<rparr>))"

subsection \<open>Presets, buttons and layout\<close>

definition relayout_widgets :: "guest_app \<Rightarrow> guest_app" where
  "relayout_widgets a =
     (let m = menu_layout (ga_gl_w a) (ga_gl_h a) (ga_density a) (ga_menu a);
          s = strip_layout (bs_buttons (ga_buttons a)) (ga_gl_w a) (ga_gl_h a) (ga_density a) (ga_strip a) in
      a\<lparr>ga_menu := menu_set_strip_slots (sp_effective_limit s) (sp_max_slots s) m, ga_strip := s\<rparr>)"

definition preset_display_name :: "guest_app \<Rightarrow> int \<Rightarrow> string" where
  "preset_display_name a index =
     (if \<not> valid_preset (ga_buttons a) index then ga_default_preset_name a
      else
        let name = pr_name (bs_presets (ga_buttons a) ! nat index) in
        if name = [] then ga_default_preset_name a else name)"

definition worth_asking :: "guest_app \<Rightarrow> bool" where
  "worth_asking a \<longleftrightarrow>
     (let wanted = preset_for (ga_focused_process a) (ga_buttons a) in
      0 \<le> wanted \<and> wanted \<noteq> bs_current (ga_buttons a) \<and> ga_focused_process a \<noteq> ga_offer_declined_for a)"

definition refresh_preset_offer :: "guest_app \<Rightarrow> guest_app" where
  "refresh_preset_offer a =
     (let wanted = preset_for (ga_focused_process a) (ga_buttons a); ask = worth_asking a;
          s = set_preset_name (preset_display_name a (bs_current (ga_buttons a))) (ga_strip a) in
      a\<lparr>ga_offered_preset := (if ask then wanted else -1),
        ga_strip := set_suggestion (if ask then preset_display_name a wanted else []) s\<rparr>)"

definition preset_entry :: "guest_app \<Rightarrow> nat \<Rightarrow> string" where
  "preset_entry a i =
     (let preset = bs_presets (ga_buttons a) ! i; name = preset_display_name a (int i);
          marked = (if int i = bs_current (ga_buttons a) then ''> '' @ name else name) in
      if pr_match preset \<noteq> [] then marked @ ''   ('' @ pr_match preset @ '')'' else marked)"

definition open_preset_menu :: guest_step where
  "open_preset_menu a =
     ([Show_preset_menu (map (preset_entry a) [0..<length (bs_presets (ga_buttons a))]) (bs_current (ga_buttons a))
         (ga_focused_process a)], a)"

definition apply_preset_command :: "PresetCommand \<Rightarrow> guest_step" where
  "apply_preset_command c a =
     (case pc_kind c of
        Preset_select \<Rightarrow> ([], a\<lparr>ga_buttons := snd (store_select (pc_index c) (ga_buttons a))\<rparr>)
      | Preset_create \<Rightarrow> with_buttons (store_create (pc_text c) (ga_buttons a)) a
      | Preset_rename \<Rightarrow> with_buttons (store_rename (pc_index c) (pc_text c) (ga_buttons a)) a
      | Preset_bind \<Rightarrow> with_buttons (store_set_match (pc_index c) (pc_text c) (ga_buttons a)) a
      | Preset_unbind \<Rightarrow> with_buttons (store_set_match (pc_index c) [] (ga_buttons a)) a
      | Preset_delete \<Rightarrow> with_buttons (remove_preset (pc_index c) (ga_buttons a)) a)"

definition drain_preset_events :: "guest_app \<Rightarrow> PresetCommand list \<times> guest_app" where
  "drain_preset_events a = (ga_preset_commands a, a\<lparr>ga_preset_commands := []\<rparr>)"

definition apply_preset_events :: guest_step where
  "apply_preset_events a0 =
     (let (commands, a) = drain_preset_events a0 in
      if commands = [] then ([], a)
      else
        let (outs, a1) = run_steps (map apply_preset_command commands) a in
        (outs, refresh_preset_offer (relayout_widgets a1)))"

definition open_button_editor :: "int \<Rightarrow> guest_step" where
  "open_button_editor index a =
     (if \<not> bs_valid (ga_buttons a) index then ([Show_button_editor (-1) Kind_Point [] (recti 0 0 0 0) 0 []], a)
      else
        let b = bs_buttons (ga_buttons a) ! nat index in
        ([Show_button_editor index (cb_kind b) (cb_label b) (cb_target b) (cb_modifiers b) (cb_key b)], a))"

definition apply_button_edit :: "ButtonEdit \<Rightarrow> guest_step" where
  "apply_button_edit e a =
     (let button = \<lparr>cb_kind = be_kind e, cb_label = be_label e, cb_target = be_target e,
            cb_modifiers = word_of_int (be_modifiers e), cb_key = be_key e\<rparr> in
      if be_index e < 0 then with_buttons (store_add button (ga_buttons a)) a
      else with_buttons (store_replace (be_index e) button (ga_buttons a)) a)"

definition apply_button_command :: "ButtonCommand \<Rightarrow> guest_step" where
  "apply_button_command c a =
     (case bc_kind c of
        Button_edit \<Rightarrow> open_button_editor (bc_index c) a
      | Button_delete \<Rightarrow> with_buttons (store_remove (bc_index c) (ga_buttons a)) a
      | Button_earlier \<Rightarrow> with_buttons (store_move (bc_index c) (-1) (ga_buttons a)) a
      | Button_later \<Rightarrow> with_buttons (store_move (bc_index c) 1 (ga_buttons a)) a)"

definition drain_button_events :: "guest_app \<Rightarrow> ButtonEdit list \<times> ButtonCommand list \<times> guest_app" where
  "drain_button_events a = (ga_edits a, ga_commands a, a\<lparr>ga_edits := [], ga_commands := []\<rparr>)"

definition apply_button_events :: guest_step where
  "apply_button_events a0 =
     (let (edits, commands, a) = drain_button_events a0 in
      if edits = [] \<and> commands = [] then ([], a)
      else
        let (outs, a1) = run_steps (map apply_button_edit edits @ map apply_button_command commands) a in
        (outs, relayout_widgets a1))"

text \<open>The entry points the dialogs call.\<close>

definition nativeButtonSaved :: "ButtonEdit \<Rightarrow> guest_app \<Rightarrow> guest_app" where
  "nativeButtonSaved e a = a\<lparr>ga_edits := ga_edits a @ [e]\<rparr>"

definition nativeButtonCommand :: "ButtonCommand \<Rightarrow> guest_app \<Rightarrow> guest_app" where
  "nativeButtonCommand c a = a\<lparr>ga_commands := ga_commands a @ [c]\<rparr>"

definition nativePresetCommand :: "PresetCommand \<Rightarrow> guest_app \<Rightarrow> guest_app" where
  "nativePresetCommand c a = a\<lparr>ga_preset_commands := ga_preset_commands a @ [c]\<rparr>"

subsection \<open>The view\<close>

definition pc_point_on_screen :: "guest_app \<Rightarrow> Vec2 \<Rightarrow> bool" where
  "pc_point_on_screen a pc = list_ex (\<lambda>m. contains m (lround (v_x pc)) (lround (v_y pc))) (ga_monitors a)"

definition fit_view_to_desktop :: "guest_app \<Rightarrow> guest_app" where
  "fit_view_to_desktop a =
     (if ga_gl_w a \<le> 0 \<or> ga_gl_h a \<le> 0 then a
      else
        a\<lparr>ga_view_fitted := True,
          ga_router := (ga_router a)\<lparr>tr_view := fit (ga_desktop a) (of_int (ga_gl_w a)) (of_int (ga_gl_h a)) (12 / 100)
            (tr_view (ga_router a))\<rparr>\<rparr>)"

definition apply_active_window :: "guest_app \<Rightarrow> guest_app" where
  "apply_active_window a =
     (let p = ga_active_process a;
          a1 = (if p \<noteq> ga_focused_process a then a\<lparr>ga_offer_declined_for := []\<rparr> else a) in
      refresh_preset_offer (a1\<lparr>ga_focused_process := p, ga_strip := set_active_window p (ga_strip a1)\<rparr>))"

definition apply_pending :: guest_step where
  "apply_pending a =
     (let a1 = a\<lparr>ga_view_needs_fit := False, ga_stroke_cancel_pending := False, ga_active_window_dirty := False\<rparr>;
          a2 = (if ga_active_window_dirty a then apply_active_window a1 else a1);
          (outs, a3) = (if ga_stroke_cancel_pending a then with_router (cancel_stroke (ga_router a2)) a2 else ([], a2)) in
      (outs, if ga_view_needs_fit a then fit_view_to_desktop a3 else a3))"

subsection \<open>Input\<close>

text \<open>The state the widget callbacks work on: who owns the finger, the two widgets and what the strip fired.\<close>

record ui_state =
  us_owner :: UiOwner
  us_menu :: side_menu
  us_strip :: strip
  us_fired :: "strip_out list"

definition ui_press :: "CustomButton list \<Rightarrow> Vec2 \<Rightarrow> ui_state \<Rightarrow> bool \<times> ui_state" where
  "ui_press btns p u =
     (let (on_strip, u1) =
        (if menu_open (us_menu u) then (False, u)
         else let (hit, s) = strip_hit_test btns p (us_strip u) in (hit, u\<lparr>us_strip := s\<rparr>)) in
      if on_strip then (True, u1\<lparr>us_owner := Owner_Strip\<rparr>)
      else
        let (on_menu, m) = menu_hit_test p (us_menu u1); u2 = u1\<lparr>us_menu := m\<rparr> in
        if on_menu then (True, u2\<lparr>us_owner := Owner_Menu\<rparr>) else (False, u2\<lparr>us_owner := Owner_None\<rparr>))"

definition ui_drag_to :: "Vec2 \<Rightarrow> ui_state \<Rightarrow> ui_state" where
  "ui_drag_to p u =
     (case us_owner u of
        Owner_Strip \<Rightarrow> u\<lparr>us_strip := strip_drag p (us_strip u)\<rparr>
      | Owner_Menu \<Rightarrow> u\<lparr>us_menu := menu_drag p (us_menu u)\<rparr>
      | Owner_None \<Rightarrow> u)"

definition ui_let_go :: "CustomButton list \<Rightarrow> Vec2 \<Rightarrow> ui_state \<Rightarrow> ui_state" where
  "ui_let_go btns p u =
     (case us_owner u of
        Owner_Strip \<Rightarrow> let (fired, s) = strip_release btns (us_strip u) in u\<lparr>us_strip := s, us_fired := us_fired u @ fired\<rparr>
      | Owner_Menu \<Rightarrow> u\<lparr>us_menu := menu_release p (us_menu u)\<rparr>
      | Owner_None \<Rightarrow> u)
       \<lparr>us_owner := Owner_None\<rparr>"

definition guest_ui :: "CustomButton list \<Rightarrow> ui_state ui_handlers" where
  "guest_ui btns = \<lparr>ui_hit = Some (ui_press btns), ui_drag = Some ui_drag_to, ui_release = Some (ui_let_go btns)\<rparr>"

definition send_button_pointer :: "u64 \<Rightarrow> PointerAction \<Rightarrow> Vec2 \<Rightarrow> guest_out" where
  "send_button_pointer now_us action pc =
     Send (encode_Pointer
       \<lparr>p_t_us = now_us, p_x = word_of_int (lround (v_x pc)), p_y = word_of_int (lround (v_y pc)), p_action = action,
        p_button = Button_Left, p_pointer_id = 0, p_flags = kPointerWindowRelative, p_pressure = f32_one\<rparr>)"

definition send_button_shortcut :: "CustomButton \<Rightarrow> guest_out" where
  "send_button_shortcut b =
     Send (encode_Key \<lparr>k_modifiers = cb_modifiers b, k_action = Key_Press, k_key = cb_key b\<rparr>)"

text \<open>\<open>clock\<close> gives the successive readings of the microsecond clock.\<close>

fun fire :: "(nat \<Rightarrow> u64) \<Rightarrow> nat \<Rightarrow> strip_out list \<Rightarrow> guest_out list" where
  "fire clock n [] = []"
| "fire clock n (Sink_pointer action pc # rest) = send_button_pointer (clock n) action pc # fire clock (n + 1) rest"
| "fire clock n (Sink_shortcut b # rest) = send_button_shortcut b # fire clock n rest"

definition ui_of :: "guest_app \<Rightarrow> ui_state" where
  "ui_of a = \<lparr>us_owner = ga_ui_owner a, us_menu = ga_menu a, us_strip = ga_strip a, us_fired = []\<rparr>"

definition handle_motion :: "motion_event \<times> (nat \<Rightarrow> u64) \<Rightarrow> guest_step" where
  "handle_motion ec a =
     (let (event, clock) = ec;
          (ms, r, u) = tr_handle (guest_ui (bs_buttons (ga_buttons a))) event
            ((ga_router a)\<lparr>tr_on_screen := Some (pc_point_on_screen a)\<rparr>, ui_of a) in
      (send_pointers ms @ fire clock 0 (us_fired u),
       a\<lparr>ga_router := r, ga_ui_owner := us_owner u, ga_menu := us_menu u, ga_strip := us_strip u\<rparr>))"

definition drain_input :: "(motion_event \<times> (nat \<Rightarrow> u64)) list \<Rightarrow> guest_step" where
  "drain_input events = run_steps (map handle_motion events)"

subsection \<open>The stream\<close>

definition kSettleSeconds :: real where "kSettleSeconds = 25 / 100"

definition seconds :: "int \<Rightarrow> real" where "seconds us = of_int us / 1000000"

definition stop_stream :: "LinkState \<Rightarrow> guest_step" where
  "stop_stream link a =
     (if 0 < vr_fps (ga_sent_viewport a) \<and> link = Link_Connected then [Send (encode_ViewportReq viewport_req_init)] else [],
      a\<lparr>ga_frames := fr_reset (ga_frames a), ga_screen := sr_clear (ga_screen a), ga_sent_viewport := viewport_req_init,
        ga_wanted_viewport := viewport_req_init, ga_image_logged := False\<rparr>)"

definition stop_if_streaming :: "LinkState \<Rightarrow> guest_step" where
  "stop_if_streaming link a =
     (if 0 < vr_fps (ga_sent_viewport a) \<or> sr_has_image (ga_screen a) then stop_stream link a else ([], a))"

definition stream_want :: "guest_app \<Rightarrow> ViewportReq" where
  "stream_want a =
     (if ga_screen_enabled a \<and> tr_mode (ga_router a) \<noteq> Mode_Slide \<and> sr_ready (ga_screen a)
      then wanted_viewport (ga_gl_w a) (ga_gl_h a) (tr_view (ga_router a)) (ga_desktop a) else viewport_req_init)"

text \<open>\<open>link\<close> is the link's state, \<open>sent\<close> what a send would return, \<open>now\<close> the clock in microseconds.\<close>

definition update_stream :: "LinkState \<Rightarrow> bool \<Rightarrow> int \<Rightarrow> guest_step" where
  "update_stream link sent now a =
     (if \<not> ga_link_up a then stop_if_streaming link a
      else
        let want = stream_want a in
        if vr_fps want = 0 then stop_if_streaming link a
        else if \<not> same_request want (ga_wanted_viewport a) then
          ([], a\<lparr>ga_wanted_viewport := want, ga_wanted_since := now\<rparr>)
        else if same_request want (ga_sent_viewport a) then ([], a)
        else if seconds (now - ga_wanted_since a) < kSettleSeconds then ([], a)
        else ([Send (encode_ViewportReq want)], if sent then a\<lparr>ga_sent_viewport := want\<rparr> else a))"

fun upload_all :: "(int \<Rightarrow> int \<Rightarrow> bool) \<Rightarrow> FrameBatch list \<Rightarrow> screen_renderer \<Rightarrow> screen_renderer" where
  "upload_all alloc [] s = s"
| "upload_all alloc (b # bs) s = upload_all alloc bs (snd (sr_upload alloc b s))"

text \<open>What \<open>render\<close> changes: the batches go to the texture and two log marks move.\<close>

definition render_state :: "(int \<Rightarrow> int \<Rightarrow> bool) \<Rightarrow> guest_app \<Rightarrow> guest_app" where
  "render_state alloc a =
     (let (batches, fr) = fr_take (ga_frames a); s = upload_all alloc batches (ga_screen a);
          bad = rs_malformed (fr_stats fr) + rs_dropped (fr_stats fr) in
      a\<lparr>ga_frames := fr, ga_screen := s,
        ga_image_logged := ga_image_logged a \<or> (batches \<noteq> [] \<and> sr_has_image s),
        ga_bad_batches_logged := (if ga_bad_batches_logged a < bad then bad else ga_bad_batches_logged a)\<rparr>)"

subsection \<open>Network thread\<close>

text \<open>\<open>density\<close> is the density as a 32-bit float.\<close>

definition send_hello :: "f32 \<Rightarrow> guest_app \<Rightarrow> guest_out list" where
  "send_hello density a =
     [Send (encode_Hello
       \<lparr>h_proto_ver = kProtocolVersion, h_screen_w = word_of_int (ga_gl_w a), h_screen_h = word_of_int (ga_gl_h a),
        h_density = density, h_device = ''Digitiz guest''\<rparr>)]"

definition on_link_up :: "f32 \<Rightarrow> guest_step" where
  "on_link_up density a =
     (let a1 = a\<lparr>ga_link_up := True, ga_heartbeat_seen := False\<rparr> in (send_hello density a1, a1))"

definition on_link_down :: "guest_app \<Rightarrow> guest_app" where
  "on_link_down a =
     a\<lparr>ga_frames := fr_reset (ga_frames a), ga_link_up := False, ga_host_enabled := False, ga_stroke_cancel_pending := True,
       ga_active_process := [], ga_active_window_dirty := True\<rparr>"

definition on_hello_ack :: "HelloAck \<Rightarrow> guest_app \<Rightarrow> guest_app" where
  "on_hello_ack ack a =
     (let fresh = recti (sint (ha_vx ack)) (sint (ha_vy ack)) (sint (ha_vw ack)) (sint (ha_vh ack));
          screens = map (\<lambda>m. recti (sint (mon_x m)) (sint (mon_y m)) (sint (mon_w m)) (sint (mon_h m))) (ha_monitors ack) in
      a\<lparr>ga_view_needs_fit := ga_view_needs_fit a \<or> \<not> ga_view_fitted a \<or> fresh \<noteq> ga_desktop a,
        ga_desktop := fresh, ga_monitors := (if screens = [] then [fresh] else screens)\<rparr>)"

text \<open>\<open>decompress\<close> is the zstd decoder, \<open>sent\<close> what a send would return, \<open>now_us\<close> the clock.\<close>

definition guest_on_message ::
  "(nat \<Rightarrow> bytes \<Rightarrow> bytes option) \<Rightarrow> bool \<Rightarrow> u64 \<Rightarrow> MsgType \<Rightarrow> bytes \<Rightarrow> guest_step" where
  "guest_on_message decompress sent now_us t payload a =
     (case t of
        Msg_HelloAck \<Rightarrow> (case decode_HelloAck payload of None \<Rightarrow> ([], a) | Some ack \<Rightarrow> ([], on_hello_ack ack a))
      | Msg_ActiveWindow \<Rightarrow>
          (case decode_ActiveWindow payload of
             None \<Rightarrow> ([], a)
           | Some w \<Rightarrow> ([], a\<lparr>ga_active_process := aw_process w, ga_active_window_dirty := True\<rparr>))
      | Msg_FrameInfo \<Rightarrow> ([], a\<lparr>ga_frames := fr_on_message decompress t payload (ga_frames a)\<rparr>)
      | Msg_FrameData \<Rightarrow> ([], a\<lparr>ga_frames := fr_on_message decompress t payload (ga_frames a)\<rparr>)
      | Msg_HostState \<Rightarrow>
          (case decode_HostState payload of None \<Rightarrow> ([], a) | Some st \<Rightarrow> ([], a\<lparr>ga_host_enabled := hs_enabled st\<rparr>))
      | Msg_Ping \<Rightarrow>
          (case decode_Ping payload of
             None \<Rightarrow> ([], a)
           | Some ping \<Rightarrow>
               ([Send (encode_Pong \<lparr>pong_t_send_us = ping_t_send_us ping, pong_t_reply_us = now_us\<rparr>)],
                if sent then a\<lparr>ga_heartbeat_seen := True\<rparr> else a))
      | _ \<Rightarrow> ([], a))"

text \<open>A log line goes to the host from level Info on, while connected, unless it comes from forwarding another.\<close>

definition forward_log :: "LinkState \<Rightarrow> bool \<Rightarrow> LogLevel \<Rightarrow> string \<Rightarrow> guest_out list" where
  "forward_log link forwarding level line =
     (if log_level_to_u8 level < log_level_to_u8 Level_Info \<or> link \<noteq> Link_Connected \<or> forwarding then []
      else [Send (encode_LogMessage \<lparr>lm_level = level, lm_text = line\<rparr>)])"

subsection \<open>Window commands\<close>

text \<open>
  What the platform answers: whether there is a window and a surface of what size, whether the renderers and the screen
  renderer initialise, the localised name of the nameless preset and the display density in dpi.
\<close>

datatype attach_answer = No_window | Attach_failed | Attached int int

record window_answer =
  wa_attach :: attach_answer
  wa_renderers :: bool
  wa_screen :: bool
  wa_default_name :: string
  wa_dpi :: "int option"

definition init_renderers :: "window_answer \<Rightarrow> guest_app \<Rightarrow> guest_app" where
  "init_renderers w a =
     (if ga_renderers_ready a then a
      else a\<lparr>ga_renderers_ready := wa_renderers w, ga_screen := snd (sr_init (wa_screen w) (ga_screen a))\<rparr>)"

definition name_default_preset :: "window_answer \<Rightarrow> guest_app \<Rightarrow> guest_app" where
  "name_default_preset w a =
     (if ga_default_preset_name a = [] then refresh_preset_offer (a\<lparr>ga_default_preset_name := wa_default_name w\<rparr>) else a)"

definition apply_dpi :: "window_answer \<Rightarrow> guest_app \<Rightarrow> guest_app" where
  "apply_dpi w a =
     (case wa_dpi w of
        None \<Rightarrow> a
      | Some dpi \<Rightarrow>
          if 0 < dpi then
            let density = of_int dpi / 160 in
            apply_throttle (a\<lparr>ga_density := density, ga_router := set_density density (ga_router a)\<rparr>)
          else a)"

definition on_init_window :: "window_answer \<Rightarrow> guest_step" where
  "on_init_window w a =
     (case wa_attach w of
        No_window \<Rightarrow> ([], a)
      | Attach_failed \<Rightarrow> ([], a\<lparr>ga_gl_ready := False\<rparr>)
      | Attached width height \<Rightarrow>
          let a1 = init_renderers w (a\<lparr>ga_gl_ready := True, ga_gl_w := width, ga_gl_h := height\<rparr>);
              a2 = relayout_widgets (apply_dpi w (name_default_preset w a1)) in
          ([Start_link], if ga_view_fitted a2 then a2 else fit_view_to_desktop a2))"

definition on_term_window :: "LinkState \<Rightarrow> guest_step" where
  "on_term_window link a =
     (let (outs, a1) = stop_stream link a in
      (outs, a1\<lparr>ga_screen := sr_release (ga_screen a1), ga_renderers_ready := False, ga_gl_ready := False\<rparr>))"

text \<open>\<open>wh\<close> is the size the surface reports.\<close>

definition on_window_resized :: "int \<times> int \<Rightarrow> guest_app \<Rightarrow> guest_app" where
  "on_window_resized wh a =
     (let a1 = relayout_widgets (if ga_gl_ready a then a\<lparr>ga_gl_w := fst wh, ga_gl_h := snd wh\<rparr> else a);
          resized = (ga_gl_w a1 \<noteq> ga_gl_w a \<or> ga_gl_h a1 \<noteq> ga_gl_h a) in
      if resized \<and> \<not> tr_view_adjusted (ga_router a1) then fit_view_to_desktop a1 else a1)"

definition on_gained_focus :: "guest_app \<Rightarrow> guest_app" where
  "on_gained_focus a = a\<lparr>ga_has_focus := True\<rparr>"

definition cancel_widget :: "guest_app \<Rightarrow> guest_app" where
  "cancel_widget a =
     (case ga_ui_owner a of
        Owner_Strip \<Rightarrow> a\<lparr>ga_strip := strip_cancel_press (ga_strip a)\<rparr>
      | Owner_Menu \<Rightarrow> a\<lparr>ga_menu := menu_cancel_press (ga_menu a)\<rparr>
      | Owner_None \<Rightarrow> a)
       \<lparr>ga_ui_owner := Owner_None\<rparr>"

definition on_lost_focus :: guest_step where
  "on_lost_focus a =
     (let (outs, a1) = with_router (cancel_stroke (ga_router a)) (a\<lparr>ga_has_focus := False\<rparr>) in
      (outs, if tr_ui_captured (ga_router a1)
             then cancel_widget (a1\<lparr>ga_router := cancel_ui_capture (ga_router a1)\<rparr>) else a1))"

subsection \<open>A frame\<close>

text \<open>A change the menu or the strip reports: the flag is taken, and the reaction runs if it was set.\<close>

definition on_menu :: "(side_menu \<Rightarrow> bool \<times> side_menu) \<Rightarrow> guest_step \<Rightarrow> guest_step" where
  "on_menu take_flag react a =
     (let (flag, m) = take_flag (ga_menu a); a1 = a\<lparr>ga_menu := m\<rparr> in if flag then react a1 else ([], a1))"

definition on_strip :: "(strip \<Rightarrow> bool \<times> strip) \<Rightarrow> guest_step \<Rightarrow> guest_step" where
  "on_strip take_flag react a =
     (let (flag, s) = take_flag (ga_strip a); a1 = a\<lparr>ga_strip := s\<rparr> in if flag then react a1 else ([], a1))"

definition mode_changed :: guest_step where
  "mode_changed a = with_router (tr_set_mode (mn_mode (ga_menu a)) (ga_router a)) a"

definition save_strip :: guest_step where
  "save_strip a = with_settings (set_strip (mn_strip_vertical (ga_menu a)) (sp_expanded (ga_strip a)) (ga_settings a)) a"

definition strip_turned :: guest_step where
  "strip_turned a =
     save_strip (relayout_widgets (a\<lparr>ga_strip := set_orientation (orientation_of (mn_strip_vertical (ga_menu a))) (ga_strip a)\<rparr>))"

definition slots_changed :: guest_step where
  "slots_changed a =
     (let a1 = relayout_widgets (a\<lparr>ga_strip := set_slot_limit (mn_strip_slots (ga_menu a)) (ga_strip a)\<rparr>) in
      with_settings (set_strip_slots (mn_strip_slots (ga_menu a1)) (ga_settings a1)) a1)"

definition suggestion_accepted :: guest_step where
  "suggestion_accepted a =
     (let (switched, b) = store_select (ga_offered_preset a) (ga_buttons a); a1 = a\<lparr>ga_buttons := b\<rparr> in
      ([], refresh_preset_offer (if switched then relayout_widgets a1 else a1)))"

definition suggestion_declined :: guest_step where
  "suggestion_declined a = ([], refresh_preset_offer (a\<lparr>ga_offer_declined_for := ga_focused_process a\<rparr>))"

definition long_press_menu :: guest_step where
  "long_press_menu a =
     (let (held, s) = take_long_press (ga_strip a) in
      (if bs_valid (ga_buttons a) held then [Show_button_menu held (cb_label (bs_buttons (ga_buttons a) ! nat held))] else [],
       a\<lparr>ga_strip := s\<rparr>))"

definition stylus_changed :: guest_step where
  "stylus_changed a =
     (let on = mn_stylus_only (ga_menu a) in
      with_settings (se_set_stylus_only on (ga_settings a)) (a\<lparr>ga_router := set_stylus_only on (ga_router a)\<rparr>))"

definition screen_changed :: guest_step where
  "screen_changed a =
     (let on = mn_screen_enabled (ga_menu a) in
      with_settings (set_screen_enabled on (ga_settings a)) (a\<lparr>ga_screen_enabled := on\<rparr>))"

definition auto_launch_changed :: guest_step where
  "auto_launch_changed a = with_settings (set_auto_launch (mn_auto_launch (ga_menu a)) (ga_settings a)) a"

definition throttle_changed :: guest_step where
  "throttle_changed a =
     (let (outs, a1) =
        with_settings (set_throttle (mn_min_interval_ms (ga_menu a)) (mn_min_distance_dp (ga_menu a)) (ga_settings a)) a in
      (outs, apply_throttle a1))"

text \<open>
  What one frame meets: the clock at its start and in \<open>update_stream\<close>, the input with the clock readings of the buttons it
  fires, the link, and the texture allocations.
\<close>

record frame_input =
  in_now :: int
  in_stream_now :: int
  in_motion :: "(motion_event \<times> (nat \<Rightarrow> u64)) list"
  in_link :: LinkState
  in_sent :: bool
  in_alloc :: "int \<Rightarrow> int \<Rightarrow> bool"

definition frame_dt :: "frame_input \<Rightarrow> guest_app \<Rightarrow> real" where
  "frame_dt i a = (case ga_last_frame a of None \<Rightarrow> 1 / 60 | Some t \<Rightarrow> seconds (in_now i - t))"

definition widget_steps :: "guest_step list" where
  "widget_steps =
     [on_menu take_mode_change mode_changed,
      on_menu take_strip_change strip_turned,
      on_strip take_state_change save_strip,
      on_menu take_strip_slots_change slots_changed,
      on_strip take_add_request (open_button_editor (-1)),
      on_strip take_preset_menu_request open_preset_menu,
      on_strip take_suggestion_accepted suggestion_accepted,
      on_strip take_suggestion_declined suggestion_declined,
      apply_preset_events,
      long_press_menu,
      apply_button_events,
      on_menu take_about_request (\<lambda>a. ([Show_licenses], a)),
      on_menu take_rotate_request (\<lambda>a. ([Flip_orientation], a)),
      on_menu take_stylus_change stylus_changed,
      on_menu take_screen_change screen_changed]"

definition saving_steps :: "guest_step list" where
  "saving_steps = [on_menu take_auto_launch_change auto_launch_changed, on_menu take_throttle_change throttle_changed]"

definition advance_widgets :: "real \<Rightarrow> guest_step" where
  "advance_widgets dt a = ([], a\<lparr>ga_menu := menu_advance dt (ga_menu a), ga_strip := strip_advance dt (ga_strip a)\<rparr>)"

definition guest_frame :: "frame_input \<Rightarrow> guest_step" where
  "guest_frame i a =
     (if \<not> ga_gl_ready a \<or> \<not> ga_renderers_ready a then ([], a)
      else
        run_steps
          (apply_pending # drain_input (in_motion i) #
           widget_steps @ update_stream (in_link i) (in_sent i) (in_stream_now i) #
           saving_steps @ [advance_widgets (frame_dt i a), \<lambda>b. ([], render_state (in_alloc i) b)])
          (a\<lparr>ga_last_frame := Some (in_now i)\<rparr>))"

definition wants_frames :: "guest_app \<Rightarrow> bool" where
  "wants_frames a \<longleftrightarrow> ga_gl_ready a \<and> ga_renderers_ready a"

section \<open>The stream request\<close>

text \<open>Successive frames of a connected guest: the view of each, the clock and what a send would return.\<close>

definition look_at :: "ViewTransform \<Rightarrow> guest_app \<Rightarrow> guest_app" where
  "look_at view a = a\<lparr>ga_router := (ga_router a)\<lparr>tr_view := view\<rparr>\<rparr>"

definition stream_frame :: "ViewTransform \<times> int \<times> bool \<Rightarrow> guest_step" where
  "stream_frame f a = update_stream Link_Connected (snd (snd f)) (fst (snd f)) (look_at (fst f) a)"

definition want_at :: "guest_app \<Rightarrow> ViewTransform \<Rightarrow> ViewportReq" where
  "want_at a view = stream_want (look_at view a)"

lemma want_at_look [simp]: "stream_want (look_at view a) = want_at a view"
  by (simp add: want_at_def)

lemma want_at_sel [simp]:
  "want_at (a\<lparr>ga_wanted_viewport := w, ga_wanted_since := t\<rparr>) = want_at a" "want_at (a\<lparr>ga_sent_viewport := w\<rparr>) = want_at a"
  "want_at (look_at view a) = want_at a"
  by (simp_all add: want_at_def look_at_def stream_want_def fun_eq_iff)

lemma look_at_sel [simp]:
  "ga_link_up (look_at view a) = ga_link_up a" "ga_wanted_viewport (look_at view a) = ga_wanted_viewport a"
  "ga_sent_viewport (look_at view a) = ga_sent_viewport a" "ga_wanted_since (look_at view a) = ga_wanted_since a"
  by (simp_all add: look_at_def)

lemma settle_iff: "seconds (now - t) < kSettleSeconds \<longleftrightarrow> now < t + 250000"
  by (simp add: seconds_def kSettleSeconds_def) linarith

lemma stream_frame_eq:
  assumes "ga_link_up a" "vr_fps (want_at a view) \<noteq> 0"
  shows "stream_frame (view, now, sent) a =
    (let b = look_at view a; want = want_at a view in
     if want \<noteq> ga_wanted_viewport a then ([], b\<lparr>ga_wanted_viewport := want, ga_wanted_since := now\<rparr>)
     else if want = ga_sent_viewport a \<or> now < ga_wanted_since a + 250000 then ([], b)
     else ([Send (encode_ViewportReq want)], if sent then b\<lparr>ga_sent_viewport := want\<rparr> else b))"
  using assms by (simp add: stream_frame_def update_stream_def Let_def same_request_eq settle_iff)

text \<open>A view that stays: the frames from the one that first saw it.\<close>

lemma steady_frames:
  assumes "ga_link_up a" "vr_fps (want_at a view) \<noteq> 0" "ga_wanted_viewport a = want_at a view" "ga_wanted_since a = t0"
  shows "fst (run_steps (map (\<lambda>(t, sent). stream_frame (view, t, sent)) fs) a) =
    (if ga_sent_viewport a = want_at a view then []
     else
       let due = filter (\<lambda>(t, sent). t0 + 250000 \<le> t) fs; failed = takeWhile (\<lambda>(t, sent). \<not> sent) due in
       replicate (if length failed < length due then length failed + 1 else length failed)
         (Send (encode_ViewportReq (want_at a view))))"
  using assms
proof (induction fs arbitrary: a)
  case (Cons f fs)
  obtain t sent where f: "f = (t, sent)" by (cases f)
  let ?b = "snd (stream_frame (view, t, sent) a)"
  have b: "ga_link_up ?b" "want_at ?b view = want_at a view" "ga_wanted_viewport ?b = want_at a view" "ga_wanted_since ?b = t0"
    using Cons.prems by (auto simp: stream_frame_eq Let_def)
  show ?case
    using Cons.IH [of ?b] Cons.prems b
    by (auto simp: f case_prod_beta stream_frame_eq Let_def takeWhile_eq_all_conv)
qed (simp add: Let_def)

lemma moving_frames:
  assumes "ga_link_up a" "\<forall>f \<in> set fs. vr_fps (want_at a (fst f)) \<noteq> 0"
    "distinct_adj (ga_wanted_viewport a # map (want_at a \<circ> fst) fs)"
  shows "fst (run_steps (map stream_frame fs) a) = []"
  using assms
proof (induction fs arbitrary: a)
  case (Cons f fs)
  obtain view t sent where f: "f = (view, t, sent)" by (cases f)
  let ?b = "snd (stream_frame f a)"
  have eq: "stream_frame f a = ([], (look_at view a)\<lparr>ga_wanted_viewport := want_at a view, ga_wanted_since := t\<rparr>)"
    using Cons.prems by (auto simp: f stream_frame_eq Let_def)
  have "want_at ?b = want_at a" "ga_link_up ?b" "ga_wanted_viewport ?b = want_at a view" using Cons.prems(1) by (simp_all add: eq)
  with Cons.IH [of ?b] Cons.prems show ?case by (simp add: f case_prod_beta eq [unfolded f])
qed simp

section \<open>Invariant\<close>

text \<open>What the user is offered depends on the presets' names and programs, never on their buttons.\<close>

definition offer_view :: "guest_app \<Rightarrow> string list \<times> string list \<times> int \<times> string \<times> string \<times> string" where
  "offer_view a =
     (map pr_name (bs_presets (ga_buttons a)), map pr_match (bs_presets (ga_buttons a)), bs_current (ga_buttons a),
      ga_focused_process a, ga_offer_declined_for a, ga_default_preset_name a)"

definition offer_ok :: "guest_app \<Rightarrow> bool" where
  "offer_ok a \<longleftrightarrow>
     (if worth_asking a
      then ga_offered_preset a = preset_for (ga_focused_process a) (ga_buttons a) \<and>
        sp_suggested_name (ga_strip a) \<in> {[], preset_display_name a (ga_offered_preset a)}
      else ga_offered_preset a = -1 \<and> sp_suggested_name (ga_strip a) = [])"

definition guest_inv :: "guest_app \<Rightarrow> bool" where
  "guest_inv a \<longleftrightarrow>
     store_inv (ga_buttons a) \<and> menu_ok (ga_menu a) \<and> fr_inv (ga_frames a) \<and> view_ok (tr_view (ga_router a)) \<and>
     ga_monitors a \<noteq> [] \<and> offer_ok a"

definition keeps :: "(guest_app \<Rightarrow> bool) \<Rightarrow> guest_step \<Rightarrow> bool" where
  "keeps P f \<longleftrightarrow> (\<forall>a. P a \<longrightarrow> P (snd (f a)))"

lemma keepsI: "(\<And>a. P a \<Longrightarrow> P (snd (f a))) \<Longrightarrow> keeps P f"
  by (simp add: keeps_def)

lemma keepsD: "keeps P f \<Longrightarrow> P a \<Longrightarrow> P (snd (f a))"
  by (simp add: keeps_def)

lemma keeps_run_steps: "\<forall>f \<in> set fs. keeps P f \<Longrightarrow> keeps P (run_steps fs)"
  by (induction fs) (auto simp: keeps_def case_prod_beta Let_def)

lemma find_match_cong: "map pr_match ps = map pr_match qs \<Longrightarrow> find_match process ps i = find_match process qs i"
proof (induction ps arbitrary: qs i)
  case (Cons p ps)
  then obtain q rest where "qs = q # rest" by (cases qs) auto
  with Cons show ?case by simp
qed simp

lemma offer_view_cong:
  assumes "offer_view b = offer_view a"
  shows "preset_for (ga_focused_process b) (ga_buttons b) = preset_for (ga_focused_process a) (ga_buttons a)"
    "worth_asking b = worth_asking a" "preset_display_name b i = preset_display_name a i"
proof -
  let ?p = "bs_presets (ga_buttons b)" and ?q = "bs_presets (ga_buttons a)"
  from assms have v: "map pr_name ?p = map pr_name ?q" "map pr_match ?p = map pr_match ?q"
    "bs_current (ga_buttons b) = bs_current (ga_buttons a)" "ga_focused_process b = ga_focused_process a"
    "ga_offer_declined_for b = ga_offer_declined_for a" "ga_default_preset_name b = ga_default_preset_name a"
    by (simp_all add: offer_view_def)
  show f: "preset_for (ga_focused_process b) (ga_buttons b) = preset_for (ga_focused_process a) (ga_buttons a)"
    using find_match_cong [OF v(2)] by (simp add: preset_for_def v)
  then show "worth_asking b = worth_asking a" by (simp add: worth_asking_def v)
  have l: "length ?p = length ?q" using arg_cong [OF v(1), of length] by simp
  have "pr_name (?p ! nat i) = pr_name (?q ! nat i)" if "nat i < length ?p"
    using that l arg_cong [OF v(1), of "\<lambda>xs. xs ! nat i"] by simp
  then show "preset_display_name b i = preset_display_name a i"
    using l by (simp add: preset_display_name_def valid_preset_def v Let_def)
qed

lemma offer_ok_cong:
  assumes "offer_view b = offer_view a" "ga_offered_preset b = ga_offered_preset a"
    "sp_suggested_name (ga_strip b) \<in> {[], sp_suggested_name (ga_strip a)}" "offer_ok a"
  shows "offer_ok b"
  using assms offer_view_cong [OF assms(1)] by (auto simp: offer_ok_def split: if_splits)

lemma refresh_sel [simp]:
  "ga_buttons (refresh_preset_offer a) = ga_buttons a" "ga_menu (refresh_preset_offer a) = ga_menu a"
  "ga_frames (refresh_preset_offer a) = ga_frames a" "ga_router (refresh_preset_offer a) = ga_router a"
  "ga_monitors (refresh_preset_offer a) = ga_monitors a"
  by (simp_all add: refresh_preset_offer_def Let_def)

lemma offer_ok_refresh [simp]: "offer_ok (refresh_preset_offer a)"
proof -
  have v: "offer_view (refresh_preset_offer a) = offer_view a" by (simp add: refresh_preset_offer_def offer_view_def Let_def)
  show ?thesis unfolding offer_ok_def offer_view_cong [OF v]
    by (simp add: refresh_preset_offer_def set_suggestion_def set_preset_name_def Let_def)
qed

lemma suggested_name_sel [simp]:
  "sp_suggested_name (strip_layout btns w h d s) = sp_suggested_name s" "sp_suggested_name (strip_drag p s) = sp_suggested_name s"
  "sp_suggested_name (snd (strip_hit_test btns p s)) = sp_suggested_name s" "sp_suggested_name (strip_advance dt s) = sp_suggested_name s"
  "sp_suggested_name (strip_cancel_press s) = sp_suggested_name s"
  by (simp_all add: strip_layout_def strip_drag_def strip_hit_test_def strip_advance_def settle_scroll_def strip_cancel_press_def
      snap_to_slot_def Let_def)

lemma suggested_name_release: "sp_suggested_name (snd (strip_release btns s)) \<in> {[], sp_suggested_name s}"
  by (cases "sp_press s")
    (auto simp: strip_release_def nudge_def snap_to_slot_def Let_def case_prod_beta split: option.split)

lemma relayout_sel [simp]:
  "ga_buttons (relayout_widgets a) = ga_buttons a" "ga_frames (relayout_widgets a) = ga_frames a"
  "ga_router (relayout_widgets a) = ga_router a" "ga_monitors (relayout_widgets a) = ga_monitors a"
  "ga_offered_preset (relayout_widgets a) = ga_offered_preset a" "ga_settings (relayout_widgets a) = ga_settings a"
  "sp_suggested_name (ga_strip (relayout_widgets a)) = sp_suggested_name (ga_strip a)"
  "offer_view (relayout_widgets a) = offer_view a"
  by (simp_all add: relayout_widgets_def offer_view_def Let_def)

lemma menu_ok_relayout [simp]: "menu_ok (ga_menu a) \<Longrightarrow> menu_ok (ga_menu (relayout_widgets a))"
  using menu_step_ok [of "ga_menu a" "Menu_layout (ga_gl_w a) (ga_gl_h a) (ga_density a)"]
    menu_step_ok [of "menu_layout (ga_gl_w a) (ga_gl_h a) (ga_density a) (ga_menu a)" "Menu_slots n mx" for n mx]
  by (simp add: relayout_widgets_def Let_def)

lemma guest_inv_relayout [simp]: "guest_inv a \<Longrightarrow> guest_inv (relayout_widgets a)"
  using offer_ok_cong [of "relayout_widgets a" a] by (simp add: guest_inv_def)

lemma guest_inv_refresh:
  "store_inv (ga_buttons a) \<Longrightarrow> menu_ok (ga_menu a) \<Longrightarrow> fr_inv (ga_frames a) \<Longrightarrow> view_ok (tr_view (ga_router a)) \<Longrightarrow>
   ga_monitors a \<noteq> [] \<Longrightarrow> guest_inv (refresh_preset_offer a)"
  by (simp add: guest_inv_def)

text \<open>A change that leaves what is offered alone.\<close>

lemma guest_inv_cong:
  assumes "guest_inv a" "offer_view b = offer_view a" "ga_offered_preset b = ga_offered_preset a"
    "sp_suggested_name (ga_strip b) \<in> {[], sp_suggested_name (ga_strip a)}" "store_inv (ga_buttons b)" "menu_ok (ga_menu b)"
    "fr_inv (ga_frames b)" "view_ok (tr_view (ga_router b))" "ga_monitors b \<noteq> []"
  shows "guest_inv b"
  using assms offer_ok_cong [of b a] by (auto simp: guest_inv_def)

lemmas guest_invD = guest_inv_def [THEN iffD1]

subsection \<open>Input keeps it\<close>

lemma view_sel [simp]:
  "tr_view (snd (cancel_stroke r)) = tr_view r" "tr_view (snd (flush_press r)) = tr_view r"
  "tr_view (snd (emit_relative act dx dy t r)) = tr_view r" "tr_view (begin_gesture e x r) = tr_view r"
  "tr_view (snd (tr_set_mode mode r)) = tr_view r" "tr_view (snd (stroke_move e t r)) = tr_view r"
  "tr_view (slide_begin p t r) = tr_view r"
  by (simp_all add: cancel_stroke_def flush_press_def emit_relative_def begin_gesture_def tr_set_mode_def stroke_move_def
      slide_begin_def Let_def case_prod_beta split: option.split)

lemma view_slide_move [simp]: "tr_view (snd (slide_move p t r)) = tr_view r"
  by (simp add: slide_move_def Let_def)

lemma view_slide_end [simp]: "tr_view (snd (slide_end p t r)) = tr_view r"
  by (simp add: slide_end_def Let_def case_prod_beta)

lemma view_ok_update_gesture: "view_ok (tr_view r) \<Longrightarrow> view_ok (tr_view (update_gesture e x r))"
  by (simp add: update_gesture_def Let_def)

lemma view_ok_handle:
  assumes "view_ok (tr_view r)" shows "view_ok (tr_view (fst (snd (tr_handle ui e (r, u)))))"
proof (cases "me_action e")
  case Motion_Down
  then show ?thesis using assms by (simp add: tr_handle_def handle_down_def Let_def case_prod_beta)
next
  case Motion_Move
  then show ?thesis
    using assms view_ok_update_gesture [OF assms, of e "-1"]
    by (auto simp: tr_handle_def handle_move_def Let_def case_prod_beta split: option.split)
next
  case Motion_Up
  then show ?thesis using assms by (simp add: tr_handle_def handle_up_def Let_def case_prod_beta)
qed (use assms in \<open>simp_all add: tr_handle_def handle_pointer_down_def handle_pointer_up_def Let_def case_prod_beta\<close>)

definition ui_ok :: "string \<Rightarrow> ui_state \<Rightarrow> bool" where
  "ui_ok name u \<longleftrightarrow> menu_ok (us_menu u) \<and> sp_suggested_name (us_strip u) \<in> {[], name}"

lemma ui_press_ok: "ui_ok n u \<Longrightarrow> ui_ok n (snd (ui_press btns p u))"
  using menu_step_ok [of "us_menu u" "Menu_press p"] by (auto simp: ui_ok_def ui_press_def Let_def case_prod_beta)

lemma ui_drag_ok: "ui_ok n u \<Longrightarrow> ui_ok n (ui_drag_to p u)"
  using menu_step_ok [of "us_menu u" "Menu_drag p"] by (auto simp: ui_ok_def ui_drag_to_def split: UiOwner.split)

lemma ui_let_go_ok: "ui_ok n u \<Longrightarrow> ui_ok n (ui_let_go btns p u)"
  using menu_step_ok [of "us_menu u" "Menu_release p"] suggested_name_release [of btns "us_strip u"]
  by (auto simp: ui_ok_def ui_let_go_def case_prod_beta Let_def split: UiOwner.split)

lemma ui_handle_ok:
  assumes "ui_ok n u" shows "ui_ok n (snd (snd (tr_handle (guest_ui btns) e (r, u))))"
  using assms ui_press_ok [OF assms] ui_drag_ok [OF assms] ui_let_go_ok [OF assms]
  by (cases "me_action e") (simp_all add: tr_handle_def guest_ui_def ui_notify_def Let_def case_prod_beta)

lemma keeps_handle_motion: "keeps guest_inv (handle_motion ec)"
proof (rule keepsI)
  fix a assume inv: "guest_inv a"
  obtain e clock where ec: "ec = (e, clock)" by (cases ec)
  have "ui_ok (sp_suggested_name (ga_strip a)) (ui_of a)" using inv by (simp add: ui_ok_def ui_of_def guest_inv_def)
  note u = ui_handle_ok [OF this, unfolded ui_ok_def]
  have v: "view_ok (tr_view ((ga_router a)\<lparr>tr_on_screen := Some (pc_point_on_screen a)\<rparr>))" using inv by (simp add: guest_inv_def)
  show "guest_inv (snd (handle_motion ec a))"
    by (rule guest_inv_cong [OF inv])
      (use inv u view_ok_handle [OF v] in \<open>simp_all add: ec handle_motion_def Let_def case_prod_beta offer_view_def guest_inv_def\<close>)
qed

subsection \<open>Frames keep it\<close>

definition store_view :: "button_store \<Rightarrow> string list \<times> string list \<times> int" where
  "store_view b = (map pr_name (bs_presets b), map pr_match (bs_presets b), bs_current b)"

lemma store_view_set_buttons [simp]: "store_view (set_buttons bs s) = store_view s"
  by (cases "nat (bs_current s) < length (bs_presets s)")
    (simp_all add: store_view_def set_buttons_def map_update list_update_same_conv list_update_beyond)

lemma store_view_ops [simp]:
  "store_view (fst (store_add b s)) = store_view s" "store_view (fst (store_replace i b s)) = store_view s"
  "store_view (fst (store_remove i s)) = store_view s" "store_view (fst (store_move i d s)) = store_view s"
  by (simp_all add: store_add_def store_replace_def store_remove_def store_move_def saved_def Let_def)

lemma offer_view_buttons: "store_view b = store_view (ga_buttons a) \<Longrightarrow> offer_view (a\<lparr>ga_buttons := b\<rparr>) = offer_view a"
  by (simp add: offer_view_def store_view_def)

text \<open>The parts of the invariant that presets may change, and the rest.\<close>

definition guest_rest :: "guest_app \<Rightarrow> bool" where
  "guest_rest a \<longleftrightarrow>
     store_inv (ga_buttons a) \<and> menu_ok (ga_menu a) \<and> fr_inv (ga_frames a) \<and> view_ok (tr_view (ga_router a)) \<and> ga_monitors a \<noteq> []"

lemma guest_inv_rest: "guest_inv a \<longleftrightarrow> guest_rest a \<and> offer_ok a"
  by (auto simp: guest_inv_def guest_rest_def)

text \<open>A change of one part, for elimination.\<close>

lemma guest_inv_change:
  assumes "guest_inv a" "offer_view b = offer_view a" "ga_offered_preset b = ga_offered_preset a"
    "sp_suggested_name (ga_strip b) = sp_suggested_name (ga_strip a)" "guest_rest a \<Longrightarrow> guest_rest b"
  shows "guest_inv b"
  using assms offer_ok_cong [of b a] by (auto simp: guest_inv_rest)

lemma guest_rest_refresh: "guest_rest a \<Longrightarrow> guest_inv (refresh_preset_offer a)"
  by (simp add: guest_inv_rest) (simp add: guest_rest_def)

lemma guest_rest_relayout [simp]: "guest_rest a \<Longrightarrow> guest_rest (relayout_widgets a)"
  by (simp add: guest_rest_def)

lemma keeps_preset_command: "keeps guest_rest (apply_preset_command c)"
  using store_invariant
  by (cases "pc_kind c") (auto intro!: keepsI simp: apply_preset_command_def with_buttons_def guest_rest_def)

lemma keeps_preset_events: "keeps guest_inv apply_preset_events"
proof (rule keepsI)
  fix a assume a: "guest_inv a"
  let ?b = "a\<lparr>ga_preset_commands := []\<rparr>"
  have "guest_rest ?b" "guest_inv ?b"
    using a guest_inv_cong [OF a, of ?b] by (simp_all add: guest_inv_rest) (simp_all add: guest_rest_def offer_view_def)
  moreover from this have "guest_rest (snd (run_steps (map apply_preset_command (ga_preset_commands a)) ?b))"
    using keepsD [OF keeps_run_steps] keeps_preset_command by (metis (no_types, lifting) ex_map_conv)
  ultimately show "guest_inv (snd (apply_preset_events a))"
    by (simp add: apply_preset_events_def drain_preset_events_def Let_def case_prod_beta guest_rest_refresh)
qed

lemma guest_inv_with_buttons:
  assumes "guest_inv a" "store_view (fst bw) = store_view (ga_buttons a)" "store_inv (fst bw)"
  shows "guest_inv (snd (with_buttons bw a))"
  by (rule guest_inv_cong [OF assms(1)])
    (use assms offer_view_buttons [OF assms(2)] in \<open>simp_all add: with_buttons_def guest_inv_def\<close>)

lemma store_inv_of: "guest_inv a \<Longrightarrow> store_inv (ga_buttons a)"
  by (simp add: guest_inv_def)

lemma keeps_button_edit: "keeps guest_inv (apply_button_edit e)"
  using store_invariant store_inv_of by (auto intro!: keepsI guest_inv_with_buttons simp: apply_button_edit_def Let_def)

lemma keeps_button_editor: "keeps guest_inv (open_button_editor i)"
  by (simp add: keeps_def open_button_editor_def Let_def)

lemma keeps_button_command: "keeps guest_inv (apply_button_command c)"
  using store_invariant store_inv_of keeps_button_editor
  by (cases "bc_kind c") (auto intro!: keepsI guest_inv_with_buttons simp: apply_button_command_def keeps_def)

lemma keeps_button_events: "keeps guest_inv apply_button_events"
proof (rule keepsI)
  fix a assume a: "guest_inv a"
  let ?b = "a\<lparr>ga_edits := [], ga_commands := []\<rparr>"
  have "guest_inv ?b" using a guest_inv_cong [OF a, of ?b] by (simp add: guest_inv_def offer_view_def)
  moreover have "keeps guest_inv (run_steps (map apply_button_edit (ga_edits a) @ map apply_button_command (ga_commands a)))"
    by (rule keeps_run_steps) (auto simp: keeps_button_edit keeps_button_command)
  ultimately show "guest_inv (snd (apply_button_events a))"
    by (simp add: apply_button_events_def drain_button_events_def Let_def case_prod_beta keepsD)
qed

lemma keeps_on_menu:
  assumes "keeps guest_inv f" "\<And>m. menu_ok m \<Longrightarrow> menu_ok (snd (take_flag m))"
  shows "keeps guest_inv (on_menu take_flag f)"
proof (rule keepsI)
  fix a assume a: "guest_inv a"
  have "guest_inv (a\<lparr>ga_menu := snd (take_flag (ga_menu a))\<rparr>)"
    by (rule guest_inv_cong [OF a]) (use a assms(2) in \<open>simp_all add: guest_inv_def offer_view_def\<close>)
  then show "guest_inv (snd (on_menu take_flag f a))"
    using assms(1) by (simp add: on_menu_def Let_def case_prod_beta keepsD)
qed

lemma keeps_on_strip:
  assumes "keeps guest_inv f" "\<And>s. sp_suggested_name (snd (take_flag s)) = sp_suggested_name s"
  shows "keeps guest_inv (on_strip take_flag f)"
proof (rule keepsI)
  fix a assume a: "guest_inv a"
  have "guest_inv (a\<lparr>ga_strip := snd (take_flag (ga_strip a))\<rparr>)"
    by (rule guest_inv_cong [OF a]) (use a assms(2) in \<open>simp_all add: guest_inv_def offer_view_def\<close>)
  then show "guest_inv (snd (on_strip take_flag f a))"
    using assms(1) by (simp add: on_strip_def Let_def case_prod_beta keepsD)
qed

lemma menu_ok_takes [simp]:
  "menu_ok (snd (take_mode_change m)) = menu_ok m" "menu_ok (snd (take_auto_launch_change m)) = menu_ok m"
  "menu_ok (snd (take_strip_change m)) = menu_ok m" "menu_ok (snd (take_screen_change m)) = menu_ok m"
  "menu_ok (snd (take_stylus_change m)) = menu_ok m" "menu_ok (snd (take_about_request m)) = menu_ok m"
  "menu_ok (snd (take_rotate_request m)) = menu_ok m" "menu_ok (snd (take_throttle_change m)) = menu_ok m"
  "menu_ok (snd (take_strip_slots_change m)) = menu_ok m"
  by (simp_all add: take_mode_change_def take_auto_launch_change_def take_strip_change_def take_screen_change_def
      take_stylus_change_def take_about_request_def take_rotate_request_def take_throttle_change_def
      take_strip_slots_change_def menu_ok_def)

lemma suggested_takes [simp]:
  "sp_suggested_name (snd (take_add_request s)) = sp_suggested_name s" "sp_suggested_name (snd (take_state_change s)) = sp_suggested_name s"
  "sp_suggested_name (snd (take_long_press s)) = sp_suggested_name s" "sp_suggested_name (snd (take_preset_menu_request s)) = sp_suggested_name s"
  "sp_suggested_name (snd (take_suggestion_accepted s)) = sp_suggested_name s"
  "sp_suggested_name (snd (take_suggestion_declined s)) = sp_suggested_name s"
  by (simp_all add: take_add_request_def take_state_change_def take_long_press_def take_preset_menu_request_def
      take_suggestion_accepted_def take_suggestion_declined_def)

lemma guest_inv_settings [simp]: "guest_inv a \<Longrightarrow> guest_inv (snd (with_settings sw a))"
  by (erule guest_inv_change) (simp_all add: with_settings_def offer_view_def guest_rest_def)

lemma guest_inv_router:
  "guest_inv a \<Longrightarrow> view_ok (tr_view r) \<Longrightarrow> guest_inv (a\<lparr>ga_router := r\<rparr>)"
  by (erule guest_inv_change) (simp_all add: offer_view_def guest_rest_def)

lemma guest_inv_strip:
  "guest_inv a \<Longrightarrow> sp_suggested_name s = sp_suggested_name (ga_strip a) \<Longrightarrow> guest_inv (a\<lparr>ga_strip := s\<rparr>)"
  by (erule guest_inv_change) (simp_all add: offer_view_def guest_rest_def)

lemma view_ok_of: "guest_inv a \<Longrightarrow> view_ok (tr_view (ga_router a))"
  by (simp add: guest_inv_def)

lemma guest_inv_throttle [simp]: "guest_inv a \<Longrightarrow> guest_inv (apply_throttle a)"
  by (simp add: apply_throttle_def set_min_distance_px_def set_min_interval_us_def guest_inv_router view_ok_of)

lemma keeps_reactions:
  "keeps guest_inv mode_changed" "keeps guest_inv strip_turned" "keeps guest_inv save_strip" "keeps guest_inv slots_changed"
  "keeps guest_inv open_preset_menu" "keeps guest_inv stylus_changed" "keeps guest_inv auto_launch_changed"
  "keeps guest_inv throttle_changed" "keeps guest_inv long_press_menu"
  by (auto intro!: keepsI guest_inv_settings guest_inv_router guest_inv_strip guest_inv_relayout guest_inv_throttle
      simp: mode_changed_def with_router_def strip_turned_def save_strip_def slots_changed_def open_preset_menu_def
        stylus_changed_def auto_launch_changed_def throttle_changed_def long_press_menu_def set_orientation_def set_slot_limit_def
        set_stylus_only_def view_ok_of Let_def case_prod_beta)

lemma keeps_screen_changed: "keeps guest_inv screen_changed"
  by (rule keepsI, erule guest_inv_change)
    (simp_all add: screen_changed_def with_settings_def Let_def offer_view_def guest_rest_def)

lemma keeps_accepted: "keeps guest_inv suggestion_accepted"
proof (rule keepsI)
  fix a assume "guest_inv a"
  then have "guest_rest (a\<lparr>ga_buttons := snd (store_select (ga_offered_preset a) (ga_buttons a))\<rparr>)"
    using store_invariant by (simp add: guest_inv_rest) (simp add: guest_rest_def)
  then show "guest_inv (snd (suggestion_accepted a))"
    by (simp add: suggestion_accepted_def Let_def case_prod_beta guest_rest_refresh)
qed

lemma keeps_declined: "keeps guest_inv suggestion_declined"
  by (auto intro!: keepsI guest_rest_refresh simp: suggestion_declined_def guest_inv_rest) (simp add: guest_rest_def)

lemma keeps_widget_steps: "f \<in> set widget_steps \<Longrightarrow> keeps guest_inv f"
  unfolding widget_steps_def
  by (auto intro!: keeps_on_menu keeps_on_strip keeps_reactions keeps_screen_changed keeps_accepted keeps_declined
      keeps_button_editor keeps_preset_events keeps_button_events) (auto simp: keeps_def)

lemma keeps_saving_steps: "f \<in> set saving_steps \<Longrightarrow> keeps guest_inv f"
  unfolding saving_steps_def by (auto intro!: keeps_on_menu keeps_reactions)

lemma guest_inv_fit [simp]: "guest_inv a \<Longrightarrow> guest_inv (fit_view_to_desktop a)"
  by (erule guest_inv_change) (simp_all add: fit_view_to_desktop_def offer_view_def guest_rest_def)

lemma guest_inv_active: "guest_inv a \<Longrightarrow> guest_inv (apply_active_window a)"
  by (auto intro!: guest_rest_refresh simp: apply_active_window_def Let_def guest_inv_rest) (simp_all add: guest_rest_def)

lemma keeps_pending: "keeps guest_inv apply_pending"
proof (rule keepsI)
  fix a assume a: "guest_inv a"
  let ?b = "a\<lparr>ga_view_needs_fit := False, ga_stroke_cancel_pending := False, ga_active_window_dirty := False\<rparr>"
  have "guest_inv ?b" by (rule guest_inv_change [OF a]) (simp_all add: offer_view_def guest_rest_def)
  then show "guest_inv (snd (apply_pending a))"
    by (auto intro!: guest_inv_fit guest_inv_router
        simp: apply_pending_def with_router_def Let_def case_prod_beta guest_inv_active view_ok_of [OF a] view_ok_of)
qed

lemma keeps_drain_input: "keeps guest_inv (drain_input events)"
  unfolding drain_input_def by (rule keeps_run_steps) (auto simp: keeps_handle_motion)

lemma fr_inv_reset: "fr_inv r \<Longrightarrow> fr_inv (fr_reset r)"
  by (simp add: fr_inv_def fr_reset_def)

lemma fr_inv_take: "fr_inv r \<Longrightarrow> fr_inv (snd (fr_take r))"
  by (auto simp: fr_inv_def fr_take_def)

lemma keeps_stop_stream: "keeps guest_inv (stop_stream link)"
  by (rule keepsI, erule guest_inv_change) (simp_all add: stop_stream_def offer_view_def guest_rest_def fr_inv_reset)

lemma keeps_update_stream: "keeps guest_inv (update_stream link sent now)"
proof (rule keepsI)
  fix a assume a: "guest_inv a"
  have "guest_inv (a\<lparr>ga_wanted_viewport := w, ga_wanted_since := now\<rparr>)" "guest_inv (a\<lparr>ga_sent_viewport := w\<rparr>)" for w
    by (rule guest_inv_change [OF a]; simp add: offer_view_def guest_rest_def)+
  then show "guest_inv (snd (update_stream link sent now a))"
    using a keepsD [OF keeps_stop_stream a] by (simp add: update_stream_def stop_if_streaming_def Let_def)
qed

lemma keeps_advance:
  assumes "0 \<le> dt" shows "keeps guest_inv (advance_widgets dt)"
  by (rule keepsI, erule guest_inv_change)
    (use menu_step_ok [of _ "Menu_advance dt"] assms in \<open>simp_all add: advance_widgets_def offer_view_def guest_rest_def\<close>)

lemma keeps_render: "keeps guest_inv (\<lambda>b. ([], render_state alloc b))"
  by (rule keepsI, erule guest_inv_change)
    (simp_all add: render_state_def offer_view_def guest_rest_def fr_inv_take case_prod_beta Let_def)

lemma guest_inv_frame:
  assumes a: "guest_inv a" and "0 \<le> frame_dt i a"
  shows "guest_inv (snd (guest_frame i a))"
proof -
  have "guest_inv (a\<lparr>ga_last_frame := Some (in_now i)\<rparr>)"
    by (rule guest_inv_change [OF a]) (simp_all add: offer_view_def guest_rest_def)
  moreover have "keeps guest_inv (run_steps (apply_pending # drain_input (in_motion i) # widget_steps @
      update_stream (in_link i) (in_sent i) (in_stream_now i) # saving_steps @
      [advance_widgets (frame_dt i a), \<lambda>b. ([], render_state (in_alloc i) b)]))"
    by (rule keeps_run_steps)
      (auto simp: keeps_pending keeps_drain_input keeps_widget_steps keeps_update_stream keeps_saving_steps keeps_render
        keeps_advance [OF assms(2)])
  ultimately show ?thesis using a by (simp add: guest_frame_def keepsD del: run_steps.simps)
qed

subsection \<open>Events and reachable states\<close>

datatype guest_event =
    Ev_frame frame_input
  | Ev_message bool u64 MsgType bytes
  | Ev_link_up f32
  | Ev_link_down
  | Ev_init_window window_answer
  | Ev_term_window LinkState
  | Ev_window_resized "int \<times> int"
  | Ev_gained_focus
  | Ev_lost_focus
  | Ev_button_saved ButtonEdit
  | Ev_button_command ButtonCommand
  | Ev_preset_command PresetCommand

fun guest_handle :: "(nat \<Rightarrow> bytes \<Rightarrow> bytes option) \<Rightarrow> guest_event \<Rightarrow> guest_step" where
  "guest_handle decompress (Ev_frame i) a = guest_frame i a"
| "guest_handle decompress (Ev_message sent now t payload) a = guest_on_message decompress sent now t payload a"
| "guest_handle decompress (Ev_link_up density) a = on_link_up density a"
| "guest_handle decompress Ev_link_down a = ([], on_link_down a)"
| "guest_handle decompress (Ev_init_window w) a = on_init_window w a"
| "guest_handle decompress (Ev_term_window link) a = on_term_window link a"
| "guest_handle decompress (Ev_window_resized wh) a = ([], on_window_resized wh a)"
| "guest_handle decompress Ev_gained_focus a = ([], on_gained_focus a)"
| "guest_handle decompress Ev_lost_focus a = on_lost_focus a"
| "guest_handle decompress (Ev_button_saved e) a = ([], nativeButtonSaved e a)"
| "guest_handle decompress (Ev_button_command c) a = ([], nativeButtonCommand c a)"
| "guest_handle decompress (Ev_preset_command c) a = ([], nativePresetCommand c a)"

text \<open>The steady clock does not go back from one frame to the next.\<close>

definition event_ok :: "guest_event \<Rightarrow> guest_app \<Rightarrow> bool" where
  "event_ok e a \<longleftrightarrow> (case e of Ev_frame i \<Rightarrow> 0 \<le> frame_dt i a | _ \<Rightarrow> True)"

inductive guest_reachable :: "(nat \<Rightarrow> bytes \<Rightarrow> bytes option) \<Rightarrow> guest_app \<Rightarrow> bool" for decompress where
  gr_new: "guest_reachable decompress (snd (guest_new dir sfile bfile))"
| gr_event: "guest_reachable decompress a \<Longrightarrow> event_ok e a \<Longrightarrow> guest_reachable decompress (snd (guest_handle decompress e a))"

inductive_simps guest_reachable_step: "guest_reachable decompress a"

lemma menu_ok_of_settings: "menu_ok m \<Longrightarrow> menu_ok (menu_of_settings s m)"
  using menu_step_ok [of "m\<lparr>mn_auto_launch := se_auto_launch s\<rparr>" "Menu_throttle (se_min_interval_ms s) (se_min_distance_dp s)"]
  by (simp add: menu_of_settings_def menu_ok_def)

lemma guest_inv_new: "guest_inv (snd (guest_new dir sfile bfile))"
proof -
  have m: "menu_ok (menu_of_settings s menu_init)" for s
    by (rule menu_ok_of_settings) (simp add: menu_ok_def menu_init_def)
  have b: "store_inv (store_load dir bfile store_init)" using store_invariant by blast
  have f: "fr_inv receiver_init" by (simp add: fr_inv_def receiver_init_def)
  show ?thesis
    by (simp add: guest_new_def with_settings_def Let_def apply_throttle_def guest_members_def guest_inv_def m b f
        set_min_distance_px_def set_min_interval_us_def set_stylus_only_def router_init_def offer_ok_def worth_asking_def preset_for_def)
      (simp add: strip_init_def set_slot_limit_def set_expanded_def set_orientation_def)
qed

lemma guest_inv_message: "guest_inv a \<Longrightarrow> guest_inv (snd (guest_on_message decompress sent now t payload a))"
  by (erule guest_inv_change)
    (cases t; simp add: guest_on_message_def on_hello_ack_def offer_view_def guest_rest_def fr_inv_on_message Let_def
      split: option.split)+

lemma guest_inv_dpi: "guest_inv a \<Longrightarrow> guest_inv (apply_dpi w a)"
proof -
  assume a: "guest_inv a"
  have "guest_inv (a\<lparr>ga_density := d, ga_router := set_density d (ga_router a)\<rparr>)" for d
    by (rule guest_inv_change [OF a]) (simp_all add: set_density_def offer_view_def guest_rest_def)
  then show ?thesis using a by (simp add: apply_dpi_def Let_def split: option.split)
qed

lemma guest_inv_named: "guest_inv a \<Longrightarrow> guest_inv (name_default_preset w a)"
  by (auto intro!: guest_rest_refresh simp: name_default_preset_def guest_inv_rest) (simp add: guest_rest_def)

lemma guest_inv_init_window: "guest_inv a \<Longrightarrow> guest_inv (snd (on_init_window w a))"
proof -
  assume a: "guest_inv a"
  have i: "guest_inv (init_renderers w (a\<lparr>ga_gl_ready := True, ga_gl_w := x, ga_gl_h := y\<rparr>))" for x y
    by (rule guest_inv_change [OF a]) (simp_all add: init_renderers_def offer_view_def guest_rest_def)
  have "guest_inv (a\<lparr>ga_gl_ready := False\<rparr>)"
    by (rule guest_inv_change [OF a]) (simp_all add: offer_view_def guest_rest_def)
  then show ?thesis using a i by (simp add: on_init_window_def Let_def guest_inv_dpi guest_inv_named split: attach_answer.split)
qed

lemma guest_inv_term_window: "guest_inv a \<Longrightarrow> guest_inv (snd (on_term_window link a))"
  using keepsD [OF keeps_stop_stream, of a link]
  by (simp add: on_term_window_def case_prod_beta) (erule guest_inv_change; simp add: offer_view_def guest_rest_def)

lemma guest_inv_resized: "guest_inv a \<Longrightarrow> guest_inv (on_window_resized wh a)"
proof -
  assume a: "guest_inv a"
  have "guest_inv (a\<lparr>ga_gl_w := x, ga_gl_h := y\<rparr>)" for x y
    by (rule guest_inv_change [OF a]) (simp_all add: offer_view_def guest_rest_def)
  then show ?thesis using a by (simp add: on_window_resized_def Let_def)
qed

lemma guest_inv_cancel_widget: "guest_inv a \<Longrightarrow> guest_inv (cancel_widget a)"
  by (erule guest_inv_change)
    (use menu_step_ok [of "ga_menu a" Menu_cancel] in
      \<open>simp_all add: cancel_widget_def offer_view_def guest_rest_def split: UiOwner.split\<close>)

lemma guest_inv_lost_focus: "guest_inv a \<Longrightarrow> guest_inv (snd (on_lost_focus a))"
proof -
  assume a: "guest_inv a"
  have "guest_inv (a\<lparr>ga_has_focus := False\<rparr>)" by (rule guest_inv_change [OF a]) (simp_all add: offer_view_def guest_rest_def)
  then show ?thesis
    by (auto intro!: guest_inv_cancel_widget guest_inv_router
        simp: on_lost_focus_def with_router_def cancel_ui_capture_def Let_def view_ok_of [OF a])
qed

lemma guest_inv_event:
  assumes "guest_inv a" "event_ok e a" shows "guest_inv (snd (guest_handle decompress e a))"
proof (cases e)
  case (Ev_frame i)
  then show ?thesis using assms by (simp add: event_ok_def guest_inv_frame)
next
  case (Ev_link_up density)
  then show ?thesis
    by simp (rule guest_inv_change [OF assms(1)]; simp add: on_link_up_def Let_def offer_view_def guest_rest_def)
next
  case Ev_link_down
  then show ?thesis
    by simp (rule guest_inv_change [OF assms(1)]; simp add: on_link_down_def offer_view_def guest_rest_def fr_inv_reset)
qed (use assms in \<open>simp_all add: guest_inv_message guest_inv_init_window guest_inv_term_window guest_inv_resized
      guest_inv_lost_focus\<close>,
     (erule guest_inv_change; simp add: on_gained_focus_def nativeButtonSaved_def nativeButtonCommand_def nativePresetCommand_def
       offer_view_def guest_rest_def)+)

lemma guest_reachable_inv: "guest_reachable decompress a \<Longrightarrow> guest_inv a"
  by (induction rule: guest_reachable.induct) (simp_all add: guest_inv_new guest_inv_event)

lemma find_match_spec:
  "find_match process ps i = -1 \<or>
   (\<exists>k < length ps. find_match process ps i = i + int k \<and> pr_match (ps ! k) \<noteq> [] \<and> iequals (pr_match (ps ! k)) process)"
proof (induction ps arbitrary: i)
  case (Cons p ps)
  show ?case
  proof (cases "pr_match p \<noteq> [] \<and> iequals (pr_match p) process")
    case False
    with Cons [of "i + 1"] show ?thesis by (auto intro: exI [of _ "Suc k" for k])
  qed (auto intro: exI [of _ 0])
qed simp

section \<open>Properties\<close>

text \<open>
  C9: a region is asked for once, when the view has come to rest. While every frame's request differs from the one before,
  nothing is sent. From the frame that first sees a view on, frames of that view send its request at the first one at least
  a quarter of a second later, again at the following ones while sending fails, and never after it went out.
\<close>

theorem request_waits_for_rest:
  assumes "ga_link_up a"
  shows "((\<forall>f \<in> set moving. vr_fps (want_at a (fst f)) \<noteq> 0) \<and>
      distinct_adj (ga_wanted_viewport a # map (want_at a \<circ> fst) moving) \<longrightarrow> fst (run_steps (map stream_frame moving) a) = []) \<and>
    (vr_fps (want_at a view) \<noteq> 0 \<and> want_at a view \<noteq> ga_wanted_viewport a \<and> want_at a view \<noteq> ga_sent_viewport a \<longrightarrow>
      fst (run_steps (stream_frame (view, t0, sent0) # map (\<lambda>(t, sent). stream_frame (view, t, sent)) steady) a) =
      (let due = filter (\<lambda>(t, sent). t0 + 250000 \<le> t) steady; failed = takeWhile (\<lambda>(t, sent). \<not> sent) due in
       replicate (if length failed < length due then length failed + 1 else length failed)
         (Send (encode_ViewportReq (want_at a view)))))" (is "?M \<and> ?S")
proof
  show ?M using moving_frames [OF assms] by blast
  show ?S
    using steady_frames [of "snd (stream_frame (view, t0, sent0) a)" view t0 steady] assms
    by (auto simp: stream_frame_eq Let_def case_prod_beta)
qed

definition ex_guest :: guest_app where
  "ex_guest = guest_members\<lparr>ga_gl_ready := True, ga_renderers_ready := True, ga_gl_w := 1024, ga_gl_h := 512,
     ga_screen := snd (sr_init True screen_renderer_new), ga_screen_enabled := True, ga_link_up := True\<rparr>"

lemma ex_guest_wants: "vr_fps (want_at ex_guest view_init) = 30"
  by (simp add: ex_guest_def guest_members_def want_at_def look_at_def stream_want_def sr_ready_def sr_init_def router_init_def
      desktop_default_def wanted_viewport_def Let_def to_pc_def view_init_def vec2_defs floor_to_def ceil_to_def kRegionSnap_def)

lemma ex_guest_new [simp]: "ga_link_up ex_guest" "vr_fps (ga_wanted_viewport ex_guest) = 0" "vr_fps (ga_sent_viewport ex_guest) = 0"
  by (simp_all add: ex_guest_def guest_members_def viewport_req_init_def)

theorem request_waits_for_rest_witness:
  "fst (run_steps [stream_frame (view_init, 0, True), stream_frame (view_init, 16000, True), stream_frame (view_init, 250000, False),
      stream_frame (view_init, 266000, True), stream_frame (view_init, 282000, True)] ex_guest) =
   [Send (encode_ViewportReq (want_at ex_guest view_init)), Send (encode_ViewportReq (want_at ex_guest view_init))]"
proof -
  have "want_at ex_guest view_init \<noteq> ga_wanted_viewport ex_guest" "want_at ex_guest view_init \<noteq> ga_sent_viewport ex_guest"
    using ex_guest_wants by auto
  then show ?thesis
    using request_waits_for_rest [OF ex_guest_new(1), of "[]" view_init 0 True
        "[(16000, True), (250000, False), (266000, True), (282000, True)]"] ex_guest_wants
    by (simp add: Let_def)
qed

text \<open>
  C23: a link that drops and comes back between two frames is never asked for the picture again. The frame loop sees only
  whether the link is up, so the request that went to the old session still counts as sent: at every later frame of the
  same view nothing goes out, however long it lasts, although the new session has not been asked for anything.
\<close>

theorem bounced_link_not_asked:
  assumes "ga_link_up a" and "ga_sent_viewport a = want_at a view" and "ga_wanted_viewport a = want_at a view"
    and "vr_fps (want_at a view) \<noteq> 0"
  shows "let (hello, b) = on_link_up density (on_link_down a) in
    hello = send_hello density a \<and> fst (run_steps (map (\<lambda>(t, sent). stream_frame (view, t, sent)) fs) b) = []"
proof -
  let ?b = "snd (on_link_up density (on_link_down a))"
  have "stream_want (look_at view ?b) = stream_want (look_at view a)"
    by (simp add: look_at_def stream_want_def on_link_up_def on_link_down_def Let_def)
  then have "want_at ?b view = want_at a view" by simp
  moreover have "ga_link_up ?b" "ga_sent_viewport ?b = ga_sent_viewport a" "ga_wanted_viewport ?b = ga_wanted_viewport a"
    by (simp_all add: on_link_up_def on_link_down_def Let_def)
  ultimately show ?thesis
    using steady_frames [of ?b view "ga_wanted_since ?b" fs] assms
    by (simp add: case_prod_beta) (simp add: on_link_up_def on_link_down_def send_hello_def Let_def)
qed

theorem bounced_link_not_asked_witness:
  "fst (run_steps [stream_frame (view_init, 900000, True)] (snd (on_link_up f32_one (on_link_down
     (ex_guest\<lparr>ga_sent_viewport := want_at ex_guest view_init\<rparr>\<lparr>ga_wanted_viewport := want_at ex_guest view_init, ga_wanted_since := 0\<rparr>))))) = []"
proof -
  let ?a = "ex_guest\<lparr>ga_sent_viewport := want_at ex_guest view_init\<rparr>\<lparr>ga_wanted_viewport := want_at ex_guest view_init, ga_wanted_since := 0\<rparr>"
  have w: "want_at ?a = want_at ex_guest" by (simp only: want_at_sel)
  have "ga_link_up ?a" "ga_sent_viewport ?a = want_at ?a view_init" "ga_wanted_viewport ?a = want_at ?a view_init"
    "vr_fps (want_at ?a view_init) \<noteq> 0" unfolding w using ex_guest_wants by simp_all
  from bounced_link_not_asked [OF this, of f32_one "[(900000, True)]"] show ?thesis by (simp add: case_prod_beta)
qed

text \<open>
  C22: losing the focus leaves nothing held. The stroke under way is cancelled with exactly one message, no press waits, no
  widget has the finger, and the widget that had it is let go: the strip has no press and the menu drags no slider.
\<close>

theorem focus_loss_lets_go:
  shows "let r = ga_router a; (outs, b) = on_lost_focus a; r' = ga_router b in
    \<not> tr_stroke_active r' \<and> \<not> tr_press_pending r' \<and> \<not> tr_ui_captured r' \<and> \<not> ga_has_focus b \<and>
    (tr_sink r \<longrightarrow> (\<exists>ms. outs = send_pointers ms \<and> map p_action ms = (if tr_stroke_active r then [Action_Cancel] else []))) \<and>
    (tr_ui_captured r \<longrightarrow> ga_ui_owner b = Owner_None \<and>
       (ga_ui_owner a = Owner_Strip \<longrightarrow> sp_press (ga_strip b) = Press_None \<and> fst (strip_release (bs_buttons (ga_buttons b)) (ga_strip b)) = []) \<and>
       (ga_ui_owner a = Owner_Menu \<longrightarrow> mn_dragging_slider (ga_menu b) = -1 \<and> menu_release p (ga_menu b) = ga_menu b)) \<and>
    (\<not> tr_ui_captured r \<longrightarrow> ga_strip b = ga_strip a \<and> ga_menu b = ga_menu a)"
proof -
  let ?c = "cancel_stroke (ga_router a)"
  have c: "\<not> tr_stroke_active (snd ?c)" "\<not> tr_press_pending (snd ?c)" "tr_ui_captured (snd ?c) = tr_ui_captured (ga_router a)"
    "tr_sink (ga_router a) \<longrightarrow> map p_action (fst ?c) = (if tr_stroke_active (ga_router a) then [Action_Cancel] else [])"
    by (simp_all add: cancel_stroke_def tr_emit_def Let_def)
  then show ?thesis
    by (cases "ga_ui_owner a")
      (auto simp: on_lost_focus_def with_router_def cancel_ui_capture_def cancel_widget_def strip_cancel_press_def
        strip_release_def menu_cancel_press_def menu_release_def Let_def)
qed

theorem focus_loss_lets_go_witness:
  "\<not> tr_stroke_active (ga_router (snd (on_lost_focus (ex_guest\<lparr>ga_router := (router_init view_init)\<lparr>tr_stroke_active := True\<rparr>\<rparr>))))"
  using focus_loss_lets_go [of "ex_guest\<lparr>ga_router := (router_init view_init)\<lparr>tr_stroke_active := True\<rparr>\<rparr>" "vec2 0 0"]
  by (simp add: case_prod_beta Let_def)

text \<open>
  C7: the guest's state stays sound. Whatever frames, touches, messages, window commands and dialog answers come, in any
  order: there is a current preset among at most 64 with at most 256 buttons each, the menu's settings are in range, the
  receiver's queue holds at most eight well-formed batches, the zoom stays within its limits and there is a screen to draw on.
\<close>

theorem guest_stays_sound:
  assumes "guest_reachable decompress a"
  shows "store_inv (ga_buttons a) \<and> menu_ok (ga_menu a) \<and> fr_inv (ga_frames a) \<and> view_ok (tr_view (ga_router a)) \<and>
    ga_monitors a \<noteq> []"
  using guest_reachable_inv [OF assms] by (simp add: guest_inv_def)

theorem guest_stays_sound_witness:
  "store_inv (ga_buttons (snd (guest_handle (\<lambda>n c. None) (Ev_frame \<lparr>in_now = 5, in_stream_now = 6, in_motion = [], in_link = Link_Connected,
     in_sent = True, in_alloc = \<lambda>w h. True\<rparr>) (snd (guest_new ''/f'' None None)))))"
proof -
  let ?a = "snd (guest_new ''/f'' None None)"
  let ?e = "Ev_frame \<lparr>in_now = 5, in_stream_now = 6, in_motion = [], in_link = Link_Connected, in_sent = True, in_alloc = \<lambda>w h. True\<rparr>"
  have "ga_last_frame ?a = None"
    by (simp add: guest_new_def with_settings_def Let_def apply_throttle_def guest_members_def case_prod_beta)
  then have "event_ok ?e ?a" by (simp add: event_ok_def frame_dt_def)
  then have "guest_reachable (\<lambda>n c. None) (snd (guest_handle (\<lambda>n c. None) ?e ?a))" by (intro gr_event gr_new)
  from guest_stays_sound [OF this] show ?thesis by (rule conjunct1)
qed

text \<open>
  C8: a preset is offered only for the program in focus. Whenever the strip shows an offer, it names a preset that is bound to
  the focused program, is not the current one, and was not declined for that program; accepting it makes exactly that preset
  current, and after accepting or declining nothing is offered until the program or the presets change.
\<close>

theorem offer_fits_program:
  assumes "guest_reachable decompress a" and "sp_suggested_name (ga_strip a) \<noteq> []"
  shows "let i = ga_offered_preset a; p = bs_presets (ga_buttons a) ! nat i in
    valid_preset (ga_buttons a) i \<and> iequals (pr_match p) (ga_focused_process a) \<and> i \<noteq> bs_current (ga_buttons a) \<and>
    ga_focused_process a \<noteq> ga_offer_declined_for a \<and> sp_suggested_name (ga_strip a) = preset_display_name a i \<and>
    bs_current (ga_buttons (snd (suggestion_accepted a))) = i \<and>
    sp_suggested_name (ga_strip (snd (suggestion_accepted a))) = [] \<and>
    sp_suggested_name (ga_strip (snd (suggestion_declined a))) = []"
proof -
  define i where "i = ga_offered_preset a"
  have o: "offer_ok a" using guest_reachable_inv [OF assms(1)] by (simp add: guest_inv_def)
  then have w: "worth_asking a" using assms(2) by (auto simp: offer_ok_def split: if_splits)
  with o assms(2) have i: "i = preset_for (ga_focused_process a) (ga_buttons a)"
    "sp_suggested_name (ga_strip a) = preset_display_name a i" by (simp_all add: offer_ok_def i_def)
  from w have d: "0 \<le> i" "i \<noteq> bs_current (ga_buttons a)" "ga_focused_process a \<noteq> ga_offer_declined_for a"
    by (simp_all add: worth_asking_def i Let_def)
  have f: "i = find_match (ga_focused_process a) (bs_presets (ga_buttons a)) 0" using d(1) by (simp add: i(1) preset_for_def split: if_splits)
  from find_match_spec [of "ga_focused_process a" "bs_presets (ga_buttons a)" 0] d(1)
  have v: "valid_preset (ga_buttons a) i" "iequals (pr_match (bs_presets (ga_buttons a) ! nat i)) (ga_focused_process a)"
    unfolding f [symmetric] by (auto simp: valid_preset_def)
  let ?b = "relayout_widgets (a\<lparr>ga_buttons := (ga_buttons a)\<lparr>bs_current := i\<rparr>\<rparr>)"
  have s: "snd (suggestion_accepted a) = refresh_preset_offer ?b"
    using v(1) d(2) by (simp add: suggestion_accepted_def store_select_def flip: i_def)
  have ns: "sp_suggested_name (ga_strip (refresh_preset_offer c)) = []" if "\<not> worth_asking c" for c
    using that by (simp add: refresh_preset_offer_def set_suggestion_def Let_def)
  have nw: "\<not> worth_asking ?b"
    using i(1) by (simp add: worth_asking_def preset_for_def Let_def relayout_widgets_def)
  have nd: "\<not> worth_asking (a\<lparr>ga_offer_declined_for := ga_focused_process a\<rparr>)" by (simp add: worth_asking_def)
  show ?thesis
    unfolding Let_def i_def [symmetric] s using v d i(2) ns [OF nw] ns [OF nd] by (simp add: suggestion_declined_def)
qed

text \<open>A guest whose widgets and dialogs report nothing.\<close>

definition quiet :: "guest_app \<Rightarrow> bool" where
  "quiet a \<longleftrightarrow>
     (let m = ga_menu a; s = ga_strip a in
      \<not> mn_mode_changed m \<and> \<not> mn_strip_changed m \<and> \<not> mn_strip_slots_changed m \<and> \<not> mn_about_requested m \<and>
      \<not> mn_rotate_requested m \<and> \<not> mn_stylus_changed m \<and> \<not> mn_screen_changed m \<and> \<not> mn_auto_launch_changed m \<and>
      \<not> mn_throttle_changed m \<and> \<not> sp_state_changed s \<and> \<not> sp_add_requested s \<and> \<not> sp_preset_menu_requested s \<and>
      \<not> sp_suggestion_accepted s \<and> \<not> sp_suggestion_declined s \<and> sp_long_press s < 0 \<and>
      ga_edits a = [] \<and> ga_commands a = [] \<and> ga_preset_commands a = [])"

lemma quiet_parts [simp]:
  "quiet (relayout_widgets a) = quiet a" "quiet (refresh_preset_offer a) = quiet a" "quiet (apply_throttle a) = quiet a"
  by (simp_all add: quiet_def relayout_widgets_def menu_set_strip_slots_def menu_layout_def strip_layout_def
      refresh_preset_offer_def set_suggestion_def set_preset_name_def apply_throttle_def Let_def)

lemma quiet_widget_steps:
  "f \<in> set (widget_steps @ saving_steps) \<Longrightarrow> keeps (\<lambda>a. quiet a \<and> sp_suggested_name (ga_strip a) = n) f"
  by (auto intro!: keepsI simp: widget_steps_def saving_steps_def)
    (auto simp: quiet_def on_menu_def on_strip_def Let_def case_prod_beta
      take_mode_change_def take_auto_launch_change_def take_strip_change_def take_screen_change_def
      take_stylus_change_def take_about_request_def take_rotate_request_def take_throttle_change_def
      take_strip_slots_change_def take_add_request_def take_state_change_def take_preset_menu_request_def
      take_suggestion_accepted_def take_suggestion_declined_def long_press_menu_def take_long_press_def
      apply_preset_events_def drain_preset_events_def apply_button_events_def drain_button_events_def)

lemma run_steps_append: "snd (run_steps (fs @ gs) a) = snd (run_steps gs (snd (run_steps fs a)))"
  by (induction fs arbitrary: a) (simp_all add: Let_def case_prod_beta)

lemma update_stream_sel [simp]:
  "ga_menu (snd (update_stream l s t a)) = ga_menu a" "ga_strip (snd (update_stream l s t a)) = ga_strip a"
  "ga_edits (snd (update_stream l s t a)) = ga_edits a" "ga_commands (snd (update_stream l s t a)) = ga_commands a"
  "ga_preset_commands (snd (update_stream l s t a)) = ga_preset_commands a"
  by (simp_all add: update_stream_def stop_if_streaming_def stop_stream_def Let_def)

lemma quiet_frame:
  assumes "wants_frames a" "in_motion i = []" and q: "quiet (snd (apply_pending (a\<lparr>ga_last_frame := Some (in_now i)\<rparr>)))"
  shows "sp_suggested_name (ga_strip (snd (guest_frame i a))) =
    sp_suggested_name (ga_strip (snd (apply_pending (a\<lparr>ga_last_frame := Some (in_now i)\<rparr>))))"
proof -
  let ?b = "snd (apply_pending (a\<lparr>ga_last_frame := Some (in_now i)\<rparr>))"
  let ?n = "sp_suggested_name (ga_strip ?b)"
  let ?fs = "widget_steps @ update_stream (in_link i) (in_sent i) (in_stream_now i) # saving_steps"
  have "keeps (\<lambda>a. quiet a \<and> sp_suggested_name (ga_strip a) = ?n) (update_stream l s t)" for l s t
    by (rule keepsI) (simp add: quiet_def)
  then have "\<forall>f \<in> set ?fs. keeps (\<lambda>a. quiet a \<and> sp_suggested_name (ga_strip a) = ?n) f"
    using quiet_widget_steps [of _ ?n] by auto
  from keepsD [OF keeps_run_steps [OF this], of ?b] q
  have "sp_suggested_name (ga_strip (snd (run_steps ?fs ?b))) = ?n" by blast
  moreover have "keeps (\<lambda>a. sp_suggested_name (ga_strip a) = ?n) f"
    if "f \<in> {advance_widgets (frame_dt i a), \<lambda>b. ([], render_state (in_alloc i) b)}" for f
    using that by (auto intro!: keepsI simp: advance_widgets_def render_state_def Let_def case_prod_beta)
  then have "keeps (\<lambda>a. sp_suggested_name (ga_strip a) = ?n)
      (run_steps [advance_widgets (frame_dt i a), \<lambda>b. ([], render_state (in_alloc i) b)])"
    by (intro keeps_run_steps) simp
  moreover have "snd (guest_frame i a) =
      snd (run_steps (?fs @ [advance_widgets (frame_dt i a), \<lambda>b. ([], render_state (in_alloc i) b)]) ?b)"
    using assms(1,2) by (simp add: guest_frame_def wants_frames_def drain_input_def case_prod_beta)
  ultimately show ?thesis unfolding run_steps_append keeps_def by simp
qed

definition ex_buttons_file :: string where
  "ex_buttons_file = ''P'' @ [LF] @ ''P'' @ [TAB] @ ''Krita'' @ [TAB] @ ''krita.exe'' @ [LF]"

definition ex_window :: window_answer where
  "ex_window = \<lparr>wa_attach = Attached 1024 512, wa_renderers = True, wa_screen = True, wa_default_name = ''Default'', wa_dpi = Some 160\<rparr>"

definition ex_frame :: frame_input where
  "ex_frame = \<lparr>in_now = 5, in_stream_now = 6, in_motion = [], in_link = Link_Connected, in_sent = True, in_alloc = \<lambda>w h. True\<rparr>"

definition ex_krita :: guest_app where
  "ex_krita =
     snd (guest_handle (\<lambda>n c. None) (Ev_message True 0 Msg_ActiveWindow (payload_ActiveWindow \<lparr>aw_pid = 7, aw_process = ''Krita.EXE''\<rparr>))
       (snd (guest_handle (\<lambda>n c. None) (Ev_init_window ex_window) (snd (guest_new ''/f'' None (Some ex_buttons_file))))))"

lemma ex_store: "store_load ''/f'' (Some ex_buttons_file) store_init =
    \<lparr>bs_path = ''/f/buttons.txt'', bs_presets = [empty_preset, empty_preset\<lparr>pr_name := ''Krita'', pr_match := ''krita.exe''\<rparr>], bs_current = 0\<rparr>"
  by code_simp

lemma ex_active: "decode_ActiveWindow (payload_ActiveWindow \<lparr>aw_pid = 7, aw_process = ''Krita.EXE''\<rparr>) =
    Some \<lparr>aw_pid = 7, aw_process = ''Krita.EXE''\<rparr>"
  by code_simp

lemma ex_krita_reachable: "guest_reachable (\<lambda>n c. None) ex_krita"
  unfolding ex_krita_def by (intro gr_event gr_new) (simp_all add: event_ok_def)

text \<open>What a new guest and a new window leave alone.\<close>

definition pending_view :: "guest_app \<Rightarrow> button_store \<times> string \<times> string \<times> bool \<times> int option \<times> bool" where
  "pending_view a = (ga_buttons a, ga_focused_process a, ga_offer_declined_for a, ga_stroke_cancel_pending a, ga_last_frame a, quiet a)"

lemma guest_new_pending: "pending_view (snd (guest_new dir sfile bfile)) = (store_load dir bfile store_init, [], [], False, None, True)"
  by (simp add: pending_view_def guest_new_def with_settings_def Let_def quiet_def apply_throttle_def guest_members_def
      menu_of_settings_def menu_set_throttle_def menu_init_def)
    (simp add: strip_init_def set_slot_limit_def set_expanded_def set_orientation_def)

lemma pending_view_parts [simp]:
  "pending_view (relayout_widgets a) = pending_view a" "pending_view (refresh_preset_offer a) = pending_view a"
  "pending_view (fit_view_to_desktop a) = pending_view a" "pending_view (apply_throttle a) = pending_view a"
  unfolding pending_view_def quiet_parts
  by (simp_all add: relayout_widgets_def refresh_preset_offer_def fit_view_to_desktop_def apply_throttle_def quiet_def Let_def)

lemma pending_view_window:
  "wa_attach w = Attached x y \<Longrightarrow> pending_view (snd (on_init_window w a)) = pending_view a"
proof -
  have n: "pending_view (a\<lparr>ga_default_preset_name := s\<rparr>) = pending_view a" for s and a :: guest_app
    by (simp add: pending_view_def quiet_def Let_def)
  have d: "pending_view (a\<lparr>ga_density := d, ga_router := r\<rparr>) = pending_view a" for d r and a :: guest_app
    by (simp add: pending_view_def quiet_def Let_def)
  have i: "pending_view (init_renderers w (a\<lparr>ga_gl_ready := True, ga_gl_w := x, ga_gl_h := y\<rparr>)) = pending_view a" for x y
    by (simp add: pending_view_def init_renderers_def quiet_def Let_def)
  show "wa_attach w = Attached x y \<Longrightarrow> ?thesis"
    by (simp add: on_init_window_def name_default_preset_def apply_dpi_def Let_def n d i split: option.split)
qed

lemma window_ready:
  assumes "wa_attach w = Attached x y" "wa_renderers w" shows "wants_frames (snd (on_init_window w a))"
proof -
  have "wants_frames (refresh_preset_offer a) = wants_frames a" "wants_frames (relayout_widgets a) = wants_frames a"
    "wants_frames (fit_view_to_desktop a) = wants_frames a" "wants_frames (apply_throttle a) = wants_frames a"
    "wants_frames (a\<lparr>ga_default_preset_name := s\<rparr>) = wants_frames a"
    "wants_frames (a\<lparr>ga_density := d, ga_router := r\<rparr>) = wants_frames a" for a s d r
    by (simp_all add: wants_frames_def refresh_preset_offer_def relayout_widgets_def fit_view_to_desktop_def apply_throttle_def Let_def)
  moreover have "wants_frames (init_renderers w (a\<lparr>ga_gl_ready := True, ga_gl_w := x, ga_gl_h := y\<rparr>))"
    using assms(2) by (simp add: wants_frames_def init_renderers_def)
  ultimately show ?thesis
    using assms(1) by (simp add: on_init_window_def name_default_preset_def apply_dpi_def Let_def split: option.split)
qed

lemma ex_krita_sel:
  "pending_view ex_krita = (store_load ''/f'' (Some ex_buttons_file) store_init, [], [], False, None, True)" "wants_frames ex_krita"
  "ga_active_window_dirty ex_krita" "ga_active_process ex_krita = ''Krita.EXE''"
proof -
  let ?a = "snd (on_init_window ex_window (snd (guest_new ''/f'' None (Some ex_buttons_file))))"
  have k: "ex_krita = ?a\<lparr>ga_active_process := ''Krita.EXE'', ga_active_window_dirty := True\<rparr>"
    by (simp add: ex_krita_def guest_on_message_def ex_active)
  have w: "wa_attach ex_window = Attached 1024 512" "wa_renderers ex_window" by (simp_all add: ex_window_def)
  have "pending_view ex_krita = pending_view ?a" by (simp add: k pending_view_def quiet_def Let_def)
  then show "pending_view ex_krita = (store_load ''/f'' (Some ex_buttons_file) store_init, [], [], False, None, True)"
    by (simp only: pending_view_window [OF w(1)] guest_new_pending)
  show "wants_frames ex_krita" using window_ready [OF w, of "snd (guest_new ''/f'' None (Some ex_buttons_file))"]
    by (simp add: k wants_frames_def)
  show "ga_active_window_dirty ex_krita" "ga_active_process ex_krita = ''Krita.EXE''" by (simp_all add: k)
qed

lemma ex_krita_offer: "sp_suggested_name (ga_strip (snd (guest_frame ex_frame ex_krita))) = ''Krita''"
proof -
  let ?b = "ex_krita\<lparr>ga_last_frame := Some 5\<rparr>\<lparr>ga_view_needs_fit := False, ga_stroke_cancel_pending := False, ga_active_window_dirty := False\<rparr>"
  define fit where "fit = (\<lambda>c. if ga_view_needs_fit ex_krita then fit_view_to_desktop c else c)"
  have f: "quiet (fit c) = quiet c" "sp_suggested_name (ga_strip (fit c)) = sp_suggested_name (ga_strip c)" for c
    using pending_view_parts(3) [of c] by (simp_all add: fit_def pending_view_def) (simp add: fit_view_to_desktop_def)
  have e: "snd (apply_pending (ex_krita\<lparr>ga_last_frame := Some 5\<rparr>)) = fit (apply_active_window ?b)"
    using ex_krita_sel by (simp add: apply_pending_def pending_view_def Let_def fit_def)
  have q: "quiet (apply_active_window ?b)"
    using ex_krita_sel(1) by (simp add: apply_active_window_def pending_view_def Let_def)
      (simp add: quiet_def set_active_window_def Let_def)
  have p: "preset_for ''Krita.EXE'' (store_load ''/f'' (Some ex_buttons_file) store_init) = 1" unfolding ex_store by code_simp
  let ?c = "?b\<lparr>ga_offer_declined_for := [], ga_focused_process := ''Krita.EXE'', ga_strip := set_active_window ''Krita.EXE'' (ga_strip ex_krita)\<rparr>"
  have a: "apply_active_window ?b = refresh_preset_offer ?c"
    using ex_krita_sel by (simp add: apply_active_window_def pending_view_def Let_def)
  have "sp_suggested_name (ga_strip (refresh_preset_offer ?c)) = ''Krita''"
    using ex_krita_sel(1) p
    by (simp add: refresh_preset_offer_def worth_asking_def preset_display_name_def pending_view_def set_suggestion_def
        valid_preset_def Let_def) (simp add: ex_store)
  then show ?thesis
    using quiet_frame [of ex_krita ex_frame] ex_krita_sel(2) q e a by (simp add: ex_frame_def f)
qed

theorem offer_fits_program_witness:
  "ga_focused_process (snd (guest_frame ex_frame ex_krita)) \<noteq> ga_offer_declined_for (snd (guest_frame ex_frame ex_krita)) \<and>
   sp_suggested_name (ga_strip (snd (suggestion_accepted (snd (guest_frame ex_frame ex_krita))))) = []"
proof -
  have "event_ok (Ev_frame ex_frame) ex_krita" using ex_krita_sel(1) by (simp add: event_ok_def frame_dt_def pending_view_def)
  then have "guest_reachable (\<lambda>n c. None) (snd (guest_frame ex_frame ex_krita))"
    using gr_event [OF ex_krita_reachable, of "Ev_frame ex_frame"] by simp
  from offer_fits_program [OF this] show ?thesis using ex_krita_offer by (simp add: Let_def)
qed

end
