(* ===== verification/Spec2Isabelle.thy ===== *)
theory Spec2Isabelle
  imports Framer Geometry Tiling TileScheduler SendQueue InputInjector SplineSmoother PointerPipeline ScreenStream TouchRouter
    ButtonStore HostApp GuestLink ViewportRequest SideMenu GuestApp
begin

text \<open>
  Verification of digitiz: an Android tablet (the guest) as a pen digitiser for a Windows desktop (the host). The guest sends
  touches, button presses and the part of the desktop it shows; the host injects the input and streams that part of the screen
  as ETC2 tiles. Both talk over one TCP connection that the host sets up with \<open>adb reverse\<close>.

  \<^bold>\<open>Parts and theories.\<close> Paths are under \<open>src/\<close>; definitions carry the names of the code, with a prefix where a name is taken.

  \<^item> \<open>Digitiz_Prelude\<close>: C++ integer division, \<open>std::clamp\<close>, word and list lemmas that the components share.
  \<^item> \<open>Wire\<close>, \<open>Messages\<close> (\<open>common/\<close> wire and messages): the byte writer and reader as state monads, the enumerations with
    their unnamed values, encoders and decoders of the messages. Round trips, and exactly which payload sizes decode.
  \<^item> \<open>Framer\<close> (\<open>common/\<close> framer): the incremental splitter. It refines a parser of the whole stream, however the bytes
    are cut; it returns every message of a clean stream, finds the next one after garbage, and bounds its buffer.
  \<^item> \<open>Geometry\<close>, \<open>Tiling\<close> (\<open>common/\<close> geometry and frame tiles): view transform, viewport geometry, tiles. The tiles
    partition the output, their sources cover the region, and damage marks every tile it touches.
  \<^item> \<open>SendQueue\<close>: the host's two-lane send queue. What goes out is a sequence of whole messages in lane order; an
    interactive message waits for the message in flight and the interactive ones before it, never for queued frame data.
  \<^item> \<open>TileScheduler\<close>, \<open>FrameSender\<close> (\<open>host/src/screen\<close>): dirty tiles, ages and the sweep; capturing, encoding and sending
    batches. A dirty tile is selected within a bounded number of turns; a tile is owed until it has been sent.
  \<^item> \<open>Etc2\<close>: the software codec. Each block gets the best of the encodings tried; an image encodes to the size promised and decodes.
  \<^item> \<open>FrameReceiver\<close>, \<open>ScreenRenderer\<close> (\<open>guest/\<close> screen and render): assembling batches, and the texture they are patched into.
    Malformed input is counted and dropped; what is queued is well-formed and is painted whole.
  \<^item> \<open>ScreenStream\<close>: sender, wire, framer and receiver composed: a batch arrives as it was sent.
  \<^item> \<open>InputInjector\<close>, \<open>SplineSmoother\<close>, \<open>PointerPipeline\<close> (\<open>host/src/input\<close>): absolute coordinates, key names, the injector
    over the operating system's \<open>SendInput\<close>, smoothing, and the pipeline that gates and injects pointer and key messages. At
    most one button is held, unless the system refused a call, and it is released when the session ends.
  \<^item> \<open>TouchRouter\<close> (\<open>guest/\<close> input): touches to pointer messages. Strokes are bracketed by press and release, a pinch never clicks.
  \<^item> \<open>TextFile\<close>, \<open>ButtonStore\<close>, \<open>Settings\<close>: the settings and button files with their parsers. Files read back what was saved.
  \<^item> \<open>ButtonStrip\<close>, \<open>SideMenu\<close> (\<open>guest/\<close> ui): geometry, input and state of the two widgets. A tap fires the button shown there;
    the menu's values stay in range.
  \<^item> \<open>AdbClient\<close>, \<open>AdbTransport\<close> (\<open>host/src/transport\<close>): parsing of adb's answers, listening, accepting, sessions and sending.
  \<^item> \<open>Telemetry\<close>, \<open>ForegroundWatcher\<close>: latency windows, the clock offset, and which program is reported as focused.
  \<^item> \<open>HostApp\<close> (\<open>host/src/app\<close>): the host as a step relation over its two threads, each handler cut where another thread may come
    between; a handler left alone is a run of its steps. Handshake, heartbeat, switch, viewport and session end.
  \<^item> \<open>GuestLink\<close> (\<open>guest/\<close> net): dialling with back-off, sessions, silence. \<open>ViewportRequest\<close>: the region the guest asks for.
  \<^item> \<open>GuestApp\<close> (\<open>guest/\<close> \<open>App.cpp\<close>): frames, window commands and network handlers as steps, with the reachable states.
  \<^item> This theory: what host and guest do together. After the handshake both agree on where the screens are, and the host streams
    what the guest asked for.

  \<^bold>\<open>Interfaces.\<close> \<open>message_codec\<close> states what an encoder and a decoder owe each other and is interpreted for every message type;
  \<open>input_injector\<close>, \<open>watched_injector\<close> and \<open>injector_invariant\<close> are the injector the pipeline relies on, interpreted on the
  Windows injector; \<open>outbound_queue\<close> is the queue the transport relies on, interpreted on \<open>SendQueue\<close>.

  \<^bold>\<open>Parameters and hypotheses.\<close> Code outside the repository is an argument: the operating system behind \<open>SendInput\<close> (it may refuse
  any call; only what is said about the desktop itself needs the documented behaviour, shown satisfiable by a simulated one), zstd (decompression inverts compression where
  delivery is claimed), the adb process, sockets and \<open>select\<close> (their answers are lists), the frame source with its capture and GPU
  encoder, the GL driver's allocations, clocks and the window system. Witnesses instantiate them.

  \<^bold>\<open>Conventions.\<close> Words have the width of the wire and of the counters; pixel coordinates are integers, with the bounds under which
  32 bits suffice as hypotheses. Doubles are real numbers, in the settings files rational ones. Threads interleave as
  steps: what a thread does under one lock, to one member or in one call is one step, and a handler that takes several locks or none is
  several, in \<open>AdbTransport\<close> and \<open>HostApp\<close>. In \<open>GuestApp\<close> a frame and a network handler are one step each, although the code takes its
  mutex in parts: there the statements are about handlers that do not overlap. Errors are \<open>None\<close> or the branch the code takes. There is no fuel: every function is total by
  a termination proof, and loops that wait are recursions over what the environment answers.

  \<^bold>\<open>Not modelled.\<close> The compute shader encoder, desktop duplication and GPU set-up (device APIs behind \<open>IFrameSource\<close>), all
  drawing and text, the JNI calls themselves, the host's windows and command line, the diagnostic probes, and the text of
  log lines. They keep no protocol state, and what the modelled parts see of them is an argument.
\<close>

section \<open>Host and guest together\<close>

text \<open>Coordinates of the host's screens fit 32 bits, edges included.\<close>

definition screens_ok :: "DisplayLayout \<Rightarrow> bool" where
  "screens_ok l \<longleftrightarrow>
     length (dl_monitors l) < 256 \<and>
     list_all (\<lambda>r. rect_i32 r \<and> is_i32 (rect_x r + rect_w r) \<and> is_i32 (rect_y r + rect_h r))
       (dl_virtual_bounds l # map mi_bounds (dl_monitors l))"

definition guest_after_ack :: "DisplayLayout \<Rightarrow> guest_app \<Rightarrow> guest_app" where
  "guest_after_ack l a =
     snd (guest_on_message (\<lambda>n c. None) True 0 Msg_HelloAck (drop kHeaderSize (encode_HelloAck (hello_ack_of l))) a)"

lemma hello_ack_decodes:
  "screens_ok l \<Longrightarrow> decode_HelloAck (drop kHeaderSize (encode_HelloAck (hello_ack_of l))) = Some (hello_ack_of l)"
  by (rule HelloAck_codec.dec_enc) (simp add: screens_ok_def wf_HelloAck_def hello_ack_of_def os_windows_named)

lemma guest_screens:
  assumes "screens_ok l"
  shows "ga_desktop (guest_after_ack l a) = dl_virtual_bounds l"
    "ga_monitors (guest_after_ack l a) = (if dl_monitors l = [] then [dl_virtual_bounds l] else map mi_bounds (dl_monitors l))"
proof -
  have "ack_screens (hello_ack_of l) = layout_screens l"
    using assms by (intro ack_screens_of) (simp_all add: screens_ok_def list_all_iff)
  then have s: "recti (sint (ha_vx (hello_ack_of l))) (sint (ha_vy (hello_ack_of l))) (sint (ha_vw (hello_ack_of l)))
      (sint (ha_vh (hello_ack_of l))) = dl_virtual_bounds l"
    and m: "map (\<lambda>m. (recti (sint (mon_x m)) (sint (mon_y m)) (sint (mon_w m)) (sint (mon_h m)), mon_dpi m, mon_primary m))
      (ha_monitors (hello_ack_of l)) = map (\<lambda>m. (mi_bounds m, mi_dpi m, mi_primary m)) (dl_monitors l)"
    by (simp_all add: ack_screens_def layout_screens_def)
  from arg_cong [OF m, of "map fst"]
  have f: "map (\<lambda>m. recti (sint (mon_x m)) (sint (mon_y m)) (sint (mon_w m)) (sint (mon_h m))) (ha_monitors (hello_ack_of l)) =
      map mi_bounds (dl_monitors l)" by (simp add: comp_def)
  show "ga_desktop (guest_after_ack l a) = dl_virtual_bounds l"
    "ga_monitors (guest_after_ack l a) = (if dl_monitors l = [] then [dl_virtual_bounds l] else map mi_bounds (dl_monitors l))"
    unfolding guest_after_ack_def
    by (simp_all add: guest_on_message_def hello_ack_decodes [OF assms] on_hello_ack_def Let_def s f)
qed

text \<open>
  C3: host and guest agree on where the screens are. After the acknowledgement of a layout has come over the wire, the guest
  takes a point of the desktop for one on a screen exactly if the host does, and every absolute pointer message it makes of a
  touch that it lets through arrives at coordinates the host accepts.
\<close>

theorem screens_agree:
  assumes "screens_ok l"
  shows "let b = guest_after_ack l a; r = (ga_router b)\<lparr>tr_on_screen := Some (pc_point_on_screen b)\<rparr> in
    (\<forall>pc. pc_point_on_screen b pc = on_a_screen l (lround (v_x pc)) (lround (v_y pc))) \<and>
    (\<forall>p m. lands_on_screen r p \<and> m \<in> set (tr_emit action p t r) \<longrightarrow> on_a_screen l (sint (p_x m)) (sint (p_y m)))"
proof -
  define b where "b = guest_after_ack l a"
  have agree: "pc_point_on_screen b pc = on_a_screen l (lround (v_x pc)) (lround (v_y pc))" for pc
    using guest_screens(2) [OF assms, of a] by (simp add: pc_point_on_screen_def on_a_screen_def b_def list_ex_iff)
  have range: "is_i32 x \<and> is_i32 y" if "on_a_screen l x y" for x y
    using that assms
    by (auto simp: on_a_screen_def screens_ok_def contains_def rect_i32_def is_i32_def list_all_iff list_ex_iff split: if_splits)
  have "on_a_screen l (sint (p_x m)) (sint (p_y m))"
    if "lands_on_screen ((ga_router b)\<lparr>tr_on_screen := Some (pc_point_on_screen b)\<rparr>) p"
      "m \<in> set (tr_emit action p t ((ga_router b)\<lparr>tr_on_screen := Some (pc_point_on_screen b)\<rparr>))" for p m
  proof -
    let ?pc = "to_pc (tr_view (ga_router b)) p"
    have o: "on_a_screen l (lround (v_x ?pc)) (lround (v_y ?pc))" using that(1) agree by (simp add: lands_on_screen_def)
    moreover have "p_x m = word_of_int (lround (v_x ?pc))" "p_y m = word_of_int (lround (v_y ?pc))"
      using that(2) by (auto simp: tr_emit_def Let_def split: if_splits)
    ultimately show ?thesis using range [OF o] by (simp flip: to_i32_def)
  qed
  with agree show ?thesis unfolding Let_def b_def [symmetric] by blast
qed

theorem screens_agree_witness:
  "pc_point_on_screen (guest_after_ack ex_layout ex_guest) (vec2 (- 5) 20)"
proof -
  have "screens_ok ex_layout" by code_simp
  moreover have "lround (- 5) = - 5" "lround 20 = 20" using lround_of_int [of "- 5"] lround_of_int [of 20] by simp_all
  moreover have "on_a_screen ex_layout (- 5) 20" by code_simp
  ultimately show ?thesis
    using screens_agree [of ex_layout ex_guest Action_Down 0] by (simp add: Let_def)
qed

text \<open>What the host's sender is after a VIEWPORT_REQ has come over the wire and the next tick has applied it.\<close>

definition sender_after :: "bytes \<Rightarrow> ('i, 'w) host_app \<Rightarrow> frame_sender" where
  "sender_after bytes h =
     fst (app_frames (apply_viewport (snd (on_viewport_req (drop kHeaderSize bytes) h))))"

lemma sender_after_request:
  "wf_ViewportReq r \<Longrightarrow> sender_after (encode_ViewportReq r) h = set_viewport r (fst (app_frames h))"
  by (simp add: sender_after_def on_viewport_req_def ViewportReq_codec.dec_enc apply_viewport_def)

lemma requests_encodable: "wf_ViewportReq viewport_req_init" "wf_ViewportReq (wanted_viewport gw gh view d)"
proof -
  have f: "enum_FrameFormat Format_Off" "enum_FrameFormat Format_Etc2Rgb8" by code_simp+
  then show "wf_ViewportReq viewport_req_init" "wf_ViewportReq (wanted_viewport gw gh view d)"
    by (simp_all add: wf_ViewportReq_def viewport_req_init_def wanted_viewport_def Let_def)
qed

text \<open>What a frame sends about the stream: the request it then takes for sent.\<close>

lemma update_stream_sends:
  assumes "update_stream link True now a = ([Send bytes], b)"
  shows "bytes = encode_ViewportReq (ga_sent_viewport b) \<and>
    (ga_sent_viewport b = viewport_req_init \<or>
     ga_sent_viewport b = wanted_viewport (ga_gl_w a) (ga_gl_h a) (tr_view (ga_router a)) (ga_desktop a) \<and> vr_fps (ga_sent_viewport b) \<noteq> 0)"
proof -
  have stop: "bytes = encode_ViewportReq viewport_req_init \<and> ga_sent_viewport b = viewport_req_init"
    if "stop_if_streaming link a = ([Send bytes], b)"
    using that by (auto simp: stop_if_streaming_def stop_stream_def split: if_splits)
  have want: "stream_want a = wanted_viewport (ga_gl_w a) (ga_gl_h a) (tr_view (ga_router a)) (ga_desktop a)"
    if "vr_fps (stream_want a) \<noteq> 0"
    using that by (auto simp: stream_want_def viewport_req_init_def split: if_splits)
  show ?thesis
  proof (cases "\<not> ga_link_up a \<or> vr_fps (stream_want a) = 0")
    case True
    then have "update_stream link True now a = stop_if_streaming link a" by (auto simp: update_stream_def Let_def)
    with assms stop show ?thesis by simp
  next
    case False
    with assms want have "bytes = encode_ViewportReq (stream_want a)" "ga_sent_viewport b = stream_want a"
      by (auto simp: update_stream_def Let_def split: if_splits)
    with False want show ?thesis by auto
  qed
qed

text \<open>
  C2: the host streams what the guest asked for. Whenever a frame of the guest sends a stream message, and it has come over
  the wire, the host's sender streams exactly if the guest takes a request for standing, and then it streams a region of the
  guest's desktop that holds every pixel on the guest's surface, in at most 1024 tiles.
\<close>

theorem asked_region_streams:
  assumes "desktop_ok (ga_desktop a)" and "0 < ga_gl_w a" and "0 < ga_gl_h a"
    and "update_stream link True now a = ([Send bytes], b)"
  shows "let s = sender_after bytes h; g = sd_geometry s in
    sd_streaming s = (vr_fps (ga_sent_viewport b) \<noteq> 0) \<and>
    (sd_streaming s \<longrightarrow> vg_valid g \<and> tile_count g \<le> 1024 \<and>
       (\<forall>x y. contains (ga_desktop a) x y \<and> pixel_shown (ga_gl_w a) (ga_gl_h a) (tr_view (ga_router a)) x y \<longrightarrow>
          contains (vg_region g) x y))"
proof -
  let ?w = "wanted_viewport (ga_gl_w a) (ga_gl_h a) (tr_view (ga_router a)) (ga_desktop a)"
  from update_stream_sends [OF assms(4)] consider (off) "ga_sent_viewport b = viewport_req_init" "bytes = encode_ViewportReq viewport_req_init"
    | (on) "ga_sent_viewport b = ?w" "bytes = encode_ViewportReq ?w" "vr_fps ?w \<noteq> 0" by auto
  then show ?thesis
  proof cases
    case off
    then show ?thesis
      by (simp add: Let_def sender_after_request requests_encodable set_viewport_def) (simp add: viewport_req_init_def)
  next
    case on
    have s: "sender_after bytes h = set_viewport ?w (fst (app_frames h))"
      unfolding on(2) by (rule sender_after_request) (rule requests_encodable)
    show ?thesis
      using request_streams [OF assms(1-3) on(3), of "fst (app_frames h)"] request_covers_view [OF assms(1-3), of "tr_view (ga_router a)"]
        on(3) unfolding Let_def s on(1) by auto
  qed
qed

theorem asked_region_streams_witness:
  "sd_streaming (sender_after (encode_ViewportReq (want_at ex_guest view_init)) ex_app)"
proof -
  let ?w = "want_at ex_guest view_init"
  let ?a = "(look_at view_init ex_guest)\<lparr>ga_wanted_viewport := ?w, ga_wanted_since := 0\<rparr>"
  have w: "stream_want ?a = ?w" by (simp add: want_at_def stream_want_def look_at_def)
  have "?w \<noteq> ga_sent_viewport ?a" using ex_guest_wants ex_guest_new(3) by auto
  then have u: "update_stream Link_Connected True 250000 ?a = ([Send (encode_ViewportReq ?w)], ?a\<lparr>ga_sent_viewport := ?w\<rparr>)"
    unfolding update_stream_def w using ex_guest_wants by (simp add: Let_def same_request_eq seconds_def kSettleSeconds_def)
  have d: "desktop_ok (ga_desktop ?a)" "0 < ga_gl_w ?a" "0 < ga_gl_h ?a"
    by (simp_all add: look_at_def ex_guest_def guest_members_def desktop_default_def desktop_ok_def is_i32_def)
  from asked_region_streams [OF d u, of ex_app] show ?thesis using ex_guest_wants by (simp add: Let_def)
qed

end
